(* ===== verification/Prelude.thy ===== *)
theory Prelude
  imports Main "HOL-Library.Word"
begin

unbundle bit_operations_syntax

text \<open>
  Shared ground of the development: the integer widths of the C++ sources, the
  lemma collections the component theories fill, and the facts on lists that more
  than one component needs.

  Conventions.  A \<open>uint64_t\<close>, \<open>uint32_t\<close>, \<open>uint16_t\<close> or \<open>uint8_t\<close> whose wrap-around can be
  observed is a word of that width.  An \<open>int\<close> that only identifies or counts (register
  numbers, block numbers, use counts) is a HOL \<^typ>\<open>int\<close>; nothing in the modelled code
  brings one of them near its 32-bit limit.  A \<open>size_t\<close> index is a \<^typ>\<open>nat\<close>.
  A \<open>std::string\<close> is a \<^typ>\<open>string\<close>.
\<close>

section \<open>Machine integers\<close>

type_synonym u8 = "8 word"
type_synonym u16 = "16 word"
type_synonym u32 = "32 word"
type_synonym u64 = "64 word"
type_synonym va_t = "64 word"

section \<open>Lemma collections\<close>

named_theorems pass_defs \<open>definitions of the optimiser passes\<close>
named_theorems bounded_defs \<open>definitions of the bounded buffers\<close>
named_theorems effect_simps \<open>simplification of effectful instructions\<close>

section \<open>Lists\<close>

text \<open>\<open>std::vector::erase_if\<close> keeps the elements that fail the predicate, in order.\<close>

definition erase_if :: "('a \<Rightarrow> bool) \<Rightarrow> 'a list \<Rightarrow> 'a list" where
  "erase_if P xs = filter (\<lambda>x. \<not> P x) xs"

lemma set_erase_if [simp]: "set (erase_if P xs) = {x \<in> set xs. \<not> P x}"
  by (simp add: erase_if_def)

lemma erase_if_Nil [simp]: "erase_if P [] = []"
  by (simp add: erase_if_def)

lemma erase_if_Cons:
  "erase_if P (x # xs) = (if P x then erase_if P xs else x # erase_if P xs)"
  by (simp add: erase_if_def)

lemma erase_if_append [simp]: "erase_if P (xs @ ys) = erase_if P xs @ erase_if P ys"
  by (simp add: erase_if_def)

lemma length_erase_if_le: "length (erase_if P xs) \<le> length xs"
  by (simp add: erase_if_def)

lemma erase_if_none: "(\<And>x. x \<in> set xs \<Longrightarrow> \<not> P x) \<Longrightarrow> erase_if P xs = xs"
  by (simp add: erase_if_def)

text \<open>Dropping from the front until at most \<open>n\<close> elements are left.\<close>

definition last_n :: "nat \<Rightarrow> 'a list \<Rightarrow> 'a list" where
  "last_n n xs = drop (length xs - n) xs"

lemma length_last_n [simp]: "length (last_n n xs) = min n (length xs)"
  by (simp add: last_n_def)

lemma last_n_short: "length xs \<le> n \<Longrightarrow> last_n n xs = xs"
  by (simp add: last_n_def)

lemma last_n_snoc:
  "last_n (Suc n) (xs @ [x]) = last_n n xs @ [x]"
  by (simp add: last_n_def)

lemma last_n_tl: "length xs = n \<Longrightarrow> last_n n (xs @ [x]) = tl (xs @ [x])"
  by (cases xs) (auto simp: last_n_def)

lemma last_n_last_n: "last_n n (last_n n xs @ ys) = last_n n (xs @ ys)"
proof (cases "length xs \<le> n")
  case True
  then show ?thesis by (simp add: last_n_def)
next
  case False
  then have "length xs + length ys - n = (length xs - n) + length ys" by simp
  with False show ?thesis
    by (simp add: last_n_def drop_drop add.commute)
qed

lemma suffix_last_n: "\<exists>ys. xs = ys @ last_n n xs"
  by (metis append_take_drop_id last_n_def)

text \<open>Indexed access that says when it is out of range.\<close>

definition nth_opt :: "'a list \<Rightarrow> nat \<Rightarrow> 'a option" where
  "nth_opt xs i = (if i < length xs then Some (xs ! i) else None)"

lemma nth_opt_Some [simp]: "nth_opt xs i = Some x \<longleftrightarrow> i < length xs \<and> xs ! i = x"
  by (simp add: nth_opt_def)

lemma nth_opt_None [simp]: "nth_opt xs i = None \<longleftrightarrow> length xs \<le> i"
  by (simp add: nth_opt_def not_less)

lemma nth_opt_in_set: "nth_opt xs i = Some x \<Longrightarrow> x \<in> set xs"
  by auto

text \<open>Sorted lists of distinct numbers are determined by their elements.\<close>

lemma map_cong_set: "(\<And>x. x \<in> set xs \<Longrightarrow> f x = g x) \<Longrightarrow> map f xs = map g xs"
  by simp

text \<open>
  The optimiser's loop shape \<open>for (pass = 0; pass < n; ++pass) { changed = step(); if
  (!changed) break; }\<close>: at most \<open>n\<close> rounds, stopping after the first that changed nothing.
\<close>

fun repeat_while_changed :: "nat \<Rightarrow> ('s \<Rightarrow> 's \<times> bool) \<Rightarrow> 's \<Rightarrow> 's" where
  "repeat_while_changed 0 step s = s"
| "repeat_while_changed (Suc n) step s =
     (case step s of (s', changed) \<Rightarrow> if changed then repeat_while_changed n step s' else s')"

lemma repeat_while_changed_rel:
  assumes step: "\<And>s. R s (fst (step s))" and refl: "\<And>s. R s s"
    and trans: "\<And>a b c. R a b \<Longrightarrow> R b c \<Longrightarrow> R a c"
  shows "R s (repeat_while_changed n step s)"
proof (induction n arbitrary: s)
  case 0
  show ?case by (simp add: refl)
next
  case (Suc n)
  obtain s' ch where st: "step s = (s', ch)" by (cases "step s")
  with step [of s] have "R s s'" by simp
  with st Suc [of s'] show ?case by (auto intro: trans)
qed

lemma fold_invariant_rule:
  "I s \<Longrightarrow> (\<And>x s. x \<in> set xs \<Longrightarrow> I s \<Longrightarrow> I (f x s)) \<Longrightarrow> I (fold f xs s)"
  by (induction xs arbitrary: s) auto

section \<open>Bytes\<close>

text \<open>A \<open>memcpy\<close> of \<open>n\<close> bytes out of a buffer; \<open>None\<close> is a read past its end.\<close>

definition read_bytes :: "u8 list \<Rightarrow> nat \<Rightarrow> nat \<Rightarrow> u8 list option" where
  "read_bytes xs off n = (if off + n \<le> length xs then Some (take n (drop off xs)) else None)"

lemma read_bytes_Some: "off + n \<le> length xs \<Longrightarrow> read_bytes xs off n = Some (take n (drop off xs))"
  by (simp add: read_bytes_def)

lemma read_bytes_None [simp]: "read_bytes xs off n = None \<longleftrightarrow> length xs < off + n"
  by (auto simp: read_bytes_def)

text \<open>Integers are stored with the least significant byte first.\<close>

fun le_value :: "u8 list \<Rightarrow> nat" where
  "le_value [] = 0"
| "le_value (b # bs) = unat b + 256 * le_value bs"

lemma le_value_bound: "le_value bs < 256 ^ length bs"
proof (induction bs)
  case (Cons b bs)
  have "unat b < 256" using unsigned_less [of b, where 'a = nat] by simp
  with Cons have "unat b + 256 * le_value bs < 256 + 256 * (256 ^ length bs - 1)"
    by (intro add_less_le_mono mult_le_mono2) auto
  also have "\<dots> = 256 ^ length (b # bs)" by (simp add: algebra_simps)
  finally show ?case by simp
qed simp

definition read_le :: "u8 list \<Rightarrow> nat \<Rightarrow> nat \<Rightarrow> nat option" where
  "read_le xs off n = map_option le_value (read_bytes xs off n)"

lemma read_le_None [simp]: "read_le xs off n = None \<longleftrightarrow> length xs < off + n"
  by (simp add: read_le_def)

lemma read_bytes_length: "read_bytes xs off n = Some d \<Longrightarrow> length d = n"
  by (auto simp: read_bytes_def split: if_splits)

lemma read_le_bound:
  assumes "read_le xs off n = Some v" shows "v < 256 ^ n"
proof -
  obtain d where "read_bytes xs off n = Some d" "v = le_value d" using assms by (auto simp: read_le_def)
  with le_value_bound [of d] read_bytes_length show ?thesis by fastforce
qed

end
