(* ===== verification/Fmt.thy ===== *)
theory Fmt
  imports Prelude
begin

text \<open>
  The text conversions the sources use: \<open>{}\<close> of an integer, \<open>{:X}\<close> and \<open>{:04X}\<close>-style padded
  hexadecimal, searching and joining strings.
\<close>

section \<open>Numbers\<close>

definition hex_digit :: "nat \<Rightarrow> char" where
  "hex_digit d = ''0123456789ABCDEF'' ! d"

fun hex_digits :: "nat \<Rightarrow> nat \<Rightarrow> string" where
  "hex_digits 0 n = []"
| "hex_digits (Suc k) n = (if n < 16 then [hex_digit n] else hex_digits k (n div 16) @ [hex_digit (n mod 16)])"

text \<open>\<open>{:X}\<close> of a 64-bit value: at most sixteen digits.\<close>

definition hex_upper :: "u64 \<Rightarrow> string" where
  "hex_upper a = hex_digits 16 (unat a)"

text \<open>\<open>{:0wX}\<close>: zeros in front up to the width.\<close>

definition hex_padded :: "nat \<Rightarrow> u64 \<Rightarrow> string" where
  "hex_padded w a = (let s = hex_upper a in replicate (w - length s) (CHR ''0'') @ s)"

definition dec_digit :: "nat \<Rightarrow> char" where
  "dec_digit d = ''0123456789'' ! d"

fun dec_str :: "nat \<Rightarrow> string" where
  "dec_str n = (if n < 10 then [dec_digit n] else dec_str (n div 10) @ [dec_digit (n mod 10)])"

declare dec_str.simps [simp del]

definition int_str :: "int \<Rightarrow> string" where
  "int_str i = (if i < 0 then CHR ''-'' # dec_str (nat (- i)) else dec_str (nat i))"

section \<open>Strings\<close>

text \<open>\<open>s.find(p) != npos\<close>.\<close>

fun contains :: "string \<Rightarrow> string \<Rightarrow> bool" where
  "contains p [] \<longleftrightarrow> p = []"
| "contains p (c # cs) \<longleftrightarrow> take (length p) (c # cs) = p \<or> contains p cs"

text \<open>Strings joined by a separator, as the loops with \<open>if (i > 0) out += sep\<close> build them.\<close>

fun join :: "string \<Rightarrow> string list \<Rightarrow> string" where
  "join sep [] = []"
| "join sep [s] = s"
| "join sep (s # t # ss) = s @ sep @ join sep (t # ss)"

section \<open>Hexadecimal numbers are distinct\<close>

lemma hex_digit_inj: "a < 16 \<Longrightarrow> b < 16 \<Longrightarrow> hex_digit a = hex_digit b \<longleftrightarrow> a = b"
proof -
  have "\<forall>a \<in> set [0..<16]. \<forall>b \<in> set [0..<16]. hex_digit a = hex_digit b \<longleftrightarrow> a = b" by code_simp
  then show "a < 16 \<Longrightarrow> b < 16 \<Longrightarrow> hex_digit a = hex_digit b \<longleftrightarrow> a = b" by simp
qed

lemma hex_digits_not_empty: "hex_digits (Suc k) n \<noteq> []"
  by simp

lemma hex_digits_inj:
  "n < 16 ^ Suc k \<Longrightarrow> m < 16 ^ Suc k \<Longrightarrow> hex_digits (Suc k) n = hex_digits (Suc k) m \<Longrightarrow> n = m"
proof (induction k arbitrary: n m)
  case 0
  then show ?case by (auto simp: hex_digit_inj)
next
  case (Suc k)
  note eqn = Suc.prems(3)
  consider "n < 16" "m < 16" | "n < 16" "16 \<le> m" | "16 \<le> n" "m < 16" | "16 \<le> n" "16 \<le> m" by linarith
  then show ?case
  proof cases
    case 1
    with eqn show ?thesis by (simp add: hex_digit_inj)
  next
    case 2
    with eqn hex_digits_not_empty [of k "m div 16"] show ?thesis
      by (simp only: hex_digits.simps(2) [of "Suc k"] if_True if_False not_less [symmetric]) auto
  next
    case 3
    with eqn hex_digits_not_empty [of k "n div 16"] show ?thesis
      by (simp only: hex_digits.simps(2) [of "Suc k"] if_True if_False not_less [symmetric]) auto
  next
    case 4
    have "hex_digits (Suc k) (n div 16) @ [hex_digit (n mod 16)] = hex_digits (Suc k) (m div 16) @ [hex_digit (m mod 16)]"
      using eqn 4 by (simp only: hex_digits.simps(2) [of "Suc k"] if_False not_less [symmetric])
    then have d: "hex_digits (Suc k) (n div 16) = hex_digits (Suc k) (m div 16)" "hex_digit (n mod 16) = hex_digit (m mod 16)"
      by (simp_all only: append1_eq_conv)
    have "n div 16 < 16 ^ Suc k" "m div 16 < 16 ^ Suc k"
      using Suc.prems(1,2) by (simp_all add: less_mult_imp_div_less)
    then have "n div 16 = m div 16" using Suc.IH d(1) by blast
    moreover have "n mod 16 = m mod 16" using d(2) hex_digit_inj [of "n mod 16" "m mod 16"] by simp
    ultimately show ?thesis by (metis div_mult_mod_eq)
  qed
qed

lemma hex_upper_inj [simp]: "hex_upper a = hex_upper b \<longleftrightarrow> a = b"
proof
  assume eqn: "hex_upper a = hex_upper b"
  have lt: "unat x < 16 ^ Suc 15" for x :: u64
    using unsigned_less [of x, where 'a = nat] by simp
  have "hex_digits (Suc 15) (unat a) = hex_digits (Suc 15) (unat b)"
    using eqn by (simp add: hex_upper_def numeral_eq_Suc)
  then have "unat a = unat b" using hex_digits_inj [OF lt lt] by blast
  then show "a = b" by (rule unsigned_word_eqI)
qed simp

end
