(* ===== verification/Image.thy ===== *)
theory Image
  imports Fmt
begin

text \<open>
  A loaded image (\<open>src/src/hyperion/core/types.h\<close>, \<open>src/src/hyperion/core/loader/pe_loader.h\<close>) and the
  analyser's index from addresses to segments (\<open>Analyzer::build_segment_index\<close>, \<open>span_for\<close>,
  \<open>va_to_ptr\<close>, \<open>is_code_addr\<close>).  A pointer into a segment's bytes is the suffix of the bytes it points
  at, so that its length is the \<open>max_len\<close> of the code.  \<open>std::sort\<close> is modelled by the stable sort; the
  order of spans with equal addresses, which the library leaves open, matters only for images that
  \<open>image_ok\<close> excludes.
\<close>

section \<open>Images\<close>

datatype arch = X86 | X64 | ARM | ARM64 | MIPS | PPC

record segment =
  sg_name :: string
  sg_va :: va_t
  sg_size :: u64
  sg_file_off :: u64
  sg_file_sz :: u64
  sg_flags :: u32
  sg_data :: "u8 list"

definition sg_executable :: "segment \<Rightarrow> bool" where
  "sg_executable s \<longleftrightarrow> sg_flags s AND 0x20000000 \<noteq> 0"

definition sg_writable :: "segment \<Rightarrow> bool" where
  "sg_writable s \<longleftrightarrow> sg_flags s AND 0x80000000 \<noteq> 0"

definition sg_readable :: "segment \<Rightarrow> bool" where
  "sg_readable s \<longleftrightarrow> sg_flags s AND 0x40000000 \<noteq> 0"

definition sg_contains :: "segment \<Rightarrow> va_t \<Rightarrow> bool" where
  "sg_contains s a \<longleftrightarrow> sg_va s \<le> a \<and> a < sg_va s + sg_size s"

record import_entry =
  im_dll :: string
  im_name :: string
  im_ordinal :: u16
  im_iat_addr :: va_t

record export_entry =
  ex_name :: string
  ex_ordinal :: u16
  ex_addr :: va_t
  ex_forwarded :: bool
  ex_forwarder :: string

record symbol_entry =
  sy_name :: string
  sy_addr :: va_t

record runtime_func =
  rf_start :: va_t
  rf_end :: va_t

record pe_image =
  img_arch :: arch
  img_base :: va_t
  img_entry :: va_t
  img_segments :: "segment list"
  img_imports :: "import_entry list"
  img_exports :: "export_entry list"
  img_runtime_funcs :: "runtime_func list"
  img_symbols :: "symbol_entry list"
  img_encrypted :: bool
  img_raw :: "u8 list"

section \<open>From addresses to segments\<close>

record segment_span =
  sp_va :: va_t
  sp_end :: va_t
  sp_seg :: segment
  sp_executable :: bool

definition span_of_segment :: "segment \<Rightarrow> segment_span" where
  "span_of_segment s = \<lparr>sp_va = sg_va s, sp_end = sg_va s + sg_size s, sp_seg = s, sp_executable = sg_executable s\<rparr>"

definition build_segment_index :: "pe_image \<Rightarrow> segment_span list" where
  "build_segment_index img = sort_key sp_va (map span_of_segment (filter (\<lambda>s. sg_size s \<noteq> 0) (img_segments img)))"

text \<open>\<open>upper_bound\<close> splits the sorted index after the last span that starts at or below the address.\<close>

definition span_for :: "segment_span list \<Rightarrow> va_t \<Rightarrow> segment_span option" where
  "span_for idx a =
     (case rev (takeWhile (\<lambda>sp. sp_va sp \<le> a) idx) of [] \<Rightarrow> None
      | sp # _ \<Rightarrow> if a < sp_end sp then Some sp else None)"

definition va_to_ptr :: "segment_span list \<Rightarrow> va_t \<Rightarrow> u8 list option" where
  "va_to_ptr idx a =
     (case span_for idx a of None \<Rightarrow> None
      | Some sp \<Rightarrow> let off = unat (a - sp_va sp) in
          if length (sg_data (sp_seg sp)) \<le> off then None else Some (drop off (sg_data (sp_seg sp))))"

definition is_code_addr :: "segment_span list \<Rightarrow> va_t \<Rightarrow> bool" where
  "is_code_addr idx a = (case span_for idx a of Some sp \<Rightarrow> sp_executable sp | None \<Rightarrow> False)"

definition in_section :: "segment_span list \<Rightarrow> va_t \<Rightarrow> string \<Rightarrow> bool" where
  "in_section idx a nm = (case span_for idx a of Some sp \<Rightarrow> sg_name (sp_seg sp) = nm | None \<Rightarrow> False)"

definition section_for :: "segment_span list \<Rightarrow> va_t \<Rightarrow> segment option" where
  "section_for idx a = map_option sp_seg (span_for idx a)"

definition is_iat_addr :: "pe_image \<Rightarrow> va_t \<Rightarrow> bool" where
  "is_iat_addr img a \<longleftrightarrow> (\<exists>im \<in> set (img_imports img). im_iat_addr im = a)"

text \<open>\<open>ptr_sz\<close> of the data passes.\<close>

definition ptr_size :: "arch \<Rightarrow> nat" where
  "ptr_size ar = (if ar = X64 \<or> ar = ARM64 \<or> ar = PPC then 8 else 4)"

section \<open>The lookup is exact on proper images\<close>

text \<open>No segment wraps around, none has more bytes than it maps, no two overlap.\<close>

definition seg_range :: "segment \<Rightarrow> nat set" where
  "seg_range s = {unat (sg_va s)..<unat (sg_va s) + unat (sg_size s)}"

definition image_ok :: "pe_image \<Rightarrow> bool" where
  "image_ok img \<longleftrightarrow>
     (\<forall>s \<in> set (img_segments img). unat (sg_va s) + unat (sg_size s) < 2 ^ 64 \<and> length (sg_data s) \<le> unat (sg_size s)) \<and>
     (\<forall>i < length (img_segments img). \<forall>j < i. seg_range (img_segments img ! i) \<inter> seg_range (img_segments img ! j) = {})"

lemma sorted_takeWhile_le:
  fixes f :: "'a \<Rightarrow> 'b :: linorder"
  shows "sorted (map f xs) \<Longrightarrow> set (takeWhile (\<lambda>x. f x \<le> a) xs) = {x \<in> set xs. f x \<le> a}"
  by (induction xs) (auto dest: order_trans)

lemma last_is_greatest:
  fixes f :: "'a \<Rightarrow> 'b :: linorder"
  assumes "sorted (map f xs)" "x \<in> set xs" shows "f x \<le> f (last xs)"
  using assms
proof (induction xs)
  case (Cons y ys)
  then show ?case by (cases "ys = []") auto
qed simp

lemma image_ok_disjoint:
  assumes "image_ok img" "s \<in> set (img_segments img)" "t \<in> set (img_segments img)" "n \<in> seg_range s" "n \<in> seg_range t"
  shows "s = t"
proof -
  obtain i j where ij: "i < length (img_segments img)" "s = img_segments img ! i"
      "j < length (img_segments img)" "t = img_segments img ! j"
    using assms(2,3) by (auto simp: in_set_conv_nth)
  then show ?thesis
    using assms(1,4,5) unfolding image_ok_def by (cases i j rule: linorder_cases) blast+
qed

lemma index_set: "set (build_segment_index img) = span_of_segment ` {s \<in> set (img_segments img). sg_size s \<noteq> 0}"
  by (auto simp: build_segment_index_def)

lemma index_sorted: "sorted (map sp_va (build_segment_index img))"
  by (simp add: build_segment_index_def)

text \<open>A span covers exactly the range of its segment.\<close>

lemma span_covers:
  assumes "image_ok img" "s \<in> set (img_segments img)"
  shows "sp_va (span_of_segment s) \<le> a \<and> a < sp_end (span_of_segment s) \<longleftrightarrow> unat a \<in> seg_range s"
proof -
  have "unat (sg_va s + sg_size s) = unat (sg_va s) + unat (sg_size s)"
    using assms by (auto simp: image_ok_def unat_word_ariths)
  then show ?thesis by (simp add: span_of_segment_def seg_range_def word_le_nat_alt word_less_nat_alt)
qed

lemma range_not_empty: "n \<in> seg_range s \<Longrightarrow> sg_size s \<noteq> 0"
  by (auto simp: seg_range_def)

lemma span_for_SomeD:
  assumes "image_ok img" "span_for (build_segment_index img) a = Some sp"
  shows "\<exists>s \<in> set (img_segments img). sp = span_of_segment s \<and> unat a \<in> seg_range s"
proof -
  let ?tw = "takeWhile (\<lambda>sp. sp_va sp \<le> a) (build_segment_index img)"
  obtain rest where r: "rev ?tw = sp # rest" "a < sp_end sp"
    using assms(2) by (auto simp: span_for_def split: list.splits if_splits)
  then have "sp \<in> set ?tw" by (metis list.set_intros(1) set_rev)
  then have "sp \<in> set (build_segment_index img)" "sp_va sp \<le> a" by (auto dest: set_takeWhileD)
  then obtain s where "s \<in> set (img_segments img)" "sp = span_of_segment s" by (auto simp: index_set)
  with r(2) \<open>sp_va sp \<le> a\<close> span_covers [OF assms(1)] show ?thesis by blast
qed

lemma span_for_SomeI:
  assumes ok: "image_ok img" and s: "s \<in> set (img_segments img)" "unat a \<in> seg_range s"
  shows "span_for (build_segment_index img) a = Some (span_of_segment s)"
proof -
  let ?idx = "build_segment_index img" let ?tw = "takeWhile (\<lambda>sp. sp_va sp \<le> a) ?idx"
  have set_tw: "set ?tw = {sp \<in> set ?idx. sp_va sp \<le> a}" by (rule sorted_takeWhile_le) (rule index_sorted)
  have in_tw: "span_of_segment s \<in> set ?tw"
    using s range_not_empty span_covers [OF ok s(1)] by (auto simp: set_tw index_set)
  have srt: "sorted (map sp_va ?tw)"
    using index_sorted [of img] by (metis sorted_wrt_append map_append takeWhile_dropWhile_id)
  define sp where "sp = last ?tw"
  have ne: "?tw \<noteq> []" using in_tw by (metis empty_iff empty_set)
  have rv: "rev ?tw = sp # tl (rev ?tw)" using ne unfolding sp_def by (metis hd_rev list.collapse rev_is_Nil_conv)
  have "sp \<in> set ?tw" using ne by (simp add: sp_def)
  then obtain t where t: "t \<in> set (img_segments img)" "sg_size t \<noteq> 0" "sp = span_of_segment t" "sp_va sp \<le> a"
    by (auto simp: set_tw index_set)
  have le: "sp_va (span_of_segment s) \<le> sp_va sp"
    unfolding sp_def using last_is_greatest [OF srt in_tw] .
  have "unat (sg_va t) \<in> seg_range t" using t(2) by (simp add: seg_range_def unat_gt_0)
  moreover have "unat (sg_va t) \<in> seg_range s"
    using le t(3,4) s(2) by (auto simp: span_of_segment_def seg_range_def word_le_nat_alt)
  ultimately have "s = t" using image_ok_disjoint [OF ok s(1) t(1)] by blast
  then have "a < sp_end sp" using t(3) s span_covers [OF ok s(1)] by blast
  then have "span_for ?idx a = Some sp" unfolding span_for_def by (subst rv) simp
  then show ?thesis using t(3) \<open>s = t\<close> by simp
qed

lemma span_for_exact:
  assumes "image_ok img"
  shows "span_for (build_segment_index img) a = Some sp \<longleftrightarrow>
    (\<exists>s \<in> set (img_segments img). sp = span_of_segment s \<and> unat a \<in> seg_range s)"
  using span_for_SomeD [OF assms] span_for_SomeI [OF assms] by blast

lemma span_for_None:
  assumes "image_ok img"
  shows "span_for (build_segment_index img) a = None \<longleftrightarrow> (\<forall>s \<in> set (img_segments img). unat a \<notin> seg_range s)"
  using span_for_exact [OF assms] by (metis not_None_eq)

lemma is_code_addr_exact:
  assumes "image_ok img"
  shows "is_code_addr (build_segment_index img) a \<longleftrightarrow>
    (\<exists>s \<in> set (img_segments img). sg_executable s \<and> unat a \<in> seg_range s)"
proof
  assume "is_code_addr (build_segment_index img) a"
  then obtain sp where "span_for (build_segment_index img) a = Some sp" "sp_executable sp"
    by (auto simp: is_code_addr_def split: option.splits)
  then show "\<exists>s \<in> set (img_segments img). sg_executable s \<and> unat a \<in> seg_range s"
    using span_for_SomeD [OF assms] by (fastforce simp: span_of_segment_def)
qed (auto simp: is_code_addr_def span_of_segment_def span_for_SomeI [OF assms])

text \<open>
  Moving a pointer inside the bytes of a segment gives the pointer of the moved address.
\<close>

lemma va_to_ptr_offset:
  assumes ok: "image_ok img" and p: "va_to_ptr (build_segment_index img) a = Some d" and n: "n < length d"
  shows "va_to_ptr (build_segment_index img) (a + of_nat n) = Some (drop n d) \<and>
    is_code_addr (build_segment_index img) (a + of_nat n) = is_code_addr (build_segment_index img) a \<and>
    unat (a + of_nat n) = unat a + n"
proof -
  let ?idx = "build_segment_index img"
  obtain sp where sp: "span_for ?idx a = Some sp" using p by (auto simp: va_to_ptr_def split: option.splits)
  then obtain s where s: "s \<in> set (img_segments img)" "sp = span_of_segment s" "unat a \<in> seg_range s"
    using span_for_exact [OF ok] by blast
  define off where "off = unat (a - sg_va s)"
  have off: "off < length (sg_data s)" "d = drop off (sg_data s)"
    using p sp s(2) by (auto simp: va_to_ptr_def Let_def off_def span_of_segment_def split: if_splits)
  have offn: "off = unat a - unat (sg_va s)" using s(3) by (simp add: off_def seg_range_def unat_sub word_le_nat_alt)
  have len: "length (sg_data s) \<le> unat (sg_size s)" "unat (sg_va s) + unat (sg_size s) < 2 ^ 64"
    using ok s(1) by (auto simp: image_ok_def)
  have sm: "off + n < unat (sg_size s)" using n off len(1) by simp
  have un: "unat (a + of_nat n) = unat a + n"
    using sm len(2) offn s(3) by (simp add: unat_word_ariths unat_of_nat seg_range_def)
  have "unat (a + of_nat n) \<in> seg_range s" using sm un offn s(3) by (auto simp: seg_range_def)
  then have sp2: "span_for ?idx (a + of_nat n) = Some sp" using span_for_SomeI [OF ok s(1)] s(2) by simp
  have "unat (a + of_nat n - sg_va s) = off + n"
    using un offn s(3) by (simp add: unat_sub word_le_nat_alt seg_range_def)
  then show ?thesis
    using sp sp2 s(2) off n un by (auto simp: va_to_ptr_def Let_def span_of_segment_def is_code_addr_def add.commute)
qed

end
