(* ===== verification/Type_System.thy ===== *)
theory Type_System
  imports Fmt
begin

text \<open>
  The catalogue of user types (\<open>src/src/hyperion/core/types/type_system.h\<close>): registration under an
  id and a name, fields and members, removal, and the printing of a value of a type.  The two hash
  maps are partial functions.  Floating point is printed by the C++ library and is the parameter
  \<open>flt\<close>, from the size and the bits to the text.  A printing function returns \<open>None\<close> where the code
  reads past the bytes it was given.
\<close>

section \<open>Types\<close>

datatype type_kind = KVoid | KInt | KUInt | KFloat | KPointer | KArray | KStruct | KEnum | KTypedef

record type_field =
  tf_name :: string
  tf_type_id :: u32
  tf_offset :: u32
  tf_size :: u32
  tf_comment :: string

record enum_member =
  em_name :: string
  em_value :: int

record type_def =
  td_id :: u32
  td_kind :: type_kind
  td_name :: string
  td_size :: u32
  td_fields :: "type_field list"
  td_members :: "enum_member list"
  td_pointee_id :: u32
  td_array_elem_id :: u32
  td_array_count :: u32

record type_system =
  ts_types :: "u32 \<Rightarrow> type_def option"
  ts_by_name :: "string \<Rightarrow> u32 option"
  ts_next_id :: u32

definition new_type :: "u32 \<Rightarrow> type_kind \<Rightarrow> string \<Rightarrow> u32 \<Rightarrow> type_def" where
  "new_type n k nm sz = \<lparr>td_id = n, td_kind = k, td_name = nm, td_size = sz, td_fields = [], td_members = [],
     td_pointee_id = 0, td_array_elem_id = 0, td_array_count = 0\<rparr>"

text \<open>\<open>types_[id] = td; by_name_.emplace(name, id)\<close> with the next id; \<open>emplace\<close> keeps an old entry.\<close>

definition register :: "(u32 \<Rightarrow> type_def) \<Rightarrow> type_system \<Rightarrow> u32 \<times> type_system" where
  "register mk ts =
     (let n = ts_next_id ts; td = mk n in
      (n, \<lparr>ts_types = (ts_types ts)(n \<mapsto> td),
           ts_by_name = (if ts_by_name ts (td_name td) = None then (ts_by_name ts)(td_name td \<mapsto> n) else ts_by_name ts),
           ts_next_id = n + 1\<rparr>))"

definition ts_get :: "type_system \<Rightarrow> u32 \<Rightarrow> type_def option" where
  "ts_get ts n = ts_types ts n"

definition find_by_name :: "type_system \<Rightarrow> string \<Rightarrow> type_def option" where
  "find_by_name ts nm = Option.bind (ts_by_name ts nm) (ts_get ts)"

definition add_struct :: "string \<Rightarrow> u32 \<Rightarrow> type_system \<Rightarrow> u32 \<times> type_system" where
  "add_struct nm sz = register (\<lambda>n. new_type n KStruct nm sz)"

definition add_enum :: "string \<Rightarrow> type_system \<Rightarrow> u32 \<times> type_system" where
  "add_enum nm = register (\<lambda>n. new_type n KEnum nm 4)"

definition size_of_type :: "type_system \<Rightarrow> u32 \<Rightarrow> u32" where
  "size_of_type ts n = (case ts_get ts n of Some td \<Rightarrow> td_size td | None \<Rightarrow> 0)"

definition add_typedef :: "string \<Rightarrow> u32 \<Rightarrow> type_system \<Rightarrow> u32 \<times> type_system" where
  "add_typedef nm target ts =
     register (\<lambda>n. (new_type n KTypedef nm (size_of_type ts target))\<lparr>td_pointee_id := target\<rparr>) ts"

definition add_field :: "u32 \<Rightarrow> string \<Rightarrow> u32 \<Rightarrow> u32 \<Rightarrow> type_system \<Rightarrow> type_system" where
  "add_field sid nm tid off ts =
     (case ts_types ts sid of None \<Rightarrow> ts
      | Some td \<Rightarrow> ts\<lparr>ts_types := (ts_types ts)(sid \<mapsto> td\<lparr>td_fields := td_fields td @
          [\<lparr>tf_name = nm, tf_type_id = tid, tf_offset = off, tf_size = size_of_type ts tid, tf_comment = []\<rparr>]\<rparr>)\<rparr>)"

definition add_member :: "u32 \<Rightarrow> string \<Rightarrow> int \<Rightarrow> type_system \<Rightarrow> type_system" where
  "add_member eid nm v ts =
     (case ts_types ts eid of None \<Rightarrow> ts
      | Some td \<Rightarrow> ts\<lparr>ts_types := (ts_types ts)(eid \<mapsto>
          td\<lparr>td_members := td_members td @ [\<lparr>em_name = nm, em_value = v\<rparr>]\<rparr>)\<rparr>)"

definition remove_type :: "u32 \<Rightarrow> type_system \<Rightarrow> type_system" where
  "remove_type n ts =
     (case ts_types ts n of None \<Rightarrow> ts
      | Some td \<Rightarrow> ts\<lparr>ts_by_name := (if ts_by_name ts (td_name td) = Some n
                                      then (ts_by_name ts)(td_name td := None) else ts_by_name ts),
                       ts_types := (ts_types ts)(n := None)\<rparr>)"

definition builtin_types :: "(type_kind \<times> string \<times> u32) list" where
  "builtin_types = [(KVoid, ''void'', 0), (KUInt, ''u8'', 1), (KUInt, ''u16'', 2), (KUInt, ''u32'', 4),
     (KUInt, ''u64'', 8), (KInt, ''i8'', 1), (KInt, ''i16'', 2), (KInt, ''i32'', 4), (KInt, ''i64'', 8),
     (KFloat, ''float'', 4), (KFloat, ''double'', 8), (KUInt, ''char'', 1), (KUInt, ''wchar_t'', 2),
     (KUInt, ''ptr32'', 4), (KUInt, ''ptr64'', 8)]"

definition no_types :: type_system where
  "no_types = \<lparr>ts_types = Map.empty, ts_by_name = Map.empty, ts_next_id = 1\<rparr>"

definition init_types :: type_system where
  "init_types = fold (\<lambda>(k, nm, sz) ts. snd (register (\<lambda>n. new_type n k nm sz) ts)) builtin_types no_types"

section \<open>Printing\<close>

definition signed_of :: "nat \<Rightarrow> nat \<Rightarrow> int" where
  "signed_of n v = (if 2 ^ (8 * n - 1) \<le> v then int v - 2 ^ (8 * n) else int v)"

text \<open>The last line of the function, which reads four bytes whatever the size of the type.\<close>

definition format_word :: "u8 list \<Rightarrow> string option" where
  "format_word d = map_option (\<lambda>v. ''0x'' @ hex_upper (of_nat v)) (read_le d 0 4)"

definition format_primitive :: "(nat \<Rightarrow> nat \<Rightarrow> string) \<Rightarrow> type_def \<Rightarrow> u8 list \<Rightarrow> string option" where
  "format_primitive flt td d =
     (let sz = unat (td_size td); v = le_value (take sz d) in
      if sz = 0 \<or> length d < sz then Some ''?''
      else case td_kind td of
        KUInt \<Rightarrow> if sz \<in> {1, 2, 4, 8} then Some (''0x'' @ hex_padded (2 * sz) (of_nat v)) else format_word d
      | KInt \<Rightarrow> if sz \<in> {1, 2, 4, 8} then Some (int_str (signed_of sz v)) else format_word d
      | KFloat \<Rightarrow> if sz \<in> {4, 8} then Some (flt sz v) else format_word d
      | _ \<Rightarrow> format_word d)"

definition format_enum :: "type_def \<Rightarrow> u8 list \<Rightarrow> string" where
  "format_enum td d =
     (if length d < 4 then ''?''
      else let v = signed_of 4 (le_value (take 4 d)) in
        case find (\<lambda>m. em_value m = v) (td_members td) of
          Some m \<Rightarrow> td_name td @ ''::'' @ em_name m @ '' ('' @ int_str v @ '')''
        | None \<Rightarrow> td_name td @ ''('' @ int_str v @ '')'')"

fun format_fields :: "(nat \<Rightarrow> nat \<Rightarrow> string) \<Rightarrow> type_system \<Rightarrow> u8 list \<Rightarrow> type_field list \<Rightarrow> string option" where
  "format_fields flt ts d [] = Some []"
| "format_fields flt ts d (f # fs) =
     (if length d \<le> unat (tf_offset f) then Some []
      else Option.bind (case ts_get ts (tf_type_id f) of
                          Some ft \<Rightarrow> format_primitive flt ft (drop (unat (tf_offset f)) d)
                        | None \<Rightarrow> Some ''?'')
        (\<lambda>txt. map_option (\<lambda>rest. ''  +'' @ hex_padded 4 (ucast (tf_offset f)) @ '' '' @ tf_name f @ '' = '' @ txt @
            [CHR 0x0A] @ rest) (format_fields flt ts d fs)))"

definition format_struct ::
  "(nat \<Rightarrow> nat \<Rightarrow> string) \<Rightarrow> type_system \<Rightarrow> va_t \<Rightarrow> type_def \<Rightarrow> u8 list \<Rightarrow> string option" where
  "format_struct flt ts a td d =
     map_option (\<lambda>body. td_name td @ '' @ '' @ hex_upper a @ '' {'' @ [CHR 0x0A] @ body @ ''}'')
       (format_fields flt ts d (td_fields td))"

definition format_at ::
  "(nat \<Rightarrow> nat \<Rightarrow> string) \<Rightarrow> type_system \<Rightarrow> va_t \<Rightarrow> u32 \<Rightarrow> u8 list \<Rightarrow> string option" where
  "format_at flt ts a n d =
     (case ts_get ts n of None \<Rightarrow> Some ''<?>''
      | Some td \<Rightarrow>
        if td_kind td = KStruct then format_struct flt ts a td d
        else if td_kind td = KEnum then Some (format_enum td d)
        else format_primitive flt td d)"

section \<open>Sequences of operations\<close>

datatype ts_op = Add_Struct string u32 | Add_Enum string | Add_Typedef string u32
  | Add_Field u32 string u32 u32 | Add_Member u32 string int | Remove u32

definition ts_apply :: "ts_op \<Rightarrow> type_system \<Rightarrow> type_system" where
  "ts_apply oper ts = (case oper of
     Add_Struct nm sz \<Rightarrow> snd (add_struct nm sz ts)
   | Add_Enum nm \<Rightarrow> snd (add_enum nm ts)
   | Add_Typedef nm t \<Rightarrow> snd (add_typedef nm t ts)
   | Add_Field s nm t off \<Rightarrow> add_field s nm t off ts
   | Add_Member e nm v \<Rightarrow> add_member e nm v ts
   | Remove n \<Rightarrow> remove_type n ts)"

text \<open>
  Every id below the next one, every stored type under its own id, every name leading to a stored
  type of that name.
\<close>

definition ts_ok :: "nat \<Rightarrow> type_system \<Rightarrow> bool" where
  "ts_ok k ts \<longleftrightarrow> unat (ts_next_id ts) \<le> k \<and>
     (\<forall>n td. ts_types ts n = Some td \<longrightarrow> td_id td = n \<and> n < ts_next_id ts) \<and>
     (\<forall>nm n. ts_by_name ts nm = Some n \<longrightarrow> (\<exists>td. ts_types ts n = Some td \<and> td_name td = nm))"

lemma next_id_less: "unat (n :: u32) \<le> k \<Longrightarrow> k < 2 ^ 32 - 1 \<Longrightarrow> unat (n + 1) = Suc (unat n)"
  by (simp add: unat_word_ariths)

lemma register_ok:
  assumes ok: "ts_ok k ts" and k: "k < 2 ^ 32 - 1" and mk: "\<And>n. td_id (mk n) = n"
  shows "ts_ok (Suc k) (snd (register mk ts))"
proof -
  define n where "n = ts_next_id ts"
  have un: "unat (n + 1) = Suc (unat n)" and nk: "unat n \<le> k"
    using ok k next_id_less [of n k] by (simp_all add: ts_ok_def n_def)
  then have lt: "m < n + 1" if "m \<le> n" for m using that by (simp add: word_less_nat_alt word_le_nat_alt)
  have fresh: "ts_types ts n = None" using ok by (metis less_irrefl n_def not_None_eq ts_ok_def)
  show ?thesis
    unfolding ts_ok_def register_def Let_def n_def [symmetric]
  proof (intro conjI allI impI; simp only: snd_conv type_system.simps fun_upd_apply)
    show "unat (n + 1) \<le> Suc k" using un nk by simp
  next
    fix m td
    assume "(if m = n then Some (mk n) else ts_types ts m) = Some td"
    then consider "m = n" "td = mk n" | "ts_types ts m = Some td" by (metis option.inject)
    then have "td_id td = m \<and> m \<le> n"
    proof cases
      case 2
      then show ?thesis using ok by (metis less_imp_le n_def ts_ok_def)
    qed (simp add: mk)
    then show "td_id td = m" "m < n + 1" using lt by simp_all
  next
    fix nm m
    assume a: "(if ts_by_name ts (td_name (mk n)) = None then (ts_by_name ts)(td_name (mk n) \<mapsto> n) else ts_by_name ts) nm = Some m"
    have old: "ts_by_name ts nm = Some m \<Longrightarrow> m \<noteq> n \<and> (\<exists>td. ts_types ts m = Some td \<and> td_name td = nm)"
      using ok fresh by (fastforce simp: ts_ok_def)
    have new: "m = n \<and> nm = td_name (mk n) \<or> ts_by_name ts nm = Some m"
    proof (cases "ts_by_name ts (td_name (mk n)) = None \<and> nm = td_name (mk n)")
      case True
      with a show ?thesis by simp
    next
      case False
      then have "ts_by_name ts nm = Some m" using a by (cases "ts_by_name ts (td_name (mk n)) = None") simp_all
      then show ?thesis by simp
    qed
    show "\<exists>td. (if m = n then Some (mk n) else ts_types ts m) = Some td \<and> td_name td = nm"
    proof (cases "ts_by_name ts nm = Some m")
      case True
      with old show ?thesis by simp
    next
      case False
      with new show ?thesis by simp
    qed
  qed
qed

lemma ts_ok_mono: "ts_ok k ts \<Longrightarrow> k \<le> l \<Longrightarrow> ts_ok l ts"
  by (auto simp: ts_ok_def)

text \<open>Adding fields and members keeps the id and the name of the type.\<close>

lemma update_type_ok:
  assumes "ts_ok k ts" "ts_types ts n = Some td" "td_id td' = td_id td" "td_name td' = td_name td"
  shows "ts_ok k (ts\<lparr>ts_types := (ts_types ts)(n \<mapsto> td')\<rparr>)"
  using assms by (fastforce simp: ts_ok_def)

lemma remove_type_ok: "ts_ok k ts \<Longrightarrow> ts_ok k (remove_type n ts)"
  unfolding ts_ok_def remove_type_def by (cases "ts_types ts n") (fastforce split: if_splits)+

lemma ts_apply_ok:
  assumes "ts_ok k ts" "k < 2 ^ 32 - 1" shows "ts_ok (Suc k) (ts_apply oper ts)"
proof -
  note mono = ts_ok_mono [of k _ "Suc k", OF _ le_SucI [OF order_refl]]
  show ?thesis
  proof (cases oper)
    case (Add_Field sid nm tid off)
    with assms(1) show ?thesis
      by (auto simp: ts_apply_def add_field_def split: option.split intro!: mono update_type_ok)
  next
    case (Add_Member eid nm v)
    with assms(1) show ?thesis
      by (auto simp: ts_apply_def add_member_def split: option.split intro!: mono update_type_ok)
  next
    case (Remove n)
    with assms(1) show ?thesis by (auto simp: ts_apply_def intro!: mono remove_type_ok)
  qed (use assms in \<open>auto simp: ts_apply_def add_struct_def add_enum_def add_typedef_def new_type_def intro!: register_ok\<close>)
qed

lemma fold_ts_ok:
  "ts_ok k ts \<Longrightarrow> k + length xs < 2 ^ 32 \<Longrightarrow> (\<And>x k ts. x \<in> set xs \<Longrightarrow> ts_ok k ts \<Longrightarrow> k < 2 ^ 32 - 1 \<Longrightarrow> ts_ok (Suc k) (g x ts)) \<Longrightarrow>
   ts_ok (k + length xs) (fold g xs ts)"
proof (induction xs arbitrary: k ts)
  case (Cons x xs)
  have "ts_ok (Suc k) (g x ts)" using Cons.prems by simp
  then have "ts_ok (Suc k + length xs) (fold g xs (g x ts))" using Cons.prems by (intro Cons.IH) simp_all
  then show ?case by simp
qed simp

lemma init_types_ok: "ts_ok 16 init_types"
proof -
  have "ts_ok (1 + length builtin_types) init_types"
    unfolding init_types_def
  proof (rule fold_ts_ok)
    show "ts_ok 1 no_types" by (simp add: ts_ok_def no_types_def)
    show "1 + length builtin_types < 2 ^ 32" by (simp add: builtin_types_def)
  next
    fix x k ts assume "ts_ok k ts" "k < 2 ^ 32 - 1"
    then show "ts_ok (Suc k) ((case x of (k', nm, sz) \<Rightarrow> \<lambda>ts. snd (register (\<lambda>n. new_type n k' nm sz) ts)) ts)"
      by (cases x) (simp add: register_ok new_type_def)
  qed
  moreover have "1 + length builtin_types = 16" by (simp add: builtin_types_def)
  ultimately show ?thesis by (simp only:)
qed

definition ts_run :: "ts_op list \<Rightarrow> type_system" where
  "ts_run ops = fold ts_apply ops init_types"

text \<open>
  C37. Whatever is registered, extended or removed, in fewer than 2^32 - 16 operations: a name is
  found only as a type of that name, stored under its own id.
\<close>

theorem find_by_name_sound:
  assumes "length ops < 2 ^ 32 - 16" "find_by_name (ts_run ops) nm = Some td"
  shows "td_name td = nm \<and> ts_get (ts_run ops) (td_id td) = Some td"
proof -
  have "ts_ok (16 + length ops) (ts_run ops)"
    unfolding ts_run_def using assms(1) by (intro fold_ts_ok init_types_ok ts_apply_ok) auto
  with assms(2) show ?thesis
    by (fastforce simp: ts_ok_def find_by_name_def ts_get_def Option.bind_eq_Some_conv)
qed

lemma find_by_name_sound_witness:
  "td_name (new_type 16 KStruct ''s'' 8) = ''s'' \<and>
   ts_get (ts_run [Add_Struct ''s'' 8, Add_Struct ''s'' 4, Remove 17]) (td_id (new_type 16 KStruct ''s'' 8)) =
     Some (new_type 16 KStruct ''s'' 8)"
  by (rule find_by_name_sound [where ops = "[Add_Struct ''s'' 8, Add_Struct ''s'' 4, Remove 17]"])
    (simp_all add: ts_run_def init_types_def no_types_def builtin_types_def register_def Let_def ts_apply_def add_struct_def
       remove_type_def find_by_name_def ts_get_def new_type_def)

text \<open>
  Printing reads past the bytes it was given exactly for a type of one to three bytes whose kind
  and size have no format of their own, such as a nested structure or an alias, when fewer than four
  bytes are left.
\<close>

theorem format_primitive_overread:
  "format_primitive flt td d = None \<longleftrightarrow>
     unat (td_size td) \<in> {1..3} \<and> unat (td_size td) \<le> length d \<and> length d < 4 \<and>
     \<not> (td_kind td \<in> {KInt, KUInt} \<and> unat (td_size td) \<noteq> 3)"
proof -
  define sz where "sz = unat (td_size td)"
  show ?thesis
    unfolding format_primitive_def format_word_def sz_def [symmetric] Let_def
    by (cases "td_kind td") (auto simp: not_less)
qed

end
