(* ===== verification/Analysis_Db.thy ===== *)
theory Analysis_Db
  imports Image Type_System "HOL-Library.AList"
begin

text \<open>
  Decoded instructions (\<open>src/src/hyperion/core/disasm/disassembler.h\<close>) and the analysis database
  (\<open>src/src/hyperion/core/analysis/analysis_db.h\<close>).  Hash maps the code enumerates are association
  lists in their order of enumeration, the others are partial functions; hash sets are lists or sets
  likewise.  Its mutex is left out: each operation is one step.
\<close>

section \<open>Decoded instructions\<close>

datatype insn_type =
  IUnknown | INop | IMov | IPush | IPop | ICall | IRet | IJmp | IJcc | ICmp | ITest | ISetcc
| IAdd | ISub | IMul | IDiv | IImul | IIdiv | IInc | IDec | IAnd | IOr | IXor | INot | IShl | IShr
| ISar | IRol | IRor | ILea | IInt | ISyscall | IMovsx | IMovzx | IOther

datatype op_type = ONone | OReg | OImm | OMem

record operand =
  o_val :: u64
  o_disp :: u64
  o_base :: u16
  o_index :: u16
  o_scale :: u8
  o_reg :: u16
  o_size :: int
  o_type :: op_type
  o_read :: bool
  o_write :: bool

definition empty_operand :: operand where
  "empty_operand = \<lparr>o_val = 0, o_disp = 0, o_base = 0, o_index = 0, o_scale = 0, o_reg = 0,
     o_size = 0, o_type = ONone, o_read = False, o_write = False\<rparr>"

record insn =
  in_addr :: va_t
  in_ops :: "operand list"
  in_mnemonic :: string
  in_op_str :: string
  in_type :: insn_type
  in_op_count :: nat
  in_mnemonic_id :: u16
  in_bytes :: "u8 list"
  in_len :: nat

text \<open>\<open>Insn insn{}\<close>.\<close>

definition empty_insn :: insn where
  "empty_insn = \<lparr>in_addr = 0, in_ops = [], in_mnemonic = [], in_op_str = [], in_type = IUnknown,
     in_op_count = 0, in_mnemonic_id = 0, in_bytes = [], in_len = 0\<rparr>"

definition is_branch :: "insn \<Rightarrow> bool" where
  "is_branch i \<longleftrightarrow> in_type i = IJmp \<or> in_type i = IJcc"

definition is_call :: "insn \<Rightarrow> bool" where "is_call i \<longleftrightarrow> in_type i = ICall"

definition is_ret :: "insn \<Rightarrow> bool" where "is_ret i \<longleftrightarrow> in_type i = IRet"

definition is_cond_jmp :: "insn \<Rightarrow> bool" where "is_cond_jmp i \<longleftrightarrow> in_type i = IJcc"

definition branch_target :: "insn \<Rightarrow> va_t" where
  "branch_target i =
     (if 0 < in_op_count i \<and> o_type (in_ops i ! 0) = OImm then o_val (in_ops i ! 0) else 0)"

text \<open>\<open>Insn::ops\<close> has five entries; those past the list are the array's defaults.\<close>

definition operand_at :: "insn \<Rightarrow> nat \<Rightarrow> operand" where
  "operand_at i k = (if k < length (in_ops i) then in_ops i ! k else empty_operand)"

section \<open>The database\<close>

datatype data_size = SzByte | SzWord | SzDword | SzQword

datatype data_style = StRaw | StPointer | StString | StImport | StAlign

datatype call_conv = CcUnknown | CcCdecl | CcStdcall | CcFastcall | CcThiscall | CcX64

record data_item =
  di_addr :: va_t
  di_size :: data_size
  di_style :: data_style
  di_is_string :: bool

record basic_block =
  bb_start :: va_t
  bb_insns :: "insn list"
  bb_succs :: "va_t list"
  bb_end :: va_t
  bb_preds :: "va_t list"

definition empty_block :: "va_t \<Rightarrow> basic_block" where
  "empty_block a = \<lparr>bb_start = a, bb_insns = [], bb_succs = [], bb_end = a, bb_preds = []\<rparr>"

record loop_info =
  li_header :: va_t
  li_back_edge_src :: va_t
  li_induction_reg :: u16

record func =
  fn_entry :: va_t
  fn_name :: string
  fn_blocks :: "(va_t \<times> basic_block) list"
  fn_block_addrs :: "va_t list"
  fn_analyzed :: bool
  fn_noreturn :: bool
  fn_callconv :: call_conv
  fn_loops :: "loop_info list"
  fn_ranges :: "(va_t \<times> va_t) list"

definition new_func :: "va_t \<Rightarrow> string \<Rightarrow> func" where
  "new_func a nm = \<lparr>fn_entry = a, fn_name = nm, fn_blocks = [], fn_block_addrs = [], fn_analyzed = False,
     fn_noreturn = False, fn_callconv = CcUnknown, fn_loops = [], fn_ranges = []\<rparr>"

datatype xref_type = CodeCall | CodeJump | DataRead | DataWrite | DataOffset

record xref =
  xr_from :: va_t
  xr_to :: va_t
  xr_type :: xref_type

record vtable =
  vt_addr :: va_t
  vt_entries :: "va_t list"

record global_var =
  gv_addr :: va_t
  gv_size :: u32
  gv_name :: string

record func_signature =
  fs_param_names :: "string list"
  fs_param_types :: "string list"
  fs_return_type :: string
  fs_param_count :: int

record analysis_db =
  db_arch :: arch
  db_image_base :: va_t
  db_insns :: "(va_t \<times> insn) list"
  db_funcs :: "(va_t \<times> func) list"
  db_names :: "va_t \<Rightarrow> string option"
  db_signatures :: "(va_t \<times> func_signature) list"
  db_xrefs :: "xref list"
  db_xrefs_to :: "va_t \<Rightarrow> xref list"
  db_xrefs_from :: "va_t \<Rightarrow> xref list"
  db_comments :: "va_t \<Rightarrow> string option"
  db_strings :: "(va_t \<times> string) list"
  db_data_items :: "(va_t \<times> data_item) list"
  db_hex_display :: "va_t set"
  db_patches :: "va_t \<Rightarrow> u8 list option"
  db_applied_types :: "va_t \<Rightarrow> u32 option"
  db_vtables :: "vtable list"
  db_globals :: "(va_t \<times> global_var) list"
  db_resolved_indirect :: "(va_t \<times> va_t) list"
  db_types :: type_system

definition db_over :: "type_system \<Rightarrow> arch \<Rightarrow> va_t \<Rightarrow> analysis_db" where
  "db_over ts ar base = \<lparr>db_arch = ar, db_image_base = base, db_insns = [], db_funcs = [], db_names = Map.empty,
     db_signatures = [], db_xrefs = [], db_xrefs_to = (\<lambda>_. []), db_xrefs_from = (\<lambda>_. []), db_comments = Map.empty,
     db_strings = [], db_data_items = [], db_hex_display = {}, db_patches = Map.empty, db_applied_types = Map.empty,
     db_vtables = [], db_globals = [], db_resolved_indirect = [], db_types = ts\<rparr>"

definition empty_db :: "arch \<Rightarrow> va_t \<Rightarrow> analysis_db" where
  "empty_db = db_over init_types"

lemma db_over_simps [simp]:
  "db_arch (db_over ts ar base) = ar" "db_image_base (db_over ts ar base) = base"
  "db_insns (db_over ts ar base) = []" "db_funcs (db_over ts ar base) = []"
  "db_names (db_over ts ar base) = Map.empty" "db_signatures (db_over ts ar base) = []"
  by (simp_all add: db_over_def)

lemma empty_block_simps [simp]:
  "bb_start (empty_block a) = a" "bb_insns (empty_block a) = []" "bb_succs (empty_block a) = []"
  "bb_end (empty_block a) = a" "bb_preds (empty_block a) = []"
  by (simp_all add: empty_block_def)

lemma new_func_simps [simp]:
  "fn_entry (new_func a nm) = a" "fn_name (new_func a nm) = nm" "fn_blocks (new_func a nm) = []"
  "fn_analyzed (new_func a nm) = False" "fn_ranges (new_func a nm) = []" "fn_noreturn (new_func a nm) = False"
  by (simp_all add: new_func_def)

section \<open>Its operations\<close>

definition add_xref :: "xref \<Rightarrow> analysis_db \<Rightarrow> analysis_db" where
  "add_xref x db = db\<lparr>db_xrefs := db_xrefs db @ [x],
     db_xrefs_to := (db_xrefs_to db)(xr_to x := db_xrefs_to db (xr_to x) @ [x]),
     db_xrefs_from := (db_xrefs_from db)(xr_from x := db_xrefs_from db (xr_from x) @ [x])\<rparr>"

definition add_func :: "func \<Rightarrow> analysis_db \<Rightarrow> analysis_db" where
  "add_func f db = db\<lparr>db_funcs := AList.update (fn_entry f) f (db_funcs db)\<rparr>"

definition set_name :: "va_t \<Rightarrow> string \<Rightarrow> analysis_db \<Rightarrow> analysis_db" where
  "set_name a n db = db\<lparr>db_names := (db_names db)(a \<mapsto> n)\<rparr>"

definition define_data :: "va_t \<Rightarrow> data_size \<Rightarrow> data_style \<Rightarrow> analysis_db \<Rightarrow> analysis_db" where
  "define_data a sz st db = db\<lparr>db_insns := AList.delete a (db_insns db),
     db_data_items := AList.update a \<lparr>di_addr = a, di_size = sz, di_style = st, di_is_string = False\<rparr> (db_data_items db)\<rparr>"

definition define_string :: "va_t \<Rightarrow> analysis_db \<Rightarrow> analysis_db" where
  "define_string a db = db\<lparr>db_insns := AList.delete a (db_insns db),
     db_data_items := AList.update a \<lparr>di_addr = a, di_size = SzByte, di_style = StString, di_is_string = True\<rparr>
       (db_data_items db)\<rparr>"

definition undefine :: "va_t \<Rightarrow> analysis_db \<Rightarrow> analysis_db" where
  "undefine a db = db\<lparr>db_insns := AList.delete a (db_insns db), db_data_items := AList.delete a (db_data_items db)\<rparr>"

definition toggle_hex :: "va_t \<Rightarrow> analysis_db \<Rightarrow> analysis_db" where
  "toggle_hex a db = db\<lparr>db_hex_display :=
     (if a \<in> db_hex_display db then db_hex_display db - {a} else insert a (db_hex_display db))\<rparr>"

definition patch_nop :: "va_t \<Rightarrow> nat \<Rightarrow> analysis_db \<Rightarrow> analysis_db" where
  "patch_nop a n db = db\<lparr>db_patches := (db_patches db)(a \<mapsto> replicate n 0x90)\<rparr>"

end
