(* ===== verification/Reader.thy ===== *)
theory Reader
  imports Prelude "HOL-Library.Multiset"
begin

text \<open>
  Reading the memory of another process (\<open>src/src/core/memory/reader.hpp\<close>, \<open>read_util.cpp\<close>), the
  cancellation token the scans poll (\<open>core/infra/cancel.hpp\<close>), and the reader of the tests.

  The virtual function \<open>reader_t::read\<close> is an argument of the definitions that use it; its contract
  (\<open>false\<close> if any part is unreadable, no partial reads) is the locale \<open>memory_reader\<close>.  Addresses
  are 64-bit words and wrap.
\<close>

type_synonym byte = "8 word"
type_synonym reader = "va_t \<Rightarrow> nat \<Rightarrow> byte list option"
type_synonym memory = "va_t \<Rightarrow> byte option"
type_synonym run = "va_t \<times> byte list"

section \<open>Cancellation\<close>

text \<open>
  The token as one reader of it sees it: after how many more polls it will be found cancelled,
  \<open>None\<close> if never.
\<close>

type_synonym token = "nat option"

definition poll :: "token \<Rightarrow> bool \<times> token" where
  "poll tok = (case tok of None \<Rightarrow> (False, None) | Some 0 \<Rightarrow> (True, Some 0) | Some (Suc n) \<Rightarrow> (False, Some n))"

lemma poll_None [simp]: "poll None = (False, None)"
  by (simp add: poll_def)

section \<open>The contract of a reader\<close>

definition readable :: "memory \<Rightarrow> va_t \<Rightarrow> nat \<Rightarrow> bool" where
  "readable mem a n \<longleftrightarrow> (\<forall>i<n. mem (a + of_nat i) \<noteq> None)"

definition content :: "memory \<Rightarrow> va_t \<Rightarrow> nat \<Rightarrow> byte list" where
  "content mem a n = map (\<lambda>i. the (mem (a + of_nat i))) [0..<n]"

lemma length_content [simp]: "length (content mem a n) = n"
  by (simp add: content_def)

lemma nth_content [simp]: "i < n \<Longrightarrow> content mem a n ! i = the (mem (a + of_nat i))"
  by (simp add: content_def)

lemma readable_0 [simp]: "readable mem a 0"
  by (simp add: readable_def)

lemma readable_split:
  "readable mem a (m + n) \<longleftrightarrow> readable mem a m \<and> readable mem (a + of_nat m) n"
proof -
  have "(\<forall>i<m + n. P i) \<longleftrightarrow> (\<forall>i<m. P i) \<and> (\<forall>i<n. P (m + i))" for P :: "nat \<Rightarrow> bool"
  proof (safe)
    fix i assume a: "\<forall>i<m. P i" "\<forall>i<n. P (m + i)" "i < m + n"
    show "P i"
    proof (cases "i < m")
      case False
      with a(3) have "i = m + (i - m)" "i - m < n" by auto
      with a(2) show ?thesis by metis
    qed (use a in simp)
  qed auto
  from this [of "\<lambda>i. mem (a + of_nat i) \<noteq> None"] show ?thesis
    by (simp only: readable_def of_nat_add add.assoc)
qed

lemma content_append: "content mem a (m + n) = content mem a m @ content mem (a + of_nat m) n"
  by (rule nth_equalityI) (auto simp: nth_append add.assoc simp flip: of_nat_add)

locale memory_reader =
  fixes read :: reader and mem :: memory
  assumes read_contract: "read a n = (if readable mem a n then Some (content mem a n) else None)"
begin

lemma read_Some: "read a n = Some bs \<Longrightarrow> readable mem a n \<and> bs = content mem a n"
  by (auto simp: read_contract split: if_splits)

lemma read_None: "read a n = None \<longleftrightarrow> \<not> readable mem a n"
  by (simp add: read_contract)

end

section \<open>Resilient reads\<close>

text \<open>
  \<open>resilient_read\<close>: the stack of segments with its back in front, the leaf size, and the runs in the
  order the sink gets them.
\<close>

definition leaf_size :: "nat \<Rightarrow> nat" where
  "leaf_size min_leaf = (if min_leaf = 0 then 1 else min_leaf)"

definition half_of :: "nat \<Rightarrow> nat \<Rightarrow> nat" where
  "half_of min_leaf n = max (n div 2 div leaf_size min_leaf * leaf_size min_leaf) (leaf_size min_leaf)"

definition seg_weight :: "va_t \<times> nat \<Rightarrow> nat" where
  "seg_weight s = (if snd s = 0 then 1 else 2 * snd s - 1)"

lemma half_bounds:
  assumes "leaf_size ml < n"
  shows "0 < half_of ml n" "half_of ml n < n"
proof -
  have le: "n div 2 div leaf_size ml * leaf_size ml \<le> n div 2"
    by (rule div_times_less_eq_dividend)
  have n: "0 < leaf_size ml" by (simp add: leaf_size_def)
  with assms have half: "n div 2 < n" by simp
  show "0 < half_of ml n" using n by (simp add: half_of_def)
  show "half_of ml n < n" using le_less_trans [OF le half] assms by (simp add: half_of_def)
qed

lemma seg_weight_pos: "0 < seg_weight s"
  by (auto simp: seg_weight_def)

lemma seg_weight_split:
  assumes "leaf_size ml < n"
  shows "seg_weight (b, n - half_of ml n) + seg_weight (a, half_of ml n) < seg_weight (a, n)"
  using half_bounds [OF assms] by (auto simp: seg_weight_def)

function resilient :: "reader \<Rightarrow> nat \<Rightarrow> token \<Rightarrow> (va_t \<times> nat) list \<Rightarrow> run list \<times> token" where
  "resilient read ml tok [] = ([], tok)"
| "resilient read ml tok ((a, n) # stack) =
     (case poll tok of
        (True, t) \<Rightarrow> ([], t)
      | (False, t) \<Rightarrow> (case read a n of
            Some bs \<Rightarrow> (case resilient read ml t stack of (runs, t') \<Rightarrow> ((a, bs) # runs, t'))
          | None \<Rightarrow> if n \<le> leaf_size ml then resilient read ml t stack
              else (let half = half_of ml n in
                resilient read ml t ((a + of_nat half, n - half) # (a, half) # stack))))"
  by pat_completeness auto

termination
  by (relation "measure (\<lambda>(read, ml, tok, st). sum_list (map seg_weight st))")
     (use seg_weight_split seg_weight_pos in \<open>auto simp: Let_def not_le\<close>)

definition resilient_read :: "reader \<Rightarrow> va_t \<Rightarrow> nat \<Rightarrow> nat \<Rightarrow> token \<Rightarrow> run list \<times> token" where
  "resilient_read read a n min_leaf tok = resilient read min_leaf tok [(a, n)]"

text \<open>What a list of runs covers.\<close>

definition run_addrs :: "run list \<Rightarrow> va_t list" where
  "run_addrs runs = concat (map (\<lambda>(a, bs). map (\<lambda>i. a + of_nat i) [0..<length bs]) runs)"

definition seg_addrs :: "(va_t \<times> nat) list \<Rightarrow> va_t list" where
  "seg_addrs segs = concat (map (\<lambda>(a, n). map (\<lambda>i. a + of_nat i) [0..<n]) segs)"

definition run_true :: "memory \<Rightarrow> run \<Rightarrow> bool" where
  "run_true mem r \<longleftrightarrow> (case r of (a, bs) \<Rightarrow> readable mem a (length bs) \<and> bs = content mem a (length bs))"

lemma run_addrs_simps [simp]:
  "run_addrs [] = []"
  "run_addrs ((a, bs) # rs) = map (\<lambda>i. a + of_nat i) [0..<length bs] @ run_addrs rs"
  by (simp_all add: run_addrs_def)

lemma seg_addrs_simps [simp]:
  "seg_addrs [] = []"
  "seg_addrs ((a, n) # ss) = map (\<lambda>i. a + of_nat i) [0..<n] @ seg_addrs ss"
  by (simp_all add: seg_addrs_def)

lemma addrs_split:
  assumes "k \<le> n"
  shows "map (\<lambda>i. (a :: va_t) + of_nat i) [0..<n] =
    map (\<lambda>i. a + of_nat i) [0..<k] @ map (\<lambda>i. a + of_nat k + of_nat i) [0..<n - k]"
  by (rule nth_equalityI) (use assms in \<open>auto simp: nth_append add.assoc simp flip: of_nat_add\<close>)

text \<open>An address that is part of an unreadable piece of at most \<open>leaf\<close> bytes.\<close>

definition unread :: "memory \<Rightarrow> nat \<Rightarrow> (va_t \<times> nat) list \<Rightarrow> va_t \<Rightarrow> bool" where
  "unread mem leaf segs x \<longleftrightarrow> (\<exists>s k. k \<le> leaf \<and> \<not> readable mem s k \<and> x \<in> set (seg_addrs [(s, k)]) \<and>
     set (seg_addrs [(s, k)]) \<subseteq> set (seg_addrs segs))"

lemma unread_one: "unread mem 1 segs x \<Longrightarrow> mem x = None"
proof -
  assume "unread mem 1 segs x"
  then obtain s k where k: "k \<le> 1" "\<not> readable mem s k" "x \<in> set (seg_addrs [(s, k)])"
    unfolding unread_def by blast
  then have "k = 1" by (cases "k = 0") auto
  with k show ?thesis by (simp add: readable_def)
qed

text \<open>The induction of all proofs about it: what holds of a stack and the runs it delivers.\<close>

lemma resilient_rule:
  assumes stop: "\<And>st. st = [] \<or> tok \<noteq> None \<Longrightarrow> P st []"
    and run: "\<And>a n bs st rs. read a n = Some bs \<Longrightarrow> P st rs \<Longrightarrow> P ((a, n) # st) ((a, bs) # rs)"
    and leaf: "\<And>a n st rs. read a n = None \<Longrightarrow> n \<le> leaf_size ml \<Longrightarrow> P st rs \<Longrightarrow> P ((a, n) # st) rs"
    and split: "\<And>a n st rs. read a n = None \<Longrightarrow> leaf_size ml < n \<Longrightarrow>
      P ((a + of_nat (half_of ml n), n - half_of ml n) # (a, half_of ml n) # st) rs \<Longrightarrow> P ((a, n) # st) rs"
  shows "P st (fst (resilient read ml tok st))"
  using assms
proof (induction read ml tok st rule: resilient.induct)
  case (1 read ml tok)
  then show ?case by simp
next
  case (2 read ml tok a n stack)
  show ?case
  proof (cases "poll tok")
    case (Pair b t)
    have t: "t = None \<longleftrightarrow> tok = None" "b \<Longrightarrow> tok \<noteq> None"
      using Pair by (auto simp: poll_def split: option.splits nat.splits)
    show ?thesis
    proof (cases b)
      case True
      with t 2(4) show ?thesis by (simp add: Pair)
    next
      case False
      with Pair have p: "poll tok = (False, t)" by simp
      show ?thesis
      proof (cases "read a n")
        case (Some bs)
        have "P stack (fst (resilient read ml t stack))"
          using 2(3) [OF p [symmetric] refl Some] 2(4-7) t(1) by auto
        with Some p 2(5) [OF Some] show ?thesis by (simp add: case_prod_beta)
      next
        case None
        show ?thesis
        proof (cases "n \<le> leaf_size ml")
          case True
          have "P stack (fst (resilient read ml t stack))"
            using 2(1) [OF p [symmetric] refl None True] 2(4-7) t(1) by auto
          with None p True 2(6) [OF None True] show ?thesis by simp
        next
          case False
          let ?st = "(a + of_nat (half_of ml n), n - half_of ml n) # (a, half_of ml n) # stack"
          have "P ?st (fst (resilient read ml t ?st))"
            using 2(2) [OF p [symmetric] refl None False refl] 2(4-7) t(1) by auto
          with None p False 2(7) [OF None, of stack] show ?thesis by (simp add: Let_def)
        qed
      qed
    qed
  qed
qed

lemma seg_addrs_halves:
  assumes "leaf_size ml < n"
  shows "mset (seg_addrs ((a + of_nat (half_of ml n), n - half_of ml n) # (a, half_of ml n) # st)) =
    mset (seg_addrs ((a, n) # st))"
  using addrs_split [of "half_of ml n" n a] half_bounds [OF assms] by (simp add: ac_simps)

context memory_reader
begin

lemma resilient_true: "list_all (run_true mem) (fst (resilient read ml tok st))"
  by (rule resilient_rule [where P = "\<lambda>st runs. list_all (run_true mem) runs"])
     (auto simp: run_true_def dest!: read_Some)

lemma resilient_within: "mset (run_addrs (fst (resilient read ml tok st))) \<subseteq># mset (seg_addrs st)"
  by (rule resilient_rule [where P = "\<lambda>st runs. mset (run_addrs runs) \<subseteq># mset (seg_addrs st)"])
     (auto simp: seg_addrs_halves simp del: seg_addrs_simps(2) dest!: read_Some,
      auto intro: subset_mset.order_trans)

lemma unread_more: "unread mem leaf st x \<Longrightarrow> unread mem leaf (seg # st) x"
  unfolding unread_def by (cases seg) fastforce

lemma resilient_pieces:
  "\<forall>(a, bs) \<in> set (fst (resilient read ml tok st)). \<exists>(b, m) \<in> set st. \<exists>k. a = b + of_nat k \<and> k + length bs \<le> m"
proof (rule resilient_rule [where P = "\<lambda>st runs. \<forall>(a, bs) \<in> set runs. \<exists>(b, m) \<in> set st. \<exists>k. a = b + of_nat k \<and> k + length bs \<le> m"],
    goal_cases)
  case (2 a n bs st rs)
  then have "length bs = n" by (auto dest!: read_Some)
  then have "\<exists>k. a = a + of_nat k \<and> k + length bs \<le> n" by (intro exI [of _ 0]) simp
  with 2(2) show ?case by fastforce
next
  case (4 a n st rs)
  note h = half_bounds [OF 4(2)]
  show ?case
  proof (clarify)
    fix x bs assume "(x, bs) \<in> set rs"
    with 4(3) obtain b m k where bm: "(b, m) \<in> set ((a + of_nat (half_of ml n), n - half_of ml n) # (a, half_of ml n) # st)"
        "x = b + of_nat k" "k + length bs \<le> m" by fastforce
    then consider "b = a + of_nat (half_of ml n)" "m = n - half_of ml n" | "b = a" "m = half_of ml n" | "(b, m) \<in> set st"
      by auto
    then show "\<exists>(b, m) \<in> set ((a, n) # st). \<exists>k. x = b + of_nat k \<and> k + length bs \<le> m"
    proof cases
      case 1
      then have "x = a + of_nat (half_of ml n + k) \<and> half_of ml n + k + length bs \<le> n"
        using bm h by (simp add: add.assoc)
      then have "\<exists>k. x = a + of_nat k \<and> k + length bs \<le> n" by blast
      then show ?thesis by (intro bexI [of _ "(a, n)"]) simp_all
    next
      case 2
      then show ?thesis using bm h by (intro bexI [of _ "(a, n)"]) auto
    next
      case 3
      then show ?thesis using bm by (intro bexI [of _ "(b, m)"]) auto
    qed
  qed
qed fastforce+

lemma resilient_complete:
  "\<forall>x \<in> set (seg_addrs st). x \<in> set (run_addrs (fst (resilient read ml None st))) \<or> unread mem (leaf_size ml) st x"
proof (rule resilient_rule [where P = "\<lambda>st runs. \<forall>x \<in> set (seg_addrs st). x \<in> set (run_addrs runs) \<or>
     unread mem (leaf_size ml) st x"], goal_cases)
  case (2 a n bs st rs)
  then show ?case using unread_more by (fastforce dest!: read_Some)
next
  case (3 a n st rs)
  have "unread mem (leaf_size ml) ((a, n) # st) x" if "x \<in> set (seg_addrs [(a, n)])" for x
    unfolding unread_def by (rule exI [of _ a], rule exI [of _ n]) (use 3 that in \<open>auto simp: read_None\<close>)
  with 3(3) show ?case using unread_more by fastforce
next
  case (4 a n st rs)
  have "set (seg_addrs ((a + of_nat (half_of ml n), n - half_of ml n) # (a, half_of ml n) # st)) =
    set (seg_addrs ((a, n) # st))"
    using seg_addrs_halves [OF 4(2), of a st] by (metis set_mset_mset)
  with 4(3) show ?case unfolding unread_def by (simp only:)
qed auto

end

section \<open>The reader of the tests\<close>

text \<open>
  \<open>fake_reader_t\<close> of \<open>src/src/tests/test_memory.cpp\<close>: pages of 4096 bytes; a page is the function from
  the offset to the byte.
\<close>

type_synonym pages = "va_t \<Rightarrow> (nat \<Rightarrow> byte) option"

definition page_of :: "va_t \<Rightarrow> va_t" where
  "page_of a = a AND NOT 4095"

definition page_off :: "va_t \<Rightarrow> nat" where
  "page_off a = unat (a - page_of a)"

lemma page_off_mod: "page_off a = unat a mod 4096"
proof -
  have m: "(4095 :: va_t) = mask 12" by (simp add: mask_eq_decr_exp)
  have "a - (a AND NOT 4095) = a AND NOT (a AND NOT 4095)"
    by (rule disjunctive_diff_eq_and_not) (auto simp: bit_eq_iff bit_simps) 
  also have "\<dots> = take_bit 12 a"
    unfolding m take_bit_eq_mask by (rule bit_word_eqI) (auto simp: bit_simps)
  finally have "page_off a = unat (take_bit 12 a)" by (simp add: page_off_def page_of_def)
  also have "\<dots> = take_bit 12 (unat a)" by (simp add: unsigned_take_bit_eq)
  finally show ?thesis by (simp add: take_bit_eq_mod)
qed

lemma page_of_div: "unat (page_of a) = 4096 * (unat a div 4096)"
proof -
  have "page_of a \<le> a" by (simp add: page_of_def word_and_le2)
  then have "page_off a = unat a - unat (page_of a)" "unat (page_of a) \<le> unat a"
    by (simp_all add: page_off_def unat_sub word_le_nat_alt)
  with page_off_mod [of a] have "unat (page_of a) = unat a - unat a mod 4096" by simp
  then show ?thesis by (simp add: minus_mod_eq_mult_div)
qed

lemma page_off_less: "page_off a < 4096"
  by (simp add: page_off_mod)

text \<open>Within a page.\<close>

lemma same_page:
  assumes "page_off a + i < 4096"
  shows "page_of (a + of_nat i) = page_of a" "page_off (a + of_nat i) = page_off a + i"
proof -
  have a: "unat a = 4096 * (unat a div 4096) + page_off a" by (simp add: page_off_mod)
  have "unat a < 4096 * 2 ^ 52" using unsigned_less [of a, where 'a = nat] by simp
  then have "unat a div 4096 < 2 ^ 52" by (simp add: less_mult_imp_div_less)
  then have "unat a + i < 2 ^ 64" using a assms by simp
  then have u: "unat (a + of_nat i) = unat a + i"
    by (simp add: unat_word_ariths unat_of_nat)
  have "unat a + i = 4096 * (unat a div 4096) + (page_off a + i)" using a by simp
  then have "(unat a + i) div 4096 = unat a div 4096" "(unat a + i) mod 4096 = page_off a + i"
    using assms by (simp_all only: div_mult_self4 mod_mult_self4 div_less mod_less)
  then show "page_of (a + of_nat i) = page_of a" "page_off (a + of_nat i) = page_off a + i"
    by (simp_all add: word_unat_eq_iff page_of_div page_off_mod u)
qed

function fake_read :: "pages \<Rightarrow> va_t \<Rightarrow> nat \<Rightarrow> byte list option" where
  "fake_read pages a n =
     (if n = 0 then Some []
      else (case pages (page_of a) of
          None \<Rightarrow> None
        | Some buf \<Rightarrow> (let avail = 4096 - page_off a; k = (if n < avail then n else avail) in
            map_option (\<lambda>rest. map (\<lambda>i. buf (page_off a + i)) [0..<k] @ rest)
              (fake_read pages (a + of_nat k) (n - k)))))"
  by pat_completeness auto

termination
  by (relation "measure (\<lambda>(pages, a, n). n)") (use page_off_less in \<open>auto simp: Let_def split: if_splits\<close>)

declare fake_read.simps [simp del]

definition fake_memory :: "pages \<Rightarrow> memory" where
  "fake_memory pages a = map_option (\<lambda>buf. buf (page_off a)) (pages (page_of a))"

lemma fake_read_contract:
  "fake_read pages a n =
     (if readable (fake_memory pages) a n then Some (content (fake_memory pages) a n) else None)"
proof (induction pages a n rule: fake_read.induct)
  case (1 pages a n)
  show ?case
  proof (cases "n = 0")
    case True
    then show ?thesis by (simp add: fake_read.simps content_def)
  next
    case False
    define k where "k = (if n < 4096 - page_off a then n else 4096 - page_off a)"
    have k: "0 < k" "k \<le> n" "page_off a + k \<le> 4096"
      using False page_off_less [of a] by (auto simp: k_def)
    have mem: "fake_memory pages (a + of_nat i) = map_option (\<lambda>buf. buf (page_off a + i)) (pages (page_of a))"
      if "i < k" for i
      using same_page [of a i] that k(3) by (simp add: fake_memory_def)
    show ?thesis
    proof (cases "pages (page_of a)")
      case None
      then have "\<not> readable (fake_memory pages) a n"
        using mem [OF k(1)] False unfolding readable_def by (intro notI) (auto dest: spec [of _ 0])
      with None False show ?thesis by (simp add: fake_read.simps)
    next
      case (Some buf)
      have front: "readable (fake_memory pages) a k"
          "content (fake_memory pages) a k = map (\<lambda>i. buf (page_off a + i)) [0..<k]"
        using mem by (auto simp: readable_def content_def Some)
      have ih: "fake_read pages (a + of_nat k) (n - k) =
          (if readable (fake_memory pages) (a + of_nat k) (n - k)
           then Some (content (fake_memory pages) (a + of_nat k) (n - k)) else None)"
        using 1 [OF False Some refl k_def] .
      have n: "n = k + (n - k)" using k(2) by simp
      have r: "readable (fake_memory pages) a n \<longleftrightarrow> readable (fake_memory pages) (a + of_nat k) (n - k)"
        using front(1) by (subst n) (simp only: readable_split simp_thms)
      have c: "content (fake_memory pages) a n =
          map (\<lambda>i. buf (page_off a + i)) [0..<k] @ content (fake_memory pages) (a + of_nat k) (n - k)"
        using front(2) by (subst n) (simp only: content_append)
      show ?thesis
        using False Some by (simp add: fake_read.simps [of pages a n] Let_def k_def [symmetric] ih r c)
    qed
  qed
qed

interpretation fake: memory_reader "fake_read pages" "fake_memory pages" for pages
  by unfold_locales (rule fake_read_contract)

section \<open>What a resilient read delivers\<close>

text \<open>
  C25.  \<open>resilient_read\<close> ends and delivers the readable memory: every run it gives the sink is the true
  content of readable addresses, nothing outside the range and no address twice is delivered, whenever
  the scan is cancelled; and when it is not, an address of the range is missing only if it belongs to
  an unreadable piece of at most \<open>min_leaf\<close> bytes, so with a leaf of one byte exactly the readable bytes
  arrive.
\<close>

theorem resilient_read_exact:
  assumes "memory_reader read mem"
  shows "case resilient_read read a n min_leaf tok of (runs, t) \<Rightarrow>
    list_all (run_true mem) runs \<and>
    mset (run_addrs runs) \<subseteq># mset (map (\<lambda>i. a + of_nat i) [0..<n]) \<and>
    (tok = None \<longrightarrow> (\<forall>i<n. a + of_nat i \<in> set (run_addrs runs) \<or> unread mem (leaf_size min_leaf) [(a, n)] (a + of_nat i))) \<and>
    (tok = None \<and> min_leaf = 1 \<longrightarrow> set (run_addrs runs) = {a + of_nat i | i. i < n \<and> mem (a + of_nat i) \<noteq> None})"
proof -
  let ?st = "[(a, n)]"
  note r = memory_reader.resilient_true [OF assms, of min_leaf tok ?st]
    memory_reader.resilient_within [OF assms, of min_leaf tok ?st]
  have c: "x \<in> set (run_addrs (fst (resilient read min_leaf tok ?st))) \<or> unread mem (leaf_size min_leaf) ?st x"
    if "tok = None" "x \<in> set (seg_addrs ?st)" for x
    using memory_reader.resilient_complete [OF assms, of ?st min_leaf] that by blast
  have t: "mem x \<noteq> None" if "x \<in> set (run_addrs rs)" "list_all (run_true mem) rs" for x rs
    using that by (induction rs) (auto simp: run_true_def readable_def)
  have w: "set (run_addrs (fst (resilient read min_leaf tok ?st))) \<subseteq> set (seg_addrs ?st)"
    using r(2) by (metis set_mset_mono set_mset_mset)
  let ?runs = "fst (resilient read min_leaf tok ?st)"
  have e: "set (run_addrs ?runs) = {a + of_nat i | i. i < n \<and> mem (a + of_nat i) \<noteq> None}"
    if tok: "tok = None" and leaf: "min_leaf = 1"
  proof (intro set_eqI iffI)
    fix x assume x: "x \<in> set (run_addrs ?runs)"
    then have "x \<in> set (seg_addrs ?st)" using w by blast
    then obtain i where "i < n" "x = a + of_nat i" by auto
    with t [OF x r(1)] show "x \<in> {a + of_nat i | i. i < n \<and> mem (a + of_nat i) \<noteq> None}" by blast
  next
    fix x assume "x \<in> {a + of_nat i | i. i < n \<and> mem (a + of_nat i) \<noteq> None}"
    then obtain i where i: "i < n" "x = a + of_nat i" "mem x \<noteq> None" by blast
    then have "x \<in> set (seg_addrs ?st)" by auto
    from c [OF tok this] show "x \<in> set (run_addrs ?runs)"
      using i(3) unread_one [of mem ?st x] leaf by (auto simp: leaf_size_def)
  qed
  have "a + of_nat i \<in> set (seg_addrs ?st)" if "i < n" for i using that by simp
  with c have c2: "a + of_nat i \<in> set (run_addrs ?runs) \<or> unread mem (leaf_size min_leaf) ?st (a + of_nat i)"
    if "tok = None" "i < n" for i using that by blast
  have m: "mset (run_addrs ?runs) \<subseteq># mset (map (\<lambda>i. a + of_nat i) [0..<n])" using r(2) by simp
  show ?thesis
    unfolding resilient_read_def case_prod_beta using r(1) m c2 e by blast
qed

theorem resilient_read_exact_witness:
  "set (run_addrs (fst (resilient_read (fake_read (\<lambda>p. if p = 4096 then Some (\<lambda>_. 7) else None)) 4090 10 1 None))) =
     {4090 + of_nat i | i. i < (10 :: nat) \<and> 6 \<le> i}"
proof -
  let ?p = "\<lambda>p :: va_t. if p = 4096 then Some (\<lambda>_ :: nat. 7 :: byte) else None"
  have "fake_memory ?p (4090 + of_nat i) \<noteq> None \<longleftrightarrow> 6 \<le> i" if "i < 10" for i
  proof -
    have "\<forall>i \<in> set [0..<10]. fake_memory ?p (4090 + of_nat i) \<noteq> None \<longleftrightarrow> 6 \<le> i"
      by code_simp
    with that show ?thesis by simp
  qed
  moreover have "memory_reader (fake_read ?p) (fake_memory ?p)" by unfold_locales
  ultimately show ?thesis
    using resilient_read_exact [where read = "fake_read ?p" and mem = "fake_memory ?p" and a = 4090 and n = 10
      and min_leaf = 1 and tok = None]
    by (auto simp: case_prod_beta)
qed

end
