(* ===== verification/Descent.thy ===== *)
theory Descent
  imports Analysis_Db Reader
begin

text \<open>
  Recursive descent (\<open>Analyzer::recursive_descent\<close>, \<open>descend\<close>, \<open>descend_queue\<close> of
  \<open>src/src/hyperion/core/analysis/analyzer.cpp\<close>): decoding everything that control flow reaches from the
  roots of an image.  The decoder of one instruction is the parameter \<open>dec\<close>, from an address and the
  bytes from there to the end of the segment to the instruction; Zydis and Capstone implement it.  The
  locks are left out: the root loop is serial.  A loop that may not end returns \<open>None\<close> in that case.
\<close>

type_synonym decoder = "va_t \<Rightarrow> u8 list \<Rightarrow> insn option"

text \<open>\<open>Analyzer::decode_insn\<close>: which of the two libraries decodes for an architecture.\<close>

definition use_capstone :: "arch \<Rightarrow> bool" where
  "use_capstone ar \<longleftrightarrow> ar \<noteq> X86 \<and> ar \<noteq> X64"

definition decode_insn :: "decoder \<Rightarrow> decoder \<Rightarrow> arch \<Rightarrow> decoder" where
  "decode_insn zydis capstone ar = (if use_capstone ar then capstone else zydis)"

section \<open>One straight-line walk\<close>

record walk =
  wk_insns :: "(va_t \<times> insn) list"
  wk_pending :: "(va_t \<times> insn) list"
  wk_since :: nat
  wk_wl :: "va_t list"
  wk_visited :: "va_t list"
  wk_hit :: bool

text \<open>The batched inserts: \<open>insert_or_assign\<close> of every pending pair.\<close>

definition flush :: "walk \<Rightarrow> walk" where
  "flush w = w\<lparr>wk_insns := fold (\<lambda>(a, i). AList.update a i) (wk_pending w) (wk_insns w), wk_pending := []\<rparr>"

definition over_budget :: "nat \<Rightarrow> walk \<Rightarrow> bool \<times> walk" where
  "over_budget budget w =
     (if budget = 0 \<or> length (wk_insns w) < budget then (False, w) else (True, w\<lparr>wk_hit := True\<rparr>))"

definition push_target :: "insn \<Rightarrow> walk \<Rightarrow> walk" where
  "push_target i w =
     (let t = branch_target i in
      if t \<noteq> 0 \<and> t \<notin> set (wk_visited w) then w\<lparr>wk_wl := wk_wl w @ [t]\<rparr> else w)"

text \<open>How an iteration ends: the walk is over, the descent is over, or the walk goes on.\<close>

datatype walk_end = Walk_Over | Descent_Over | Walk_On nat

definition after_insn :: "insn \<Rightarrow> walk \<Rightarrow> walk \<times> walk_end" where
  "after_insn i w =
     (if is_ret i then (w, Walk_Over)
      else let w1 = (if is_call i then push_target i w else w);
               w2 = (if is_branch i then push_target i w1 else w1)
        in (w2, if in_type i = IJmp then Walk_Over else Walk_On (in_len i)))"

definition walk_step :: "decoder \<Rightarrow> nat \<Rightarrow> va_t \<Rightarrow> u8 list \<Rightarrow> walk \<Rightarrow> walk \<times> walk_end" where
  "walk_step dec budget a d w =
     (case dec a d of None \<Rightarrow> (w, Walk_Over)
      | Some i \<Rightarrow>
        let check = 32 \<le> wk_since w + 1; w1 = w\<lparr>wk_since := (if check then 0 else wk_since w + 1)\<rparr> in
        if check \<and> map_of (wk_insns w) a \<noteq> None then (w1, Walk_Over)
        else let w2 = w1\<lparr>wk_pending := wk_pending w1 @ [(in_addr i, i)]\<rparr> in
          if 128 \<le> length (wk_pending w2) then
            (let (over, w3) = over_budget budget (flush w2) in
             if over then (w3, Descent_Over) else after_insn i w3)
          else after_insn i w2)"

partial_function (option) walk_from :: "decoder \<Rightarrow> nat \<Rightarrow> va_t \<Rightarrow> u8 list \<Rightarrow> walk \<Rightarrow> (walk \<times> bool) option" where
  "walk_from dec budget a d w =
     (if d = [] then Some (w, False)
      else if snd (walk_step dec budget a d w) = Walk_Over then Some (fst (walk_step dec budget a d w), False)
      else if snd (walk_step dec budget a d w) = Descent_Over then Some (fst (walk_step dec budget a d w), True)
      else walk_from dec budget
             (a + of_nat (case snd (walk_step dec budget a d w) of Walk_On n \<Rightarrow> n | _ \<Rightarrow> 0))
             (drop (case snd (walk_step dec budget a d w) of Walk_On n \<Rightarrow> n | _ \<Rightarrow> 0) d)
             (fst (walk_step dec budget a d w)))"

section \<open>The work list and the roots\<close>

text \<open>\<open>cancel_\<close> is polled once per address taken from the work list.\<close>

definition take_next :: "walk \<Rightarrow> walk" where
  "take_next w = w\<lparr>wk_wl := tl (wk_wl w), wk_visited := hd (wk_wl w) # wk_visited w\<rparr>"

definition has_code :: "segment_span list \<Rightarrow> va_t \<Rightarrow> bool" where
  "has_code idx a \<longleftrightarrow> is_code_addr idx a \<and> va_to_ptr idx a \<noteq> None"

partial_function (option) descend_queue ::
  "decoder \<Rightarrow> segment_span list \<Rightarrow> nat \<Rightarrow> token \<Rightarrow> walk \<Rightarrow> (walk \<times> token) option" where
  "descend_queue dec idx budget tok w =
     (if wk_wl w = [] then Some (flush w, tok)
      else if fst (poll tok) then Some (w, snd (poll tok))
      else if hd (wk_wl w) \<in> set (wk_visited w) then
        descend_queue dec idx budget (snd (poll tok)) (w\<lparr>wk_wl := tl (wk_wl w)\<rparr>)
      else if \<not> has_code idx (hd (wk_wl w)) then
        descend_queue dec idx budget (snd (poll tok)) (take_next w)
      else Option.bind (walk_from dec budget (hd (wk_wl w)) (the (va_to_ptr idx (hd (wk_wl w)))) (take_next w))
        (\<lambda>r. if snd r then Some (fst r, snd (poll tok))
             else descend_queue dec idx budget (snd (poll tok)) (flush (fst r))))"

record descent =
  ds_insns :: "(va_t \<times> insn) list"
  ds_visited :: "va_t list"
  ds_hit :: bool
  ds_token :: token

definition descend :: "decoder \<Rightarrow> segment_span list \<Rightarrow> nat \<Rightarrow> va_t \<Rightarrow> descent \<Rightarrow> descent option" where
  "descend dec idx budget a s =
     (let (over, w) = over_budget budget \<lparr>wk_insns = ds_insns s, wk_pending = [], wk_since = 0, wk_wl = [a],
            wk_visited = ds_visited s, wk_hit = ds_hit s\<rparr> in
      if over then Some (s\<lparr>ds_hit := wk_hit w\<rparr>)
      else map_option (\<lambda>(w', tok). \<lparr>ds_insns = wk_insns w', ds_visited = wk_visited w', ds_hit = wk_hit w',
             ds_token = tok\<rparr>) (descend_queue dec idx budget (ds_token s) w))"

fun descend_all :: "decoder \<Rightarrow> segment_span list \<Rightarrow> nat \<Rightarrow> va_t list \<Rightarrow> descent \<Rightarrow> descent option" where
  "descend_all dec idx budget [] s = Some s"
| "descend_all dec idx budget (a # as) s = Option.bind (descend dec idx budget a s) (descend_all dec idx budget as)"

definition descent_roots :: "pe_image \<Rightarrow> segment_span list \<Rightarrow> va_t list" where
  "descent_roots img idx = img_entry img #
     map ex_addr (filter (\<lambda>e. \<not> ex_forwarded e \<and> is_code_addr idx (ex_addr e)) (img_exports img)) @
     map sy_addr (filter (\<lambda>s. is_code_addr idx (sy_addr s)) (img_symbols img)) @
     map rf_start (img_runtime_funcs img)"

definition recursive_descent :: "decoder \<Rightarrow> pe_image \<Rightarrow> nat \<Rightarrow> token \<Rightarrow> descent option" where
  "recursive_descent dec img budget tok =
     (let idx = build_segment_index img in
      descend_all dec idx budget (descent_roots img idx)
        \<lparr>ds_insns = [], ds_visited = [], ds_hit = False, ds_token = tok\<rparr>)"

declare walk_from.simps [code] descend_queue.simps [code]

end
