(* ===== verification/Cfg.thy ===== *)
theory Cfg
  imports Descent
begin

text \<open>
  Functions and their control-flow graphs (\<open>Analyzer::detect_functions\<close>, \<open>build_cfgs\<close>,
  \<open>build_one_cfg\<close>).  The workers of \<open>parallel_for\<close> touch one function each and read the rest, so the
  functions are treated one after the other.  Hash sets are lists without duplicates in the order of
  insertion.
\<close>

section \<open>Functions\<close>

definition sub_name :: "pe_image \<Rightarrow> va_t \<Rightarrow> string" where
  "sub_name img a = ''sub_'' @ hex_upper (a - img_base img)"

definition has_insn :: "analysis_db \<Rightarrow> va_t \<Rightarrow> bool" where
  "has_insn db a \<longleftrightarrow> map_of (db_insns db) a \<noteq> None"

definition has_func :: "analysis_db \<Rightarrow> va_t \<Rightarrow> bool" where
  "has_func db a \<longleftrightarrow> map_of (db_funcs db) a \<noteq> None"

definition call_targets :: "analysis_db \<Rightarrow> va_t list" where
  "call_targets db = filter (\<lambda>t. t \<noteq> 0 \<and> has_insn db t)
     (map (\<lambda>(a, i). branch_target i) (filter (\<lambda>(a, i). is_call i) (db_insns db)))"

definition function_entries :: "pe_image \<Rightarrow> segment_span list \<Rightarrow> bool \<Rightarrow> analysis_db \<Rightarrow> va_t list" where
  "function_entries img idx truncated db = remdups (img_entry img #
     map ex_addr (filter (\<lambda>e. \<not> ex_forwarded e \<and> is_code_addr idx (ex_addr e)) (img_exports img)) @
     map sy_addr (filter (\<lambda>s. is_code_addr idx (sy_addr s)) (img_symbols img)) @
     map rf_start (filter (\<lambda>rf. \<not> (truncated \<and> \<not> has_insn db (rf_start rf))) (img_runtime_funcs img)) @
     call_targets db)"

definition apply_range :: "runtime_func \<Rightarrow> analysis_db \<Rightarrow> analysis_db" where
  "apply_range rf db =
     (if has_func db (rf_start rf) \<and> rf_start rf < rf_end rf
      then db\<lparr>db_funcs := AList.map_entry (rf_start rf)
             (\<lambda>f. f\<lparr>fn_ranges := fn_ranges f @ [(rf_start rf, rf_end rf)]\<rparr>) (db_funcs db)\<rparr>
      else db)"

definition detect_functions :: "pe_image \<Rightarrow> segment_span list \<Rightarrow> bool \<Rightarrow> analysis_db \<Rightarrow> analysis_db" where
  "detect_functions img idx truncated db =
     fold apply_range (img_runtime_funcs img)
       (fold (\<lambda>e. add_func (new_func e (sub_name img e))) (function_entries img idx truncated db) db)"

section \<open>One block\<close>

text \<open>What the graph of one function is built from.\<close>

record cfg_env =
  ce_insn :: "va_t \<Rightarrow> insn option"
  ce_is_func :: "va_t \<Rightarrow> bool"
  ce_recovered :: "va_t \<Rightarrow> va_t list"
  ce_entry :: va_t
  ce_ranges :: "(va_t \<times> va_t) list"

definition in_ranges :: "cfg_env \<Rightarrow> va_t \<Rightarrow> bool" where
  "in_ranges ce a \<longleftrightarrow> ce_ranges ce = [] \<or> (\<exists>(s, e) \<in> set (ce_ranges ce). s \<le> a \<and> a < e)"

text \<open>The successors when the block ends after \<open>i\<close>, with \<open>cur\<close> the next address; \<open>None\<close> when it goes on.\<close>

definition block_exit :: "cfg_env \<Rightarrow> insn \<Rightarrow> va_t \<Rightarrow> va_t list option" where
  "block_exit ce i cur =
     (let direct = (if branch_target i \<noteq> 0 then [branch_target i] else []) in
      if is_ret i then Some []
      else if in_type i = IJmp then Some (direct @ ce_recovered ce (in_addr i))
      else if is_cond_jmp i then Some (direct @ [cur])
      else if cur \<noteq> ce_entry ce \<and> ce_is_func ce cur then Some []
      else None)"

definition insn_at :: "cfg_env \<Rightarrow> va_t \<Rightarrow> insn option" where
  "insn_at ce a = (if in_ranges ce a then ce_insn ce a else None)"

definition after :: "cfg_env \<Rightarrow> va_t \<Rightarrow> va_t" where
  "after ce a = a + of_nat (in_len (the (insn_at ce a)))"

definition exit_at :: "cfg_env \<Rightarrow> va_t \<Rightarrow> va_t list option" where
  "exit_at ce a = block_exit ce (the (insn_at ce a)) (after ce a)"

partial_function (option) walk_block :: "cfg_env \<Rightarrow> va_t \<Rightarrow> insn list \<Rightarrow> (insn list \<times> va_t list \<times> va_t) option" where
  "walk_block ce cur acc =
     (if insn_at ce cur = None then Some (acc, [], cur)
      else if exit_at ce cur = None then walk_block ce (after ce cur) (acc @ [the (insn_at ce cur)])
      else Some (acc @ [the (insn_at ce cur)], the (exit_at ce cur), after ce cur))"

declare walk_block.simps [code]

definition make_block :: "va_t \<Rightarrow> insn list \<times> va_t list \<times> va_t \<Rightarrow> basic_block" where
  "make_block a r = (case r of (is, ss, e) \<Rightarrow>
     \<lparr>bb_start = a, bb_insns = is, bb_succs = ss, bb_end = e, bb_preds = []\<rparr>)"

section \<open>The graph of a function\<close>

record cfg_state =
  cf_wl :: "va_t list"
  cf_visited :: "va_t list"
  cf_blocks :: "(va_t \<times> basic_block) list"
  cf_addrs :: "va_t list"

definition cfg_take :: "cfg_state \<Rightarrow> cfg_state" where
  "cfg_take s = s\<lparr>cf_wl := tl (cf_wl s), cf_visited := hd (cf_wl s) # cf_visited s\<rparr>"

text \<open>Every successor was pushed; a block without instructions is dropped.\<close>

definition cfg_add :: "va_t \<Rightarrow> insn list \<times> va_t list \<times> va_t \<Rightarrow> cfg_state \<Rightarrow> cfg_state" where
  "cfg_add a r s =
     (let bb = make_block a r; s' = s\<lparr>cf_wl := cf_wl s @ bb_succs bb\<rparr> in
      if bb_insns bb = [] then s'
      else s'\<lparr>cf_blocks := AList.update a bb (cf_blocks s'), cf_addrs := cf_addrs s' @ [a]\<rparr>)"

partial_function (option) cfg_loop :: "cfg_env \<Rightarrow> cfg_state \<Rightarrow> cfg_state option" where
  "cfg_loop ce s =
     (if cf_wl s = [] then Some s
      else if hd (cf_wl s) \<in> set (cf_visited s) then cfg_loop ce (s\<lparr>cf_wl := tl (cf_wl s)\<rparr>)
      else Option.bind (walk_block ce (hd (cf_wl s)) [])
             (\<lambda>r. cfg_loop ce (cfg_add (hd (cf_wl s)) r (cfg_take s))))"

declare cfg_loop.simps [code]

definition sort_succs :: "basic_block \<Rightarrow> basic_block" where
  "sort_succs bb = bb\<lparr>bb_succs := remdups_adj (sort (bb_succs bb)), bb_preds := []\<rparr>"

definition push_pred :: "va_t \<Rightarrow> va_t \<Rightarrow> (va_t \<times> basic_block) list \<Rightarrow> (va_t \<times> basic_block) list" where
  "push_pred ba s bs = AList.map_entry s (\<lambda>bb. bb\<lparr>bb_preds := bb_preds bb @ [ba]\<rparr>) bs"

definition link_preds :: "(va_t \<times> basic_block) list \<Rightarrow> (va_t \<times> basic_block) list" where
  "link_preds bs = fold (\<lambda>(ba, bb). fold (push_pred ba) (bb_succs bb)) bs bs"

definition env_of :: "(va_t \<Rightarrow> va_t list) \<Rightarrow> analysis_db \<Rightarrow> func \<Rightarrow> cfg_env" where
  "env_of recovered db f = \<lparr>ce_insn = map_of (db_insns db), ce_is_func = has_func db, ce_recovered = recovered,
     ce_entry = fn_entry f, ce_ranges = fn_ranges f\<rparr>"

definition build_one_cfg :: "(va_t \<Rightarrow> va_t list) \<Rightarrow> analysis_db \<Rightarrow> func \<Rightarrow> func option" where
  "build_one_cfg recovered db f =
     map_option (\<lambda>s. f\<lparr>fn_blocks := link_preds (map (\<lambda>(a, bb). (a, sort_succs bb)) (cf_blocks s)),
           fn_block_addrs := cf_addrs s, fn_analyzed := True\<rparr>)
       (cfg_loop (env_of recovered db f)
          \<lparr>cf_wl = [fn_entry f], cf_visited = [], cf_blocks = fn_blocks f, cf_addrs = fn_block_addrs f\<rparr>)"

section \<open>All functions, or those of a round\<close>

definition in_scope :: "va_t set option \<Rightarrow> va_t \<Rightarrow> bool" where
  "in_scope only a = (case only of None \<Rightarrow> True | Some s \<Rightarrow> a \<in> s)"

definition clear_cfg :: "func \<Rightarrow> func" where
  "clear_cfg f = f\<lparr>fn_blocks := [], fn_block_addrs := [], fn_analyzed := False\<rparr>"

text \<open>The token is polled once per function; a cancelled worker leaves the function without a graph.\<close>

fun build_scope ::
  "(va_t \<Rightarrow> va_t list) \<Rightarrow> analysis_db \<Rightarrow> va_t set option \<Rightarrow> token \<Rightarrow> (va_t \<times> func) list \<Rightarrow> ((va_t \<times> func) list \<times> token) option" where
  "build_scope recovered db only tok [] = Some ([], tok)"
| "build_scope recovered db only tok ((a, f) # fs) =
     (if \<not> in_scope only a then map_option (\<lambda>(gs, t). ((a, f) # gs, t)) (build_scope recovered db only tok fs)
      else if fst (poll tok)
        then map_option (\<lambda>(gs, t). ((a, clear_cfg f) # gs, t)) (build_scope recovered db only (snd (poll tok)) fs)
      else Option.bind (build_one_cfg recovered db (clear_cfg f))
        (\<lambda>g. map_option (\<lambda>(gs, t). ((a, g) # gs, t)) (build_scope recovered db only (snd (poll tok)) fs)))"

definition build_cfgs ::
  "(va_t \<Rightarrow> va_t list) \<Rightarrow> va_t set option \<Rightarrow> token \<Rightarrow> analysis_db \<Rightarrow> (analysis_db \<times> token) option" where
  "build_cfgs recovered only tok db =
     map_option (\<lambda>(fs, t). (db\<lparr>db_funcs := fs\<rparr>, t)) (build_scope recovered db only tok (db_funcs db))"

end
