(* ===== verification/Discover.thy ===== *)
theory Discover
  imports Cfg
begin

text \<open>
  Indirect control flow (\<open>Analyzer::detect_switches\<close>, \<open>propagate_dataflow\<close>) and the rounds that feed
  what it finds back into the graphs (\<open>discover_cfg_fixed_point\<close>).  The workers append to shared tables
  under a lock; they are taken in the order of the functions.
\<close>

text \<open>The members these passes share.\<close>

record analyzer =
  an_db :: analysis_db
  an_recovered :: "(va_t \<times> va_t list) list"
  an_dirty :: "va_t set"
  an_token :: token

definition recovered_at :: "analyzer \<Rightarrow> va_t \<Rightarrow> va_t list" where
  "recovered_at s a = (case map_of (an_recovered s) a of Some ts \<Rightarrow> ts | None \<Rightarrow> [])"

text \<open>\<open>recovered_edges_[site].push_back(target)\<close>.\<close>

definition push_edge :: "va_t \<Rightarrow> va_t \<Rightarrow> analyzer \<Rightarrow> analyzer" where
  "push_edge site t s = s\<lparr>an_recovered := AList.update site (recovered_at s site @ [t]) (an_recovered s)\<rparr>"

section \<open>Switch tables\<close>

definition u32_of :: "nat \<Rightarrow> nat" where
  "u32_of n = unat (of_nat n :: u32)"

text \<open>The entries of a table up to the first that is not an address of code.\<close>

definition table_targets :: "segment_span list \<Rightarrow> (nat \<Rightarrow> va_t) \<Rightarrow> nat \<Rightarrow> va_t list" where
  "table_targets idx entry n = takeWhile (is_code_addr idx) (map entry [0..<n])"

definition abs_entry :: "u8 list \<Rightarrow> nat \<Rightarrow> va_t" where
  "abs_entry tbl e = of_nat (le_value (take 8 (drop (e * 8) tbl)))"

definition rel_entry :: "va_t \<Rightarrow> u8 list \<Rightarrow> nat \<Rightarrow> va_t" where
  "rel_entry base tbl e = base + scast (of_nat (le_value (take 4 (drop (e * 4) tbl))) :: u32)"

definition table_base :: "insn list \<Rightarrow> va_t" where
  "table_base is =
     (case find (\<lambda>i. in_type i = ILea \<and> 2 \<le> in_op_count i \<and> o_type (operand_at i 1) = OMem \<and> o_val (operand_at i 1) \<noteq> 0)
             (rev (butlast is)) of
        Some i \<Rightarrow> o_val (operand_at i 1) | None \<Rightarrow> 0)"

definition case_bound :: "insn \<Rightarrow> nat \<Rightarrow> nat" where
  "case_bound i n =
     (if in_type i = ICmp \<and> 2 \<le> in_op_count i \<and> o_type (operand_at i 1) = OImm
      then min 512 (u32_of (u32_of (unat (o_val (operand_at i 1))) + 1)) else n)"

definition max_cases :: "func \<Rightarrow> basic_block \<Rightarrow> nat" where
  "max_cases f bb = fold (\<lambda>p n. case map_of (fn_blocks f) p of None \<Rightarrow> n
      | Some pb \<Rightarrow> fold case_bound (bb_insns pb) n) (bb_preds bb) 64"

definition switch_targets :: "segment_span list \<Rightarrow> func \<Rightarrow> basic_block \<Rightarrow> va_t list" where
  "switch_targets idx f bb =
     (let is = bb_insns bb; lst = last is; oper = operand_at lst 0 in
      if length is < 2 \<or> in_type lst \<noteq> IJmp \<or> in_op_count lst < 1 then []
      else if o_type oper = OMem \<and> o_base oper = 0 \<and> o_index oper \<noteq> 0 \<and> o_val oper \<noteq> 0 then
        (case va_to_ptr idx (o_val oper) of None \<Rightarrow> []
         | Some tbl \<Rightarrow> table_targets idx (abs_entry tbl) (min 256 (u32_of (length tbl div 8))))
      else if table_base is = 0 then []
      else
        (case va_to_ptr idx (table_base is) of None \<Rightarrow> []
         | Some tbl \<Rightarrow> table_targets idx (rel_entry (table_base is) tbl)
             (min (max_cases f bb) (u32_of (length tbl div 4)))))"

definition switch_block :: "segment_span list \<Rightarrow> va_t \<Rightarrow> func \<Rightarrow> basic_block \<Rightarrow> analyzer \<Rightarrow> basic_block \<times> analyzer" where
  "switch_block idx entry f bb s =
     (let ts = switch_targets idx f bb in
      (bb\<lparr>bb_succs := bb_succs bb @ ts\<rparr>,
       (if ts = [] then s
        else fold (push_edge (in_addr (last (bb_insns bb)))) ts (s\<lparr>an_dirty := insert entry (an_dirty s)\<rparr>))))"

fun switch_blocks ::
  "segment_span list \<Rightarrow> va_t \<Rightarrow> func \<Rightarrow> (va_t \<times> basic_block) list \<Rightarrow> analyzer \<Rightarrow> (va_t \<times> basic_block) list \<times> analyzer" where
  "switch_blocks idx entry f [] s = ([], s)"
| "switch_blocks idx entry f ((a, bb) # bs) s =
     (let (bb', s1) = switch_block idx entry f bb s; (bs', s2) = switch_blocks idx entry f bs s1 in ((a, bb') # bs', s2))"

definition poll_token :: "analyzer \<Rightarrow> bool \<times> analyzer" where
  "poll_token s = (let (c, t) = poll (an_token s) in (c, s\<lparr>an_token := t\<rparr>))"

fun switch_funcs :: "segment_span list \<Rightarrow> va_t set option \<Rightarrow> (va_t \<times> func) list \<Rightarrow> analyzer \<Rightarrow> (va_t \<times> func) list \<times> analyzer" where
  "switch_funcs idx only [] s = ([], s)"
| "switch_funcs idx only ((a, f) # fs) s =
     (if \<not> (fn_analyzed f \<and> in_scope only a) then (let (fs', s') = switch_funcs idx only fs s in ((a, f) # fs', s'))
      else let (c, s0) = poll_token s in
        if c then (let (fs', s') = switch_funcs idx only fs s0 in ((a, f) # fs', s'))
        else let (bs, s1) = switch_blocks idx (fn_entry f) f (fn_blocks f) s0; (fs', s2) = switch_funcs idx only fs s1
          in ((a, f\<lparr>fn_blocks := bs\<rparr>) # fs', s2))"

definition detect_switches :: "segment_span list \<Rightarrow> va_t set option \<Rightarrow> analyzer \<Rightarrow> analyzer" where
  "detect_switches idx only s =
     (let (fs, s') = switch_funcs idx only (db_funcs (an_db s)) s in s'\<lparr>an_db := (an_db s')\<lparr>db_funcs := fs\<rparr>\<rparr>)"

section \<open>Constant addresses in registers\<close>

type_synonym reg_vals = "u16 \<Rightarrow> va_t option"

definition resolve :: "va_t \<Rightarrow> va_t \<Rightarrow> va_t \<Rightarrow> analyzer \<Rightarrow> analyzer" where
  "resolve site t entry s =
     (let known = map_of (db_resolved_indirect (an_db s)) site \<noteq> None in
      s\<lparr>an_dirty := (if known then an_dirty s else insert entry (an_dirty s)),
        an_db := (an_db s)\<lparr>db_resolved_indirect := AList.update site t (db_resolved_indirect (an_db s))\<rparr>\<rparr>)"

definition track_reg :: "insn \<Rightarrow> reg_vals \<Rightarrow> reg_vals" where
  "track_reg i rv =
     (let a = operand_at i 0; b = operand_at i 1 in
      if in_type i = IMov \<and> 2 \<le> in_op_count i \<and> o_type a = OReg \<and> o_type b = OImm then rv(o_reg a \<mapsto> o_val b)
      else if in_type i = ILea \<and> 2 \<le> in_op_count i \<and> o_type a = OReg \<and> o_type b = OMem \<and> o_val b \<noteq> 0
        then rv(o_reg a \<mapsto> o_val b)
      else if 0 < in_op_count i \<and> o_type a = OReg \<and> in_type i \<noteq> ICmp \<and> in_type i \<noteq> ITest then rv(o_reg a := None)
      else rv)"

text \<open>The address an indirect call or jump goes to, when the tracked registers give it.\<close>

definition indirect_target :: "segment_span list \<Rightarrow> arch \<Rightarrow> insn \<Rightarrow> reg_vals \<Rightarrow> va_t option" where
  "indirect_target idx ar i rv =
     (let a = operand_at i 0 in
      if (is_call i \<or> in_type i = IJmp) \<and> 0 < in_op_count i \<and> o_type a = OReg then
        (case rv (o_reg a) of Some v \<Rightarrow> if v \<noteq> 0 \<and> is_code_addr idx v then Some v else None | None \<Rightarrow> None)
      else if (is_call i \<or> in_type i = IJmp) \<and> 0 < in_op_count i \<and> o_type a = OMem \<and> o_base a \<noteq> 0 \<and> o_val a = 0 then
        (case rv (o_base a) of None \<Rightarrow> None
         | Some v \<Rightarrow> if v = 0 then None
            else (case va_to_ptr idx (v + o_disp a) of None \<Rightarrow> None
              | Some d \<Rightarrow> if length d < 8 then None
                  else let t = of_nat (le_value (take (ptr_size ar) d)) in
                    if is_code_addr idx t then Some t else None))
      else None)"

definition flow_insn :: "segment_span list \<Rightarrow> arch \<Rightarrow> va_t \<Rightarrow> insn \<Rightarrow> reg_vals \<times> analyzer \<Rightarrow> reg_vals \<times> analyzer" where
  "flow_insn idx ar entry i st =
     (let rv = track_reg i (fst st);
          s = (case indirect_target idx ar i rv of Some t \<Rightarrow> resolve (in_addr i) t entry (snd st) | None \<Rightarrow> snd st)
      in (if is_call i then Map.empty else rv, s))"

text \<open>The blocks are taken in the order of their discovery, with one register map for the function.\<close>

definition flow_func :: "segment_span list \<Rightarrow> arch \<Rightarrow> func \<Rightarrow> analyzer \<Rightarrow> analyzer" where
  "flow_func idx ar f s =
     snd (fold (\<lambda>a st. case map_of (fn_blocks f) a of None \<Rightarrow> st
        | Some bb \<Rightarrow> fold (flow_insn idx ar (fn_entry f)) (bb_insns bb) st) (fn_block_addrs f) (Map.empty, s))"

definition flow_one :: "segment_span list \<Rightarrow> arch \<Rightarrow> va_t set option \<Rightarrow> va_t \<times> func \<Rightarrow> analyzer \<Rightarrow> analyzer" where
  "flow_one idx ar only p s =
     (if \<not> fn_analyzed (snd p) \<or> fn_blocks (snd p) = [] \<or> \<not> in_scope only (fst p) then s
      else let (c, s') = poll_token s in if c then s' else flow_func idx ar (snd p) s')"

definition propagate_dataflow :: "segment_span list \<Rightarrow> arch \<Rightarrow> va_t set option \<Rightarrow> analyzer \<Rightarrow> analyzer" where
  "propagate_dataflow idx ar only s = fold (flow_one idx ar only) (db_funcs (an_db s)) s"

section \<open>The rounds\<close>

text \<open>
  A resolved call to an address that is no function makes one; a resolved jump becomes an edge.
\<close>

definition new_functions :: "analysis_db \<Rightarrow> va_t list" where
  "new_functions db = List.map_filter (\<lambda>(site, t). case map_of (db_insns db) site of
      Some i \<Rightarrow> if is_call i \<and> \<not> has_func db t then Some t else None | None \<Rightarrow> None) (db_resolved_indirect db)"

definition add_jump_edges :: "analyzer \<Rightarrow> analyzer" where
  "add_jump_edges s = fold (\<lambda>(site, t) s. case map_of (db_insns (an_db s)) site of
      Some i \<Rightarrow> if \<not> is_call i \<and> in_type i = IJmp then push_edge site t s else s | None \<Rightarrow> s)
      (db_resolved_indirect (an_db s)) s"

definition tidy_edges :: "analyzer \<Rightarrow> analyzer" where
  "tidy_edges s = s\<lparr>an_recovered := map (\<lambda>(a, ts). (a, remdups_adj (sort ts))) (an_recovered s)\<rparr>"

definition edge_count :: "analyzer \<Rightarrow> nat" where
  "edge_count s = sum_list (map (\<lambda>(a, ts). length ts) (an_recovered s))"

definition rebuild :: "va_t set option \<Rightarrow> analyzer \<Rightarrow> analyzer option" where
  "rebuild only s = map_option (\<lambda>(db, t). s\<lparr>an_db := db, an_token := t\<rparr>)
     (build_cfgs (recovered_at s) only (an_token s) (an_db s))"

text \<open>One round: the state after it and the functions it added.\<close>

definition discover_round :: "pe_image \<Rightarrow> segment_span list \<Rightarrow> va_t set option \<Rightarrow> analyzer \<Rightarrow> (analyzer \<times> va_t list) option" where
  "discover_round img idx only s =
     map_option (\<lambda>s1.
       (let s2 = propagate_dataflow idx (img_arch img) only (detect_switches idx only s1);
            new = new_functions (an_db s2); s3 = add_jump_edges s2;
            s4 = s3\<lparr>an_db := fold (\<lambda>e. add_func (new_func e (sub_name img e))) new (an_db s3)\<rparr>
        in (tidy_edges s4, new)))
       (rebuild only (s\<lparr>an_dirty := {}\<rparr>))"

fun discover_loop ::
  "pe_image \<Rightarrow> segment_span list \<Rightarrow> nat \<Rightarrow> va_t set option \<Rightarrow> (nat \<times> nat) option \<Rightarrow> analyzer \<Rightarrow> analyzer option" where
  "discover_loop img idx 0 only prev s =
     (if only = None \<or> only = Some {} then Some s else rebuild only s)"
| "discover_loop img idx (Suc k) only prev s =
     (let (c, s0) = poll_token s in
      if c then Some s0
      else if only = Some {} then Some s0
      else Option.bind (discover_round img idx only s0) (\<lambda>(s1, new).
        let now = Some (edge_count s1, length (db_funcs (an_db s1))) in
        if prev = now then Some s1
        else discover_loop img idx k (Some (an_dirty s1 \<union> set new)) now (s1\<lparr>an_dirty := {}\<rparr>)))"

text \<open>\<open>kMaxIterations\<close> rounds at most; the first looks at every function.\<close>

definition discover_cfg_fixed_point :: "pe_image \<Rightarrow> segment_span list \<Rightarrow> analyzer \<Rightarrow> analyzer option" where
  "discover_cfg_fixed_point img idx s = discover_loop img idx 4 None None s"

end
