(* ===== verification/Cfg_Correct.thy ===== *)
theory Cfg_Correct
  imports Cfg
begin

text \<open>
  The graph \<open>build_one_cfg\<close> builds.  \<open>flows\<close> is the control flow from one instruction of the function
  to the next, \<open>reachable\<close> its closure from the entry, \<open>leaders\<close> the entry and every address a block
  exit leads to.  The blocks start at exactly the leaders that are decoded, hold exactly the reachable
  instructions, and their edges are sorted, without duplicates and inverse to each other.
\<close>

section \<open>Control flow\<close>

inductive flows :: "cfg_env \<Rightarrow> va_t \<Rightarrow> va_t \<Rightarrow> bool" for ce where
  straight: "insn_at ce a \<noteq> None \<Longrightarrow> exit_at ce a = None \<Longrightarrow> flows ce a (after ce a)"
| leaves: "insn_at ce a \<noteq> None \<Longrightarrow> exit_at ce a = Some ss \<Longrightarrow> s \<in> set ss \<Longrightarrow> flows ce a s"

inductive_cases flowsE: "flows ce a b"

definition reachable :: "cfg_env \<Rightarrow> va_t set" where
  "reachable ce = {a. (flows ce)\<^sup>*\<^sup>* (ce_entry ce) a}"

definition leaders :: "cfg_env \<Rightarrow> va_t set" where
  "leaders ce = insert (ce_entry ce)
     {s. \<exists>a ss. a \<in> reachable ce \<and> insn_at ce a \<noteq> None \<and> exit_at ce a = Some ss \<and> s \<in> set ss}"

lemma reachable_step: "a \<in> reachable ce \<Longrightarrow> flows ce a b \<Longrightarrow> b \<in> reachable ce"
  by (auto simp: reachable_def intro: rtranclp.rtrancl_into_rtrancl)

lemma entry_reachable: "ce_entry ce \<in> reachable ce"
  by (simp add: reachable_def)

lemma leaders_reachable: "leaders ce \<subseteq> reachable ce"
  using entry_reachable reachable_step by (fastforce simp: leaders_def intro: leaves)

section \<open>One block\<close>

inductive run :: "cfg_env \<Rightarrow> va_t \<Rightarrow> insn list \<Rightarrow> va_t list \<Rightarrow> va_t \<Rightarrow> bool" for ce where
  stop: "insn_at ce a = None \<Longrightarrow> run ce a [] [] a"
| exit: "insn_at ce a = Some i \<Longrightarrow> exit_at ce a = Some ss \<Longrightarrow> run ce a [i] ss (after ce a)"
| more: "insn_at ce a = Some i \<Longrightarrow> exit_at ce a = None \<Longrightarrow> run ce (after ce a) is ss e \<Longrightarrow> run ce a (i # is) ss e"

text \<open>The addresses of the instructions of a block that starts at \<open>a\<close>.\<close>

fun addrs_from :: "va_t \<Rightarrow> insn list \<Rightarrow> va_t list" where
  "addrs_from a [] = []"
| "addrs_from a (i # is) = a # addrs_from (a + of_nat (in_len i)) is"

definition env_ok :: "cfg_env \<Rightarrow> bool" where
  "env_ok ce \<longleftrightarrow> (\<forall>a i. insn_at ce a = Some i \<longrightarrow> 0 < in_len i \<and> unat a + in_len i < 2 ^ 64)"

lemma after_greater:
  assumes "env_ok ce" "insn_at ce a = Some i"
  shows "unat a < unat (after ce a)"
proof -
  have len: "0 < in_len i" "unat a + in_len i < 2 ^ 64" using assms by (auto simp: env_ok_def)
  then have "unat (of_nat (in_len i) :: va_t) = in_len i" by (simp add: unat_of_nat)
  with len assms(2) show ?thesis by (simp add: after_def unat_word_ariths)
qed

lemma walk_block_run:
  assumes "env_ok ce"
  shows "\<exists>is ss e. walk_block ce a acc = Some (acc @ is, ss, e) \<and> run ce a is ss e"
proof (induction "2 ^ 64 - unat a" arbitrary: a acc rule: less_induct)
  case less
  show ?case
  proof (cases "insn_at ce a")
    case None
    then show ?thesis by (auto simp: walk_block.simps [of ce a acc] intro: run.stop)
  next
    case (Some i)
    show ?thesis
    proof (cases "exit_at ce a")
      case (Some ss)
      with \<open>insn_at ce a = Some i\<close> run.exit show ?thesis by (fastforce simp: walk_block.simps [of ce a acc])
    next
      case None
      have "unat (after ce a) < 2 ^ 64" using unsigned_less [of "after ce a", where 'a = nat] by simp
      then have "2 ^ 64 - unat (after ce a) < 2 ^ 64 - unat a"
        using after_greater [OF assms Some] by linarith
      then obtain "is" ss e where "walk_block ce (after ce a) (acc @ [i]) = Some ((acc @ [i]) @ is, ss, e)"
          "run ce (after ce a) is ss e" using less.hyps by blast
      with None Some show ?thesis by (auto simp: walk_block.simps [of ce a acc] intro: run.more)
    qed
  qed
qed

lemma run_empty: "run ce a is ss e \<Longrightarrow> is = [] \<longleftrightarrow> insn_at ce a = None"
  by (auto elim: run.cases)

lemma run_no_insn: "run ce a is ss e \<Longrightarrow> insn_at ce a = None \<Longrightarrow> ss = []"
  by (auto elim: run.cases)

text \<open>
  In a block, control flows to the next instruction of the block or out of its last one.
\<close>

lemma run_addrs:
  assumes "run ce a is ss e" "x \<in> set (addrs_from a is)"
  shows "insn_at ce x \<noteq> None \<and> (\<forall>y. flows ce x y \<longrightarrow> insn_at ce y \<noteq> None \<longrightarrow> y \<in> set (addrs_from a is) \<or> y \<in> set ss)"
  using assms
proof (induction rule: run.induct)
  case (exit a i ss)
  then show ?case by (auto elim: flowsE)
next
  case (more a i "is" ss e)
  have af: "after ce a = a + of_nat (in_len i)" using more.hyps(1) by (simp add: after_def)
  show ?case
  proof (cases "x = a")
    case True
    have "y \<in> set (addrs_from (after ce a) is)" if "flows ce a y" "insn_at ce y \<noteq> None" for y
    proof -
      have "y = after ce a" using that(1) more.hyps(2) by (auto elim: flowsE)
      with that(2) more.hyps(3) have "is \<noteq> []" by (auto simp: run_empty)
      with \<open>y = after ce a\<close> show ?thesis by (cases "is") auto
    qed
    with True more.hyps(1) af show ?thesis by auto
  next
    case False
    with more.prems af have "x \<in> set (addrs_from (after ce a) is)" by simp
    with more.IH af show ?thesis by auto
  qed
qed simp

lemma run_reachable:
  assumes "run ce a is ss e" "a \<in> reachable ce"
  shows "set (addrs_from a is) \<subseteq> reachable ce \<and> set ss \<subseteq> leaders ce"
  using assms
proof (induction rule: run.induct)
  case (exit a i ss)
  then show ?case by (fastforce simp: leaders_def)
next
  case (more a i "is" ss e)
  have "after ce a \<in> reachable ce" using more.hyps(1,2) more.prems by (fastforce intro: reachable_step straight)
  with more show ?case by (simp add: after_def)
qed simp

lemma run_leaves:
  assumes "run ce a is ss e" "x \<in> set (addrs_from a is)" "exit_at ce x = Some ts"
  shows "ts = ss"
  using assms
proof (induction rule: run.induct)
  case (more a i "is" ss e)
  then show ?case by (auto simp: after_def)
qed auto

section \<open>The work list\<close>

definition cfg_inv :: "cfg_env \<Rightarrow> cfg_state \<Rightarrow> bool" where
  "cfg_inv ce s \<longleftrightarrow>
     set (cf_visited s) \<union> set (cf_wl s) \<subseteq> leaders ce \<and>
     ce_entry ce \<in> set (cf_visited s) \<union> set (cf_wl s) \<and>
     distinct (map fst (cf_blocks s)) \<and>
     fst ` set (cf_blocks s) = {v \<in> set (cf_visited s). insn_at ce v \<noteq> None} \<and>
     (\<forall>(a, bb) \<in> set (cf_blocks s). \<exists>is ss e. run ce a is ss e \<and> bb = make_block a (is, ss, e) \<and>
        set ss \<subseteq> set (cf_visited s) \<union> set (cf_wl s)) \<and>
     cf_addrs s = map fst (cf_blocks s)"

lemma update_new: "k \<notin> fst ` set xs \<Longrightarrow> AList.update k v xs = xs @ [(k, v)]"
  by (induction xs) auto

lemma cfg_add_inv:
  assumes inv: "cfg_inv ce s" and ne: "cf_wl s \<noteq> []" and new: "hd (cf_wl s) \<notin> set (cf_visited s)"
    and r: "run ce (hd (cf_wl s)) is ss e"
  shows "cfg_inv ce (cfg_add (hd (cf_wl s)) (is, ss, e) (cfg_take s))"
proof -
  define h where "h = hd (cf_wl s)"
  let ?s = "cfg_add h (is, ss, e) (cfg_take s)"
  have wl: "set (cf_wl s) = insert h (set (tl (cf_wl s)))" using ne by (cases "cf_wl s") (simp_all add: h_def)
  have hl: "h \<in> leaders ce" using inv wl by (auto simp: cfg_inv_def)
  then have ssl: "set ss \<subseteq> leaders ce" using run_reachable r leaders_reachable h_def by blast
  have vis: "set (cf_visited ?s) = insert h (set (cf_visited s))" "set (cf_wl ?s) = set (tl (cf_wl s)) \<union> set ss"
    by (simp_all add: cfg_add_def cfg_take_def make_block_def Let_def h_def)
  have all: "set (cf_visited ?s) \<union> set (cf_wl ?s) = set (cf_visited s) \<union> set (cf_wl s) \<union> set ss" using vis wl by auto
  have hk: "h \<notin> fst ` set (cf_blocks s)" using inv new by (auto simp: cfg_inv_def h_def)
  have emp: "is = [] \<longleftrightarrow> insn_at ce h = None" using run_empty [OF r] by (simp add: h_def)
  have bl: "cf_blocks ?s = (if is = [] then cf_blocks s else cf_blocks s @ [(h, make_block h (is, ss, e))])"
      "cf_addrs ?s = (if is = [] then cf_addrs s else cf_addrs s @ [h])"
    using update_new [OF hk] by (simp_all add: cfg_add_def cfg_take_def make_block_def Let_def)
  have keys: "fst ` set (cf_blocks ?s) = {v \<in> set (cf_visited ?s). insn_at ce v \<noteq> None}"
    using inv bl(1) vis(1) emp by (auto simp: cfg_inv_def)
  have blocks: "\<forall>(a, bb) \<in> set (cf_blocks ?s). \<exists>is ss e. run ce a is ss e \<and> bb = make_block a (is, ss, e) \<and>
        set ss \<subseteq> set (cf_visited ?s) \<union> set (cf_wl ?s)"
  proof
    fix p assume p: "p \<in> set (cf_blocks ?s)"
    then consider "p \<in> set (cf_blocks s)" | "p = (h, make_block h (is, ss, e))" using bl(1) by (auto split: if_splits)
    then show "case p of (a, bb) \<Rightarrow> \<exists>is ss e. run ce a is ss e \<and> bb = make_block a (is, ss, e) \<and>
        set ss \<subseteq> set (cf_visited ?s) \<union> set (cf_wl ?s)"
    proof cases
      case 1
      with inv show ?thesis unfolding cfg_inv_def all by fast
    next
      case 2
      have "run ce h is ss e" using r h_def by simp
      with 2 all show ?thesis by auto
    qed
  qed
  have "set (cf_visited ?s) \<union> set (cf_wl ?s) \<subseteq> leaders ce" using inv ssl all by (auto simp: cfg_inv_def)
  moreover have "ce_entry ce \<in> set (cf_visited ?s) \<union> set (cf_wl ?s)" using inv all by (auto simp: cfg_inv_def)
  moreover have "distinct (map fst (cf_blocks ?s))" "cf_addrs ?s = map fst (cf_blocks ?s)"
    using inv bl hk by (auto simp: cfg_inv_def)
  ultimately show ?thesis using keys blocks unfolding cfg_inv_def h_def by blast
qed

lemma cfg_loop_ok:
  assumes ok: "env_ok ce" and "cfg_inv ce s"
  shows "\<exists>s'. cfg_loop ce s = Some s' \<and> cfg_inv ce s' \<and> cf_wl s' = []"
  using assms(2)
proof (induction s rule: wf_induct_rule [OF wf_measures [of "[\<lambda>s. card (- set (cf_visited s)), \<lambda>s. length (cf_wl s)]"]])
  case (1 s)
  note IH = "1.IH" and inv = "1.prems"
  define h where "h = hd (cf_wl s)"
  consider "cf_wl s = []" | "cf_wl s \<noteq> []" "h \<in> set (cf_visited s)" | "cf_wl s \<noteq> []" "h \<notin> set (cf_visited s)" by blast
  then show ?case
  proof cases
    case 1
    with inv show ?thesis by (simp add: cfg_loop.simps [of ce s])
  next
    case 2
    let ?s = "s\<lparr>cf_wl := tl (cf_wl s)\<rparr>"
    have wl: "set (cf_wl s) = insert h (set (tl (cf_wl s)))" using 2(1) by (cases "cf_wl s") (simp_all add: h_def)
    have "set (cf_visited s) \<union> set (cf_wl s) = set (cf_visited ?s) \<union> set (cf_wl ?s)" using wl 2(2) by auto
    then have "cfg_inv ce ?s" using inv unfolding cfg_inv_def by simp
    then obtain s' where "cfg_loop ce ?s = Some s'" "cfg_inv ce s'" "cf_wl s' = []" using IH [of ?s] 2(1) by auto
    with 2 show ?thesis by (simp add: cfg_loop.simps [of ce s] h_def)
  next
    case 3
    obtain "is" ss e where r: "walk_block ce h [] = Some (is, ss, e)" "run ce h is ss e"
      using walk_block_run [OF ok, of h "[]"] by auto
    let ?s = "cfg_add h (is, ss, e) (cfg_take s)"
    have vis: "set (cf_visited ?s) = insert h (set (cf_visited s))"
      by (simp add: cfg_add_def cfg_take_def make_block_def Let_def h_def)
    have "card (- set (cf_visited ?s)) < card (- set (cf_visited s))"
      using 3(2) vis by (intro psubset_card_mono) auto
    moreover have "cfg_inv ce ?s" using cfg_add_inv [OF inv] 3 r(2) by (simp add: h_def)
    ultimately obtain s' where "cfg_loop ce ?s = Some s'" "cfg_inv ce s'" "cf_wl s' = []" using IH [of ?s] by auto
    with 3 r(1) show ?thesis by (simp add: cfg_loop.simps [of ce s] h_def)
  qed
qed

section \<open>Successors and predecessors\<close>

lemma map_entry_map:
  "distinct (map fst xs) \<Longrightarrow> AList.map_entry k f xs = map (\<lambda>(a, b). (a, if a = k then f b else b)) xs"
proof (induction xs)
  case (Cons p xs)
  obtain a b where p: "p = (a, b)" by (cases p)
  have "AList.map_entry k f xs = xs" if "k \<notin> fst ` set xs" for xs :: "('a \<times> 'b) list"
    using that by (induction xs) auto
  moreover have "map (\<lambda>(a, b). (a, if a = k then f b else b)) xs = xs" if "k \<notin> fst ` set xs" for xs :: "('a \<times> 'b) list"
    using that by (induction xs) auto
  ultimately show ?case using Cons by (cases "a = k") (auto simp: p)
qed simp

definition with_preds :: "(va_t \<Rightarrow> va_t list) \<Rightarrow> (va_t \<times> basic_block) list \<Rightarrow> (va_t \<times> basic_block) list" where
  "with_preds p bs = map (\<lambda>(b, bb). (b, bb\<lparr>bb_preds := bb_preds bb @ p b\<rparr>)) bs"

lemma map_fst_with_preds [simp]: "map fst (with_preds p bs) = map fst bs"
  by (simp add: with_preds_def case_prod_beta)

lemma push_pred_with:
  assumes "distinct (map fst bs)"
  shows "push_pred ba s (with_preds p bs) = with_preds (\<lambda>b. p b @ (if b = s then [ba] else [])) bs"
proof -
  have "distinct (map fst (with_preds p bs))" using assms by simp
  then show ?thesis unfolding push_pred_def by (simp only: map_entry_map) (auto simp: with_preds_def)
qed

lemma push_preds_with:
  assumes "distinct (map fst bs)"
  shows "fold (push_pred ba) ss (with_preds p bs) = with_preds (\<lambda>b. p b @ map (\<lambda>_. ba) (filter (\<lambda>s. s = b) ss)) bs"
  by (induction ss arbitrary: p) (auto simp: push_pred_with [OF assms] intro!: arg_cong [where f = "\<lambda>p. with_preds p bs"])

lemma link_preds_fold:
  assumes "distinct (map fst bs)"
  shows "fold (\<lambda>(ba, bb). fold (push_pred ba) (bb_succs bb)) L (with_preds p bs) =
    with_preds (\<lambda>b. p b @ concat (map (\<lambda>(ba, bb). map (\<lambda>_. ba) (filter (\<lambda>s. s = b) (bb_succs bb))) L)) bs"
  by (induction L arbitrary: p)
     (auto simp: push_preds_with [OF assms] intro!: arg_cong [where f = "\<lambda>p. with_preds p bs"])

lemma link_preds_eq:
  assumes "distinct (map fst bs)"
  shows "link_preds bs =
    with_preds (\<lambda>b. concat (map (\<lambda>(ba, bb). map (\<lambda>_. ba) (filter (\<lambda>s. s = b) (bb_succs bb))) bs)) bs"
proof -
  have "with_preds (\<lambda>_. []) bs = bs" by (induction bs) (auto simp: with_preds_def)
  then show ?thesis using link_preds_fold [OF assms, of bs "\<lambda>_. []"] by (simp add: link_preds_def)
qed

lemma filter_eq_distinct: "distinct ss \<Longrightarrow> filter (\<lambda>s. s = b) ss = (if b \<in> set ss then [b] else [])"
  by (induction ss) auto

lemma preds_distinct:
  assumes "distinct (map fst bs)" "\<And>p. p \<in> set bs \<Longrightarrow> distinct (bb_succs (snd p))"
  shows "concat (map (\<lambda>(ba, bb). map (\<lambda>_. ba) (filter (\<lambda>s. s = b) (bb_succs bb))) bs) =
    map fst (filter (\<lambda>(ba, bb). b \<in> set (bb_succs bb)) bs)"
  using assms
proof (induction bs)
  case (Cons p bs)
  have "filter (\<lambda>s. s = b) (bb_succs (snd p)) = (if b \<in> set (bb_succs (snd p)) then [b] else [])"
    by (rule filter_eq_distinct) (simp add: Cons.prems)
  with Cons show ?case by (cases p) simp
qed simp

lemma distinct_remdups_adj_sorted: "sorted xs \<Longrightarrow> distinct (remdups_adj xs)" for xs :: "'a :: linorder list"
  by (induction xs rule: remdups_adj.induct) (auto simp: less_le_not_le)

lemma sort_succs_ok:
  "sorted (bb_succs (sort_succs bb))" "distinct (bb_succs (sort_succs bb))" "set (bb_succs (sort_succs bb)) = set (bb_succs bb)"
  "bb_start (sort_succs bb) = bb_start bb" "bb_insns (sort_succs bb) = bb_insns bb" "bb_end (sort_succs bb) = bb_end bb"
  "bb_preds (sort_succs bb) = []"
  by (simp_all add: sort_succs_def sorted_remdups_adj distinct_remdups_adj_sorted)

section \<open>The graph\<close>

definition block_insns :: "(va_t \<times> basic_block) list \<Rightarrow> va_t set" where
  "block_insns bs = (\<Union>(a, bb) \<in> set bs. set (addrs_from a (bb_insns bb)))"

text \<open>What \<open>build_one_cfg\<close> promises of the blocks of a function.\<close>

definition cfg_spec :: "cfg_env \<Rightarrow> (va_t \<times> basic_block) list \<Rightarrow> bool" where
  "cfg_spec ce bs \<longleftrightarrow>
     distinct (map fst bs) \<and> fst ` set bs = {a \<in> leaders ce. insn_at ce a \<noteq> None} \<and>
     block_insns bs = {a \<in> reachable ce. insn_at ce a \<noteq> None} \<and>
     (\<forall>(a, bb) \<in> set bs. bb_start bb = a \<and> sorted (bb_succs bb) \<and> distinct (bb_succs bb) \<and>
        (\<exists>ss. run ce a (bb_insns bb) ss (bb_end bb) \<and> set (bb_succs bb) = set ss) \<and>
        distinct (bb_preds bb) \<and> set (bb_preds bb) = {p. \<exists>pb. (p, pb) \<in> set bs \<and> a \<in> set (bb_succs pb)})"

lemma final_leaders:
  assumes inv: "cfg_inv ce s" and wl: "cf_wl s = []"
  shows "block_insns (cf_blocks s) = {a \<in> reachable ce. insn_at ce a \<noteq> None}" "set (cf_visited s) = leaders ce"
proof -
  let ?A = "block_insns (cf_blocks s)"
  note i = inv [unfolded cfg_inv_def wl, simplified]
  have blk: "\<exists>is ss e. run ce a is ss e \<and> bb_insns bb = is \<and> set ss \<subseteq> set (cf_visited s)" if "(a, bb) \<in> set (cf_blocks s)" for a bb
    using i that by (fastforce simp: make_block_def)
  have key: "v \<in> ?A" if v: "v \<in> set (cf_visited s)" "insn_at ce v \<noteq> None" for v
  proof -
    have "v \<in> fst ` set (cf_blocks s)" using i v by simp
    then obtain bb where bb: "(v, bb) \<in> set (cf_blocks s)" by auto
    then obtain "is" ss e where r: "run ce v is ss e" "bb_insns bb = is" using blk by blast
    then have "bb_insns bb \<noteq> []" using v(2) run_empty [OF r(1)] by simp
    then have "v \<in> set (addrs_from v (bb_insns bb))" by (cases "bb_insns bb") auto
    with bb show ?thesis by (auto simp: block_insns_def)
  qed
  have step: "y \<in> ?A" if x: "x \<in> ?A" "flows ce x y" "insn_at ce y \<noteq> None" for x y
  proof -
    obtain a bb where ab: "(a, bb) \<in> set (cf_blocks s)" "x \<in> set (addrs_from a (bb_insns bb))"
      using x(1) by (auto simp: block_insns_def)
    then obtain "is" ss e where r: "run ce a is ss e" "bb_insns bb = is" "set ss \<subseteq> set (cf_visited s)" using blk by blast
    then have "y \<in> set (addrs_from a is) \<or> y \<in> set ss" using run_addrs [OF r(1)] ab(2) x(2,3) by simp
    then show ?thesis
    proof
      assume "y \<in> set ss"
      with r(3) key x(3) show ?thesis by blast
    qed (use ab(1) r(2) in \<open>auto simp: block_insns_def\<close>)
  qed
  have sub: "insn_at ce x \<noteq> None \<and> x \<in> reachable ce" if x: "x \<in> ?A" for x
  proof -
    obtain a bb where ab: "(a, bb) \<in> set (cf_blocks s)" "x \<in> set (addrs_from a (bb_insns bb))"
      using x by (auto simp: block_insns_def)
    then obtain "is" ss e where r: "run ce a is ss e" "bb_insns bb = is" using blk by blast
    have "a \<in> fst ` set (cf_blocks s)" using ab(1) by force
    then have "a \<in> reachable ce" using i leaders_reachable by blast
    then show ?thesis using run_addrs [OF r(1)] run_reachable [OF r(1)] ab(2) r(2) by blast
  qed
  have flow_insn: "insn_at ce a \<noteq> None" if "flows ce a b" for a b using that by (auto elim: flowsE)
  have sup: "x \<in> ?A" if "(flows ce)\<^sup>*\<^sup>* (ce_entry ce) x" "insn_at ce x \<noteq> None" for x
    using that
  proof (induction rule: rtranclp_induct)
    case base
    then show ?case using key i by blast
  next
    case (step x y)
    then show ?case using \<open>\<And>x y. x \<in> ?A \<Longrightarrow> flows ce x y \<Longrightarrow> insn_at ce y \<noteq> None \<Longrightarrow> y \<in> ?A\<close> flow_insn by blast
  qed
  show "?A = {a \<in> reachable ce. insn_at ce a \<noteq> None}" using sub sup by (auto simp: reachable_def)
  have "l \<in> set (cf_visited s)" if "a \<in> reachable ce" "insn_at ce a \<noteq> None" "exit_at ce a = Some ts" "l \<in> set ts" for l a ts
  proof -
    have "a \<in> ?A" using sup that(1,2) by (simp add: reachable_def)
    then obtain b bb where ab: "(b, bb) \<in> set (cf_blocks s)" "a \<in> set (addrs_from b (bb_insns bb))"
      by (auto simp: block_insns_def)
    then obtain "is" ss e where r: "run ce b is ss e" "bb_insns bb = is" "set ss \<subseteq> set (cf_visited s)" using blk by blast
    then show ?thesis using run_leaves [OF r(1)] ab(2) that(3,4) by blast
  qed
  then show "set (cf_visited s) = leaders ce" using i by (auto simp: leaders_def)
qed

lemma cfg_blocks_spec:
  assumes inv: "cfg_inv ce s" and wl: "cf_wl s = []"
  shows "cfg_spec ce (link_preds (map (\<lambda>(a, bb). (a, sort_succs bb)) (cf_blocks s)))"
proof -
  let ?bs = "map (\<lambda>(a, bb). (a, sort_succs bb)) (cf_blocks s)"
  let ?p = "\<lambda>b. map fst (filter (\<lambda>(ba, bb). b \<in> set (bb_succs bb)) ?bs)"
  have dist: "distinct (map fst ?bs)" using inv by (simp add: cfg_inv_def comp_def case_prod_beta)
  have lp: "link_preds ?bs = with_preds ?p ?bs"
  proof -
    have "(\<lambda>b. concat (map (\<lambda>(ba, bb). map (\<lambda>_. ba) (filter (\<lambda>s. s = b) (bb_succs bb))) ?bs)) = ?p"
      by (rule ext, rule preds_distinct [OF dist]) (auto simp: sort_succs_ok(2))
    then show ?thesis using link_preds_eq [OF dist] by (simp only:)
  qed
  have mem: "(a, bb) \<in> set (with_preds ?p ?bs) \<longleftrightarrow>
      (\<exists>b0. (a, b0) \<in> set (cf_blocks s) \<and> bb = (sort_succs b0)\<lparr>bb_preds := ?p a\<rparr>)" for a bb
    by (force simp: with_preds_def sort_succs_ok(7))
  have fsts: "fst ` set (with_preds ?p ?bs) = fst ` set (cf_blocks s)"
  proof -
    have "map fst (with_preds ?p ?bs) = map fst (cf_blocks s)" by (simp add: comp_def case_prod_beta)
    then show ?thesis by (metis list.set_map)
  qed
  have preds: "set (?p a) = {p. \<exists>pb. (p, pb) \<in> set (with_preds ?p ?bs) \<and> a \<in> set (bb_succs pb)}" for a
    unfolding mem by (force simp: sort_succs_ok(3))
  have insns: "block_insns (with_preds ?p ?bs) = block_insns (cf_blocks s)"
    unfolding block_insns_def by (force simp: mem sort_succs_ok(5))
  have "\<forall>(a, bb) \<in> set (with_preds ?p ?bs). bb_start bb = a \<and> sorted (bb_succs bb) \<and> distinct (bb_succs bb) \<and>
        (\<exists>ss. run ce a (bb_insns bb) ss (bb_end bb) \<and> set (bb_succs bb) = set ss) \<and>
        distinct (bb_preds bb) \<and> set (bb_preds bb) = {p. \<exists>pb. (p, pb) \<in> set (with_preds ?p ?bs) \<and> a \<in> set (bb_succs pb)}"
  proof (intro ballI, clarify)
    fix a bb assume "(a, bb) \<in> set (with_preds ?p ?bs)"
    then obtain b0 where b0: "(a, b0) \<in> set (cf_blocks s)" "bb = (sort_succs b0)\<lparr>bb_preds := ?p a\<rparr>" using mem by blast
    then obtain "is" ss e where r: "run ce a is ss e" "b0 = make_block a (is, ss, e)"
      using inv unfolding cfg_inv_def by blast
    have "distinct (?p a)" using dist distinct_filter [of ?bs] by (metis distinct_map_filter)
    then show "bb_start bb = a \<and> sorted (bb_succs bb) \<and> distinct (bb_succs bb) \<and>
        (\<exists>ss. run ce a (bb_insns bb) ss (bb_end bb) \<and> set (bb_succs bb) = set ss) \<and>
        distinct (bb_preds bb) \<and> set (bb_preds bb) = {p. \<exists>pb. (p, pb) \<in> set (with_preds ?p ?bs) \<and> a \<in> set (bb_succs pb)}"
      using b0(2) r preds [of a] by (auto simp: sort_succs_ok make_block_def)
  qed
  moreover have "fst ` set (with_preds ?p ?bs) = {a \<in> leaders ce. insn_at ce a \<noteq> None}"
    using inv final_leaders(2) [OF inv wl] fsts by (simp add: cfg_inv_def)
  ultimately show ?thesis
    using dist insns final_leaders(1) [OF inv wl] unfolding lp cfg_spec_def by simp
qed

text \<open>
  C7. On decoded instructions that have a length and do not wrap around the address space,
  \<open>build_one_cfg\<close> ends.  Its blocks start at exactly the decoded leaders (the entry and what block exits
  lead to) and hold exactly the instructions control flow reaches from the entry; the instructions of a
  block follow one another, its successors are sorted, without duplicates and those of its last
  instruction, and the predecessors are exactly the blocks that list it as a successor.
\<close>

theorem build_one_cfg_exact:
  assumes "env_ok (env_of recovered db f)" "fn_blocks f = []" "fn_block_addrs f = []"
  shows "\<exists>g. build_one_cfg recovered db f = Some g \<and> fn_entry g = fn_entry f \<and> fn_analyzed g \<and>
    fn_block_addrs g = map fst (fn_blocks g) \<and> cfg_spec (env_of recovered db f) (fn_blocks g)"
proof -
  let ?ce = "env_of recovered db f"
  let ?s = "\<lparr>cf_wl = [fn_entry f], cf_visited = [], cf_blocks = [], cf_addrs = []\<rparr>"
  have "ce_entry ?ce = fn_entry f" by (simp add: env_of_def)
  then have "cfg_inv ?ce ?s" by (simp add: cfg_inv_def leaders_def)
  then obtain s where s: "cfg_loop ?ce ?s = Some s" "cfg_inv ?ce s" "cf_wl s = []" using cfg_loop_ok [OF assms(1)] by blast
  let ?bs = "map (\<lambda>(a, bb). (a, sort_succs bb)) (cf_blocks s)"
  have "distinct (map fst ?bs)" using s(2) by (simp add: cfg_inv_def comp_def case_prod_beta)
  then have "map fst (link_preds ?bs) = map fst ?bs" by (simp only: link_preds_eq map_fst_with_preds)
  moreover have "map fst ?bs = cf_addrs s" using s(2) by (simp add: cfg_inv_def comp_def case_prod_beta)
  ultimately show ?thesis
    using s(1) assms(2,3) cfg_blocks_spec [OF s(2,3)] by (simp add: build_one_cfg_def)
qed

end
