(* ===== verification/Descent_Correct.thy ===== *)
theory Descent_Correct
  imports Descent
begin

text \<open>
  What recursive descent decodes.  \<open>reached\<close> is the closure of the roots under falling through to the
  next instruction of the same segment and under the targets of calls and branches.  On a proper image
  and with a decoder that consumes at least one of the bytes it is given, the descent ends; whatever the
  budget and the cancellation it stores only reached instructions; without them it stores exactly
  those, so the walks that stop at code another walk covered lose nothing.
\<close>

section \<open>The instructions control flow reaches\<close>

definition decoder_ok :: "decoder \<Rightarrow> bool" where
  "decoder_ok dec \<longleftrightarrow> (\<forall>a d i. dec a d = Some i \<longrightarrow> 0 < in_len i \<and> in_len i \<le> length d \<and> in_addr i = a)"

definition decodes :: "decoder \<Rightarrow> segment_span list \<Rightarrow> va_t \<Rightarrow> insn option" where
  "decodes dec idx a = (if is_code_addr idx a then Option.bind (va_to_ptr idx a) (dec a) else None)"

definition falls_through :: "insn \<Rightarrow> bool" where
  "falls_through i \<longleftrightarrow> \<not> is_ret i \<and> in_type i \<noteq> IJmp"

definition transfers :: "insn \<Rightarrow> bool" where
  "transfers i \<longleftrightarrow> (is_call i \<or> is_branch i) \<and> branch_target i \<noteq> 0"

definition next_in_segment :: "segment_span list \<Rightarrow> va_t \<Rightarrow> nat \<Rightarrow> bool" where
  "next_in_segment idx a n \<longleftrightarrow> (case va_to_ptr idx a of Some d \<Rightarrow> n < length d | None \<Rightarrow> False)"

inductive reached :: "decoder \<Rightarrow> segment_span list \<Rightarrow> va_t set \<Rightarrow> va_t \<Rightarrow> bool"
  for dec idx roots where
  root: "a \<in> roots \<Longrightarrow> decodes dec idx a \<noteq> None \<Longrightarrow> reached dec idx roots a"
| fall: "reached dec idx roots a \<Longrightarrow> decodes dec idx a = Some i \<Longrightarrow> falls_through i \<Longrightarrow>
    next_in_segment idx a (in_len i) \<Longrightarrow> decodes dec idx (a + of_nat (in_len i)) \<noteq> None \<Longrightarrow>
    reached dec idx roots (a + of_nat (in_len i))"
| target: "reached dec idx roots a \<Longrightarrow> decodes dec idx a = Some i \<Longrightarrow> transfers i \<Longrightarrow>
    decodes dec idx (branch_target i) \<noteq> None \<Longrightarrow> reached dec idx roots (branch_target i)"

lemma reached_decodes: "reached dec idx roots a \<Longrightarrow> decodes dec idx a \<noteq> None"
  by (induction rule: reached.induct) auto

section \<open>The two halves of the invariant\<close>

definition keys :: "walk \<Rightarrow> va_t set" where
  "keys w = fst ` (set (wk_insns w) \<union> set (wk_pending w))"

definition sound :: "decoder \<Rightarrow> segment_span list \<Rightarrow> va_t set \<Rightarrow> walk \<Rightarrow> bool" where
  "sound dec idx roots w \<longleftrightarrow>
     (\<forall>(a, i) \<in> set (wk_insns w) \<union> set (wk_pending w). reached dec idx roots a \<and> decodes dec idx a = Some i) \<and>
     (\<forall>q \<in> set (wk_wl w). decodes dec idx q \<noteq> None \<longrightarrow> reached dec idx roots q)"

text \<open>
  Every stored instruction has its successors stored, on the work list or visited, but for the
  addresses \<open>C\<close> the walk is at.
\<close>

definition complete :: "decoder \<Rightarrow> segment_span list \<Rightarrow> walk \<Rightarrow> va_t set \<Rightarrow> bool" where
  "complete dec idx w C \<longleftrightarrow>
     (\<forall>a \<in> keys w. \<forall>i. decodes dec idx a = Some i \<longrightarrow>
        (falls_through i \<and> next_in_segment idx a (in_len i) \<and> decodes dec idx (a + of_nat (in_len i)) \<noteq> None \<longrightarrow>
           a + of_nat (in_len i) \<in> keys w \<union> C) \<and>
        (transfers i \<longrightarrow> branch_target i \<in> set (wk_visited w) \<union> set (wk_wl w))) \<and>
     (\<forall>v \<in> set (wk_visited w). decodes dec idx v \<noteq> None \<longrightarrow> v \<in> keys w \<union> C)"

lemma complete_stop:
  "complete dec idx w {a} \<Longrightarrow> decodes dec idx a = None \<or> a \<in> keys w \<Longrightarrow> complete dec idx w {}"
  unfolding complete_def by (metis Un_iff singletonD)

lemma complete_add:
  assumes "complete dec idx w {a}" "decodes dec idx a = Some i"
    "keys w' = insert a (keys w)" "wk_visited w' = wk_visited w" "set (wk_wl w) \<subseteq> set (wk_wl w')"
    "transfers i \<Longrightarrow> branch_target i \<in> set (wk_visited w') \<union> set (wk_wl w')"
    "falls_through i \<and> next_in_segment idx a (in_len i) \<Longrightarrow> a + of_nat (in_len i) \<in> C"
  shows "complete dec idx w' C"
  unfolding complete_def
proof (intro conjI ballI allI impI)
  fix b j assume b: "b \<in> keys w'" and j: "decodes dec idx b = Some j"
  have old: "b \<noteq> a \<Longrightarrow> b \<in> keys w" using b assms(3) by simp
  { assume f: "falls_through j \<and> next_in_segment idx b (in_len j) \<and> decodes dec idx (b + of_nat (in_len j)) \<noteq> None"
    show "b + of_nat (in_len j) \<in> keys w' \<union> C"
    proof (cases "b = a")
      case True
      with f j assms(2,7) show ?thesis by simp
    next
      case False
      then have "b + of_nat (in_len j) \<in> keys w \<union> {a}" using old f j assms(1) unfolding complete_def by blast
      with assms(3) show ?thesis by auto
    qed }
  { assume t: "transfers j"
    show "branch_target j \<in> set (wk_visited w') \<union> set (wk_wl w')"
    proof (cases "b = a")
      case True
      with t j assms(2,6) show ?thesis by simp
    next
      case False
      then have "branch_target j \<in> set (wk_visited w) \<union> set (wk_wl w)" using old t j assms(1) unfolding complete_def by blast
      with assms(4,5) show ?thesis by auto
    qed }
next
  fix v assume "v \<in> set (wk_visited w')" "decodes dec idx v \<noteq> None"
  then have "v \<in> keys w \<union> {a}" using assms(1,4) unfolding complete_def by simp
  with assms(3) show "v \<in> keys w' \<union> C" by auto
qed

lemma complete_cong:
  "complete dec idx w C \<Longrightarrow> keys w' = keys w \<Longrightarrow> wk_visited w' = wk_visited w \<Longrightarrow> set (wk_wl w') = set (wk_wl w) \<Longrightarrow>
   complete dec idx w' C"
  by (simp add: complete_def)

section \<open>Flushing\<close>

lemma set_fold_update: "set (fold (\<lambda>(a, i). AList.update a i) ps xs) \<subseteq> set xs \<union> set ps"
proof (induction ps arbitrary: xs)
  case (Cons p ps)
  obtain a i where p: "p = (a, i)" by (cases p)
  have "set (AList.update a i xs) \<subseteq> insert (a, i) (set xs)" for xs :: "('a \<times> 'b) list"
    by (induction xs) auto
  with Cons [of "AList.update a i xs"] show ?case by (auto simp: p)
qed simp

lemma keys_fold_update: "fst ` set (fold (\<lambda>(a, i). AList.update a i) ps xs) = fst ` (set xs \<union> set ps)"
proof (induction ps arbitrary: xs)
  case (Cons p ps)
  obtain a i where p: "p = (a, i)" by (cases p)
  have "fst ` set (AList.update a i xs) = insert a (fst ` set xs)" by (simp add: dom_update)
  with Cons [of "AList.update a i xs"] show ?case by (auto simp: p)
qed simp

lemma flush_simps [simp]:
  "wk_pending (flush w) = []" "wk_visited (flush w) = wk_visited w" "wk_wl (flush w) = wk_wl w"
  "wk_since (flush w) = wk_since w" "wk_hit (flush w) = wk_hit w" "keys (flush w) = keys w"
  by (simp_all add: flush_def keys_def keys_fold_update)

lemma flush_sound: "sound dec idx roots w \<Longrightarrow> sound dec idx roots (flush w)"
  using set_fold_update [of "wk_pending w" "wk_insns w"] by (fastforce simp: sound_def flush_def)

lemma flush_complete: "complete dec idx (flush w) C = complete dec idx w C"
  by (simp add: complete_def)

lemma over_budget_simps [simp]:
  "wk_insns (snd (over_budget b w)) = wk_insns w" "wk_pending (snd (over_budget b w)) = wk_pending w"
  "wk_visited (snd (over_budget b w)) = wk_visited w" "wk_wl (snd (over_budget b w)) = wk_wl w"
  "keys (snd (over_budget b w)) = keys w" "over_budget 0 w = (False, w)"
  by (simp_all add: over_budget_def keys_def)

lemma push_target_simps [simp]:
  "wk_insns (push_target i w) = wk_insns w" "wk_pending (push_target i w) = wk_pending w"
  "wk_visited (push_target i w) = wk_visited w" "keys (push_target i w) = keys w"
  by (simp_all add: push_target_def keys_def Let_def)

lemma push_target_wl:
  "set (wk_wl (push_target i w)) =
     (if branch_target i \<noteq> 0 \<and> branch_target i \<notin> set (wk_visited w) then insert (branch_target i) (set (wk_wl w))
      else set (wk_wl w))"
  by (simp add: push_target_def Let_def)

text \<open>What \<open>after_insn\<close> changes: the targets are pushed, and the walk goes on exactly by falling through.\<close>

lemma after_insn_simps [simp]:
  "wk_insns (fst (after_insn i w)) = wk_insns w" "wk_pending (fst (after_insn i w)) = wk_pending w"
  "wk_visited (fst (after_insn i w)) = wk_visited w" "keys (fst (after_insn i w)) = keys w"
  "snd (after_insn i w) \<noteq> Descent_Over"
  "snd (after_insn i w) = Walk_On n \<longleftrightarrow> falls_through i \<and> n = in_len i"
  "snd (after_insn i w) = Walk_Over \<longleftrightarrow> \<not> falls_through i"
  by (auto simp: after_insn_def falls_through_def Let_def keys_def)

lemma after_insn_wl:
  "set (wk_wl (fst (after_insn i w))) \<subseteq> set (wk_wl w) \<union> (if transfers i then {branch_target i} else {})"
  "set (wk_wl w) \<subseteq> set (wk_wl (fst (after_insn i w)))"
  "transfers i \<Longrightarrow> branch_target i \<in> set (wk_visited w) \<union> set (wk_wl (fst (after_insn i w)))"
  by (auto simp: after_insn_def transfers_def is_call_def is_branch_def is_ret_def Let_def push_target_wl split: if_splits)

section \<open>One walk\<close>

lemma segment_next:
  assumes "image_ok img" "idx = build_segment_index img" "va_to_ptr idx a = Some d" "is_code_addr idx a" "n < length d"
  shows "va_to_ptr idx (a + of_nat n) = Some (drop n d)" "is_code_addr idx (a + of_nat n)" "next_in_segment idx a n"
  using va_to_ptr_offset [of img a d n] assms by (auto simp: next_in_segment_def)

lemma after_insn_ok:
  assumes i: "decodes dec idx a = Some i" "reached dec idx roots a"
    and w: "sound dec idx roots w2" "keys w2 = insert a (keys w)" "wk_visited w2 = wk_visited w" "wk_wl w2 = wk_wl w"
  shows "sound dec idx roots (fst (after_insn i w2))"
    "complete dec idx w {a} \<Longrightarrow> (falls_through i \<and> next_in_segment idx a (in_len i) \<Longrightarrow> a + of_nat (in_len i) \<in> C) \<Longrightarrow>
     complete dec idx (fst (after_insn i w2)) C"
proof -
  have "reached dec idx roots (branch_target i)" if "transfers i" "decodes dec idx (branch_target i) \<noteq> None"
    using i that by (intro reached.target)
  then show "sound dec idx roots (fst (after_insn i w2))"
    using w(1) after_insn_wl(1) [of i w2] unfolding sound_def by (auto split: if_splits)
  assume c: "complete dec idx w {a}" and C: "falls_through i \<and> next_in_segment idx a (in_len i) \<Longrightarrow> a + of_nat (in_len i) \<in> C"
  show "complete dec idx (fst (after_insn i w2)) C"
  proof (rule complete_add [OF c i(1) _ _ _ _ C])
    show "set (wk_wl w) \<subseteq> set (wk_wl (fst (after_insn i w2)))" using after_insn_wl(2) [of w2 i] w(4) by simp
    show "transfers i \<Longrightarrow> branch_target i \<in> set (wk_visited (fst (after_insn i w2))) \<union> set (wk_wl (fst (after_insn i w2)))"
      using after_insn_wl(3) [of i w2] by (simp only: after_insn_simps)
  qed (simp_all only: after_insn_simps w(2,3))
qed

text \<open>The three ways through an iteration.\<close>

lemma walk_step_cases:
  assumes "walk_step dec budget a d w = (w', e)"
  obtains (stuck) "dec a d = None" "w' = w" "e = Walk_Over"
  | (covered) i where "dec a d = Some i" "a \<in> keys w" "keys w' = keys w" "wk_insns w' = wk_insns w" "wk_pending w' = wk_pending w"
      "wk_visited w' = wk_visited w" "wk_wl w' = wk_wl w" "e = Walk_Over"
  | (decoded) i w2 where "dec a d = Some i" "keys w2 = insert (in_addr i) (keys w)" "wk_visited w2 = wk_visited w" "wk_wl w2 = wk_wl w"
      "set (wk_insns w2) \<union> set (wk_pending w2) \<subseteq> insert (in_addr i, i) (set (wk_insns w) \<union> set (wk_pending w))"
      "(w', e) = after_insn i w2 \<or> budget \<noteq> 0 \<and> w' = w2 \<and> e = Descent_Over"
proof (cases "dec a d")
  case None
  with assms stuck show ?thesis by (simp add: walk_step_def)
next
  case (Some i)
  define check where "check = (32 \<le> wk_since w + 1)"
  define w1 where "w1 = w\<lparr>wk_since := (if check then 0 else wk_since w + 1)\<rparr>"
  define w2 where "w2 = w1\<lparr>wk_pending := wk_pending w1 @ [(in_addr i, i)]\<rparr>"
  define w3 where "w3 = snd (over_budget budget (flush w2))"
  note step = assms [unfolded walk_step_def Some option.case Let_def, folded check_def, folded w1_def, folded w2_def]
  have k2: "keys w2 = insert (in_addr i) (keys w)" by (auto simp: keys_def w2_def w1_def)
  have s2: "set (wk_insns w2) \<union> set (wk_pending w2) \<subseteq> insert (in_addr i, i) (set (wk_insns w) \<union> set (wk_pending w))"
    by (auto simp: w2_def w1_def)
  have s3: "set (wk_insns w3) \<union> set (wk_pending w3) \<subseteq> insert (in_addr i, i) (set (wk_insns w) \<union> set (wk_pending w))"
    using set_fold_update [of "wk_pending w2" "wk_insns w2"] s2 by (auto simp: w3_def flush_def)
  show ?thesis
  proof (cases "check \<and> map_of (wk_insns w) a \<noteq> None")
    case True
    then obtain j where "map_of (wk_insns w) a = Some j" by auto
    then have "(a, j) \<in> set (wk_insns w)" by (rule map_of_SomeD)
    then have "a \<in> keys w" by (auto simp: keys_def intro: rev_image_eqI)
    with True step Some covered show ?thesis by (auto simp: w1_def keys_def)
  next
    case nc: False
    show ?thesis
    proof (cases "128 \<le> length (wk_pending w2) \<and> fst (over_budget budget (flush w2))")
      case True
      then have "budget \<noteq> 0" by (auto simp: over_budget_def split: if_splits)
      with True nc step have "w' = w3 \<and> e = Descent_Over" by (auto simp: w3_def split: prod.splits)
      with \<open>budget \<noteq> 0\<close> Some k2 s3 decoded [of i w3] show ?thesis by (simp add: w3_def w2_def w1_def)
    next
      case False
      show ?thesis
      proof (cases "128 \<le> length (wk_pending w2)")
        case True
        with False nc step have "(w', e) = after_insn i w3" by (auto simp: w3_def split: prod.splits)
        with Some k2 s3 decoded [of i w3] show ?thesis by (simp add: w3_def w2_def w1_def)
      next
        case short: False
        with nc step have "(w', e) = after_insn i w2" by (auto split: if_splits)
        with Some k2 s2 decoded [of i w2] show ?thesis by (simp add: w2_def w1_def)
      qed
    qed
  qed
qed

lemma walk_step_ok:
  assumes ptr: "va_to_ptr idx a = Some d" "is_code_addr idx a" and dec: "decoder_ok dec"
    and so: "sound dec idx roots w" and cur: "decodes dec idx a \<noteq> None \<Longrightarrow> reached dec idx roots a"
    and st: "walk_step dec budget a d w = (w', e)"
  shows "sound dec idx roots w' \<and> wk_visited w' = wk_visited w \<and> set (wk_wl w) \<subseteq> set (wk_wl w') \<and>
    (budget = 0 \<longrightarrow> e \<noteq> Descent_Over) \<and>
    (complete dec idx w {a} \<longrightarrow> e = Walk_Over \<longrightarrow> complete dec idx w' {}) \<and>
    (\<forall>n. e = Walk_On n \<longrightarrow> (\<exists>i. decodes dec idx a = Some i \<and> falls_through i \<and> n = in_len i \<and> 0 < n \<and> n \<le> length d)) \<and>
    (\<forall>n. complete dec idx w {a} \<longrightarrow> e = Walk_On n \<longrightarrow>
       complete dec idx w' (if next_in_segment idx a n then {a + of_nat n} else {}))"
proof -
  have dc: "decodes dec idx a = dec a d" using ptr by (simp add: decodes_def)
  from st show ?thesis
  proof (cases rule: walk_step_cases)
    case stuck
    with so dc show ?thesis by (auto intro: complete_stop)
  next
    case (covered i)
    then have "sound dec idx roots w'" using so by (simp add: sound_def)
    moreover have "complete dec idx w {a} \<Longrightarrow> complete dec idx w' {}"
      using covered complete_stop [of dec idx w a] by (auto intro: complete_cong)
    ultimately show ?thesis using covered by simp
  next
    case (decoded i w2)
    have ia: "in_addr i = a" "0 < in_len i" "in_len i \<le> length d" using dec decoded(1) by (auto simp: decoder_ok_def)
    have ra: "reached dec idx roots a" using cur dc decoded(1) by simp
    have so2: "sound dec idx roots w2"
      unfolding sound_def
    proof (intro conjI ballI)
      fix p assume "p \<in> set (wk_insns w2) \<union> set (wk_pending w2)"
      then have "p = (a, i) \<or> p \<in> set (wk_insns w) \<union> set (wk_pending w)" using decoded(5) ia(1) by auto
      then show "case p of (a, i) \<Rightarrow> reached dec idx roots a \<and> decodes dec idx a = Some i"
      proof
        assume "p = (a, i)"
        with ra dc decoded(1) show ?thesis by simp
      next
        assume "p \<in> set (wk_insns w) \<union> set (wk_pending w)"
        with so show ?thesis unfolding sound_def by blast
      qed
    qed (use so decoded(4) in \<open>simp add: sound_def\<close>)
    have k2: "keys w2 = insert a (keys w)" using decoded(2) ia(1) by simp
    have di: "decodes dec idx a = Some i" using dc decoded(1) by simp
    note ok = after_insn_ok [OF di ra so2 k2 decoded(3,4)]
    from decoded(6) show ?thesis
    proof
      assume "(w', e) = after_insn i w2"
      then have e: "w' = fst (after_insn i w2)" "e = snd (after_insn i w2)" by (metis fst_conv, metis snd_conv)
      have over: "complete dec idx w' {}" if "complete dec idx w {a}" "e = Walk_Over"
        using that e(2) unfolding e(1) by (intro ok(2)) simp_all
      have on: "falls_through i \<and> n = in_len i" if "e = Walk_On n" for n
        using that e(2) by simp
      have more: "complete dec idx w' (if next_in_segment idx a n then {a + of_nat n} else {})"
        if "complete dec idx w {a}" "e = Walk_On n" for n
        using that on [of n] unfolding e(1) by (intro ok(2)) simp_all
      have "e \<noteq> Descent_Over" "wk_visited w' = wk_visited w" "sound dec idx roots w'"
        using e ok(1) decoded(3) by (simp_all only: after_insn_simps not_False_eq_True)
      moreover have "set (wk_wl w) \<subseteq> set (wk_wl w')" using after_insn_wl(2) [of w2 i] decoded(4) e(1) by simp
      ultimately show ?thesis using over on more ia(2,3) di by blast
    next
      assume "budget \<noteq> 0 \<and> w' = w2 \<and> e = Descent_Over"
      with so2 decoded(3,4) show ?thesis by simp
    qed
  qed
qed

definition walk_post :: "decoder \<Rightarrow> segment_span list \<Rightarrow> va_t set \<Rightarrow> nat \<Rightarrow> walk \<Rightarrow> va_t set \<Rightarrow> walk \<Rightarrow> bool \<Rightarrow> bool" where
  "walk_post dec idx roots budget w C w' ab \<longleftrightarrow>
     sound dec idx roots w' \<and> wk_visited w' = wk_visited w \<and> set (wk_wl w) \<subseteq> set (wk_wl w') \<and>
     (budget = 0 \<longrightarrow> \<not> ab) \<and> (complete dec idx w C \<longrightarrow> \<not> ab \<longrightarrow> complete dec idx w' {})"

lemma walk_from_ok:
  assumes img: "image_ok img" "idx = build_segment_index img" and dec: "decoder_ok dec"
    and "sound dec idx roots w"
    and "d \<noteq> [] \<Longrightarrow> va_to_ptr idx a = Some d \<and> is_code_addr idx a \<and> (decodes dec idx a \<noteq> None \<longrightarrow> reached dec idx roots a)"
  shows "\<exists>w' ab. walk_from dec budget a d w = Some (w', ab) \<and>
    walk_post dec idx roots budget w (if d = [] then {} else {a}) w' ab"
  using assms(4,5)
proof (induction "length d" arbitrary: a d w rule: less_induct)
  case less
  show ?case
  proof (cases "d = []")
    case True
    have "walk_from dec budget a d w = Some (w, False)" using True by (simp add: walk_from.simps)
    moreover have "walk_post dec idx roots budget w {} w False" using less.prems(1) by (simp add: walk_post_def)
    ultimately show ?thesis using True by auto
  next
    case False
    then have ptr: "va_to_ptr idx a = Some d" "is_code_addr idx a"
      and cur: "decodes dec idx a \<noteq> None \<Longrightarrow> reached dec idx roots a" using less.prems(2) by auto
    obtain w1 e where st: "walk_step dec budget a d w = (w1, e)" by (cases "walk_step dec budget a d w")
    note ok = walk_step_ok [OF ptr dec less.prems(1) cur st]
    show ?thesis
    proof (cases e)
      case Walk_Over
      with ok have "walk_post dec idx roots budget w {a} w1 False" by (simp add: walk_post_def)
      moreover have "walk_from dec budget a d w = Some (w1, False)" using Walk_Over False st by (simp add: walk_from.simps)
      ultimately show ?thesis using False by auto
    next
      case Descent_Over
      with ok have "walk_post dec idx roots budget w {a} w1 True" by (simp add: walk_post_def)
      moreover have "walk_from dec budget a d w = Some (w1, True)" using Descent_Over False st by (simp add: walk_from.simps)
      ultimately show ?thesis using False by auto
    next
      case (Walk_On n)
      with ok obtain i where i: "decodes dec idx a = Some i" "falls_through i" "n = in_len i" "0 < n" "n \<le> length d" by blast
      let ?a = "a + of_nat n" let ?d = "drop n d"
      have step: "walk_from dec budget a d w = walk_from dec budget ?a ?d w1"
        using st Walk_On False by (simp add: walk_from.simps [of dec budget a])
      have nxt: "va_to_ptr idx ?a = Some ?d \<and> is_code_addr idx ?a \<and> next_in_segment idx a n" if "?d \<noteq> []"
        using segment_next [OF img ptr] that by simp
      have reach: "reached dec idx roots ?a" if "?d \<noteq> []" "decodes dec idx ?a \<noteq> None"
        using that nxt cur i by (auto intro: reached.fall)
      have nin: "next_in_segment idx a n \<longleftrightarrow> ?d \<noteq> []" using ptr(1) by (auto simp: next_in_segment_def)
      have "\<exists>w' ab. walk_from dec budget ?a ?d w1 = Some (w', ab) \<and>
          walk_post dec idx roots budget w1 (if ?d = [] then {} else {?a}) w' ab"
        using i(4,5) ok nxt reach False by (intro less.hyps) auto
      then obtain w' ab where w': "walk_from dec budget ?a ?d w1 = Some (w', ab)"
          "walk_post dec idx roots budget w1 (if ?d = [] then {} else {?a}) w' ab" by blast
      have "complete dec idx w1 (if ?d = [] then {} else {?a})" if "complete dec idx w {a}"
      proof -
        have "complete dec idx w1 (if next_in_segment idx a n then {?a} else {})" using ok that Walk_On by blast
        then show ?thesis using nin by (simp split: if_splits)
      qed
      moreover have "set (wk_wl w) \<subseteq> set (wk_wl w')" using w'(2) ok unfolding walk_post_def by blast
      ultimately have "walk_post dec idx roots budget w {a} w' ab" using w'(2) ok False by (simp add: walk_post_def)
      with step w'(1) False show ?thesis by simp
    qed
  qed
qed

section \<open>The work list\<close>

lemma take_next_sound: "sound dec idx roots w \<Longrightarrow> wk_wl w \<noteq> [] \<Longrightarrow> sound dec idx roots (take_next w)"
  by (auto simp: sound_def take_next_def dest: list.set_sel(2))

lemma take_next_complete:
  assumes "complete dec idx w {}" "wk_wl w \<noteq> []" "wk_pending w = []"
  shows "complete dec idx (take_next w) {hd (wk_wl w)}"
proof -
  have "set (wk_wl w) = insert (hd (wk_wl w)) (set (tl (wk_wl w)))" using assms(2) by (cases "wk_wl w") auto
  with assms(1) show ?thesis by (auto simp: complete_def take_next_def keys_def)
qed

lemma has_code_decodes: "\<not> has_code idx a \<Longrightarrow> decodes dec idx a = None"
  by (auto simp: has_code_def decodes_def)

definition queue_post :: "decoder \<Rightarrow> segment_span list \<Rightarrow> va_t set \<Rightarrow> nat \<Rightarrow> token \<Rightarrow> walk \<Rightarrow> walk \<Rightarrow> token \<Rightarrow> bool" where
  "queue_post dec idx roots budget tok w w' tok' \<longleftrightarrow>
     sound dec idx roots w' \<and> set (wk_visited w) \<subseteq> set (wk_visited w') \<and>
     (budget = 0 \<longrightarrow> tok = None \<longrightarrow> complete dec idx w {} \<longrightarrow>
        complete dec idx w' {} \<and> wk_wl w' = [] \<and> wk_pending w' = [] \<and> tok' = None \<and>
        set (wk_wl w) \<subseteq> set (wk_visited w'))"

lemma queue_post_trans:
  assumes "queue_post dec idx roots budget tok1 w1 w' tok'" "set (wk_visited w) \<subseteq> set (wk_visited w1)"
    "tok = None \<Longrightarrow> tok1 = None" "budget = 0 \<Longrightarrow> complete dec idx w {} \<Longrightarrow> complete dec idx w1 {}"
    "set (wk_wl w) \<subseteq> set (wk_wl w1) \<union> set (wk_visited w1)"
  shows "queue_post dec idx roots budget tok w w' tok'"
proof -
  have "set (wk_visited w) \<subseteq> set (wk_visited w')" using assms(1,2) unfolding queue_post_def by blast
  moreover have "set (wk_wl w) \<subseteq> set (wk_visited w')" if "set (wk_wl w1) \<subseteq> set (wk_visited w')"
    using assms(1,5) that unfolding queue_post_def by blast
  ultimately show ?thesis using assms(1,3,4) unfolding queue_post_def by blast
qed

lemma visited_shrinks: "a \<notin> set (wk_visited w) \<Longrightarrow> set (wk_visited w') = insert a (set (wk_visited w)) \<Longrightarrow>
  card (- set (wk_visited w')) < card (- set (wk_visited w))"
  by (rule psubset_card_mono) auto

lemma poll_not_cancelled: "\<not> fst (poll tok) \<Longrightarrow> tok = None \<Longrightarrow> snd (poll tok) = None"
  by simp

lemma descend_queue_ok:
  assumes img: "image_ok img" "idx = build_segment_index img" and dec: "decoder_ok dec"
    and "sound dec idx roots w" "wk_pending w = []"
  shows "\<exists>w' tok'. descend_queue dec idx budget tok w = Some (w', tok') \<and> queue_post dec idx roots budget tok w w' tok'"
  using assms(4,5)
proof (induction "(tok, w)" arbitrary: tok w rule: wf_induct_rule
         [OF wf_measures [of "[\<lambda>(tok, w). card (- set (wk_visited w)), \<lambda>(tok, w). length (wk_wl w)]"]])
  case (1 tok w)
  note IH = "1.hyps" and so = "1.prems"(1) and pe = "1.prems"(2)
  define h where "h = hd (wk_wl w)"
  let ?tok = "snd (poll tok)"
  note unf = descend_queue.simps [of dec idx budget tok w, folded h_def]
  show ?case
  proof (cases "wk_wl w = [] \<or> fst (poll tok)")
    case True
    then show ?thesis
    proof
      assume e: "wk_wl w = []"
      then have "queue_post dec idx roots budget tok w (flush w) tok"
        using flush_sound [OF so] flush_complete [of dec idx w "{}"] by (simp add: queue_post_def)
      with e show ?thesis using unf by simp
    next
      assume c: "fst (poll tok)"
      show ?thesis
      proof (cases "wk_wl w = []")
        case True
        then have "queue_post dec idx roots budget tok w (flush w) tok"
          using flush_sound [OF so] flush_complete [of dec idx w "{}"] by (simp add: queue_post_def)
        with True show ?thesis using unf by simp
      next
        case False
        obtain k where "tok = Some k" using c by (cases tok) auto
        then have "queue_post dec idx roots budget tok w w ?tok" using so by (simp add: queue_post_def)
        with False c show ?thesis using unf by simp
      qed
    qed
  next
    case False
    then have ne: "wk_wl w \<noteq> []" and np: "\<not> fst (poll tok)" by auto
    then have wl: "set (wk_wl w) = insert h (set (tl (wk_wl w)))" "length (tl (wk_wl w)) < length (wk_wl w)"
      unfolding h_def by (cases "wk_wl w"; simp)+
    consider "h \<in> set (wk_visited w)" | "h \<notin> set (wk_visited w)" "\<not> has_code idx h"
      | "h \<notin> set (wk_visited w)" "has_code idx h" by blast
    then show ?thesis
    proof cases
      case 1
      let ?w = "w\<lparr>wk_wl := tl (wk_wl w)\<rparr>"
      have "sound dec idx roots ?w" using so wl(1) by (simp add: sound_def)
      then obtain w' tok' where w': "descend_queue dec idx budget ?tok ?w = Some (w', tok')"
          "queue_post dec idx roots budget ?tok ?w w' tok'"
        using IH [of ?tok ?w] wl(2) pe by auto
      have "complete dec idx ?w {}" if "complete dec idx w {}"
        using that wl(1) 1 by (auto simp: complete_def keys_def)
      then have "queue_post dec idx roots budget tok w w' tok'"
        using w'(2) wl(1) 1 poll_not_cancelled [OF np] by (intro queue_post_trans [OF w'(2)]) auto
      with w'(1) 1 ne np show ?thesis using unf by auto
    next
      case 2
      let ?w = "take_next w"
      have v: "set (wk_visited ?w) = insert h (set (wk_visited w))" "wk_wl ?w = tl (wk_wl w)" "wk_pending ?w = []"
        using pe by (simp_all add: take_next_def h_def)
      obtain w' tok' where w': "descend_queue dec idx budget ?tok ?w = Some (w', tok')"
          "queue_post dec idx roots budget ?tok ?w w' tok'"
        using IH [of ?tok ?w] visited_shrinks [OF 2(1) v(1)] take_next_sound [OF so ne] v(3) by auto
      have "complete dec idx ?w {}" if "complete dec idx w {}"
        using take_next_complete [OF that ne pe] has_code_decodes [OF 2(2)] complete_stop h_def by blast
      then have "queue_post dec idx roots budget tok w w' tok'"
        using wl(1) v poll_not_cancelled [OF np] by (intro queue_post_trans [OF w'(2)]) auto
      with w'(1) 2 ne np show ?thesis using unf by auto
    next
      case 3
      let ?w = "take_next w" let ?d = "the (va_to_ptr idx h)"
      have v: "set (wk_visited ?w) = insert h (set (wk_visited w))" "wk_wl ?w = tl (wk_wl w)" "wk_pending ?w = []"
        using pe by (simp_all add: take_next_def h_def)
      have ptr: "va_to_ptr idx h = Some ?d" "is_code_addr idx h" using 3(2) by (auto simp: has_code_def)
      have dne: "?d \<noteq> []" using ptr(1) by (auto simp: va_to_ptr_def Let_def split: option.splits if_splits)
      have rh: "decodes dec idx h \<noteq> None \<Longrightarrow> reached dec idx roots h"
        using so wl(1) by (auto simp: sound_def)
      obtain w1 ab where w1: "walk_from dec budget h ?d ?w = Some (w1, ab)" "walk_post dec idx roots budget ?w {h} w1 ab"
        using walk_from_ok [OF img dec take_next_sound [OF so ne], of ?d h budget] ptr rh dne by auto
      then have s1: "sound dec idx roots w1" "wk_visited w1 = wk_visited ?w" by (auto simp: walk_post_def)
      show ?thesis
      proof (cases ab)
        case True
        then have "queue_post dec idx roots budget tok w w1 ?tok"
          using w1(2) s1 v(1) by (auto simp: queue_post_def walk_post_def)
        with w1(1) True 3 ne np show ?thesis using unf by auto
      next
        case False
        have v1: "set (wk_visited (flush w1)) = insert h (set (wk_visited w))" using s1(2) v(1) by simp
        obtain w' tok' where w': "descend_queue dec idx budget ?tok (flush w1) = Some (w', tok')"
            "queue_post dec idx roots budget ?tok (flush w1) w' tok'"
          using IH [of ?tok "flush w1"] visited_shrinks [OF 3(1) v1] flush_sound [OF s1(1)] by auto
        have "complete dec idx (flush w1) {}" if "complete dec idx w {}"
          using take_next_complete [OF that ne pe] w1(2) False flush_complete [of dec idx w1 "{}"] h_def by (simp add: walk_post_def)
        moreover have "set (tl (wk_wl w)) \<subseteq> set (wk_wl (flush w1))" using w1(2) v(2) by (simp add: walk_post_def)
        ultimately have "queue_post dec idx roots budget tok w w' tok'"
          using wl(1) v1 poll_not_cancelled [OF np] by (intro queue_post_trans [OF w'(2)]) auto
        with w'(1) w1(1) False 3 ne np show ?thesis using unf by auto
      qed
    qed
  qed
qed

section \<open>The descent\<close>

text \<open>The state between two roots, as the walk state the next root starts from.\<close>

definition resting :: "descent \<Rightarrow> va_t list \<Rightarrow> walk" where
  "resting s wl = \<lparr>wk_insns = ds_insns s, wk_pending = [], wk_since = 0, wk_wl = wl,
     wk_visited = ds_visited s, wk_hit = ds_hit s\<rparr>"

lemma resting_push: "complete dec idx (resting s []) {} \<Longrightarrow> complete dec idx (resting s [a]) {}"
  by (auto simp: complete_def resting_def keys_def)

lemma descend_ok:
  assumes img: "image_ok img" "idx = build_segment_index img" and dec: "decoder_ok dec"
    and so: "sound dec idx roots (resting s [])" and a: "a \<in> roots"
  shows "\<exists>s'. descend dec idx budget a s = Some s' \<and> sound dec idx roots (resting s' []) \<and>
    set (ds_visited s) \<subseteq> set (ds_visited s') \<and>
    (budget = 0 \<longrightarrow> ds_token s = None \<longrightarrow> complete dec idx (resting s []) {} \<longrightarrow>
       complete dec idx (resting s' []) {} \<and> ds_token s' = None \<and> a \<in> set (ds_visited s'))"
proof -
  let ?w = "resting s [a]"
  have sa: "sound dec idx roots ?w" using so a by (auto simp: sound_def resting_def intro: reached.root)
  obtain over w0 where ob: "over_budget budget ?w = (over, w0)" by (cases "over_budget budget ?w")
  then have w0: "w0 = ?w\<lparr>wk_hit := wk_hit w0\<rparr>" "budget = 0 \<Longrightarrow> \<not> over"
    by (auto simp: over_budget_def resting_def split: if_splits)
  show ?thesis
  proof (cases over)
    case True
    then have "descend dec idx budget a s = Some (s\<lparr>ds_hit := wk_hit w0\<rparr>)"
      using ob by (simp add: descend_def resting_def)
    moreover have "sound dec idx roots (resting (s\<lparr>ds_hit := wk_hit w0\<rparr>) [])" using so by (simp add: sound_def resting_def)
    ultimately show ?thesis using True w0(2) by auto
  next
    case False
    have s0: "sound dec idx roots w0" "wk_pending w0 = []" "wk_visited w0 = ds_visited s" "wk_wl w0 = [a]"
      using sa by (subst w0(1); simp add: sound_def resting_def)+
    obtain w' tok' where w': "descend_queue dec idx budget (ds_token s) w0 = Some (w', tok')"
        "queue_post dec idx roots budget (ds_token s) w0 w' tok'"
      using descend_queue_ok [OF img dec s0(1,2)] by blast
    define s' where "s' = \<lparr>ds_insns = wk_insns w', ds_visited = wk_visited w', ds_hit = wk_hit w', ds_token = tok'\<rparr>"
    have "descend dec idx budget a s = Some s'" using ob False w'(1) by (simp add: descend_def resting_def s'_def)
    moreover have "sound dec idx roots (resting s' [])"
      using w'(2) by (auto simp: queue_post_def sound_def resting_def s'_def)
    moreover have "complete dec idx w0 {}" if "complete dec idx (resting s []) {}"
      using resting_push [OF that, of a] by (subst w0(1)) (simp add: complete_def keys_def)
    moreover have "complete dec idx (resting s' []) {}" if "complete dec idx w' {}" "wk_wl w' = []" "wk_pending w' = []"
      by (rule complete_cong [OF that(1)]) (simp_all add: that resting_def keys_def s'_def)
    moreover have "ds_visited s' = wk_visited w'" "ds_token s' = tok'" by (simp_all add: s'_def)
    moreover have "set (ds_visited s) \<subseteq> set (wk_visited w')" using w'(2) s0(3) by (simp add: queue_post_def)
    moreover have "complete dec idx w' {} \<and> wk_wl w' = [] \<and> wk_pending w' = [] \<and> tok' = None \<and> a \<in> set (wk_visited w')"
      if "budget = 0" "ds_token s = None" "complete dec idx w0 {}"
      using w'(2) s0(4) that unfolding queue_post_def by auto
    ultimately show ?thesis by metis
  qed
qed

lemma descend_all_ok:
  assumes img: "image_ok img" "idx = build_segment_index img" and dec: "decoder_ok dec"
  shows "sound dec idx roots (resting s []) \<Longrightarrow> set as \<subseteq> roots \<Longrightarrow>
    \<exists>s'. descend_all dec idx budget as s = Some s' \<and> sound dec idx roots (resting s' []) \<and>
      set (ds_visited s) \<subseteq> set (ds_visited s') \<and>
      (budget = 0 \<longrightarrow> ds_token s = None \<longrightarrow> complete dec idx (resting s []) {} \<longrightarrow>
         complete dec idx (resting s' []) {} \<and> ds_token s' = None \<and> set as \<subseteq> set (ds_visited s'))"
proof (induction as arbitrary: s)
  case (Cons a as)
  obtain s1 where s1: "descend dec idx budget a s = Some s1" "sound dec idx roots (resting s1 [])"
      "set (ds_visited s) \<subseteq> set (ds_visited s1)"
      "budget = 0 \<Longrightarrow> ds_token s = None \<Longrightarrow> complete dec idx (resting s []) {} \<Longrightarrow>
         complete dec idx (resting s1 []) {} \<and> ds_token s1 = None \<and> a \<in> set (ds_visited s1)"
    using descend_ok [OF img dec Cons.prems(1), of a budget] Cons.prems(2) by auto
  obtain s2 where s2: "descend_all dec idx budget as s1 = Some s2" "sound dec idx roots (resting s2 [])"
      "set (ds_visited s1) \<subseteq> set (ds_visited s2)"
      "budget = 0 \<Longrightarrow> ds_token s1 = None \<Longrightarrow> complete dec idx (resting s1 []) {} \<Longrightarrow>
         complete dec idx (resting s2 []) {} \<and> ds_token s2 = None \<and> set as \<subseteq> set (ds_visited s2)"
    using Cons.IH [OF s1(2)] Cons.prems(2) by auto
  show ?case using s1 s2 by auto
qed simp

lemma stored_next:
  assumes co: "complete dec idx (resting s []) {}" and a: "a \<in> fst ` set (ds_insns s)" "decodes dec idx a = Some i"
  shows "falls_through i \<Longrightarrow> next_in_segment idx a (in_len i) \<Longrightarrow> decodes dec idx (a + of_nat (in_len i)) \<noteq> None \<Longrightarrow>
      a + of_nat (in_len i) \<in> fst ` set (ds_insns s)"
    "transfers i \<Longrightarrow> decodes dec idx (branch_target i) \<noteq> None \<Longrightarrow> branch_target i \<in> fst ` set (ds_insns s)"
proof -
  have k: "keys (resting s []) = fst ` set (ds_insns s)" "set (wk_visited (resting s [])) = set (ds_visited s)"
    "wk_wl (resting s []) = []" by (simp_all add: keys_def resting_def)
  note co' = co [unfolded complete_def k]
  show "falls_through i \<Longrightarrow> next_in_segment idx a (in_len i) \<Longrightarrow> decodes dec idx (a + of_nat (in_len i)) \<noteq> None \<Longrightarrow>
      a + of_nat (in_len i) \<in> fst ` set (ds_insns s)"
    using conjunct1 [OF co', rule_format, OF a] by blast
  assume t: "transfers i" "decodes dec idx (branch_target i) \<noteq> None"
  then have "branch_target i \<in> set (ds_visited s)" using conjunct1 [OF co', rule_format, OF a] by simp
  with t(2) show "branch_target i \<in> fst ` set (ds_insns s)" using conjunct2 [OF co', rule_format] by blast
qed

lemma reached_stored:
  assumes co: "complete dec idx (resting s []) {}" and ro: "roots \<subseteq> set (ds_visited s)"
  shows "reached dec idx roots a \<Longrightarrow> a \<in> fst ` set (ds_insns s)"
proof (induction rule: reached.induct)
  case (root a)
  then show ?case using co ro unfolding complete_def keys_def resting_def by auto
next
  case (fall a i)
  then show ?case using stored_next [OF co] by blast
next
  case (target a i)
  then show ?case using stored_next [OF co] by blast
qed

text \<open>
  C6. With a decoder that consumes at least one of the bytes it is given, on an image whose segments
  neither wrap nor overlap, recursive descent ends whatever the budget and the cancellation; it stores
  only instructions control flow reaches from the roots, each as the decoder gives it; and without a
  budget and a cancellation it stores exactly those, although walks stop at code already stored.
\<close>

theorem recursive_descent_exact:
  assumes "image_ok img" "decoder_ok dec"
  shows "\<exists>s. recursive_descent dec img budget tok = Some s \<and>
    (let idx = build_segment_index img; R = reached dec idx (set (descent_roots img idx)) in
      (\<forall>a i. map_of (ds_insns s) a = Some i \<longrightarrow> R a \<and> decodes dec idx a = Some i) \<and>
      (budget = 0 \<and> tok = None \<longrightarrow> (\<forall>a. R a \<longrightarrow> map_of (ds_insns s) a = decodes dec idx a)))"
proof -
  define idx where "idx = build_segment_index img"
  define s0 where "s0 = \<lparr>ds_insns = [], ds_visited = [], ds_hit = False, ds_token = tok\<rparr>"
  let ?roots = "set (descent_roots img idx)"
  have i: "sound dec idx ?roots (resting s0 [])" "complete dec idx (resting s0 []) {}"
    by (simp_all add: sound_def complete_def resting_def keys_def s0_def)
  obtain s where s: "descend_all dec idx budget (descent_roots img idx) s0 = Some s" "sound dec idx ?roots (resting s [])"
      "budget = 0 \<Longrightarrow> tok = None \<Longrightarrow> complete dec idx (resting s []) {} \<and> ?roots \<subseteq> set (ds_visited s)"
    using descend_all_ok [OF assms(1) idx_def assms(2) i(1) order_refl, of budget] i(2) by (auto simp: s0_def)
  have so: "reached dec idx ?roots a \<and> decodes dec idx a = Some j" if "(a, j) \<in> set (ds_insns s)" for a j
    using s(2) that by (auto simp: sound_def resting_def)
  moreover have "map_of (ds_insns s) a = decodes dec idx a" if "budget = 0" "tok = None" "reached dec idx ?roots a" for a
  proof -
    have "a \<in> fst ` set (ds_insns s)" using reached_stored s(3) that by blast
    then obtain j where "map_of (ds_insns s) a = Some j" by (metis map_of_eq_None_iff not_None_eq)
    then show ?thesis using so map_of_SomeD by fastforce
  qed
  moreover have "recursive_descent dec img budget tok = Some s"
    using s(1) by (simp add: recursive_descent_def Let_def s0_def idx_def)
  ultimately show ?thesis unfolding idx_def [symmetric] Let_def by (blast dest: map_of_SomeD)
qed

end
