(* ===== verification/Descent_Budget.thy ===== *)
theory Descent_Budget
  imports Descent_Correct
begin

text \<open>
  A small concrete decoder and image, on which the theorem of \<open>Descent_Correct\<close> applies, and the
  instruction budget: it is looked at before each root and whenever a walk has buffered 128
  instructions, and every walk starts with an empty buffer, so that walks shorter than that never look
  at it.
\<close>

section \<open>A decoder for five instructions\<close>

definition mini_insn :: "va_t \<Rightarrow> insn_type \<Rightarrow> operand list \<Rightarrow> u8 list \<Rightarrow> insn" where
  "mini_insn a ty ops bs = empty_insn\<lparr>in_addr := a, in_type := ty, in_ops := ops, in_op_count := length ops,
     in_bytes := bs, in_len := length bs\<rparr>"

definition mini_rel :: "va_t \<Rightarrow> u8 \<Rightarrow> operand list" where
  "mini_rel a r = [empty_operand\<lparr>o_type := OImm, o_val := a + 2 + scast r\<rparr>]"

definition mini_decoder :: decoder where
  "mini_decoder a d =
     (case d of [] \<Rightarrow> None
      | b # rest \<Rightarrow>
        if b = 0x90 then Some (mini_insn a INop [] [b])
        else if b = 0xC3 then Some (mini_insn a IRet [] [b])
        else (case rest of [] \<Rightarrow> None
          | r # _ \<Rightarrow>
            if b = 0xEB then Some (mini_insn a IJmp (mini_rel a r) [b, r])
            else if b = 0x74 then Some (mini_insn a IJcc (mini_rel a r) [b, r])
            else if b = 0xE8 then Some (mini_insn a ICall (mini_rel a r) [b, r])
            else None))"

lemma mini_decoder_ok: "decoder_ok mini_decoder"
  by (auto simp: decoder_ok_def mini_decoder_def mini_insn_def split: list.splits if_splits)

definition mini_segment :: "u8 list \<Rightarrow> segment" where
  "mini_segment bs = \<lparr>sg_name = ''.text'', sg_va = 16, sg_size = of_nat (length bs), sg_file_off = 0,
     sg_file_sz = of_nat (length bs), sg_flags = 0x20000000, sg_data = bs\<rparr>"

definition mini_image :: "u8 list \<Rightarrow> pe_image" where
  "mini_image bs = \<lparr>img_arch = X64, img_base = 0, img_entry = 16, img_segments = [mini_segment bs],
     img_imports = [], img_exports = [], img_runtime_funcs = [], img_symbols = [], img_encrypted = False, img_raw = bs\<rparr>"

lemma mini_image_ok: "length bs < 100 \<Longrightarrow> image_ok (mini_image bs)"
  by (simp add: image_ok_def mini_image_def mini_segment_def unat_of_nat)

text \<open>\<open>call 0x14; ret; (a zero byte); nop; jmp 0x14\<close>.\<close>

definition mini_code :: "u8 list" where
  "mini_code = [0xE8, 0x02, 0xC3, 0x00, 0x90, 0xEB, 0xFD]"

lemma recursive_descent_exact_witness:
  "\<exists>s. recursive_descent mini_decoder (mini_image mini_code) 0 None = Some s \<and>
    (let idx = build_segment_index (mini_image mini_code);
         R = reached mini_decoder idx (set (descent_roots (mini_image mini_code) idx)) in
      (\<forall>a i. map_of (ds_insns s) a = Some i \<longrightarrow> R a \<and> decodes mini_decoder idx a = Some i) \<and>
      ((0 :: nat) = 0 \<and> None = (None :: token) \<longrightarrow> (\<forall>a. R a \<longrightarrow> map_of (ds_insns s) a = decodes mini_decoder idx a)))"
  by (rule recursive_descent_exact [OF mini_image_ok mini_decoder_ok]) (simp add: mini_code_def)

lemma mini_descent:
  "map_option (\<lambda>s. map (\<lambda>(a, i). (a, in_type i)) (ds_insns s)) (recursive_descent mini_decoder (mini_image mini_code) 0 None) =
     Some [(16, ICall), (18, IRet), (20, INop), (21, IJmp)]"
  by code_simp

section \<open>Short walks\<close>

text \<open>From \<open>a\<close> at most \<open>k\<close> instructions follow one another.\<close>

fun short_run :: "decoder \<Rightarrow> nat \<Rightarrow> va_t \<Rightarrow> u8 list \<Rightarrow> bool" where
  "short_run dec 0 a d \<longleftrightarrow> d = [] \<or> dec a d = None"
| "short_run dec (Suc k) a d \<longleftrightarrow> d = [] \<or>
     (case dec a d of None \<Rightarrow> True
      | Some i \<Rightarrow> falls_through i \<longrightarrow> short_run dec k (a + of_nat (in_len i)) (drop (in_len i) d))"

definition noted :: "va_t \<Rightarrow> walk \<Rightarrow> walk" where
  "noted a w = w\<lparr>wk_since := (if 32 \<le> wk_since w + 1 then 0 else wk_since w + 1)\<rparr>"

lemma walk_step_short:
  assumes "length (wk_pending w) < 127"
  shows "walk_step dec budget a d w =
    (case dec a d of None \<Rightarrow> (w, Walk_Over)
     | Some i \<Rightarrow> if 32 \<le> wk_since w + 1 \<and> map_of (wk_insns w) a \<noteq> None then (noted a w, Walk_Over)
         else after_insn i ((noted a w)\<lparr>wk_pending := wk_pending w @ [(in_addr i, i)]\<rparr>))"
proof (cases "dec a d")
  case None
  then show ?thesis by (simp add: walk_step_def)
next
  case (Some i)
  have n: "\<not> 128 \<le> length (wk_pending w @ [(in_addr i, i)])" using assms by simp
  show ?thesis
  proof (cases "map_of (wk_insns w) a")
    case None
    then show ?thesis unfolding walk_step_def Some option.case Let_def noted_def
      using n by (simp del: length_append)
  next
    case (Some j)
    then show ?thesis unfolding walk_step_def \<open>dec a d = Some i\<close> option.case Let_def noted_def
      using n by (simp del: length_append)
  qed
qed

lemma walk_step_unlimited:
  assumes "length (wk_pending w) < 127"
  shows "walk_step dec budget a d w = walk_step dec 0 a d w"
    and "length (wk_pending (fst (walk_step dec 0 a d w))) \<le> Suc (length (wk_pending w))"
proof -
  show "walk_step dec budget a d w = walk_step dec 0 a d w" by (simp only: walk_step_short [OF assms])
  show "length (wk_pending (fst (walk_step dec 0 a d w))) \<le> Suc (length (wk_pending w))"
    by (simp add: walk_step_short [OF assms] noted_def split: option.split)
qed

lemma walk_from_unlimited:
  assumes "short_run dec k a d" "length (wk_pending w) + k < 128"
  shows "walk_from dec budget a d w = walk_from dec 0 a d w"
  using assms
proof (induction k arbitrary: a d w)
  case 0
  then show ?case by (auto simp: walk_from.simps [of dec _ a d w] walk_step_def)
next
  case (Suc k)
  show ?case
  proof (cases "d = []")
    case False
    have short: "length (wk_pending w) < 127" using Suc.prems(2) by simp
    have eq: "walk_step dec budget a d w = walk_step dec 0 a d w" by (rule walk_step_unlimited(1) [OF short])
    let ?w = "fst (walk_step dec 0 a d w)"
    have "walk_from dec budget (a + of_nat n) (drop n d) ?w = walk_from dec 0 (a + of_nat n) (drop n d) ?w"
      if on: "snd (walk_step dec 0 a d w) = Walk_On n" for n
    proof (rule Suc.IH)
      obtain i where "dec a d = Some i" "falls_through i" "n = in_len i"
        using on by (auto simp: walk_step_short [OF short] split: option.splits if_splits)
      with Suc.prems(1) False show "short_run dec k (a + of_nat n) (drop n d)" by simp
      show "length (wk_pending ?w) + k < 128"
        using walk_step_unlimited(2) [OF short, of dec a d] Suc.prems(2) by linarith
    qed
    then show ?thesis
      using eq False by (cases "snd (walk_step dec 0 a d w)") (simp_all add: walk_from.simps [of dec _ a d w])
  qed (simp add: walk_from.simps [of dec _ a "[]" w])
qed

text \<open>Every walk is short: nowhere do 128 instructions follow one another.\<close>

definition short_code :: "decoder \<Rightarrow> segment_span list \<Rightarrow> bool" where
  "short_code dec idx \<longleftrightarrow> (\<forall>a d. va_to_ptr idx a = Some d \<longrightarrow> short_run dec 127 a d)"

lemma descend_queue_unlimited:
  assumes sh: "short_code dec idx" and "wk_pending w = []"
    and ret: "descend_queue dec idx 0 tok w = Some r"
  shows "descend_queue dec idx budget tok w = Some r"
proof -
  have "wk_pending w = [] \<longrightarrow> descend_queue dec idx' budget tok w = Some r"
    if "short_code dec idx'" "b = 0" "descend_queue dec idx' b tok w = Some r" for idx' b
  proof -
    have "short_code dec idx' \<longrightarrow> b = 0 \<longrightarrow> wk_pending w = [] \<longrightarrow> descend_queue dec idx' budget tok w = Some r"
    proof (rule descend_queue.raw_induct [OF _ that(3), where P = "\<lambda>dec idx' b tok w r.
        short_code dec idx' \<longrightarrow> b = 0 \<longrightarrow> wk_pending w = [] \<longrightarrow> descend_queue dec idx' budget tok w = Some r"], intro impI)
      fix f :: "decoder \<Rightarrow> segment_span list \<Rightarrow> nat \<Rightarrow> token \<Rightarrow> walk \<Rightarrow> (walk \<times> token) option"
      fix dec idx' b tok w r
      assume IH: "\<And>dec idx' b tok w r. f dec idx' b tok w = Some r \<Longrightarrow>
          short_code dec idx' \<longrightarrow> b = 0 \<longrightarrow> wk_pending w = [] \<longrightarrow> descend_queue dec idx' budget tok w = Some r"
        and step: "(if wk_wl w = [] then Some (flush w, tok)
          else if fst (poll tok) then Some (w, snd (poll tok))
          else if hd (wk_wl w) \<in> set (wk_visited w) then f dec idx' b (snd (poll tok)) (w\<lparr>wk_wl := tl (wk_wl w)\<rparr>)
          else if \<not> has_code idx' (hd (wk_wl w)) then f dec idx' b (snd (poll tok)) (take_next w)
          else Option.bind (walk_from dec b (hd (wk_wl w)) (the (va_to_ptr idx' (hd (wk_wl w)))) (take_next w))
            (\<lambda>r. if snd r then Some (fst r, snd (poll tok))
                 else f dec idx' b (snd (poll tok)) (flush (fst r)))) = Some r"
        and sh: "short_code dec idx'" and b: "b = 0" and pe: "wk_pending w = []"
      let ?h = "hd (wk_wl w)"
      have pt: "wk_pending (take_next w) = []" using pe by (simp add: take_next_def)
      have walk: "walk_from dec budget ?h (the (va_to_ptr idx' ?h)) (take_next w) =
          walk_from dec b ?h (the (va_to_ptr idx' ?h)) (take_next w)" if "has_code idx' ?h"
      proof -
        have "short_run dec 127 ?h (the (va_to_ptr idx' ?h))"
          using sh that by (auto simp: short_code_def has_code_def)
        then have "walk_from dec budget ?h (the (va_to_ptr idx' ?h)) (take_next w) =
            walk_from dec 0 ?h (the (va_to_ptr idx' ?h)) (take_next w)"
          by (rule walk_from_unlimited) (simp add: pt)
        then show ?thesis by (simp only: b)
      qed
      note unf = descend_queue.simps [of dec idx' budget tok w]
      have more: "descend_queue dec idx' budget tok w = Some r" if "f dec idx' b tok w = Some r" "wk_pending w = []" for tok w
        by (rule IH [OF that(1), rule_format, OF sh b that(2)])
      consider "wk_wl w = []" | "wk_wl w \<noteq> []" "fst (poll tok)"
        | "wk_wl w \<noteq> []" "\<not> fst (poll tok)" "?h \<in> set (wk_visited w)"
        | "wk_wl w \<noteq> []" "\<not> fst (poll tok)" "?h \<notin> set (wk_visited w)" "\<not> has_code idx' ?h"
        | "wk_wl w \<noteq> []" "\<not> fst (poll tok)" "?h \<notin> set (wk_visited w)" "has_code idx' ?h" by blast
      then show "descend_queue dec idx' budget tok w = Some r"
      proof cases
        case 5
        with step obtain q where q: "walk_from dec b ?h (the (va_to_ptr idx' ?h)) (take_next w) = Some q"
            "(if snd q then Some (fst q, snd (poll tok)) else f dec idx' b (snd (poll tok)) (flush (fst q))) = Some r"
          by (cases "walk_from dec b ?h (the (va_to_ptr idx' ?h)) (take_next w)") (simp_all del: split_paired_Ex)
        with 5 more [of "snd (poll tok)" "flush (fst q)"] walk [OF 5(4)] show ?thesis
          unfolding unf by (cases "snd q") simp_all
      qed (use step pe pt more [of "snd (poll tok)"] in \<open>simp_all add: unf\<close>)
    qed
    with that show ?thesis by simp
  qed
  with assms show ?thesis by simp
qed

text \<open>
  The budget does not bound the work of one root: when no 128 instructions follow one another, as
  in code made of ordinary blocks, a root whose turn comes before the budget is reached is explored to
  the end, whatever the budget, and the budget is not reported as reached.
\<close>

theorem budget_passed_over:
  assumes "short_code dec idx" "length (ds_insns s) < budget"
    "descend dec idx 0 a s = Some s'"
  shows "descend dec idx budget a s = Some s'"
proof -
  have "over_budget budget (resting s [a]) = (False, resting s [a])"
    using assms(2) by (simp add: over_budget_def resting_def)
  then show ?thesis
    using assms(3) descend_queue_unlimited [OF assms(1), of "resting s [a]" "ds_token s" _ budget]
    by (auto simp: descend_def resting_def)
qed

lemma short_run_length:
  assumes "decoder_ok dec" shows "length d \<le> k \<Longrightarrow> short_run dec k a d"
proof (induction k arbitrary: a d)
  case (Suc k)
  have "length (drop (in_len i) d) \<le> k" if "dec a d = Some i" for i
  proof -
    have "0 < in_len i" using assms that by (simp add: decoder_ok_def)
    with Suc.prems show ?thesis by simp
  qed
  with Suc.IH show ?case by (auto split: option.split)
qed simp

lemma mini_short_code:
  assumes "length bs < 100" shows "short_code mini_decoder (build_segment_index (mini_image bs))"
  unfolding short_code_def
proof (intro allI impI)
  fix a d assume "va_to_ptr (build_segment_index (mini_image bs)) a = Some d"
  then obtain sp where sp: "span_for (build_segment_index (mini_image bs)) a = Some sp" "length d \<le> length (sg_data (sp_seg sp))"
    by (auto simp: va_to_ptr_def Let_def split: option.splits if_splits)
  then have "sp = span_of_segment (mini_segment bs)"
    using span_for_SomeD [OF mini_image_ok [OF assms]] by (auto simp: mini_image_def)
  with sp(2) assms have "length d \<le> 127" by (simp add: span_of_segment_def mini_segment_def)
  then show "short_run mini_decoder 127 a d" by (rule short_run_length [OF mini_decoder_ok])
qed

text \<open>Three jumps, each to the next, and a return: four walks of one instruction, with a budget of one.\<close>

definition chain_code :: "u8 list" where
  "chain_code = [0xEB, 0, 0xEB, 0, 0xEB, 0, 0xC3]"

definition fresh_descent :: descent where
  "fresh_descent = \<lparr>ds_insns = [], ds_visited = [], ds_hit = False, ds_token = None\<rparr>"

lemma budget_passed_over_witness:
  "map_option (\<lambda>s. (map fst (ds_insns s), ds_hit s))
     (descend mini_decoder (build_segment_index (mini_image chain_code)) 1 16 fresh_descent) = Some ([16, 18, 20, 22], False)"
proof -
  let ?idx = "build_segment_index (mini_image chain_code)"
  have zero: "map_option (\<lambda>s. (map fst (ds_insns s), ds_hit s)) (descend mini_decoder ?idx 0 16 fresh_descent) =
      Some ([16, 18, 20, 22], False)" by code_simp
  then obtain s where s: "descend mini_decoder ?idx 0 16 fresh_descent = Some s" by auto
  have "descend mini_decoder ?idx 1 16 fresh_descent = Some s"
    by (rule budget_passed_over [OF mini_short_code _ s]) (simp_all add: chain_code_def fresh_descent_def)
  with zero s show ?thesis by simp
qed

end
