(* ===== verification/Cfg_Example.thy ===== *)
theory Cfg_Example
  imports Cfg_Correct Descent_Budget
begin

text \<open>
  The graph on two small functions: the theorem of \<open>Cfg_Correct\<close> applied, a block that two blocks share,
  and the fall-through edge that is lost where the next address is another function's entry.
\<close>

definition code_db :: "insn list \<Rightarrow> (va_t \<times> func) list \<Rightarrow> analysis_db" where
  "code_db is fs = (db_over no_types X64 0)\<lparr>db_insns := map (\<lambda>i. (in_addr i, i)) is, db_funcs := fs\<rparr>"

lemma env_ok_code:
  assumes "\<forall>i \<in> set is. 0 < in_len i \<and> unat (in_addr i) + in_len i < 2 ^ 64"
  shows "env_ok (env_of recovered (code_db is fs) f)"
proof -
  have "0 < in_len i \<and> unat a + in_len i < 2 ^ 64" if "insn_at (env_of recovered (code_db is fs) f) a = Some i" for a i
  proof -
    have "(a, i) \<in> set (map (\<lambda>i. (in_addr i, i)) is)"
      using that by (auto simp: insn_at_def env_of_def code_db_def split: if_splits dest: map_of_SomeD)
    with assms show ?thesis by auto
  qed
  then show ?thesis by (simp add: env_ok_def)
qed

text \<open>\<open>nop; jz\<close> back to the \<open>jz\<close> itself, \<open>ret\<close>.\<close>

definition loop_code :: "insn list" where
  "loop_code = [mini_insn 16 INop [] [0x90], mini_insn 17 IJcc (mini_rel 17 (- 2)) [0x74, - 2], mini_insn 19 IRet [] [0xC3]]"

lemma build_one_cfg_exact_witness:
  "\<exists>g. build_one_cfg (\<lambda>_. []) (code_db loop_code []) (new_func 16 ''f'') = Some g \<and>
    fn_entry g = fn_entry (new_func 16 ''f'') \<and> fn_analyzed g \<and> fn_block_addrs g = map fst (fn_blocks g) \<and>
    cfg_spec (env_of (\<lambda>_. []) (code_db loop_code []) (new_func 16 ''f'')) (fn_blocks g)"
  by (rule build_one_cfg_exact [OF env_ok_code]) (simp_all add: loop_code_def mini_insn_def new_func_def empty_insn_def)

definition outline :: "func option \<Rightarrow> (va_t \<times> va_t list \<times> va_t list) list option" where
  "outline = map_option (\<lambda>g. map (\<lambda>(a, bb). (a, addrs_from a (bb_insns bb), bb_succs bb)) (fn_blocks g))"

text \<open>Blocks are not split at the target of a branch: the instruction at 17 is in two blocks.\<close>

lemma blocks_overlap:
  "outline (build_one_cfg (\<lambda>_. []) (code_db loop_code []) (new_func 16 ''f'')) =
     Some [(16, [16, 17], [17, 19]), (17, [17], [17, 19]), (19, [19], [])]"
  by code_simp

text \<open>A function that falls into the next one ends in a block without successors and without a return.\<close>

lemma fall_through_lost:
  "outline (build_one_cfg (\<lambda>_. []) (code_db loop_code [(17, new_func 17 ''g'')]) (new_func 16 ''f'')) =
     Some [(16, [16], [])]"
  by code_simp

end
