(* ===== verification/Discover_Correct.thy ===== *)
theory Discover_Correct
  imports Discover Cfg_Example
begin

text \<open>
  The rounds end and decode nothing: whatever a switch table or a resolved jump leads to, its
  instructions are in the database only if the descent had decoded them before.  Register-indirect calls
  and jumps are never resolved, because the tracking forgets the register of the call before it is
  looked up.
\<close>

section \<open>What the passes keep\<close>

named_theorems keeps \<open>the instructions of the database are kept\<close>

lemma push_edge_db [simp]: "an_db (push_edge site t s) = an_db s" "an_token (push_edge site t s) = an_token s"
  by (simp_all add: push_edge_def)

lemma fold_push_edge_db [simp]: "an_db (fold (push_edge site) ts s) = an_db s"
  by (induction ts arbitrary: s) simp_all

lemma switch_block_db [simp]: "an_db (snd (switch_block idx entry f bb s)) = an_db s"
  by (simp add: switch_block_def Let_def)

lemma switch_blocks_db [simp]: "an_db (snd (switch_blocks idx entry f bs s)) = an_db s"
proof (induction bs arbitrary: s)
  case (Cons p bs)
  obtain a bb where p: "p = (a, bb)" by (cases p)
  obtain bb' s1 where b: "switch_block idx entry f bb s = (bb', s1)" by (cases "switch_block idx entry f bb s")
  have "an_db s1 = an_db s" using switch_block_db [of idx entry f bb s] b by simp
  with Cons [of s1] show ?case
    by (cases "switch_blocks idx entry f bs s1") (simp add: p b)
qed simp

lemma poll_token_db [simp]: "an_db (snd (poll_token s)) = an_db s"
  by (simp add: poll_token_def split: prod.split)

lemma switch_funcs_db: "an_db (snd (switch_funcs idx only fs s)) = an_db s"
proof (induction fs arbitrary: s)
  case (Cons p fs)
  obtain a f where p: "p = (a, f)" by (cases p)
  obtain c s0 where t: "poll_token s = (c, s0)" by (cases "poll_token s")
  have s0: "an_db s0 = an_db s" using poll_token_db [of s] t by simp
  obtain bs s1 where b: "switch_blocks idx (fn_entry f) f (fn_blocks f) s0 = (bs, s1)"
    by (cases "switch_blocks idx (fn_entry f) f (fn_blocks f) s0")
  have s1: "an_db s1 = an_db s0" using switch_blocks_db [of idx "fn_entry f" f "fn_blocks f" s0] b by simp
  show ?case using Cons [of s] Cons [of s0] Cons [of s1] s0 s1
    by (auto simp: p t b split: prod.split)
qed simp

lemma detect_switches_insns [keeps]: "db_insns (an_db (detect_switches idx only s)) = db_insns (an_db s)"
  using switch_funcs_db [of idx only "db_funcs (an_db s)" s] by (auto simp: detect_switches_def split: prod.split)

lemma resolve_insns [keeps]: "db_insns (an_db (resolve site t entry s)) = db_insns (an_db s)"
  by (simp add: resolve_def Let_def)

lemma flow_insn_insns [keeps]: "db_insns (an_db (snd (flow_insn idx ar entry i st))) = db_insns (an_db (snd st))"
  by (simp add: flow_insn_def Let_def resolve_insns split: option.split)

lemma fold_keeps: "(\<And>x s. g (h x s) = g s) \<Longrightarrow> g (fold h xs s) = g s"
  by (induction xs arbitrary: s) simp_all

lemma flow_func_insns [keeps]: "db_insns (an_db (flow_func idx ar f s)) = db_insns (an_db s)"
proof -
  have "db_insns (an_db (snd (fold (flow_insn idx ar e) is st))) = db_insns (an_db (snd st))" for e "is" st
    by (rule fold_keeps [where g = "\<lambda>st. db_insns (an_db (snd st))"]) (rule flow_insn_insns)
  then show ?thesis unfolding flow_func_def
    by (subst fold_keeps [where g = "\<lambda>st. db_insns (an_db (snd st))"]) (auto split: option.split)
qed

lemma propagate_dataflow_insns [keeps]: "db_insns (an_db (propagate_dataflow idx ar only s)) = db_insns (an_db s)"
proof -
  have "db_insns (an_db (flow_one idx ar only p s)) = db_insns (an_db s)" for p s
  proof -
    obtain c s0 where t: "poll_token s = (c, s0)" by (cases "poll_token s")
    then have "an_db s0 = an_db s" using poll_token_db [of s] by simp
    then show ?thesis by (simp add: flow_one_def t flow_func_insns)
  qed
  then show ?thesis unfolding propagate_dataflow_def by (rule fold_keeps [where g = "\<lambda>s. db_insns (an_db s)"])
qed

lemma add_jump_edges_insns [keeps]: "db_insns (an_db (add_jump_edges s)) = db_insns (an_db s)"
  unfolding add_jump_edges_def by (rule fold_keeps [where g = "\<lambda>s. db_insns (an_db s)"]) (auto split: option.split)

lemma add_func_insns [keeps]: "db_insns (add_func f db) = db_insns db"
  by (simp add: add_func_def)

lemma add_funcs_insns [keeps]: "db_insns (fold (\<lambda>e. add_func (new_func e (nm e))) es db) = db_insns db"
  by (rule fold_keeps [where g = db_insns]) (rule add_func_insns)

lemma tidy_edges_db [simp]: "an_db (tidy_edges s) = an_db s"
  by (simp add: tidy_edges_def)

section \<open>The rounds end\<close>

text \<open>Decoded instructions have a length and do not wrap around the address space.\<close>

definition insns_ok :: "analysis_db \<Rightarrow> bool" where
  "insns_ok db \<longleftrightarrow> (\<forall>(a, i) \<in> set (db_insns db). 0 < in_len i \<and> unat a + in_len i < 2 ^ 64)"

lemma env_of_ok: "insns_ok db \<Longrightarrow> env_ok (env_of recovered db f)"
  by (fastforce simp: env_ok_def insns_ok_def insn_at_def env_of_def split: if_splits dest: map_of_SomeD)

lemma build_scope_total:
  assumes "insns_ok db" shows "\<exists>r. build_scope recovered db only tok fs = Some r"
proof (induction fs arbitrary: tok)
  case (Cons p fs)
  obtain a f where p: "p = (a, f)" by (cases p)
  obtain g where "build_one_cfg recovered db (clear_cfg f) = Some g"
    using build_one_cfg_exact [OF env_of_ok [OF assms], of "clear_cfg f"] by (auto simp: clear_cfg_def)
  with Cons [of tok] Cons [of "snd (poll tok)"] show ?case by (auto simp: p)
qed simp

lemma rebuild_total:
  assumes "insns_ok (an_db s)"
  shows "\<exists>s'. rebuild only s = Some s' \<and> db_insns (an_db s') = db_insns (an_db s)"
  using build_scope_total [OF assms] by (fastforce simp: rebuild_def build_cfgs_def)

lemma discover_round_total:
  assumes "insns_ok (an_db s)"
  shows "\<exists>s' new. discover_round img idx only s = Some (s', new) \<and> db_insns (an_db s') = db_insns (an_db s)"
  using rebuild_total [of "s\<lparr>an_dirty := {}\<rparr>" only] assms
  by (auto simp: discover_round_def Let_def keeps)

lemma discover_loop_total:
  "insns_ok (an_db s) \<Longrightarrow> \<exists>s'. discover_loop img idx k only prev s = Some s' \<and> db_insns (an_db s') = db_insns (an_db s)"
proof (induction k arbitrary: only prev s)
  case 0
  then show ?case using rebuild_total [of s only] by simp
next
  case (Suc k)
  obtain c s0 where t: "poll_token s = (c, s0)" by (cases "poll_token s")
  then have s0: "an_db s0 = an_db s" using poll_token_db [of s] by simp
  then have "insns_ok (an_db s0)" using Suc.prems by simp
  then obtain s1 new where r: "discover_round img idx only s0 = Some (s1, new)" "db_insns (an_db s1) = db_insns (an_db s0)"
    using discover_round_total by blast
  have "insns_ok (an_db (s1\<lparr>an_dirty := {}\<rparr>))" using r(2) s0 Suc.prems by (simp add: insns_ok_def)
  then show ?case
    using Suc.IH [of "s1\<lparr>an_dirty := {}\<rparr>" "Some (an_dirty s1 \<union> set new)" "Some (edge_count s1, length (db_funcs (an_db s1)))"] r s0
    by (auto simp: t Let_def)
qed


section \<open>Register-indirect calls\<close>

lemma register_target_lost:
  assumes "o_type (operand_at i 0) = OReg" "is_call i \<or> in_type i = IJmp"
  shows "indirect_target idx ar i (track_reg i rv) = None"
  using assms by (auto simp: indirect_target_def track_reg_def is_call_def Let_def split: option.split)

definition memory_call :: "analyzer \<Rightarrow> va_t \<Rightarrow> bool" where
  "memory_call s site \<longleftrightarrow> (\<exists>(a, f) \<in> set (db_funcs (an_db s)). \<exists>(b, bb) \<in> set (fn_blocks f). \<exists>i \<in> set (bb_insns bb).
     in_addr i = site \<and> o_type (operand_at i 0) = OMem)"

lemma flow_insn_resolves:
  assumes "map_of (db_resolved_indirect (an_db (snd (flow_insn idx ar entry i st)))) site \<noteq>
      map_of (db_resolved_indirect (an_db (snd st))) site"
  shows "in_addr i = site \<and> o_type (operand_at i 0) = OMem"
proof -
  obtain t where t: "indirect_target idx ar i (track_reg i (fst st)) = Some t" "in_addr i = site"
    using assms by (auto simp: flow_insn_def Let_def resolve_def update_conv split: option.splits if_splits)
  then have call: "(is_call i \<or> in_type i = IJmp) \<and> o_type (operand_at i 0) \<in> {OReg, OMem}"
    by (auto simp: indirect_target_def Let_def split: if_splits)
  with t register_target_lost [of i] show ?thesis by auto
qed

lemma fold_changes:
  "g (fold h xs s) \<noteq> g s \<Longrightarrow> \<exists>x \<in> set xs. \<exists>s'. g (h x s') \<noteq> g s'"
  by (induction xs arbitrary: s) (auto, metis)

lemma flow_func_resolves:
  assumes "map_of (db_resolved_indirect (an_db (flow_func idx ar f s))) site \<noteq> map_of (db_resolved_indirect (an_db s)) site"
  shows "\<exists>(b, bb) \<in> set (fn_blocks f). \<exists>i \<in> set (bb_insns bb). in_addr i = site \<and> o_type (operand_at i 0) = OMem"
proof -
  let ?g = "\<lambda>st :: reg_vals \<times> analyzer. map_of (db_resolved_indirect (an_db (snd st))) site"
  let ?h = "\<lambda>a st. case map_of (fn_blocks f) a of None \<Rightarrow> st
        | Some bb \<Rightarrow> fold (flow_insn idx ar (fn_entry f)) (bb_insns bb) st"
  have "?g (fold ?h (fn_block_addrs f) (Map.empty, s)) \<noteq> ?g (Map.empty, s)"
    using assms by (simp add: flow_func_def)
  then obtain a st where "?g (?h a st) \<noteq> ?g st" using fold_changes [of ?g ?h] by blast
  then obtain bb where bb: "map_of (fn_blocks f) a = Some bb" "?g (fold (flow_insn idx ar (fn_entry f)) (bb_insns bb) st) \<noteq> ?g st"
    by (cases "map_of (fn_blocks f) a") simp_all
  then obtain i st' where "i \<in> set (bb_insns bb)" "?g (flow_insn idx ar (fn_entry f) i st') \<noteq> ?g st'"
    using fold_changes [of ?g "flow_insn idx ar (fn_entry f)"] by blast
  then have "in_addr i = site \<and> o_type (operand_at i 0) = OMem" using flow_insn_resolves by blast
  with \<open>i \<in> set (bb_insns bb)\<close> map_of_SomeD [OF bb(1)] show ?thesis by blast
qed

text \<open>
  Constant propagation resolves calls and jumps through memory only: a site whose entry in the table
  of resolved targets changes is an instruction with a memory operand, never a call or jump through a
  register, although the code looks the register up.
\<close>

theorem register_calls_never_resolved:
  "map_of (db_resolved_indirect (an_db (propagate_dataflow idx ar only s))) site \<noteq> map_of (db_resolved_indirect (an_db s)) site \<Longrightarrow>
   memory_call s site"
proof -
  let ?g = "\<lambda>s :: analyzer. map_of (db_resolved_indirect (an_db s)) site"
  assume "?g (propagate_dataflow idx ar only s) \<noteq> ?g s"
  then obtain p s' where p: "p \<in> set (db_funcs (an_db s))" "?g (flow_one idx ar only p s') \<noteq> ?g s'"
    using fold_changes [of ?g "flow_one idx ar only"] unfolding propagate_dataflow_def by blast
  obtain c s0 where t: "poll_token s' = (c, s0)" by (cases "poll_token s'")
  then have "an_db s0 = an_db s'" using poll_token_db [of s'] by simp
  moreover have "flow_one idx ar only p s' \<in> {s', s0, flow_func idx ar (snd p) s0}" by (simp add: flow_one_def t)
  ultimately have "?g (flow_func idx ar (snd p) s0) \<noteq> ?g s0" using p(2) by auto
  then have "\<exists>(b, bb) \<in> set (fn_blocks (snd p)). \<exists>i \<in> set (bb_insns bb). in_addr i = site \<and> o_type (operand_at i 0) = OMem"
    by (rule flow_func_resolves)
  with p(1) show "memory_call s site" unfolding memory_call_def by (intro bexI [of _ p]) (simp_all add: case_prod_beta)
qed

section \<open>Examples\<close>

definition reg_operand :: "u16 \<Rightarrow> operand" where
  "reg_operand r = empty_operand\<lparr>o_type := OReg, o_reg := r\<rparr>"

definition const_operand :: "u64 \<Rightarrow> operand" where
  "const_operand v = empty_operand\<lparr>o_type := OImm, o_val := v\<rparr>"

definition base_operand :: "u16 \<Rightarrow> operand" where
  "base_operand r = empty_operand\<lparr>o_type := OMem, o_base := r\<rparr>"

definition abs_operand :: "u64 \<Rightarrow> operand" where
  "abs_operand v = empty_operand\<lparr>o_type := OMem, o_val := v\<rparr>"

definition analyzer_of :: "analysis_db \<Rightarrow> analyzer" where
  "analyzer_of db = \<lparr>an_db = db, an_recovered = [], an_dirty = {}, an_token = None\<rparr>"

definition graph_of :: "insn list \<Rightarrow> analyzer" where
  "graph_of is = analyzer_of (code_db is [(32, (new_func 32 ''f'')\<lparr>fn_analyzed := True, fn_block_addrs := [32],
     fn_blocks := [(32, (empty_block 32)\<lparr>bb_insns := is\<rparr>)]\<rparr>)])"

text \<open>\<open>mov ecx, 16; call [ecx]\<close>, with the address 16 stored at 16.\<close>

definition pointer_image :: pe_image where
  "pointer_image = mini_image [16, 0, 0, 0, 0, 0, 0, 0]"

definition pointer_code :: "insn list" where
  "pointer_code = [mini_insn 32 IMov [reg_operand 1, const_operand 16] [0, 0], mini_insn 34 ICall [base_operand 1] [0, 0]]"

lemma register_calls_never_resolved_witness:
  "map_of (db_resolved_indirect (an_db (propagate_dataflow (build_segment_index pointer_image) X64 None (graph_of pointer_code)))) 34 = Some 16 \<and>
   memory_call (graph_of pointer_code) 34"
proof -
  have r: "map_of (db_resolved_indirect (an_db (propagate_dataflow (build_segment_index pointer_image) X64 None (graph_of pointer_code)))) 34 = Some 16"
    by code_simp
  have n: "map_of (db_resolved_indirect (an_db (graph_of pointer_code))) 34 = None" by code_simp
  have "memory_call (graph_of pointer_code) 34"
    by (rule register_calls_never_resolved [where idx = "build_segment_index pointer_image" and ar = X64 and only = None]) (simp only: r n, simp)
  with r show ?thesis by simp
qed


text \<open>The same register used directly is not resolved.\<close>

lemma register_call_lost:
  "db_resolved_indirect (an_db (propagate_dataflow (build_segment_index pointer_image) X64 None
     (graph_of [mini_insn 32 IMov [reg_operand 1, const_operand 16] [0, 0], mini_insn 34 ICall [reg_operand 1] [0, 0]]))) = []"
  by code_simp

text \<open>
  A direct jump is taken for a switch when its block computes the address of some data: two edges to 16
  come out of the data at 16.
\<close>

lemma direct_jump_as_switch:
  "switch_targets (build_segment_index (mini_image [0, 0, 0, 0, 0, 0, 0, 0])) (new_func 32 ''f'')
     ((empty_block 32)\<lparr>bb_insns := [mini_insn 32 ILea [reg_operand 1, abs_operand 16] [0, 0],
        mini_insn 34 IJmp [const_operand 99] [0, 0]]\<rparr>) = [16, 16]"
  by code_simp

end
