(* ===== verification/Passes_Data.thy ===== *)
theory Passes_Data
  imports Cfg
begin

text \<open>
  The passes of the analyser that read the bytes of segments: import thunks, strings, vtables, global
  variables and data items (\<open>detect_thunks\<close>, \<open>find_strings\<close>, \<open>detect_vtables\<close>, \<open>detect_globals\<close>,
  \<open>populate_data_sections\<close> of \<open>src/src/hyperion/core/analysis/analyzer.cpp\<close>), and the removal of padding
  (\<open>remove_junk_code\<close>).  Each shard of a parallel pass writes its own output, and the outputs are merged
  in the order of the shards.
\<close>

section \<open>Import thunks\<close>

definition iat_names :: "pe_image \<Rightarrow> va_t \<Rightarrow> string option" where
  "iat_names img = map_of (rev (map (\<lambda>im. (im_iat_addr im, im_name im)) (img_imports img)))"

text \<open>\<open>jmp [rip+disp32]\<close> at offset \<open>i\<close>: the name of the import slot it jumps through.\<close>

definition thunk_at :: "pe_image \<Rightarrow> segment \<Rightarrow> nat \<Rightarrow> (va_t \<times> string) option" where
  "thunk_at img s i =
     (let d = sg_data s; a = sg_va s + of_nat i;
          disp = scast (of_nat (le_value (take 4 (drop (i + 2) d))) :: u32) in
      if d ! i \<noteq> 0xFF \<or> d ! (i + 1) \<noteq> 0x25 then None
      else map_option (\<lambda>n. (a, n)) (iat_names img (a + 6 + disp)))"

definition segment_thunks :: "pe_image \<Rightarrow> segment \<Rightarrow> (va_t \<times> string) list" where
  "segment_thunks img s =
     (if sg_executable s \<and> sg_data s \<noteq> [] then List.map_filter (thunk_at img s) [0..<length (sg_data s) - 5] else [])"

definition name_thunk :: "va_t \<times> string \<Rightarrow> analysis_db \<Rightarrow> analysis_db" where
  "name_thunk p db =
     (case p of (a, n) \<Rightarrow>
        set_name a n
          (if has_func db a then db\<lparr>db_funcs := AList.map_entry a (\<lambda>f. f\<lparr>fn_name := n\<rparr>) (db_funcs db)\<rparr>
           else add_func (new_func a n) db))"

definition detect_thunks :: "pe_image \<Rightarrow> analysis_db \<Rightarrow> analysis_db" where
  "detect_thunks img db = fold name_thunk (concat (map (segment_thunks img) (img_segments img))) db"

section \<open>Strings\<close>

definition printable :: "u8 \<Rightarrow> bool" where
  "printable b \<longleftrightarrow> 0x20 \<le> b \<and> b < 0x7F"

definition chars_of :: "u8 list \<Rightarrow> string" where
  "chars_of bs = map (\<lambda>b. char_of (unat b)) bs"

definition max_string_len :: nat where "max_string_len = 256"

text \<open>The scan from offset \<open>i\<close>: a run of printable bytes counts when it has four and a zero follows.\<close>

function strings_from :: "va_t \<Rightarrow> nat \<Rightarrow> u8 list \<Rightarrow> (va_t \<times> string) list" where
  "strings_from base i [] = []"
| "strings_from base i (b # bs) =
     (if printable b then
        (let run = takeWhile printable (b # bs); rest = dropWhile printable (b # bs) in
         (if 4 \<le> length run \<and> rest \<noteq> [] \<and> hd rest = 0
          then [(base + of_nat i, chars_of (take max_string_len run))] else [])
         @ strings_from base (i + length run) rest)
      else strings_from base (i + 1) bs)"
  by pat_completeness auto
termination
  by (relation "measure (\<lambda>(base, i, bs). length bs)") (auto simp: le_imp_less_Suc length_dropWhile_le)

definition find_strings :: "pe_image \<Rightarrow> analysis_db \<Rightarrow> analysis_db" where
  "find_strings img db = db\<lparr>db_strings := db_strings db @
     concat (map (\<lambda>s. strings_from (sg_va s) 0 (sg_data s)) (img_segments img))\<rparr>"

section \<open>Vtables\<close>

definition word_at :: "nat \<Rightarrow> u8 list \<Rightarrow> nat \<Rightarrow> va_t" where
  "word_at n d i = of_nat (le_value (take n (drop i d)))"

text \<open>The run of code pointers from offset \<open>i\<close>.\<close>

definition code_run :: "segment_span list \<Rightarrow> nat \<Rightarrow> u8 list \<Rightarrow> nat \<Rightarrow> va_t list" where
  "code_run idx n d i =
     takeWhile (is_code_addr idx) (map (\<lambda>k. word_at n d (i + k * n)) [0..<(length d - i) div n])"

function vtables_from :: "segment_span list \<Rightarrow> nat \<Rightarrow> va_t \<Rightarrow> u8 list \<Rightarrow> nat \<Rightarrow> vtable list" where
  "vtables_from idx n base d i =
     (if n = 0 \<or> length d < i + n * 2 then []
      else let es = code_run idx n d i in
        if 2 \<le> length es
        then \<lparr>vt_addr = base + of_nat i, vt_entries = es\<rparr> # vtables_from idx n base d (i + length es * n)
        else vtables_from idx n base d (i + n))"
  by pat_completeness auto
termination
  by (relation "measure (\<lambda>(idx, n, base, d, i). length d - i)") (auto intro!: diff_less_mono2 mult_pos_pos)

declare vtables_from.simps [simp del]

definition segment_vtables :: "pe_image \<Rightarrow> segment_span list \<Rightarrow> segment \<Rightarrow> vtable list" where
  "segment_vtables img idx s =
     (if sg_executable s \<or> sg_data s = [] \<or> (sg_name s \<noteq> ''.rdata'' \<and> sg_name s \<noteq> ''.data'') then []
      else vtables_from idx (ptr_size (img_arch img)) (sg_va s) (sg_data s) 0)"

definition vtable_name :: "va_t \<Rightarrow> string" where
  "vtable_name a = ''vtable_'' @ hex_upper a"

definition slot_name :: "va_t \<Rightarrow> nat \<Rightarrow> string" where
  "slot_name a k = vtable_name a @ ''_slot'' @ dec_str k"

definition record_vtable :: "nat \<Rightarrow> vtable \<Rightarrow> analysis_db \<Rightarrow> analysis_db" where
  "record_vtable n vt db =
     (let a = vt_addr vt;
          db' = fold (\<lambda>k. set_name (a + of_nat (k * n)) (slot_name a k)) [0..<length (vt_entries vt)]
                  (set_name a (vtable_name a) db)
      in db'\<lparr>db_vtables := db_vtables db' @ [vt]\<rparr>)"

definition detect_vtables :: "pe_image \<Rightarrow> segment_span list \<Rightarrow> analysis_db \<Rightarrow> analysis_db" where
  "detect_vtables img idx db =
     fold (record_vtable (ptr_size (img_arch img))) (concat (map (segment_vtables img idx) (img_segments img))) db"

section \<open>Global variables\<close>

definition operand_size_bytes :: "operand \<Rightarrow> nat \<Rightarrow> nat" where
  "operand_size_bytes oper fallback = (if o_size oper \<noteq> 0 then (nat (o_size oper) + 7) div 8 else fallback)"

definition insn_operands :: "insn \<Rightarrow> operand list" where
  "insn_operands i = map (operand_at i) [0..<in_op_count i]"

definition global_hit :: "segment_span list \<Rightarrow> operand \<Rightarrow> (va_t \<times> u32) option" where
  "global_hit idx oper =
     (if o_type oper \<noteq> OMem \<or> o_val oper = 0 then None
      else case section_for idx (o_val oper) of None \<Rightarrow> None
        | Some sec \<Rightarrow>
          if sg_executable sec \<or> (sg_name sec \<noteq> ''.data'' \<and> sg_name sec \<noteq> ''.bss'') then None
          else Some (o_val oper, of_nat (operand_size_bytes oper 4)))"

definition record_global :: "va_t \<times> u32 \<Rightarrow> analysis_db \<Rightarrow> analysis_db" where
  "record_global p db =
     (case p of (t, sz) \<Rightarrow>
        (case map_of (db_globals db) t of
           Some g \<Rightarrow> if gv_size g < sz
             then db\<lparr>db_globals := AList.map_entry t (\<lambda>g. g\<lparr>gv_size := sz\<rparr>) (db_globals db)\<rparr> else db
         | None \<Rightarrow> let nm = ''g_var_'' @ hex_upper t in
             set_name t nm (db\<lparr>db_globals := AList.update t \<lparr>gv_addr = t, gv_size = sz, gv_name = nm\<rparr> (db_globals db)\<rparr>)))"

definition detect_globals :: "segment_span list \<Rightarrow> analysis_db \<Rightarrow> analysis_db" where
  "detect_globals idx db =
     fold record_global (concat (map (\<lambda>(a, i). List.map_filter (global_hit idx) (insn_operands i)) (db_insns db))) db"

section \<open>Data items\<close>

definition large_section_threshold :: nat where "large_section_threshold = 5 * 1024 * 1024"

text \<open>The number of zero words from offset \<open>i\<close>.\<close>

definition zero_run :: "nat \<Rightarrow> u8 list \<Rightarrow> nat \<Rightarrow> nat" where
  "zero_run n d i = length (takeWhile (\<lambda>v. v = 0) (map (\<lambda>k. word_at n d (i + k * n)) [0..<(length d - i) div n]))"

record data_env =
  de_skip :: "va_t \<Rightarrow> bool"
  de_xref :: "va_t \<Rightarrow> bool"
  de_code :: "va_t \<Rightarrow> bool"
  de_size :: data_size
  de_large :: bool

definition data_item_at :: "data_env \<Rightarrow> va_t \<Rightarrow> va_t \<Rightarrow> data_item list" where
  "data_item_at de a v =
     (if de_large de \<and> \<not> de_xref de a \<and> \<not> de_code de v then []
      else [\<lparr>di_addr = a, di_size = de_size de, di_style = (if de_code de v then StPointer else StRaw), di_is_string = False\<rparr>])"

function data_items_from :: "data_env \<Rightarrow> nat \<Rightarrow> va_t \<Rightarrow> u8 list \<Rightarrow> nat \<Rightarrow> data_item list" where
  "data_items_from de n base d i =
     (if n = 0 \<or> length d < i + n then []
      else let a = base + of_nat i; v = word_at n d i in
        if de_skip de a then data_items_from de n base d (i + n)
        else if v = 0 \<and> 4 \<le> zero_run n d i
        then \<lparr>di_addr = a, di_size = de_size de, di_style = StAlign, di_is_string = False\<rparr>
               # data_items_from de n base d (i + zero_run n d i * n)
        else data_item_at de a v @ data_items_from de n base d (i + n))"
  by pat_completeness auto
termination
  by (relation "measure (\<lambda>(de, n, base, d, i). length d - i)") (auto intro!: diff_less_mono2 mult_pos_pos)

declare data_items_from.simps [simp del]

definition segment_items :: "pe_image \<Rightarrow> segment_span list \<Rightarrow> analysis_db \<Rightarrow> segment \<Rightarrow> data_item list" where
  "segment_items img idx db s =
     (if sg_executable s \<or> sg_data s = [] then []
      else let n = ptr_size (img_arch img) in
        data_items_from
          \<lparr>de_skip = (\<lambda>a. a \<in> fst ` set (db_strings db) \<or> is_iat_addr img a),
           de_xref = (\<lambda>a. db_xrefs_to db a \<noteq> []), de_code = is_code_addr idx,
           de_size = (if n = 8 then SzQword else SzDword),
           de_large = (large_section_threshold < length (sg_data s))\<rparr> n (sg_va s) (sg_data s) 0)"

definition add_data_item :: "data_item \<Rightarrow> analysis_db \<Rightarrow> analysis_db" where
  "add_data_item it db =
     (if map_of (db_data_items db) (di_addr it) \<noteq> None then db
      else db\<lparr>db_data_items := AList.update (di_addr it) it (db_data_items db)\<rparr>)"

definition style_import :: "import_entry \<Rightarrow> analysis_db \<Rightarrow> analysis_db" where
  "style_import im db = db\<lparr>db_data_items :=
     AList.map_entry (im_iat_addr im) (\<lambda>it. it\<lparr>di_style := StImport\<rparr>) (db_data_items db)\<rparr>"

definition populate_data_sections :: "pe_image \<Rightarrow> segment_span list \<Rightarrow> analysis_db \<Rightarrow> analysis_db" where
  "populate_data_sections img idx db =
     fold style_import (img_imports img)
       (fold add_data_item (concat (map (segment_items img idx db) (img_segments img))) db)"

section \<open>Padding\<close>

text \<open>The addresses of the decoded instructions from \<open>cur\<close> to the end of a block, and the one it stops at.\<close>

partial_function (option) cover_block :: "(va_t \<Rightarrow> insn option) \<Rightarrow> va_t \<Rightarrow> va_t \<Rightarrow> va_t list \<Rightarrow> va_t list option" where
  "cover_block look cur end acc =
     (if \<not> cur < end then Some acc
      else if look cur = None then Some (cur # acc)
      else cover_block look (cur + of_nat (in_len (the (look cur)))) end (cur # acc))"

declare cover_block.simps [code]

fun cover_blocks :: "(va_t \<Rightarrow> insn option) \<Rightarrow> basic_block list \<Rightarrow> va_t list \<Rightarrow> va_t list option" where
  "cover_blocks look [] acc = Some acc"
| "cover_blocks look (bb # bs) acc = Option.bind (cover_block look (bb_start bb) (bb_end bb) acc) (cover_blocks look bs)"

definition byte_at :: "insn \<Rightarrow> nat \<Rightarrow> u8" where
  "byte_at i k = (if k < length (in_bytes i) then in_bytes i ! k else 0)"

definition is_junk :: "insn \<Rightarrow> bool" where
  "is_junk i \<longleftrightarrow>
     (in_len i \<le> 2 \<and> byte_at i 0 = 0 \<and> (in_len i = 1 \<or> byte_at i 1 = 0)) \<or>
     (in_len i = 1 \<and> byte_at i 0 = 0xCC) \<or> (in_len i = 1 \<and> byte_at i 0 = 0x90)"

definition remove_junk_code :: "analysis_db \<Rightarrow> analysis_db option" where
  "remove_junk_code db =
     map_option (\<lambda>covered. db\<lparr>db_insns := filter (\<lambda>(a, i). a \<in> set covered \<or> \<not> is_junk i) (db_insns db)\<rparr>)
       (cover_blocks (map_of (db_insns db)) (concat (map (\<lambda>(e, f). map snd (fn_blocks f)) (db_funcs db))) [])"

end
