(* ===== verification/Passes_Code.thy ===== *)
theory Passes_Code
  imports Passes_Data
begin

text \<open>
  The passes of the analyser over instructions and functions: cross references, references to strings,
  names, functions that do not return, tail calls, calling conventions, the main function, recovered
  structures and signatures (\<open>src/src/hyperion/core/analysis/analyzer.cpp\<close>).  The Windows demangler is
  the parameter \<open>undecorate\<close>.
\<close>

section \<open>Cross references\<close>

definition resolved_target :: "analysis_db \<Rightarrow> va_t \<Rightarrow> insn \<Rightarrow> va_t" where
  "resolved_target db a i =
     (if branch_target i \<noteq> 0 then branch_target i
      else case map_of (db_resolved_indirect db) a of Some t \<Rightarrow> t | None \<Rightarrow> 0)"

definition make_xref :: "va_t \<Rightarrow> va_t \<Rightarrow> xref_type \<Rightarrow> xref" where
  "make_xref a t ty = \<lparr>xr_from = a, xr_to = t, xr_type = ty\<rparr>"

definition code_xrefs :: "analysis_db \<Rightarrow> va_t \<Rightarrow> insn \<Rightarrow> xref list" where
  "code_xrefs db a i =
     (let t = resolved_target db a i in
      if is_call i then (if t \<noteq> 0 then [make_xref a t CodeCall] else [])
      else if is_branch i then (if t \<noteq> 0 then [make_xref a t CodeJump] else [])
      else [])"

definition operand_xrefs :: "va_t \<Rightarrow> va_t \<Rightarrow> operand \<Rightarrow> xref list" where
  "operand_xrefs base a oper =
     (if o_type oper = OMem \<and> o_val oper \<noteq> 0 then
        (if o_read oper \<or> \<not> o_write oper then [make_xref a (o_val oper) DataRead] else []) @
        (if o_write oper then [make_xref a (o_val oper) DataWrite] else [])
      else if o_type oper = OImm \<and> base < o_val oper \<and> o_val oper < base + 0x10000000
        then [make_xref a (o_val oper) DataOffset]
      else [])"

definition insn_xrefs :: "pe_image \<Rightarrow> analysis_db \<Rightarrow> va_t \<times> insn \<Rightarrow> xref list" where
  "insn_xrefs img db p =
     code_xrefs db (fst p) (snd p) @ concat (map (operand_xrefs (img_base img) (fst p)) (insn_operands (snd p)))"

definition build_xrefs :: "pe_image \<Rightarrow> analysis_db \<Rightarrow> analysis_db" where
  "build_xrefs img db = fold add_xref (concat (map (insn_xrefs img db) (db_insns db))) db"

definition string_refs :: "va_t list \<Rightarrow> va_t \<times> insn \<Rightarrow> xref list" where
  "string_refs strs p =
     (if in_type (snd p) \<noteq> ILea then []
      else map (\<lambda>oper. make_xref (fst p) (o_val oper) DataOffset)
        (filter (\<lambda>oper. o_type oper = OMem \<and> o_val oper \<noteq> 0 \<and> o_val oper \<in> set strs) (insn_operands (snd p))))"

definition find_string_refs :: "analysis_db \<Rightarrow> analysis_db" where
  "find_string_refs db = fold add_xref (concat (map (string_refs (map fst (db_strings db))) (db_insns db))) db"

section \<open>Names\<close>

definition demangle :: "(string \<Rightarrow> string option) \<Rightarrow> string \<Rightarrow> string" where
  "demangle undecorate n =
     (let strip = (if 1 < length n \<and> n ! 0 = CHR ''_'' \<and> n ! 1 \<noteq> CHR ''_'' then tl n else n) in
      if n = [] then n
      else if n ! 0 = CHR ''?'' \<or> n ! 0 = CHR ''@'' then (case undecorate n of Some s \<Rightarrow> s | None \<Rightarrow> strip)
      else strip)"

definition rename_func :: "va_t \<Rightarrow> string \<Rightarrow> analysis_db \<Rightarrow> analysis_db" where
  "rename_func a n db = db\<lparr>db_funcs := AList.map_entry a (\<lambda>f. f\<lparr>fn_name := n\<rparr>) (db_funcs db)\<rparr>"

definition name_func :: "va_t \<Rightarrow> string \<Rightarrow> analysis_db \<Rightarrow> analysis_db" where
  "name_func a n db = rename_func a n (set_name a n db)"

definition import_item :: "pe_image \<Rightarrow> import_entry \<Rightarrow> analysis_db \<Rightarrow> analysis_db" where
  "import_item img im db =
     (let a = im_iat_addr im in
      db\<lparr>db_insns := AList.delete a (db_insns db),
        db_data_items := AList.update a
          \<lparr>di_addr = a, di_size = (if ptr_size (img_arch img) = 8 then SzQword else SzDword), di_style = StImport,
           di_is_string = False\<rparr> (db_data_items db)\<rparr>)"

definition apply_names :: "(string \<Rightarrow> string option) \<Rightarrow> pe_image \<Rightarrow> segment_span list \<Rightarrow> analysis_db \<Rightarrow> analysis_db" where
  "apply_names und img idx db =
     fold (import_item img) (img_imports img)
       (fold (\<lambda>s. name_func (sy_addr s) (demangle und (sy_name s))) (img_symbols img)
         (fold (\<lambda>e. name_func (ex_addr e) (demangle und (ex_name e)))
            (filter (\<lambda>e. \<not> ex_forwarded e \<and> is_code_addr idx (ex_addr e)) (img_exports img))
           (fold (\<lambda>im. set_name (im_iat_addr im) (im_dll im @ ''!'' @ demangle und (im_name im))) (img_imports img)
             (set_name (img_entry img) ''entry_point'' db))))"

section \<open>Functions that do not return\<close>

definition known_noreturn :: "string list" where
  "known_noreturn = [''exit'', ''_exit'', ''abort'', ''__fastfail'', ''ExitProcess'', ''TerminateProcess'',
     ''RtlFailFast'', ''__report_rangecheckfailure'', ''_Exit'', ''quick_exit'', ''_abort'', ''FatalExit'']"

definition noreturn_by_name :: "func \<Rightarrow> func" where
  "noreturn_by_name f = (if \<exists>n \<in> set known_noreturn. contains n (fn_name f) then f\<lparr>fn_noreturn := True\<rparr> else f)"

definition has_ret :: "func \<Rightarrow> bool" where
  "has_ret f \<longleftrightarrow> (\<exists>(a, bb) \<in> set (fn_blocks f). \<exists>i \<in> set (bb_insns bb). is_ret i)"

text \<open>Whether a block sets \<open>has_exit_path\<close>; a block that ends in a call of a function that does not return is skipped.\<close>

definition block_exits :: "va_t list \<Rightarrow> basic_block \<Rightarrow> bool" where
  "block_exits noreturn bb =
     (if bb_succs bb = [] \<and> bb_insns bb \<noteq> [] \<and> \<not> is_ret (last (bb_insns bb)) \<and> is_call (last (bb_insns bb)) \<and>
         branch_target (last (bb_insns bb)) \<noteq> 0 \<and> branch_target (last (bb_insns bb)) \<in> set noreturn
      then False else bb_succs bb \<noteq> [])"

definition noreturn_by_shape :: "va_t list \<Rightarrow> func \<Rightarrow> bool" where
  "noreturn_by_shape noreturn f \<longleftrightarrow>
     \<not> fn_noreturn f \<and> fn_analyzed f \<and> fn_blocks f \<noteq> [] \<and> \<not> has_ret f \<and>
     \<not> (\<exists>(a, bb) \<in> set (fn_blocks f). block_exits noreturn bb)"

fun noreturn_rounds :: "nat \<Rightarrow> (va_t \<times> func) list \<Rightarrow> (va_t \<times> func) list" where
  "noreturn_rounds 0 fs = fs"
| "noreturn_rounds (Suc k) fs =
     (let entries = map (\<lambda>(a, f). fn_entry f) (filter (\<lambda>(a, f). fn_noreturn f) fs);
          fs' = map (\<lambda>(a, f). (a, if noreturn_by_shape entries f then f\<lparr>fn_noreturn := True\<rparr> else f)) fs in
      if \<exists>(a, f) \<in> set fs. noreturn_by_shape entries f then noreturn_rounds k fs' else fs')"

definition detect_noreturn :: "analysis_db \<Rightarrow> analysis_db" where
  "detect_noreturn db =
     db\<lparr>db_funcs := noreturn_rounds 8 (map (\<lambda>(a, f). (a, noreturn_by_name f)) (db_funcs db))\<rparr>"

section \<open>Tail calls\<close>

definition func_end :: "func \<Rightarrow> va_t" where
  "func_end f = fold (\<lambda>(a, bb) e. if e < bb_end bb then bb_end bb else e) (fn_blocks f) 0"

definition tail_call :: "analysis_db \<Rightarrow> func \<Rightarrow> basic_block \<Rightarrow> (va_t \<times> va_t) option" where
  "tail_call db f bb =
     (let lst = last (bb_insns bb); t = branch_target lst; e = fn_entry f in
      if bb_insns bb = [] \<or> in_type lst \<noteq> IJmp \<or> t = 0 then None
      else if (has_func db t \<and> t \<noteq> e) \<or> ((t < e \<or> func_end f \<le> t) \<and> map_of (fn_blocks f) t = None)
        then Some (in_addr lst, t)
      else None)"

definition tail_calls :: "analysis_db \<Rightarrow> (va_t \<times> va_t) list" where
  "tail_calls db = concat (map (\<lambda>(a, f). List.map_filter (\<lambda>(b, bb). tail_call db f bb) (fn_blocks f))
     (filter (\<lambda>(a, f). fn_analyzed f) (db_funcs db)))"

fun retype_first :: "nat \<Rightarrow> va_t \<Rightarrow> va_t \<Rightarrow> xref list \<Rightarrow> xref list option" where
  "retype_first 0 a t xs = None"
| "retype_first (Suc n) a t [] = None"
| "retype_first (Suc n) a t (x # xs) =
     (if xr_from x = a \<and> xr_to x = t \<and> xr_type x = CodeJump then Some (x\<lparr>xr_type := CodeCall\<rparr> # xs)
      else map_option ((#) x) (retype_first n a t xs))"

definition retype :: "(xref \<Rightarrow> bool) \<Rightarrow> xref list \<Rightarrow> xref list" where
  "retype P xs = map (\<lambda>x. if P x \<and> xr_type x = CodeJump then x\<lparr>xr_type := CodeCall\<rparr> else x) xs"

text \<open>The index of the flat list covers the \<open>n\<close> references there were when the pass started.\<close>

definition commit_tail :: "nat \<Rightarrow> va_t \<times> va_t \<Rightarrow> analysis_db \<Rightarrow> analysis_db" where
  "commit_tail n p db =
     (case p of (a, t) \<Rightarrow>
        (case retype_first n a t (db_xrefs db) of
           Some xs \<Rightarrow> db\<lparr>db_xrefs := xs,
               db_xrefs_to := (db_xrefs_to db)(t := retype (\<lambda>x. xr_from x = a) (db_xrefs_to db t)),
               db_xrefs_from := (db_xrefs_from db)(a := retype (\<lambda>x. xr_to x = t) (db_xrefs_from db a))\<rparr>
         | None \<Rightarrow> add_xref (make_xref a t CodeCall) db))"

definition detect_tail_calls :: "analysis_db \<Rightarrow> analysis_db" where
  "detect_tail_calls db = fold (commit_tail (length (db_xrefs db))) (tail_calls db) db"

section \<open>Calling conventions\<close>

definition ret_pops :: "insn \<Rightarrow> bool" where
  "ret_pops i \<longleftrightarrow> is_ret i \<and> 0 < in_op_count i \<and> o_type (operand_at i 0) = OImm \<and> 0 < o_val (operand_at i 0)"

definition call_conv_of :: "arch \<Rightarrow> func \<Rightarrow> call_conv" where
  "call_conv_of ar f =
     (if ar = X64 \<or> ar = ARM64 \<or> ar = PPC then CcX64
      else if \<not> fn_analyzed f then fn_callconv f
      else if \<exists>(a, bb) \<in> set (fn_blocks f). \<exists>i \<in> set (bb_insns bb). ret_pops i then CcStdcall else CcCdecl)"

definition detect_calling_conventions :: "pe_image \<Rightarrow> analysis_db \<Rightarrow> analysis_db" where
  "detect_calling_conventions img db =
     db\<lparr>db_funcs := map (\<lambda>(a, f). (a, f\<lparr>fn_callconv := call_conv_of (img_arch img) f\<rparr>)) (db_funcs db)\<rparr>"

section \<open>The main function\<close>

definition crt_starters :: "string list" where
  "crt_starters = [''__scrt_common_main_seh'', ''mainCRTStartup'', ''__tmainCRTStartup'',
     ''WinMainCRTStartup'', ''__wWinMainCRTStartup'']"

definition func_calls :: "func \<Rightarrow> va_t list" where
  "func_calls f = map branch_target (filter is_call (concat (map (\<lambda>(a, bb). bb_insns bb) (fn_blocks f))))"

definition callee_of :: "analysis_db \<Rightarrow> va_t \<Rightarrow> func option" where
  "callee_of db t = (if t = 0 then None else map_of (db_funcs db) t)"

definition main_from_crt :: "analysis_db \<Rightarrow> (va_t \<times> string) option" where
  "main_from_crt db =
     (case concat (map (\<lambda>(a, f). map (\<lambda>t. (t, if contains ''WinMain'' (fn_name f) then ''WinMain'' else ''main''))
             (filter (\<lambda>t. case callee_of db t of None \<Rightarrow> False | Some g \<Rightarrow> fn_name g \<notin> set crt_starters) (func_calls f)))
           (filter (\<lambda>(a, f). fn_name f \<in> set crt_starters \<and> fn_analyzed f) (db_funcs db))) of
        [] \<Rightarrow> None | p # _ \<Rightarrow> Some p)"

definition main_from_entry :: "pe_image \<Rightarrow> analysis_db \<Rightarrow> (va_t \<times> string) option" where
  "main_from_entry img db =
     (case map_of (db_funcs db) (img_entry img) of None \<Rightarrow> None
      | Some f \<Rightarrow>
        if \<not> fn_analyzed f then None
        else (case concat (map (\<lambda>stub. case callee_of db stub of None \<Rightarrow> []
                  | Some g \<Rightarrow> if \<not> fn_analyzed g then []
                      else filter (\<lambda>t. case callee_of db t of None \<Rightarrow> False
                             | Some h \<Rightarrow> take 4 (fn_name h) = ''sub_'') (func_calls g)) (func_calls f)) of
                [] \<Rightarrow> None | t # _ \<Rightarrow> Some (t, ''main'')))"

definition detect_main :: "pe_image \<Rightarrow> analysis_db \<Rightarrow> analysis_db" where
  "detect_main img db =
     (case main_from_crt db of Some (t, n) \<Rightarrow> set_name t n (rename_func t n db)
      | None \<Rightarrow> (case main_from_entry img db of Some (t, n) \<Rightarrow> set_name t n (rename_func t n db) | None \<Rightarrow> db))"

section \<open>Signatures\<close>

definition sig_of_known :: "string list \<Rightarrow> string list \<Rightarrow> string \<Rightarrow> func_signature" where
  "sig_of_known ns ts r = \<lparr>fs_param_names = ns, fs_param_types = ts, fs_return_type = r, fs_param_count = int (length ns)\<rparr>"

definition known_sigs :: "(string \<times> func_signature) list" where
  "known_sigs = [
     (''strlen'', sig_of_known [''str''] [''const char*''] ''size_t''),
     (''strcmp'', sig_of_known [''s1'', ''s2''] [''const char*'', ''const char*''] ''int32_t''),
     (''strcpy'', sig_of_known [''dst'', ''src''] [''char*'', ''const char*''] ''char*''),
     (''memcpy'', sig_of_known [''dst'', ''src'', ''n''] [''void*'', ''const void*'', ''size_t''] ''void*''),
     (''memset'', sig_of_known [''dst'', ''val'', ''n''] [''void*'', ''int32_t'', ''size_t''] ''void*''),
     (''malloc'', sig_of_known [''size''] [''size_t''] ''void*''),
     (''free'', sig_of_known [''ptr''] [''void*''] ''void''),
     (''printf'', sig_of_known [''fmt''] [''const char*''] ''int32_t''),
     (''CreateFileA'', sig_of_known
        [''lpFileName'', ''dwDesiredAccess'', ''dwShareMode'', ''lpSecurity'', ''dwCreation'', ''dwFlags'', ''hTemplate'']
        [''const char*'', ''uint32_t'', ''uint32_t'', ''void*'', ''uint32_t'', ''uint32_t'', ''void*''] ''void*'')]"

definition uses_reg :: "func \<Rightarrow> u16 \<Rightarrow> bool" where
  "uses_reg f r \<longleftrightarrow> (\<exists>(a, bb) \<in> set (fn_blocks f). \<exists>i \<in> set (bb_insns bb). \<exists>oper \<in> set (insn_operands i).
     o_type oper = OReg \<and> o_reg oper = r)"

definition param_reg_count :: "func \<Rightarrow> nat" where
  "param_reg_count f =
     (if uses_reg f 9 then 4 else if uses_reg f 8 then 3 else if uses_reg f 2 then 2 else if uses_reg f 1 then 1 else 0)"

definition guessed_sig :: "func \<Rightarrow> func_signature" where
  "guessed_sig f = (let n = param_reg_count f in
     \<lparr>fs_param_names = map (\<lambda>p. CHR ''a'' # dec_str (p + 1)) [0..<n], fs_param_types = replicate n ''int64_t'',
      fs_return_type = ''int64_t'', fs_param_count = int n\<rparr>)"

definition func_sig :: "func \<Rightarrow> func_signature option" where
  "func_sig f = (case map_of known_sigs (fn_name f) of Some s \<Rightarrow> Some s
     | None \<Rightarrow> if fn_analyzed f then Some (guessed_sig f) else None)"

definition propagate_interproc_types :: "analysis_db \<Rightarrow> analysis_db" where
  "propagate_interproc_types db =
     fold (\<lambda>(e, s) db. if map_of (db_signatures db) e \<noteq> None then db
          else db\<lparr>db_signatures := AList.update e s (db_signatures db)\<rparr>)
       (List.map_filter (\<lambda>(a, f). map_option (Pair (fn_entry f)) (func_sig f)) (db_funcs db)) db"

section \<open>Structures\<close>

definition is_stack_register :: "(string \<Rightarrow> u16) \<Rightarrow> u16 \<Rightarrow> bool" where
  "is_stack_register zreg r \<longleftrightarrow> r \<in> set (map zreg [''sp'', ''esp'', ''rsp'', ''bp'', ''ebp'', ''rbp''])"

text \<open>The accesses of an instruction: base register, displacement and size.\<close>

definition accesses_of :: "(string \<Rightarrow> u16) \<Rightarrow> insn \<Rightarrow> (u16 \<times> int \<times> nat) list" where
  "accesses_of zreg i = map (\<lambda>oper. (o_base oper, sint (o_disp oper), operand_size_bytes oper 8))
     (filter (\<lambda>oper. o_type oper = OMem \<and> o_base oper \<noteq> 0 \<and> \<not> is_stack_register zreg (o_base oper) \<and>
        0 \<le> sint (o_disp oper) \<and> sint (o_disp oper) \<le> 4096) (insn_operands i))"

definition func_accesses :: "(string \<Rightarrow> u16) \<Rightarrow> func \<Rightarrow> (u16 \<times> int \<times> nat) list" where
  "func_accesses zreg f = concat (map (accesses_of zreg) (concat (map (\<lambda>(a, bb). bb_insns bb) (fn_blocks f))))"

record candidate =
  ca_name :: string
  ca_total :: nat
  ca_fields :: "(int \<times> nat) list"

text \<open>Three accesses and three distinct fields make a candidate; its fields are in order.\<close>

definition candidate_for :: "va_t \<Rightarrow> (u16 \<times> int \<times> nat) list \<Rightarrow> u16 \<Rightarrow> candidate option" where
  "candidate_for entry accs r =
     (let mine = map snd (filter (\<lambda>(b, x). b = r) accs);
          fields = sort_key fst (sort_key snd (remdups mine)) in
      if length mine < 3 \<or> length fields < 3 then None
      else Some \<lparr>ca_name = ''struct_'' @ hex_upper entry @ ''_'' @ dec_str (unat r),
                 ca_total = fold (\<lambda>(off, sz) m. max m (nat off + sz)) fields 0, ca_fields = fields\<rparr>)"

definition struct_candidates :: "(string \<Rightarrow> u16) \<Rightarrow> analysis_db \<Rightarrow> candidate list" where
  "struct_candidates zreg db = concat (map (\<lambda>(a, f). let accs = func_accesses zreg f in
      List.map_filter (candidate_for (fn_entry f) accs) (remdups (map fst accs)))
     (filter (\<lambda>(a, f). fn_analyzed f) (db_funcs db)))"

definition builtin_id :: "type_system \<Rightarrow> string \<Rightarrow> u32" where
  "builtin_id ts n = (case find_by_name ts n of Some td \<Rightarrow> td_id td | None \<Rightarrow> 0)"

definition field_type :: "u32 \<Rightarrow> u32 \<Rightarrow> u32 \<Rightarrow> u32 \<Rightarrow> nat \<Rightarrow> u32" where
  "field_type i8 i16 i32 i64 sz =
     (if sz = 1 \<and> i8 \<noteq> 0 then i8 else if sz = 2 \<and> i16 \<noteq> 0 then i16 else if sz = 4 \<and> i32 \<noteq> 0 then i32
      else if sz = 8 \<and> i64 \<noteq> 0 then i64 else if i32 \<noteq> 0 then i32 else 0)"

definition commit_struct :: "(nat \<Rightarrow> u32) \<Rightarrow> candidate \<Rightarrow> type_system \<Rightarrow> type_system" where
  "commit_struct fty c ts =
     (if find_by_name ts (ca_name c) \<noteq> None then ts
      else let (sid, ts') = add_struct (ca_name c) (of_nat (ca_total c)) ts in
        fold (\<lambda>(off, sz). add_field sid (''field_'' @ hex_upper (of_int off)) (fty sz) (of_int off)) (ca_fields c) ts')"

definition recover_structs :: "(string \<Rightarrow> u16) \<Rightarrow> analysis_db \<Rightarrow> analysis_db" where
  "recover_structs zreg db =
     (let ts = db_types db;
          fty = field_type (builtin_id ts ''u8'') (builtin_id ts ''u16'') (builtin_id ts ''u32'') (builtin_id ts ''u64'') in
      db\<lparr>db_types := fold (commit_struct fty) (struct_candidates zreg db) ts\<rparr>)"

end
