(* ===== verification/Passes_Correct.thy ===== *)
theory Passes_Correct
  imports Passes_Code
begin

text \<open>
  What the passes over bytes and references compute: the strings found are exactly the terminated printable
  runs, the three stores of cross references stay in agreement when tail calls are retyped, and the
  structural rule for functions that do not return does not look at callees.
\<close>

section \<open>Strings\<close>

text \<open>A maximal printable run of \<open>n\<close> bytes at \<open>i\<close> that a zero byte ends; four bytes are the least.\<close>

definition string_run :: "u8 list \<Rightarrow> nat \<Rightarrow> nat \<Rightarrow> bool" where
  "string_run d i n \<longleftrightarrow> 4 \<le> n \<and> i + n < length d \<and> (\<forall>k < n. printable (d ! (i + k))) \<and> d ! (i + n) = 0 \<and>
     (i = 0 \<or> \<not> printable (d ! (i - 1)))"

definition run_text :: "u8 list \<Rightarrow> nat \<Rightarrow> nat \<Rightarrow> string" where
  "run_text d i n = chars_of (take max_string_len (take n (drop i d)))"

lemma zero_not_printable [simp]: "\<not> printable 0"
  by (simp add: printable_def)

lemma run_at_start:
  "string_run d 0 n \<longleftrightarrow>
     n = length (takeWhile printable d) \<and> 4 \<le> n \<and> dropWhile printable d \<noteq> [] \<and> hd (dropWhile printable d) = 0"
proof -
  let ?r = "takeWhile printable d"
  have nth: "d ! length ?r = hd (dropWhile printable d)" if "dropWhile printable d \<noteq> []"
    using that by (simp add: nth_length_takeWhile dropWhile_eq_drop hd_drop_conv_nth)
  have len: "length ?r < length d \<longleftrightarrow> dropWhile printable d \<noteq> []"
    by (simp add: dropWhile_eq_drop not_le)
  have pr: "printable (d ! k)" if "k < length ?r" for k
    using that by (metis nth_mem set_takeWhileD takeWhile_nth)
  show ?thesis
  proof
    assume r: "string_run d 0 n"
    have "n = length ?r"
    proof (rule antisym)
      show "length ?r \<le> n" using r pr [of n] by (auto simp: string_run_def intro: ccontr)
      show "n \<le> length ?r"
      proof (rule ccontr)
        assume "\<not> n \<le> length ?r"
        then have "length ?r < n" by simp
        then have "printable (d ! length ?r)" "length ?r < length d" using r by (auto simp: string_run_def)
        then show False using nth_length_takeWhile by blast
      qed
    qed
    with r nth len show "n = length ?r \<and> 4 \<le> n \<and> dropWhile printable d \<noteq> [] \<and> hd (dropWhile printable d) = 0"
      by (auto simp: string_run_def)
  next
    assume "n = length ?r \<and> 4 \<le> n \<and> dropWhile printable d \<noteq> [] \<and> hd (dropWhile printable d) = 0"
    with nth len pr show "string_run d 0 n" by (auto simp: string_run_def)
  qed
qed

lemma run_shift:
  assumes "0 < m" "m \<le> length d" "\<not> printable (d ! (m - 1)) \<or> m = length d \<or> \<not> printable (d ! m)"
  shows "string_run d (m + j) n \<longleftrightarrow> string_run (drop m d) j n"
proof (cases j)
  case 0
  have "string_run d m n \<Longrightarrow> m < length d \<and> printable (d ! m)"
    by (auto simp: string_run_def dest: spec [of _ 0])
  with assms 0 show ?thesis by (auto simp: string_run_def add.assoc dest: spec [of _ 0])
next
  case (Suc j')
  with assms show ?thesis by (auto simp: string_run_def add.assoc)
qed

lemma run_inside:
  assumes "0 < i" "i < m" "\<forall>k < m. printable (d ! k)"
  shows "\<not> string_run d i n"
  using assms by (auto simp: string_run_def)

lemma run_text_start:
  "run_text d 0 (length (takeWhile printable d)) = chars_of (take max_string_len (takeWhile printable d))"
  by (metis drop0 run_text_def takeWhile_eq_take)

lemma run_sets:
  fixes base :: va_t
  shows "{(base + of_nat i, F 0 n) | n. P n} \<union> {(base + of_nat (i + m + j), F (m + j) n) | j n. Q j n} =
    {(base + of_nat (i + j), F j n) | j n. (j = 0 \<and> P n) \<or> (\<exists>j'. j = m + j' \<and> Q j' n)}" (is "?A \<union> ?B = ?C")
proof
  have "?A \<subseteq> ?C"
  proof
    fix x assume "x \<in> ?A"
    then obtain n where "x = (base + of_nat (i + 0), F 0 n)" "P n" by auto
    then show "x \<in> ?C" by blast
  qed
  moreover have "?B \<subseteq> ?C" unfolding add.assoc by blast
  ultimately show "?A \<union> ?B \<subseteq> ?C" by blast
  show "?C \<subseteq> ?A \<union> ?B" unfolding add.assoc by auto
qed

lemma strings_from_exact:
  "set (strings_from base i d) = {(base + of_nat (i + j), run_text d j n) | j n. string_run d j n}"
proof (induction base i d rule: strings_from.induct)
  case (1 base i)
  show ?case by (simp add: string_run_def)
next
  case (2 base i b bs)
  let ?d = "b # bs"
  show ?case
  proof (cases "printable b")
    case True
    let ?m = "length (takeWhile printable ?d)"
    have m: "0 < ?m" "?m \<le> length ?d" using True by (auto simp: length_takeWhile_le intro: le_trans)
    have edge: "\<not> printable (?d ! (?m - 1)) \<or> ?m = length ?d \<or> \<not> printable (?d ! ?m)"
      using nth_length_takeWhile [of printable ?d] m(2) by (metis le_neq_implies_less)
    have rest: "dropWhile printable ?d = drop ?m ?d" by (rule dropWhile_eq_drop)
    have inside: "\<not> string_run ?d j n" if "0 < j" "j < ?m" for j n
      using that by (rule run_inside) (metis nth_mem set_takeWhileD takeWhile_nth)
    have split: "string_run ?d j n \<longleftrightarrow>
        (j = 0 \<and> string_run ?d 0 n) \<or> (\<exists>j'. j = ?m + j' \<and> string_run (drop ?m ?d) j' n)" for j n
      using run_shift [OF m edge, of _ n] inside [of j n] m(1)
      by (metis add_diff_inverse_nat gr_zeroI not_less add_is_0 less_irrefl)
    have same: "run_text (drop ?m ?d) j n = run_text ?d (?m + j) n" for j n
      by (simp add: run_text_def add.commute)
    have IH: "set (strings_from base (i + ?m) (drop ?m ?d)) =
        {(base + of_nat (i + ?m + j), run_text (drop ?m ?d) j n) | j n. string_run (drop ?m ?d) j n}"
      using 2(1) [OF True refl refl] rest by simp
    have here: "set (if 4 \<le> ?m \<and> drop ?m ?d \<noteq> [] \<and> hd (drop ?m ?d) = 0
          then [(base + of_nat i, chars_of (take max_string_len (takeWhile printable ?d)))] else []) =
        {(base + of_nat i, run_text ?d 0 n) | n. string_run ?d 0 n}"
      unfolding run_at_start rest
      by (auto simp: run_text_start simp del: takeWhile.simps dropWhile.simps drop_Suc_Cons)
    have "set (strings_from base i ?d) =
        {(base + of_nat i, run_text ?d 0 n) | n. string_run ?d 0 n} \<union>
        {(base + of_nat (i + ?m + j), run_text (drop ?m ?d) j n) | j n. string_run (drop ?m ?d) j n}"
      using True here IH rest by (simp add: Let_def del: takeWhile.simps dropWhile.simps drop_Suc_Cons)
    also have "\<dots> = {(base + of_nat (i + j), run_text ?d j n) | j n.
        (j = 0 \<and> string_run ?d 0 n) \<or> (\<exists>j'. j = ?m + j' \<and> string_run (drop ?m ?d) j' n)}"
      unfolding same by (rule run_sets)
    also have "\<dots> = {(base + of_nat (i + j), run_text ?d j n) | j n. string_run ?d j n}"
      by (simp only: split [symmetric])
    finally show ?thesis .
  next
    case False
    have zero: "\<not> string_run ?d 0 n" for n
      using False by (auto simp: string_run_def intro!: exI [of _ 0])
    have split: "string_run ?d j n \<longleftrightarrow> (\<exists>j'. j = Suc j' \<and> string_run bs j' n)" for j n
      using run_shift [of 1 ?d _ n] False zero [of n] by (cases j) auto
    have "set (strings_from base (i + 1) bs) = {(base + of_nat (i + 1 + j), run_text bs j n) | j n. string_run bs j n}"
      by (rule 2(2) [OF False])
    moreover have "run_text bs j n = run_text ?d (1 + j) n" for j n by (simp add: run_text_def)
    moreover have "string_run ?d j n \<longleftrightarrow> (j = 0 \<and> False) \<or> (\<exists>j'. j = 1 + j' \<and> string_run bs j' n)" for j n
      unfolding split by simp
    ultimately show ?thesis
      using False run_sets [of base i "run_text ?d" "\<lambda>_. False" 1 "string_run bs"] by simp
  qed
qed

text \<open>
  C24. The strings pass adds exactly the text of the maximal printable runs of at least four bytes that a
  zero byte ends, at their addresses, cut to 256 characters, for every segment.
\<close>

theorem find_strings_exact:
  "set (db_strings (find_strings img db)) = set (db_strings db) \<union>
     {(sg_va s + of_nat i, run_text (sg_data s) i n) | s i n. s \<in> set (img_segments img) \<and> string_run (sg_data s) i n}"
  by (auto simp: find_strings_def strings_from_exact)


section \<open>Functions that do not return\<close>

text \<open>The structural rule without the callees.\<close>

definition dead_end :: "func \<Rightarrow> bool" where
  "dead_end f \<longleftrightarrow> fn_analyzed f \<and> fn_blocks f \<noteq> [] \<and> \<not> has_ret f \<and> (\<forall>(a, bb) \<in> set (fn_blocks f). bb_succs bb = [])"

lemma block_exits_succs: "block_exits noreturn bb \<longleftrightarrow> bb_succs bb \<noteq> []"
  by (simp add: block_exits_def)

lemma noreturn_by_shape_eq: "noreturn_by_shape noreturn f \<longleftrightarrow> \<not> fn_noreturn f \<and> dead_end f"
  by (auto simp: noreturn_by_shape_def dead_end_def block_exits_succs)

definition mark_dead_end :: "func \<Rightarrow> func" where
  "mark_dead_end f = (if dead_end f then f\<lparr>fn_noreturn := True\<rparr> else f)"

lemma dead_end_noreturn [simp]: "dead_end (f\<lparr>fn_noreturn := b\<rparr>) = dead_end f"
  by (simp add: dead_end_def has_ret_def)

lemma mark_round:
  "(if \<not> fn_noreturn f \<and> dead_end f then f\<lparr>fn_noreturn := True\<rparr> else f) = mark_dead_end f"
  by (cases f) (auto simp: mark_dead_end_def)

lemma noreturn_rounds_eq: "noreturn_rounds (Suc k) fs = map (\<lambda>(a, f). (a, mark_dead_end f)) fs"
proof (induction k arbitrary: fs)
  case 0
  show ?case by (simp add: Let_def noreturn_by_shape_eq mark_round case_prod_unfold)
next
  case (Suc k)
  have idem: "mark_dead_end (mark_dead_end f) = mark_dead_end f" for f by (simp add: mark_dead_end_def)
  show ?case
    by (subst noreturn_rounds.simps) (simp add: Let_def noreturn_by_shape_eq mark_round case_prod_unfold Suc comp_def idem
      del: noreturn_rounds.simps)
qed

text \<open>
  The pass never uses what it knows of callees: the rounds that are meant to carry the mark along chains
  of calls come down to one look at each function by itself.  Beyond the names, a function is marked exactly
  when it is analysed, has blocks, none of them returns and none has a successor.
\<close>

theorem noreturn_ignores_callees:
  "detect_noreturn db = db\<lparr>db_funcs := map (\<lambda>(a, f). (a, mark_dead_end (noreturn_by_name f))) (db_funcs db)\<rparr>"
proof -
  have "noreturn_rounds 8 fs = map (\<lambda>(a, f). (a, mark_dead_end f)) fs" for fs
    using noreturn_rounds_eq [of 7] by (simp del: noreturn_rounds.simps)
  then show ?thesis by (simp add: detect_noreturn_def case_prod_unfold comp_def)
qed

section \<open>Cross references\<close>

text \<open>The maps by target and by source hold the references of the flat list, in its order.\<close>

definition xrefs_agree :: "analysis_db \<Rightarrow> bool" where
  "xrefs_agree db \<longleftrightarrow>
     (\<forall>t. db_xrefs_to db t = filter (\<lambda>x. xr_to x = t) (db_xrefs db)) \<and>
     (\<forall>a. db_xrefs_from db a = filter (\<lambda>x. xr_from x = a) (db_xrefs db))"

definition jumps :: "va_t \<Rightarrow> va_t \<Rightarrow> xref list \<Rightarrow> xref list" where
  "jumps a t xs = filter (\<lambda>x. x = make_xref a t CodeJump) xs"

text \<open>At most one jump reference from an address to a target.\<close>

definition single_jumps :: "xref list \<Rightarrow> bool" where
  "single_jumps xs \<longleftrightarrow> (\<forall>a t. length (jumps a t xs) \<le> 1)"

lemma xref_eq: "x = make_xref a t ty \<longleftrightarrow> xr_from x = a \<and> xr_to x = t \<and> xr_type x = ty"
  by (cases x) (auto simp: make_xref_def)

lemma make_xref_simps [simp]:
  "xr_from (make_xref a t ty) = a" "xr_to (make_xref a t ty) = t" "xr_type (make_xref a t ty) = ty"
  by (simp_all add: make_xref_def)

lemma add_xref_agree: "xrefs_agree db \<Longrightarrow> xrefs_agree (add_xref x db)"
  by (auto simp: xrefs_agree_def add_xref_def)

text \<open>Retyping the jump from \<open>a\<close> to \<open>t\<close> wherever it occurs.\<close>

definition retype_jump :: "va_t \<Rightarrow> va_t \<Rightarrow> xref \<Rightarrow> xref" where
  "retype_jump a t x = (if x = make_xref a t CodeJump then make_xref a t CodeCall else x)"

lemma retype_jump_alt:
  "retype_jump a t x = (if xr_from x = a \<and> xr_to x = t \<and> xr_type x = CodeJump then x\<lparr>xr_type := CodeCall\<rparr> else x)"
  by (cases x) (auto simp: retype_jump_def make_xref_def)

lemma retype_jump_ends [simp]: "xr_from (retype_jump a t x) = xr_from x" "xr_to (retype_jump a t x) = xr_to x"
  by (auto simp: retype_jump_def make_xref_def)

lemma retype_first_eq:
  assumes "length (jumps a t xs) \<le> 1"
  shows "retype_first n a t xs =
    (if jumps a t (take n xs) = [] then None else Some (map (retype_jump a t) xs))"
  using assms
proof (induction n a t xs rule: retype_first.induct)
  case (3 n a t x xs)
  show ?case
  proof (cases "x = make_xref a t CodeJump")
    case True
    then have "jumps a t xs = []" using 3(2) by (simp add: jumps_def)
    then have "map (retype_jump a t) xs = xs"
      by (auto simp: jumps_def filter_empty_conv retype_jump_def intro: map_idI)
    with True show ?thesis by (simp add: jumps_def retype_jump_alt)
  next
    case False
    then have "jumps a t (x # ys) = jumps a t ys" for ys by (simp add: jumps_def)
    moreover have "retype_jump a t x = x" using False by (simp add: retype_jump_def)
    ultimately show ?thesis using 3 False by (auto simp: xref_eq)
  qed
qed (simp_all add: jumps_def)


lemma jumps_map_retype: "jumps b u (map (retype_jump a t) xs) = (if b = a \<and> u = t then [] else jumps b u xs)"
  by (induction xs) (auto simp: jumps_def retype_jump_def xref_eq)

lemma filter_to_retype:
  "filter (\<lambda>x. xr_to x = u) (map (retype_jump a t) xs) =
     (if u = t then retype (\<lambda>x. xr_from x = a) (filter (\<lambda>x. xr_to x = u) xs) else filter (\<lambda>x. xr_to x = u) xs)"
  by (induction xs) (auto simp: retype_def retype_jump_alt)

lemma filter_from_retype:
  "filter (\<lambda>x. xr_from x = b) (map (retype_jump a t) xs) =
     (if b = a then retype (\<lambda>x. xr_to x = t) (filter (\<lambda>x. xr_from x = b) xs) else filter (\<lambda>x. xr_from x = b) xs)"
  by (induction xs) (auto simp: retype_def retype_jump_alt)

text \<open>The state of the commit loop: the stores agree and every jump is among the first \<open>n\<close> references.\<close>

definition commit_ok :: "nat \<Rightarrow> analysis_db \<Rightarrow> bool" where
  "commit_ok n db \<longleftrightarrow> xrefs_agree db \<and> single_jumps (db_xrefs db) \<and>
     n \<le> length (db_xrefs db) \<and> (\<forall>x \<in> set (drop n (db_xrefs db)). xr_type x \<noteq> CodeJump)"

lemma retype_type: "xr_type (retype_jump a t x) = CodeJump \<Longrightarrow> xr_type x = CodeJump"
  by (auto simp: retype_jump_def split: if_splits)

lemma jumps_take:
  assumes "commit_ok n db"
  shows "jumps a t (take n (db_xrefs db)) = [] \<longleftrightarrow> make_xref a t CodeJump \<notin> set (db_xrefs db)"
proof -
  let ?xs = "db_xrefs db"
  have "set ?xs = set (take n ?xs) \<union> set (drop n ?xs)" by (metis append_take_drop_id set_append)
  then show ?thesis using assms by (auto simp: jumps_def filter_empty_conv commit_ok_def)
qed

lemma commit_tail_ok:
  assumes "commit_ok n db"
  shows "commit_ok n (commit_tail n (a, t) db) \<and>
    set (db_xrefs (commit_tail n (a, t) db)) =
      set (db_xrefs db) - {make_xref a t CodeJump} \<union> {make_xref a t CodeCall}"
proof -
  let ?xs = "db_xrefs db"
  have agree: "xrefs_agree db" and one: "length (jumps b u ?xs) \<le> 1" for b u
    using assms by (auto simp: commit_ok_def single_jumps_def)
  have first: "retype_first n a t ?xs =
      (if make_xref a t CodeJump \<notin> set ?xs then None else Some (map (retype_jump a t) ?xs))"
    using retype_first_eq [OF one] jumps_take [OF assms] by simp
  show ?thesis
  proof (cases "make_xref a t CodeJump \<in> set ?xs")
    case True
    have db': "commit_tail n (a, t) db = db\<lparr>db_xrefs := map (retype_jump a t) ?xs,
        db_xrefs_to := (db_xrefs_to db)(t := retype (\<lambda>x. xr_from x = a) (db_xrefs_to db t)),
        db_xrefs_from := (db_xrefs_from db)(a := retype (\<lambda>x. xr_to x = t) (db_xrefs_from db a))\<rparr>"
      using True first by (simp add: commit_tail_def)
    have "xrefs_agree (commit_tail n (a, t) db)"
      using agree by (auto simp: db' xrefs_agree_def filter_to_retype filter_from_retype)
    moreover have "single_jumps (map (retype_jump a t) ?xs)"
      using one by (simp add: single_jumps_def jumps_map_retype)
    moreover have "\<forall>x \<in> set (drop n (map (retype_jump a t) ?xs)). xr_type x \<noteq> CodeJump"
      using assms by (auto simp: commit_ok_def drop_map dest: retype_type)
    moreover have "set (map (retype_jump a t) ?xs) = set ?xs - {make_xref a t CodeJump} \<union> {make_xref a t CodeCall}"
      using True by (auto simp: retype_jump_def xref_eq image_iff)
    ultimately show ?thesis using assms by (simp add: commit_ok_def db')
  next
    case False
    have db': "commit_tail n (a, t) db = add_xref (make_xref a t CodeCall) db"
      using False first by (simp add: commit_tail_def)
    have "single_jumps (?xs @ [make_xref a t CodeCall])"
      using one by (simp add: single_jumps_def jumps_def xref_eq)
    then show ?thesis
      using assms False add_xref_agree [OF agree, of "make_xref a t CodeCall"] by (auto simp: commit_ok_def db' add_xref_def)
  qed
qed

lemma commit_tails_ok:
  assumes "commit_ok n db"
  shows "commit_ok n (fold (commit_tail n) ts db) \<and>
    set (db_xrefs (fold (commit_tail n) ts db)) =
      {x \<in> set (db_xrefs db). \<forall>(a, t) \<in> set ts. x \<noteq> make_xref a t CodeJump} \<union> {make_xref a t CodeCall | a t. (a, t) \<in> set ts}"
  using assms
proof (induction ts arbitrary: db)
  case (Cons p ts)
  obtain a t where p: "p = (a, t)" by (cases p)
  note step = commit_tail_ok [OF Cons.prems, of a t]
  have rest: "make_xref b u CodeCall \<noteq> make_xref c v CodeJump" for b u c v by (simp add: make_xref_def)
  show ?case using Cons.IH [OF conjunct1 [OF step]] step rest unfolding p by auto
qed simp

text \<open>The references of an instruction hold at most one jump.\<close>

lemma build_xrefs_ok:
  assumes "db_xrefs db = []" "xrefs_agree db" "distinct (map fst (db_insns db))"
  shows "xrefs_agree (find_string_refs (build_xrefs img db))" "single_jumps (db_xrefs (find_string_refs (build_xrefs img db)))"
proof -
  have agree: "xrefs_agree (fold add_xref xs db)" if "xrefs_agree db" for xs db
    using that by (induction xs arbitrary: db) (auto intro: add_xref_agree)
  have flat: "db_xrefs (fold add_xref xs db) = db_xrefs db @ xs" "db_insns (fold add_xref xs db) = db_insns db" for xs db
    by (induction xs arbitrary: db) (auto simp: add_xref_def)
  show "xrefs_agree (find_string_refs (build_xrefs img db))"
    unfolding find_string_refs_def build_xrefs_def by (intro agree assms(2))
  let ?jumps = "\<lambda>a t p. jumps a t (insn_xrefs img db p)"
  have ops: "jumps a t (concat (map (operand_xrefs base b) ops)) = []" for a t base b ops
    by (auto simp: jumps_def filter_empty_conv operand_xrefs_def xref_eq split: if_splits)
  have code: "length (jumps a t (code_xrefs db b i)) \<le> (if b = a then 1 else 0)" for a t b i
    by (auto simp: jumps_def code_xrefs_def Let_def xref_eq)
  have one: "length (?jumps a t p) \<le> (if fst p = a then 1 else 0)" for a t p
    using code ops by (simp add: insn_xrefs_def jumps_def)
  have dist: "distinct (map fst ps) \<Longrightarrow> length (jumps a t (concat (map (insn_xrefs img db) ps))) \<le> 1" for a t ps
  proof (induction ps)
    case (Cons p ps)
    have none: "jumps a t (concat (map (insn_xrefs img db) ps)) = []" if "fst p = a"
    proof -
      have "?jumps a t q = []" if "q \<in> set ps" for q
        using one [of a t q] Cons.prems that \<open>fst p = a\<close> by (auto simp: image_iff split: if_splits)
      then show ?thesis by (auto simp: jumps_def filter_empty_conv)
    qed
    have app: "jumps a t (xs @ ys) = jumps a t xs @ jumps a t ys" for xs ys by (simp add: jumps_def)
    show ?case
    proof (cases "fst p = a")
      case True
      then show ?thesis using none one [of a t p] by (simp add: app)
    next
      case False
      then show ?thesis using Cons one [of a t p] by (simp add: app)
    qed
  qed (simp add: jumps_def)
  have strs: "jumps a t (concat (map (string_refs ss) ps)) = []" for a t ss ps
    by (auto simp: jumps_def filter_empty_conv string_refs_def xref_eq split: if_splits)
  show "single_jumps (db_xrefs (find_string_refs (build_xrefs img db)))"
    using dist [OF assms(3)] strs assms(1)
    by (simp add: single_jumps_def find_string_refs_def build_xrefs_def flat) (simp add: jumps_def)
qed

text \<open>
  C23. Tail calls are retyped without breaking the cross references: after references are built and tail calls
  detected, the maps by target and by source still hold exactly the flat list, every tail call is a call
  reference, none of them is a jump reference any more, and no other reference changed.
\<close>

theorem tail_calls_exact:
  assumes "db_xrefs db0 = []" "xrefs_agree db0" "distinct (map fst (db_insns db0))"
    and "db = find_string_refs (build_xrefs img db0)"
  shows "xrefs_agree (detect_tail_calls db) \<and>
    set (db_xrefs (detect_tail_calls db)) =
      {x \<in> set (db_xrefs db). \<forall>(a, t) \<in> set (tail_calls db). x \<noteq> make_xref a t CodeJump} \<union>
      {make_xref a t CodeCall | a t. (a, t) \<in> set (tail_calls db)}"
proof -
  have "commit_ok (length (db_xrefs db)) db"
    using build_xrefs_ok [OF assms(1-3), of img] assms(4) by (simp add: commit_ok_def)
  from commit_tails_ok [OF this, of "tail_calls db"] show ?thesis by (auto simp: detect_tail_calls_def commit_ok_def)
qed

end
