(* ===== verification/Passes_Example.thy ===== *)
theory Passes_Example
  imports Passes_Correct Cfg_Example
begin

text \<open>
  A function that jumps to another one, for the theorem on tail calls; what the name rules of the analyser
  do on small inputs.
\<close>

definition tail_block :: basic_block where
  "tail_block = \<lparr>bb_start = 16, bb_insns = [mini_insn 16 IJmp (mini_rel 16 14) [0xEB, 14]], bb_succs = [], bb_end = 18,
     bb_preds = []\<rparr>"

definition tail_db :: analysis_db where
  "tail_db = code_db [mini_insn 16 IJmp (mini_rel 16 14) [0xEB, 14], mini_insn 32 IRet [] [0xC3]]
     [(16, (new_func 16 ''f'')\<lparr>fn_analyzed := True, fn_blocks := [(16, tail_block)]\<rparr>), (32, new_func 32 ''g'')]"

definition tail_image :: pe_image where
  "tail_image = \<lparr>img_arch = X64, img_base = 0x1000, img_entry = 16, img_segments = [], img_imports = [], img_exports = [],
     img_runtime_funcs = [], img_symbols = [], img_encrypted = False, img_raw = []\<rparr>"

lemma tail_db_calls: "tail_calls (find_string_refs (build_xrefs tail_image tail_db)) = [(16, 32)]"
  by code_simp

lemma tail_calls_exact_witness:
  "make_xref 16 32 CodeCall \<in> set (db_xrefs (detect_tail_calls (find_string_refs (build_xrefs tail_image tail_db)))) \<and>
   make_xref 16 32 CodeJump \<notin> set (db_xrefs (detect_tail_calls (find_string_refs (build_xrefs tail_image tail_db))))"
proof -
  have "xrefs_agree tail_db" "db_xrefs tail_db = []" "distinct (map fst (db_insns tail_db))"
    by (simp_all add: xrefs_agree_def tail_db_def code_db_def db_over_def mini_insn_def)
  from tail_calls_exact [OF this(2,1,3) refl, of tail_image] show ?thesis
    by (auto simp: tail_db_calls xref_eq)
qed

text \<open>The name of a vtable is replaced at once by the name of its first slot, which has the same address.\<close>

lemma fold_set_name_other:
  assumes "\<forall>k \<in> set ks. f k \<noteq> a"
  shows "db_names (fold (\<lambda>k. set_name (f k) (g k)) ks db) a = db_names db a"
  using assms by (induction ks arbitrary: db) (auto simp: set_name_def)

lemma vtable_name_lost:
  assumes "vt_entries vt \<noteq> []" "length (vt_entries vt) * n < 2 ^ 64" "0 < n"
  shows "db_names (record_vtable n vt db) (vt_addr vt) = Some (slot_name (vt_addr vt) 0)"
proof -
  obtain m where m: "length (vt_entries vt) = Suc m" using assms(1) by (cases "vt_entries vt") auto
  have "vt_addr vt + of_nat (k * n) \<noteq> vt_addr vt" if "k \<in> set [1..<Suc m]" for k
  proof -
    have "0 < k * n" using that assms(3) by (simp del: upt_Suc)
    moreover have "k * n \<le> Suc m * n" using that by (intro mult_le_mono1) (simp del: upt_Suc)
    then have "k * n < 2 ^ 64" using assms(2) m by simp
    ultimately have "(of_nat (k * n) :: va_t) \<noteq> 0" by (simp only: of_nat_eq_0_iff word_of_nat_eq_0_iff) (auto dest: dvd_imp_le)
    then show ?thesis by simp
  qed
  then have "\<forall>k \<in> set [1..<Suc m]. vt_addr vt + of_nat (k * n) \<noteq> vt_addr vt" by blast
  from fold_set_name_other [OF this, of "slot_name (vt_addr vt)"] show ?thesis
    by (simp add: record_vtable_def Let_def m upt_conv_Cons set_name_def del: upt_Suc)
qed

text \<open>A name that merely contains one of the list marks its function.\<close>

lemma atexit_does_not_return: "fn_noreturn (noreturn_by_name (new_func 16 ''atexit''))"
  by code_simp

end
