(* ===== verification/Loops.thy ===== *)
theory Loops
  imports Cfg
begin

text \<open>
  Loop detection (\<open>Analyzer::detect_loops\<close>): a postorder of the blocks by an explicit stack, immediate
  dominators over the reverse postorder, back edges, the bodies of their natural loops and the register
  each loop counts in.  Blocks are numbered by their place in the reverse postorder; \<open>-1\<close> is \<open>kNoDom\<close>.
  Loops that may not end return \<open>None\<close>, and so does \<open>idom[-1]\<close>, which the code does not guard.  The
  order in which the hash set of a loop's blocks is enumerated is the parameter \<open>enum\<close>.
\<close>

type_synonym block_map = "(va_t \<times> basic_block) list"

definition succs_of :: "block_map \<Rightarrow> va_t \<Rightarrow> va_t list" where
  "succs_of bs a = (case map_of bs a of Some bb \<Rightarrow> bb_succs bb | None \<Rightarrow> [])"

definition preds_of :: "block_map \<Rightarrow> va_t \<Rightarrow> va_t list" where
  "preds_of bs a = (case map_of bs a of Some bb \<Rightarrow> bb_preds bb | None \<Rightarrow> [])"

section \<open>Postorder\<close>

record dfs_state =
  df_stack :: "(va_t \<times> nat) list"
  df_seen :: "va_t list"
  df_post :: "va_t list"

text \<open>One iteration on the top of the stack: the next successor, or the block is finished.\<close>

definition dfs_step :: "block_map \<Rightarrow> dfs_state \<Rightarrow> dfs_state" where
  "dfs_step bs s =
     (case df_stack s of [] \<Rightarrow> s
      | (a, k) # rest \<Rightarrow>
        if k < length (succs_of bs a) then
          (let t = succs_of bs a ! k; s' = s\<lparr>df_stack := (a, k + 1) # rest\<rparr> in
           if map_of bs t \<noteq> None \<and> t \<notin> set (df_seen s)
           then s'\<lparr>df_stack := (t, 0) # df_stack s', df_seen := t # df_seen s\<rparr> else s')
        else s\<lparr>df_stack := rest, df_post := df_post s @ [a]\<rparr>)"

partial_function (option) dfs_loop :: "block_map \<Rightarrow> dfs_state \<Rightarrow> dfs_state option" where
  "dfs_loop bs s = (if df_stack s = [] then Some s else dfs_loop bs (dfs_step bs s))"

declare dfs_loop.simps [code]

definition post_order :: "block_map \<Rightarrow> va_t \<Rightarrow> va_t list option" where
  "post_order bs e = map_option df_post (dfs_loop bs \<lparr>df_stack = [(e, 0)], df_seen = [e], df_post = []\<rparr>)"

section \<open>Immediate dominators\<close>

partial_function (option) climb :: "int list \<Rightarrow> int \<Rightarrow> int \<Rightarrow> int option" where
  "climb idom a b =
     (if \<not> b < a then Some a
      else if a < 0 then None
      else climb idom (idom ! nat a) b)"

partial_function (option) meet :: "int list \<Rightarrow> int \<Rightarrow> int \<Rightarrow> int option" where
  "meet idom a b =
     (if a = b then Some a
      else if a < 0 \<or> b < 0 then None
      else Option.bind (climb idom a b) (\<lambda>a'. Option.bind (climb idom b a') (\<lambda>b'. meet idom a' b')))"

declare climb.simps [code] meet.simps [code]

fun meet_preds :: "int list \<Rightarrow> int list \<Rightarrow> int \<Rightarrow> int option" where
  "meet_preds idom [] acc = Some acc"
| "meet_preds idom (p # ps) acc =
     (if idom ! nat p = -1 then meet_preds idom ps acc
      else if acc = -1 then meet_preds idom ps p
      else Option.bind (meet idom acc p) (meet_preds idom ps))"

text \<open>The places of the predecessors that the postorder reached.\<close>

fun place :: "va_t list \<Rightarrow> va_t \<Rightarrow> int option" where
  "place [] a = None"
| "place (x # xs) a = (if x = a then Some 0 else map_option (\<lambda>i. i + 1) (place xs a))"

definition pred_places :: "block_map \<Rightarrow> va_t list \<Rightarrow> int \<Rightarrow> int list" where
  "pred_places bs rpo i = List.map_filter (place rpo) (preds_of bs (rpo ! nat i))"

fun idom_round :: "(int \<Rightarrow> int list) \<Rightarrow> int list \<Rightarrow> int list \<times> bool \<Rightarrow> (int list \<times> bool) option" where
  "idom_round preds [] s = Some s"
| "idom_round preds (i # is) s =
     Option.bind (meet_preds (fst s) (preds i) (-1))
       (\<lambda>d. idom_round preds is (if d \<noteq> -1 \<and> fst s ! nat i \<noteq> d then ((fst s)[nat i := d], True) else s))"

partial_function (option) idom_loop :: "(int \<Rightarrow> int list) \<Rightarrow> int list \<Rightarrow> int list \<Rightarrow> int list option" where
  "idom_loop preds order idom =
     Option.bind (idom_round preds order (idom, False))
       (\<lambda>s. if snd s then idom_loop preds order (fst s) else Some (fst s))"

declare idom_loop.simps [code]

definition loop_idoms :: "block_map \<Rightarrow> va_t list \<Rightarrow> int list option" where
  "loop_idoms bs rpo =
     idom_loop (pred_places bs rpo) [1..int (length rpo) - 1] ((replicate (length rpo) (-1))[0 := 0])"

section \<open>Back edges and their loops\<close>

text \<open>Whether \<open>t\<close> is on the dominator chain of \<open>s\<close>.\<close>

definition is_back_edge :: "int list \<Rightarrow> int \<Rightarrow> int \<Rightarrow> bool option" where
  "is_back_edge idom s t = map_option (\<lambda>r. r = t) (climb idom s t)"

record body_state =
  bd_blocks :: "va_t list"
  bd_wl :: "va_t list"

definition body_step :: "block_map \<Rightarrow> va_t list \<Rightarrow> body_state \<Rightarrow> body_state" where
  "body_step bs rpo s =
     fold (\<lambda>p s. if p \<in> set rpo \<and> p \<notin> set (bd_blocks s)
           then s\<lparr>bd_blocks := bd_blocks s @ [p], bd_wl := bd_wl s @ [p]\<rparr> else s)
       (preds_of bs (hd (bd_wl s))) (s\<lparr>bd_wl := tl (bd_wl s)\<rparr>)"

partial_function (option) body_loop :: "block_map \<Rightarrow> va_t list \<Rightarrow> body_state \<Rightarrow> va_t list option" where
  "body_loop bs rpo s = (if bd_wl s = [] then Some (bd_blocks s) else body_loop bs rpo (body_step bs rpo s))"

declare body_loop.simps [code]

definition loop_body :: "block_map \<Rightarrow> va_t list \<Rightarrow> va_t \<Rightarrow> va_t \<Rightarrow> va_t list option" where
  "loop_body bs rpo header src =
     body_loop bs rpo \<lparr>bd_blocks = remdups [header, src], bd_wl = (if src \<noteq> header then [src] else [])\<rparr>"

definition counts_up :: "insn \<Rightarrow> bool" where
  "counts_up i \<longleftrightarrow>
     (in_type i = IInc \<and> 0 < in_op_count i \<and> o_type (operand_at i 0) = OReg) \<or>
     (in_type i = IAdd \<and> 2 \<le> in_op_count i \<and> o_type (operand_at i 0) = OReg \<and> o_type (operand_at i 1) = OImm \<and>
      o_val (operand_at i 1) = 1)"

definition induction_reg :: "block_map \<Rightarrow> va_t list \<Rightarrow> u16" where
  "induction_reg bs order =
     (case find counts_up (concat (map (\<lambda>a. case map_of bs a of Some bb \<Rightarrow> bb_insns bb | None \<Rightarrow> []) order)) of
        Some i \<Rightarrow> o_reg (operand_at i 0) | None \<Rightarrow> 0)"

definition loop_at ::
  "(va_t list \<Rightarrow> va_t list) \<Rightarrow> block_map \<Rightarrow> va_t list \<Rightarrow> int list \<Rightarrow> int \<Rightarrow> va_t \<Rightarrow> loop_info list option" where
  "loop_at enum bs rpo idom si succ =
     (case place rpo succ of None \<Rightarrow> Some []
      | Some t \<Rightarrow> Option.bind (is_back_edge idom si t) (\<lambda>back.
          if \<not> back then Some []
          else map_option (\<lambda>body. [\<lparr>li_header = succ, li_back_edge_src = rpo ! nat si,
                 li_induction_reg = induction_reg bs (enum body)\<rparr>]) (loop_body bs rpo succ (rpo ! nat si))))"

fun collect :: "('a \<Rightarrow> 'b list option) \<Rightarrow> 'a list \<Rightarrow> 'b list option" where
  "collect f [] = Some []"
| "collect f (x # xs) = Option.bind (f x) (\<lambda>ys. map_option ((@) ys) (collect f xs))"

definition find_loops :: "(va_t list \<Rightarrow> va_t list) \<Rightarrow> func \<Rightarrow> loop_info list option" where
  "find_loops enum f =
     (let bs = fn_blocks f in
      Option.bind (post_order bs (fn_entry f)) (\<lambda>po. let rpo = rev po in
        Option.bind (loop_idoms bs rpo) (\<lambda>idom.
          collect (\<lambda>si. collect (loop_at enum bs rpo idom si) (succs_of bs (rpo ! nat si))) [0..int (length rpo) - 1])))"

definition loops_in_scope :: "va_t \<times> func \<Rightarrow> bool" where
  "loops_in_scope p \<longleftrightarrow> fn_analyzed (snd p) \<and> map_of (fn_blocks (snd p)) (fst p) \<noteq> None"

text \<open>The token is polled once per function in scope.\<close>

fun loop_funcs :: "(va_t list \<Rightarrow> va_t list) \<Rightarrow> token \<Rightarrow> (va_t \<times> func) list \<Rightarrow> ((va_t \<times> func) list \<times> token) option" where
  "loop_funcs enum tok [] = Some ([], tok)"
| "loop_funcs enum tok ((a, f) # fs) =
     (if \<not> loops_in_scope (a, f) then map_option (\<lambda>(gs, t). ((a, f) # gs, t)) (loop_funcs enum tok fs)
      else if fst (poll tok) then map_option (\<lambda>(gs, t). ((a, f) # gs, t)) (loop_funcs enum (snd (poll tok)) fs)
      else Option.bind (find_loops enum f) (\<lambda>ls.
        map_option (\<lambda>(gs, t). ((a, f\<lparr>fn_loops := ls\<rparr>) # gs, t)) (loop_funcs enum (snd (poll tok)) fs)))"

definition detect_loops :: "(va_t list \<Rightarrow> va_t list) \<Rightarrow> token \<Rightarrow> analysis_db \<Rightarrow> (analysis_db \<times> token) option" where
  "detect_loops enum tok db =
     map_option (\<lambda>(fs, t). (db\<lparr>db_funcs := fs\<rparr>, t)) (loop_funcs enum tok (db_funcs db))"

end
