(* ===== verification/Loops_Order.thy ===== *)
theory Loops_Order
  imports Loops
begin

text \<open>
  The depth-first walk of loop detection ends, and what it lists is a postorder: exactly the blocks that
  can be reached from the entry, each once, the entry last, and every other block before some block it is
  a successor of.
\<close>

definition edge :: "block_map \<Rightarrow> va_t \<Rightarrow> va_t \<Rightarrow> bool" where
  "edge bs x y \<longleftrightarrow> y \<in> set (succs_of bs x) \<and> map_of bs y \<noteq> None"

text \<open>The stack is a path back to the entry.\<close>

fun linked :: "block_map \<Rightarrow> va_t \<Rightarrow> va_t list \<Rightarrow> bool" where
  "linked bs e [] = True"
| "linked bs e [x] = (x = e)"
| "linked bs e (x # y # xs) = (edge bs y x \<and> linked bs e (y # xs))"

lemma linked_tl: "linked bs e (x # xs) \<Longrightarrow> linked bs e xs"
  by (cases xs) auto

definition stack_addrs :: "dfs_state \<Rightarrow> va_t list" where
  "stack_addrs s = map fst (df_stack s)"

definition dfs_inv :: "block_map \<Rightarrow> va_t \<Rightarrow> dfs_state \<Rightarrow> bool" where
  "dfs_inv bs e s \<longleftrightarrow>
     distinct (df_post s @ stack_addrs s) \<and> set (df_seen s) = set (df_post s) \<union> set (stack_addrs s) \<and>
     e \<in> set (df_seen s) \<and> (\<forall>x \<in> set (df_seen s). map_of bs x \<noteq> None \<and> (edge bs)\<^sup>*\<^sup>* e x) \<and>
     linked bs e (stack_addrs s) \<and> (df_stack s = [] \<longrightarrow> df_post s \<noteq> [] \<and> last (df_post s) = e) \<and>
     (\<forall>(a, k) \<in> set (df_stack s). \<forall>y \<in> set (take k (succs_of bs a)). map_of bs y \<noteq> None \<longrightarrow> y \<in> set (df_seen s)) \<and>
     (\<forall>x \<in> set (df_post s). \<forall>y. edge bs x y \<longrightarrow> y \<in> set (df_seen s)) \<and>
     (\<forall>i < length (df_post s). df_post s ! i \<noteq> e \<longrightarrow>
        (\<exists>y. edge bs y (df_post s ! i) \<and> y \<in> set (drop (Suc i) (df_post s)) \<union> set (stack_addrs s)))"

lemma dfs_inv_start:
  assumes "map_of bs e \<noteq> None"
  shows "dfs_inv bs e \<lparr>df_stack = [(e, 0)], df_seen = [e], df_post = []\<rparr>"
  using assms by (simp add: dfs_inv_def stack_addrs_def)

lemma dfs_invD:
  assumes "dfs_inv bs e s"
  shows "distinct (df_post s @ stack_addrs s)" "set (df_seen s) = set (df_post s) \<union> set (stack_addrs s)"
    "e \<in> set (df_seen s)" "\<And>x. x \<in> set (df_seen s) \<Longrightarrow> map_of bs x \<noteq> None \<and> (edge bs)\<^sup>*\<^sup>* e x"
    "linked bs e (stack_addrs s)" "df_stack s = [] \<Longrightarrow> df_post s \<noteq> [] \<and> last (df_post s) = e"
    "\<And>a k y. (a, k) \<in> set (df_stack s) \<Longrightarrow> y \<in> set (take k (succs_of bs a)) \<Longrightarrow> map_of bs y \<noteq> None \<Longrightarrow> y \<in> set (df_seen s)"
    "\<And>x y. x \<in> set (df_post s) \<Longrightarrow> edge bs x y \<Longrightarrow> y \<in> set (df_seen s)"
    "\<And>i. i < length (df_post s) \<Longrightarrow> df_post s ! i \<noteq> e \<Longrightarrow>
        \<exists>y. edge bs y (df_post s ! i) \<and> y \<in> set (drop (Suc i) (df_post s)) \<union> set (stack_addrs s)"
  using assms unfolding dfs_inv_def by blast+

lemma dfs_invI:
  assumes "distinct (df_post s @ stack_addrs s)" "set (df_seen s) = set (df_post s) \<union> set (stack_addrs s)"
    "e \<in> set (df_seen s)" "\<And>x. x \<in> set (df_seen s) \<Longrightarrow> map_of bs x \<noteq> None \<and> (edge bs)\<^sup>*\<^sup>* e x"
    "linked bs e (stack_addrs s)" "df_stack s = [] \<Longrightarrow> df_post s \<noteq> [] \<and> last (df_post s) = e"
    "\<And>a k y. (a, k) \<in> set (df_stack s) \<Longrightarrow> y \<in> set (take k (succs_of bs a)) \<Longrightarrow> map_of bs y \<noteq> None \<Longrightarrow> y \<in> set (df_seen s)"
    "\<And>x y. x \<in> set (df_post s) \<Longrightarrow> edge bs x y \<Longrightarrow> y \<in> set (df_seen s)"
    "\<And>i. i < length (df_post s) \<Longrightarrow> df_post s ! i \<noteq> e \<Longrightarrow>
        \<exists>y. edge bs y (df_post s ! i) \<and> y \<in> set (drop (Suc i) (df_post s)) \<union> set (stack_addrs s)"
  shows "dfs_inv bs e s"
  unfolding dfs_inv_def using assms by blast

lemma dfs_step_ok:
  assumes inv: "dfs_inv bs e s" and top: "df_stack s = (a, k) # rest"
  shows "dfs_inv bs e (dfs_step bs s)"
proof (cases "k < length (succs_of bs a)")
  case True
  define t where "t = succs_of bs a ! k"
  have take: "set (take (k + 1) (succs_of bs a)) = insert t (set (take k (succs_of bs a)))"
    using True by (simp add: take_Suc_conv_app_nth t_def)
  note D = dfs_invD [OF inv, unfolded stack_addrs_def top]
  show ?thesis
  proof (cases "map_of bs t \<noteq> None \<and> t \<notin> set (df_seen s)")
    case new: True
    then have st: "dfs_step bs s = s\<lparr>df_stack := (t, 0) # (a, k + 1) # rest, df_seen := t # df_seen s\<rparr>"
      using True top by (simp add: dfs_step_def Let_def t_def)
    have e: "edge bs a t" using True new by (simp add: edge_def t_def)
    have "(edge bs)\<^sup>*\<^sup>* e a" using D(2,4) by auto
    with e have reach: "(edge bs)\<^sup>*\<^sup>* e t" by auto
    show ?thesis
      unfolding st
    proof (rule dfs_invI, unfold stack_addrs_def, goal_cases)
      case 1 show ?case using D(1,2) new by auto
    next
      case 2 show ?case using D(2) by auto
    next
      case 3 show ?case using D(3) by simp
    next
      case (4 x) then show ?case using D(4) new reach by auto
    next
      case 5 show ?case using D(5) e by simp
    next
      case 6 then show ?case by simp
    next
      case (7 b j y)
      then consider "(b, j) = (t, 0)" | "(b, j) = (a, k + 1)" | "(b, j) \<in> set rest" by auto
      then show ?case
      proof cases
        case 2
        then show ?thesis using 7 take D(7) [of a k y] by auto
      next
        case 3
        then show ?thesis using 7 D(7) [of b j y] by simp
      qed (use 7 in simp)
    next
      case (8 x y) then show ?case using D(8) by simp
    next
      case (9 i) then show ?case using D(9) [of i] by auto
    qed
  next
    case False
    then have st: "dfs_step bs s = s\<lparr>df_stack := (a, k + 1) # rest\<rparr>"
      using True top by (auto simp: dfs_step_def Let_def t_def)
    show ?thesis
      unfolding st
    proof (rule dfs_invI, unfold stack_addrs_def, goal_cases)
      case (7 b j y)
      then consider "(b, j) = (a, k + 1)" | "(b, j) \<in> set rest" by auto
      then show ?case
      proof cases
        case 1
        then show ?thesis using 7 take D(7) [of a k y] False by auto
      next
        case 2
        then show ?thesis using 7 D(7) [of b j y] by simp
      qed
    qed (use D in \<open>simp_all\<close>)
  qed
next
  case False
  then have st: "dfs_step bs s = s\<lparr>df_stack := rest, df_post := df_post s @ [a]\<rparr>"
    using top by (simp add: dfs_step_def)
  note D = dfs_invD [OF inv, unfolded stack_addrs_def top]
  have all: "set (take k (succs_of bs a)) = set (succs_of bs a)" using False by simp
  have lk: "linked bs e (a # map fst rest)" using D(5) by simp
  have parent: "a \<noteq> e \<Longrightarrow> \<exists>y \<in> set (map fst rest). edge bs y a" using lk by (cases "map fst rest") auto
  have last: "rest = [] \<Longrightarrow> a = e" using lk by simp
  have old: "\<exists>y. edge bs y (df_post s ! i) \<and> y \<in> set (drop (Suc i) (df_post s @ [a])) \<union> set (map fst rest)"
    if i: "i < length (df_post s)" "df_post s ! i \<noteq> e" for i
  proof -
    obtain y where "edge bs y (df_post s ! i)" "y \<in> set (drop (Suc i) (df_post s)) \<union> set (a # map fst rest)"
      using D(9) [OF i] by auto
    then show ?thesis using i(1) by auto
  qed
  have post: "\<exists>y. edge bs y ((df_post s @ [a]) ! i) \<and> y \<in> set (drop (Suc i) (df_post s @ [a])) \<union> set (map fst rest)"
    if "i < length (df_post s @ [a])" "(df_post s @ [a]) ! i \<noteq> e" for i
    using that old [of i] parent by (cases "i < length (df_post s)") (auto simp: nth_append less_Suc_eq)
  have clo: "y \<in> set (df_seen s)" if "x \<in> set (df_post s @ [a])" "edge bs x y" for x y
  proof (cases "x = a")
    case True
    then show ?thesis using D(7) [of a k y] that(2) all by (simp add: edge_def)
  next
    case False
    then show ?thesis using D(8) that by simp
  qed
  show ?thesis
    unfolding st
  proof (rule dfs_invI, unfold stack_addrs_def, goal_cases)
    case 1 show ?case using D(1) by auto
  next
    case 2 show ?case using D(2) by auto
  next
    case 3 show ?case using D(3) by simp
  next
    case (4 x) then show ?case using D(4) by simp
  next
    case 5 show ?case using linked_tl [OF lk] by simp
  next
    case 6 then show ?case using last by simp
  next
    case (7 b j y) then show ?case using D(7) [of b j y] by simp
  next
    case (8 x y) then show ?case using clo by simp
  next
    case (9 i) then show ?case using post [of i] by simp
  qed
qed


section \<open>Termination\<close>

definition todo :: "block_map \<Rightarrow> dfs_state \<Rightarrow> nat" where
  "todo bs s = (\<Sum>(a, k) \<leftarrow> df_stack s. Suc (length (succs_of bs a) - k))"

definition unseen :: "block_map \<Rightarrow> dfs_state \<Rightarrow> nat" where
  "unseen bs s = card (fst ` set bs - set (df_seen s))"

lemma dfs_step_decreases:
  assumes "df_stack s = (a, k) # rest"
  shows "unseen bs (dfs_step bs s) < unseen bs s \<or>
    unseen bs (dfs_step bs s) = unseen bs s \<and> todo bs (dfs_step bs s) < todo bs s"
proof (cases "k < length (succs_of bs a)")
  case True
  let ?t = "succs_of bs a ! k"
  show ?thesis
  proof (cases "map_of bs ?t \<noteq> None \<and> ?t \<notin> set (df_seen s)")
    case new: True
    then have "?t \<in> fst ` set bs - set (df_seen s)" by (force dest: map_of_SomeD)
    then have "card (fst ` set bs - set (df_seen s) - {?t}) < card (fst ` set bs - set (df_seen s))"
      by (intro card_Diff1_less) auto
    moreover have "fst ` set bs - set (?t # df_seen s) = fst ` set bs - set (df_seen s) - {?t}" by auto
    ultimately show ?thesis using assms True new by (simp add: dfs_step_def unseen_def Let_def)
  next
    case False
    then have "dfs_step bs s = s\<lparr>df_stack := (a, k + 1) # rest\<rparr>"
      using assms True by (auto simp: dfs_step_def Let_def)
    then show ?thesis using assms True by (simp add: unseen_def todo_def)
  qed
qed (use assms in \<open>simp add: dfs_step_def unseen_def todo_def\<close>)

lemma dfs_loop_ok: "dfs_inv bs e s \<Longrightarrow> \<exists>s'. dfs_loop bs s = Some s' \<and> dfs_inv bs e s' \<and> df_stack s' = []"
proof (induction s rule: wf_induct_rule [OF wf_measures [of "[unseen bs, todo bs]"]])
  case (1 s)
  show ?case
  proof (cases "df_stack s")
    case Nil
    then show ?thesis using 1 by (simp add: dfs_loop.simps [of bs s])
  next
    case (Cons p rest)
    obtain a k where p: "p = (a, k)" by (cases p)
    have "(dfs_step bs s, s) \<in> measures [unseen bs, todo bs]"
      using dfs_step_decreases [of s a k rest bs] Cons p by auto
    from 1(1) [OF this dfs_step_ok [OF 1(2)]] Cons p obtain s' where
      "dfs_loop bs (dfs_step bs s) = Some s'" "dfs_inv bs e s'" "df_stack s' = []" by auto
    with Cons show ?thesis by (simp add: dfs_loop.simps [of bs s])
  qed
qed

section \<open>The order\<close>

text \<open>A reverse postorder of the blocks reachable from \<open>e\<close>.\<close>

definition is_rpo :: "block_map \<Rightarrow> va_t \<Rightarrow> va_t list \<Rightarrow> bool" where
  "is_rpo bs e rpo \<longleftrightarrow> rpo \<noteq> [] \<and> hd rpo = e \<and> distinct rpo \<and> set rpo = {x. (edge bs)\<^sup>*\<^sup>* e x} \<and>
     (\<forall>i < length rpo. 0 < i \<longrightarrow> (\<exists>j < i. edge bs (rpo ! j) (rpo ! i)))"

lemma post_order_exact:
  assumes "map_of bs e \<noteq> None"
  shows "\<exists>po. post_order bs e = Some po \<and> is_rpo bs e (rev po)"
proof -
  obtain s where s: "dfs_loop bs \<lparr>df_stack = [(e, 0)], df_seen = [e], df_post = []\<rparr> = Some s"
      "dfs_inv bs e s" "df_stack s = []"
    using dfs_loop_ok [OF dfs_inv_start [OF assms]] by blast
  let ?po = "df_post s"
  note D = dfs_invD [OF s(2), unfolded stack_addrs_def s(3), simplified]
  have ne: "?po \<noteq> []" "last ?po = e" and dist: "distinct ?po" using D by auto
  have "x \<in> set ?po" if "(edge bs)\<^sup>*\<^sup>* e x" for x
    using that by (induction rule: rtranclp_induct) (use D in auto)
  then have all: "set ?po = {x. (edge bs)\<^sup>*\<^sup>* e x}" using D(2,4) by auto
  have "\<exists>j < i. edge bs (rev ?po ! j) (rev ?po ! i)" if i: "i < length ?po" "0 < i" for i
  proof -
    let ?i = "length ?po - Suc i"
    have idx: "rev ?po ! i = ?po ! ?i" using i by (simp add: rev_nth)
    have "?po ! ?i \<noteq> last ?po"
      using i nth_eq_iff_index_eq [OF dist, of ?i "length ?po - 1"] ne(1) by (simp add: last_conv_nth)
    moreover have "?i < length ?po" using ne(1) by simp
    ultimately obtain y where y: "edge bs y (?po ! ?i)" "y \<in> set (drop (Suc ?i) ?po)"
      using D(9) [of ?i] unfolding ne(2) by metis
    then obtain m where "m < length ?po - Suc ?i" "drop (Suc ?i) ?po ! m = y"
      by (metis in_set_conv_nth length_drop)
    then have m: "Suc ?i + m < length ?po" "y = ?po ! (Suc ?i + m)" by auto
    let ?j = "length ?po - Suc (Suc ?i + m)"
    have "rev ?po ! ?j = y" "?j < i" using m i by (simp_all add: rev_nth Suc_diff_Suc)
    then show ?thesis using y(1) idx by metis
  qed
  with ne dist all show ?thesis
    by (auto simp: is_rpo_def post_order_def s(1) hd_rev)
qed

end
