(* ===== verification/Pcode_IR.thy ===== *)
theory Pcode_IR
  imports Prelude
begin

text \<open>
  The p-code intermediate representation of the Hyperion decompiler
  (\<open>src/src/hyperion/core/decompiler/ir.h\<close>): operations, varnodes, instructions, blocks
  and functions, with the predicates of \<open>Varnode\<close> and the \<open>vn_*\<close> constructors.
\<close>

section \<open>Operations and varnodes\<close>

datatype pcode_op =
  COPY | LOAD | STORE
| ADD | SUB | AND_OP | OR_OP | XOR_OP
| INT_LESS | INT_SLESS | INT_EQUAL | INT_NEQUAL
| BOOL_AND | BOOL_OR | BOOL_NOT
| CALL | RETURN | BRANCH | CBRANCH
| SHIFT_LEFT | SHIFT_RIGHT | SHIFT_ARIGHT | ROTATE_LEFT | ROTATE_RIGHT
| INT_MULT | INT_DIV | INT_SDIV
| INT_ZEXT | INT_SEXT
| PIECE | SUBPIECE
| INT_NEGATE | INT_NOT
| INTRINSIC | NOP

datatype varnode_kind = VReg | VTemp | VConst | VRam | VStack

record varnode =
  vn_kind :: varnode_kind
  vn_id :: int
  vn_size :: int
  vn_offset :: u64
  vn_name :: string

text \<open>The default member initialisers of \<open>struct Varnode\<close>.\<close>

definition default_vn :: varnode where
  "default_vn = \<lparr>vn_kind = VConst, vn_id = -1, vn_size = 8, vn_offset = 0, vn_name = ''''\<rparr>"

definition vn_valid :: "varnode \<Rightarrow> bool" where
  "vn_valid v \<longleftrightarrow> 0 \<le> vn_id v \<or> vn_kind v = VConst"

definition is_reg :: "varnode \<Rightarrow> bool" where
  "is_reg v \<longleftrightarrow> vn_kind v = VReg"

definition is_temp :: "varnode \<Rightarrow> bool" where
  "is_temp v \<longleftrightarrow> vn_kind v = VTemp"

definition is_const :: "varnode \<Rightarrow> bool" where
  "is_const v \<longleftrightarrow> vn_kind v = VConst"

definition is_stack :: "varnode \<Rightarrow> bool" where
  "is_stack v \<longleftrightarrow> vn_kind v = VStack"

text \<open>\<open>Varnode::operator==\<close> compares everything but the name.\<close>

definition vn_eq :: "varnode \<Rightarrow> varnode \<Rightarrow> bool" where
  "vn_eq a b \<longleftrightarrow> vn_kind a = vn_kind b \<and> vn_id a = vn_id b \<and>
     vn_size a = vn_size b \<and> vn_offset a = vn_offset b"

lemmas vn_pred_defs = is_reg_def is_temp_def is_const_def is_stack_def

lemma vn_eq_refl [simp]: "vn_eq a a"
  by (simp add: vn_eq_def)

section \<open>Instructions, blocks, functions\<close>

record pcode_insn =
  pi_op :: pcode_op
  pi_output :: varnode
  pi_inputs :: "varnode list"
  pi_addr :: va_t
  pi_seq :: int

definition default_insn :: pcode_insn where
  "default_insn = \<lparr>pi_op = NOP, pi_output = default_vn, pi_inputs = [], pi_addr = 0, pi_seq = 0\<rparr>"

text \<open>\<open>PcodeInsn::make\<close>.\<close>

definition make_insn :: "pcode_op \<Rightarrow> varnode \<Rightarrow> varnode list \<Rightarrow> va_t \<Rightarrow> pcode_insn" where
  "make_insn opc out ins a =
     \<lparr>pi_op = opc, pi_output = out, pi_inputs = ins, pi_addr = a, pi_seq = 0\<rparr>"

record pcode_block =
  pb_id :: int
  pb_addr :: va_t
  pb_ops :: "pcode_insn list"
  pb_succs :: "int list"
  pb_preds :: "int list"
  pb_has_return :: bool

definition default_block :: pcode_block where
  "default_block = \<lparr>pb_id = -1, pb_addr = 0, pb_ops = [], pb_succs = [], pb_preds = [],
     pb_has_return = False\<rparr>"

record pcode_func =
  pf_entry :: va_t
  pf_name :: string
  pf_blocks :: "pcode_block list"
  pf_next_temp :: int
  pf_next_ssa :: int
  pf_params :: "varnode list"
  pf_locals :: "varnode list"

section \<open>Constructors\<close>

definition vn_reg :: "int \<Rightarrow> string \<Rightarrow> int \<Rightarrow> varnode" where
  "vn_reg i nm sz = \<lparr>vn_kind = VReg, vn_id = i, vn_size = sz, vn_offset = 0, vn_name = nm\<rparr>"

definition vn_temp :: "int \<Rightarrow> int \<Rightarrow> varnode" where
  "vn_temp i sz = \<lparr>vn_kind = VTemp, vn_id = i, vn_size = sz, vn_offset = 0, vn_name = ''''\<rparr>"

definition vn_const :: "u64 \<Rightarrow> int \<Rightarrow> varnode" where
  "vn_const val sz = \<lparr>vn_kind = VConst, vn_id = -1, vn_size = sz, vn_offset = val, vn_name = ''''\<rparr>"

definition vn_stack :: "int \<Rightarrow> u64 \<Rightarrow> int \<Rightarrow> varnode" where
  "vn_stack i off sz = \<lparr>vn_kind = VStack, vn_id = i, vn_size = sz, vn_offset = off, vn_name = ''''\<rparr>"

lemmas vn_cons_defs = vn_reg_def vn_temp_def vn_const_def vn_stack_def

lemma vn_valid_cons [simp]:
  "vn_valid (vn_const c sz)" "vn_valid (vn_reg i nm sz) \<longleftrightarrow> 0 \<le> i"
  "vn_valid (vn_temp i sz) \<longleftrightarrow> 0 \<le> i" "vn_valid default_vn"
  by (simp_all add: vn_valid_def vn_cons_defs default_vn_def)

section \<open>Rewriting the operations of a function\<close>

text \<open>
  Every pass walks \<open>func.blocks[b].ops\<close> and leaves the rest of the function alone.
  \<open>on_blocks g\<close> applies \<open>g\<close> to each block, \<open>on_ops g\<close> to each block's operations.
\<close>

definition on_blocks :: "(pcode_block \<Rightarrow> pcode_block) \<Rightarrow> pcode_func \<Rightarrow> pcode_func" where
  "on_blocks g f = f\<lparr>pf_blocks := map g (pf_blocks f)\<rparr>"

definition on_ops :: "(pcode_insn list \<Rightarrow> pcode_insn list) \<Rightarrow> pcode_func \<Rightarrow> pcode_func" where
  "on_ops g = on_blocks (\<lambda>b. b\<lparr>pb_ops := g (pb_ops b)\<rparr>)"

definition all_ops :: "pcode_func \<Rightarrow> pcode_insn list" where
  "all_ops f = concat (map pb_ops (pf_blocks f))"

definition is_nop :: "pcode_insn \<Rightarrow> bool" where
  "is_nop i \<longleftrightarrow> pi_op i = NOP"

definition set_nop :: "pcode_insn \<Rightarrow> pcode_insn" where
  "set_nop i = i\<lparr>pi_op := NOP\<rparr>"

text \<open>\<open>std::erase_if(blk.ops, [](op) { return op.op == NOP; })\<close> on every block.\<close>

definition erase_nops :: "pcode_func \<Rightarrow> pcode_func" where
  "erase_nops = on_ops (erase_if is_nop)"

lemma pf_blocks_on_blocks [simp]: "pf_blocks (on_blocks g f) = map g (pf_blocks f)"
  by (simp add: on_blocks_def)

lemma on_ops_id [simp]: "on_ops (\<lambda>x. x) f = f"
  by (simp add: on_ops_def on_blocks_def)

lemma on_ops_comp: "on_ops g (on_ops h f) = on_ops (\<lambda>ops. g (h ops)) f"
  by (simp add: on_ops_def on_blocks_def comp_def)

lemma pf_blocks_on_ops [simp]:
  "pf_blocks (on_ops g f) = map (\<lambda>b. b\<lparr>pb_ops := g (pb_ops b)\<rparr>) (pf_blocks f)"
  by (simp add: on_ops_def)

lemma on_ops_frame [simp]:
  "pf_entry (on_ops g f) = pf_entry f" "pf_name (on_ops g f) = pf_name f"
  "pf_next_temp (on_ops g f) = pf_next_temp f" "pf_next_ssa (on_ops g f) = pf_next_ssa f"
  "pf_params (on_ops g f) = pf_params f" "pf_locals (on_ops g f) = pf_locals f"
  by (simp_all add: on_ops_def on_blocks_def)

lemma all_ops_on_ops: "all_ops (on_ops g f) = concat (map (\<lambda>b. g (pb_ops b)) (pf_blocks f))"
  by (simp add: all_ops_def comp_def)

lemma all_ops_on_ops_map: "all_ops (on_ops (map g) f) = map g (all_ops f)"
  by (simp add: all_ops_def comp_def map_concat)

lemma all_ops_erase_nops: "all_ops (erase_nops f) = erase_if is_nop (all_ops f)"
  by (simp add: all_ops_def erase_nops_def comp_def erase_if_def filter_concat)

lemma is_nop_set_nop [simp]: "is_nop (set_nop i)"
  by (simp add: is_nop_def set_nop_def)

lemma set_nop_frame [simp]:
  "pi_op (set_nop i) = NOP" "pi_output (set_nop i) = pi_output i"
  "pi_inputs (set_nop i) = pi_inputs i" "pi_seq (set_nop i) = pi_seq i"
  by (simp_all add: set_nop_def)

lemma in_all_ops: "i \<in> set (all_ops f) \<longleftrightarrow> (\<exists>b \<in> set (pf_blocks f). i \<in> set (pb_ops b))"
  by (auto simp: all_ops_def)

end
