(* ===== verification/Ssa.thy ===== *)
theory Ssa
  imports Pcode_IR "HOL-Library.Monad_Syntax"
begin

text \<open>
  SSA construction (\<open>src/src/hyperion/core/decompiler/ssa.cpp\<close>): reverse postorder, immediate
  dominators by the iterative algorithm of Cooper, Harvey and Kennedy, dominance frontiers, phi
  insertion and renaming along the dominator tree.

  The two recursions over the graph (\<open>visit\<close> and \<open>rename_block\<close>) carry a depth that the number
  of blocks bounds; the two walks up the dominator tree in \<open>intersect\<close> and the outer loop of
  \<open>compute_dominators\<close> have no bound in the source, so their models return \<open>None\<close> when they do not
  end.  The order in which \<open>std::unordered_map\<close> enumerates its keys is the argument \<open>ord\<close>.
\<close>

section \<open>Variables\<close>

record ssa_vars =
  sv_slots :: "(u64 \<times> int) list"
  sv_nodes :: "(int \<times> varnode) list"

definition no_vars :: ssa_vars where
  "no_vars = \<lparr>sv_slots = [], sv_nodes = []\<rparr>"

text \<open>\<open>(u64)(u32)vn.id << 32 ^ (vn.offset & 0xFFFFFFFF)\<close>.\<close>

definition slot_of :: "varnode \<Rightarrow> u64" where
  "slot_of v = push_bit 32 (ucast (word_of_int (vn_id v) :: u32)) XOR (vn_offset v AND 0xFFFFFFFF)"

definition var_key :: "varnode \<Rightarrow> ssa_vars \<Rightarrow> int \<times> ssa_vars" where
  "var_key v sv =
     (if is_reg v then (vn_id v, sv)
      else if is_temp v then (1000 + vn_id v, sv)
      else if is_stack v then
        (case map_of (sv_slots sv) (slot_of v) of
           Some k \<Rightarrow> (k, sv)
         | None \<Rightarrow>
             (let key = 2000 + int (length (sv_slots sv))
              in (key, \<lparr>sv_slots = (slot_of v, key) # sv_slots sv, sv_nodes = (key, v) # sv_nodes sv\<rparr>)))
      else (-1, sv))"

section \<open>Reverse postorder\<close>

definition in_range :: "'a list \<Rightarrow> int \<Rightarrow> bool" where
  "in_range xs i \<longleftrightarrow> 0 \<le> i \<and> i < int (length xs)"

fun entry_from :: "va_t \<Rightarrow> int \<Rightarrow> pcode_block list \<Rightarrow> int" where
  "entry_from entry i [] = 0"
| "entry_from entry i (b # bs) = (if pb_addr b = entry then i else entry_from entry (i + 1) bs)"

definition entry_block :: "pcode_func \<Rightarrow> int" where
  "entry_block f = entry_from (pf_entry f) 0 (pf_blocks f)"

text \<open>The recursive lambda \<open>visit\<close>; the state is \<open>visited\<close> and \<open>postorder\<close>.\<close>

fun po_visit :: "nat \<Rightarrow> pcode_block list \<Rightarrow> int \<Rightarrow> bool list \<times> int list \<Rightarrow> bool list \<times> int list" where
  "po_visit 0 bs b s = s"
| "po_visit (Suc d) bs b s =
     (if \<not> in_range bs b \<or> fst s ! nat b then s
      else (let s' = fold (po_visit d bs) (pb_succs (bs ! nat b)) ((fst s)[nat b := True], snd s)
            in (fst s', snd s' @ [b])))"

definition compute_rpo :: "pcode_func \<Rightarrow> int list" where
  "compute_rpo f =
     (let bs = pf_blocks f
      in rev (snd (po_visit (Suc (length bs)) bs (entry_block f) (replicate (length bs) False, []))))"

definition compute_rpo_index :: "nat \<Rightarrow> int list \<Rightarrow> int list" where
  "compute_rpo_index n rpo =
     fold (\<lambda>(i, b) ri. ri[nat b := int i]) (enumerate 0 rpo) (replicate n (-1))"

section \<open>Dominators\<close>

text \<open>One of the two inner loops of \<open>intersect\<close>: follow \<open>idom\<close> while the index is above \<open>lim\<close>.\<close>

fun walk_up :: "nat \<Rightarrow> int list \<Rightarrow> int list \<Rightarrow> int \<Rightarrow> int \<Rightarrow> int option" where
  "walk_up 0 ri idom x lim = None"
| "walk_up (Suc n) ri idom x lim =
     (if lim < ri ! nat x then
        (let x' = idom ! nat x in if x' < 0 then Some (-1) else walk_up n ri idom x' lim)
      else Some x)"

text \<open>The outer loop of \<open>intersect\<close>; the first argument is \<open>guard\<close>.\<close>

fun intersect_loop :: "nat \<Rightarrow> nat \<Rightarrow> int list \<Rightarrow> int list \<Rightarrow> int \<Rightarrow> int \<Rightarrow> int option" where
  "intersect_loop 0 fuel ri idom a b = Some (-1)"
| "intersect_loop (Suc g) fuel ri idom a b =
     (if a = b then Some a
      else if a < 0 \<or> b < 0 then Some (-1)
      else if \<not> in_range idom a \<or> \<not> in_range idom b then Some (-1)
      else if ri ! nat a < 0 \<or> ri ! nat b < 0 then Some (-1)
      else do {
        a' \<leftarrow> walk_up fuel ri idom a (ri ! nat b);
        if a' < 0 then Some (-1) else do {
        b' \<leftarrow> walk_up fuel ri idom b (ri ! nat a');
        if b' < 0 then Some (-1) else intersect_loop g fuel ri idom a' b' }})"

definition intersect :: "int list \<Rightarrow> int list \<Rightarrow> int \<Rightarrow> int \<Rightarrow> int option" where
  "intersect ri idom a b =
     (let n = length idom in intersect_loop (2 * n + 8) (Suc n) ri idom a b)"

text \<open>The new immediate dominator of a block, over its predecessors.\<close>

fun dom_preds :: "int list \<Rightarrow> int list \<Rightarrow> int list \<Rightarrow> int \<Rightarrow> int option" where
  "dom_preds ri idom [] acc = Some acc"
| "dom_preds ri idom (p # ps) acc =
     (if \<not> in_range idom p \<or> idom ! nat p < 0 then dom_preds ri idom ps acc
      else if acc < 0 then dom_preds ri idom ps p
      else do { r \<leftarrow> intersect ri idom p acc; dom_preds ri idom ps r })"

fun dom_round :: "pcode_block list \<Rightarrow> int list \<Rightarrow> int list \<Rightarrow> int list \<times> bool \<Rightarrow> (int list \<times> bool) option" where
  "dom_round bs ri [] s = Some s"
| "dom_round bs ri (b # order) s =
     do { new_idom \<leftarrow> dom_preds ri (fst s) (pb_preds (bs ! nat b)) (-1);
          dom_round bs ri order
            (if 0 \<le> new_idom \<and> fst s ! nat b \<noteq> new_idom
             then ((fst s)[nat b := new_idom], True) else s) }"

partial_function (option) dom_loop ::
  "pcode_block list \<Rightarrow> int list \<Rightarrow> int list \<Rightarrow> int list \<Rightarrow> int list option" where
  "dom_loop bs ri order idom =
     (case dom_round bs ri order (idom, False) of
        None \<Rightarrow> None
      | Some s \<Rightarrow> if snd s then dom_loop bs ri order (fst s) else Some (fst s))"

declare dom_loop.simps [code]

definition compute_idom :: "pcode_func \<Rightarrow> int list option" where
  "compute_idom f =
     (let bs = pf_blocks f; n = length bs; rpo = compute_rpo f;
          ri = compute_rpo_index n rpo; e = entry_block f
      in dom_loop bs ri (tl rpo) ((replicate n (-1))[nat e := e]))"

definition compute_dom_children :: "nat \<Rightarrow> int \<Rightarrow> int list \<Rightarrow> int list \<Rightarrow> int list list" where
  "compute_dom_children n e rpo idom =
     fold (\<lambda>b ch. if b \<noteq> e \<and> 0 \<le> idom ! nat b
            then ch[nat (idom ! nat b) := ch ! nat (idom ! nat b) @ [b]] else ch)
       rpo (replicate n [])"

section \<open>Dominance frontiers\<close>

text \<open>The runner loop for block \<open>b\<close>; its \<open>guard\<close> is the number of blocks plus one.\<close>

fun df_runner :: "nat \<Rightarrow> int list \<Rightarrow> int \<Rightarrow> int \<Rightarrow> int list list \<Rightarrow> int list list" where
  "df_runner 0 idom b runner df = df"
| "df_runner (Suc g) idom b runner df =
     (if runner < 0 \<or> runner = idom ! nat b then df
      else
        (let df' = df[nat runner := df ! nat runner @ [b]];
             nxt = (if in_range idom runner then idom ! nat runner else -1)
         in if nxt = runner then df' else df_runner g idom b nxt df'))"

definition compute_dom_frontiers :: "pcode_block list \<Rightarrow> int list \<Rightarrow> int list list" where
  "compute_dom_frontiers bs idom =
     map (\<lambda>df. remdups_adj (sort df))
      (fold (\<lambda>b df.
         if idom ! nat b < 0 then df
         else if length (pb_preds (bs ! nat b)) < 2 then df
         else fold (df_runner (Suc (length bs)) idom b) (pb_preds (bs ! nat b)) df)
       [0..int (length bs) - 1] (replicate (length bs) []))"

section \<open>Phi insertion\<close>

text \<open>The blocks defining each variable, keys in order of first definition.\<close>

definition add_def :: "int \<Rightarrow> int \<Rightarrow> (int \<times> int list) list \<Rightarrow> (int \<times> int list) list" where
  "add_def k b defs =
     (if k \<in> fst ` set defs then map (\<lambda>(k', bs). if k' = k then (k', bs @ [b]) else (k', bs)) defs
      else defs @ [(k, [b])])"

definition collect_op :: "int \<Rightarrow> pcode_insn \<Rightarrow> (int \<times> int list) list \<times> ssa_vars \<Rightarrow>
    (int \<times> int list) list \<times> ssa_vars" where
  "collect_op b i s =
     (case var_key (pi_output i) (snd s) of
        (k, sv) \<Rightarrow> (if 0 \<le> k then add_def k b (fst s) else fst s, sv))"

definition collect_defs :: "pcode_block list \<Rightarrow> (int \<times> int list) list \<times> ssa_vars" where
  "collect_defs bs =
     fold (\<lambda>(b, blk) s. fold (collect_op (int b)) (pb_ops blk) s) (enumerate 0 bs) ([], no_vars)"

definition phi_output :: "ssa_vars \<Rightarrow> int \<Rightarrow> varnode" where
  "phi_output sv v =
     (if 2000 \<le> v then (case map_of (sv_nodes sv) v of Some nd \<Rightarrow> nd | None \<Rightarrow> default_vn)
      else default_vn\<lparr>vn_kind := (if v < 1000 then VReg else VTemp),
             vn_id := (if v < 1000 then v else v - 1000), vn_size := 8\<rparr>)"

definition make_phi :: "ssa_vars \<Rightarrow> int \<Rightarrow> nat \<Rightarrow> pcode_insn" where
  "make_phi sv v num_preds = default_insn\<lparr>pi_op := COPY, pi_output := phi_output sv v,
     pi_seq := -1, pi_inputs := replicate num_preds (phi_output sv v)\<rparr>"

definition push_phi :: "ssa_vars \<Rightarrow> int \<Rightarrow> int \<Rightarrow> pcode_block list \<Rightarrow> pcode_block list" where
  "push_phi sv v b bs =
     bs[nat b := (bs ! nat b)\<lparr>pb_ops :=
       make_phi sv v (length (pb_preds (bs ! nat b))) # pb_ops (bs ! nat b)\<rparr>]"

text \<open>
  The inner loop over one dominance frontier: the new phi blocks, in order.
\<close>

definition new_phis :: "int list \<Rightarrow> int list \<Rightarrow> int list" where
  "new_phis has_phi df = fold (\<lambda>b acc. if b \<in> set has_phi \<or> b \<in> set acc then acc else acc @ [b]) df []"

text \<open>
  The worklist of one variable.  \<open>processed\<close> grows with every block that is not skipped, so the loop
  ends: the measure is the pair of the blocks still unprocessed and the queue.
\<close>

fun phi_blocks :: "nat \<Rightarrow> int list list \<Rightarrow> int list \<Rightarrow> int list \<Rightarrow> int list \<Rightarrow> int list" where
  "phi_blocks 0 df processed has_phi work = has_phi"
| "phi_blocks (Suc n) df processed has_phi [] = has_phi"
| "phi_blocks (Suc n) df processed has_phi (d # work) =
     (if d \<in> set processed then phi_blocks n df processed has_phi work
      else (let new = new_phis has_phi (df ! nat d)
            in phi_blocks n df (d # processed) (has_phi @ new) (work @ new)))"

definition insert_phis ::
  "(int list \<Rightarrow> int list) \<Rightarrow> int list list \<Rightarrow> pcode_block list \<Rightarrow> pcode_block list \<times> int list \<times> ssa_vars" where
  "insert_phis ord df bs =
     (case collect_defs bs of
        (defs, sv) \<Rightarrow>
          (fold (\<lambda>v bs'. fold (push_phi sv v)
               (phi_blocks (length bs + length (the (map_of defs v))) df [] [] (the (map_of defs v))) bs')
             (ord (map fst defs)) bs,
           map fst defs, sv))"

section \<open>Renaming\<close>

text \<open>The version stacks, top first; a missing key and an empty stack are not distinguished.\<close>

type_synonym stacks = "int \<Rightarrow> int list"

record renamer =
  rn_blocks :: "pcode_block list"
  rn_vars :: ssa_vars
  rn_stacks :: stacks
  rn_counter :: int

definition rename_input :: "stacks \<Rightarrow> varnode \<Rightarrow> ssa_vars \<Rightarrow> varnode \<times> ssa_vars" where
  "rename_input st v sv =
     (case var_key v sv of
        (k, sv') \<Rightarrow>
          ((if 0 \<le> k then (case st k of [] \<Rightarrow> v | ver # _ \<Rightarrow> v\<lparr>vn_offset := word_of_int ver\<rparr>) else v), sv'))"

fun rename_inputs :: "stacks \<Rightarrow> varnode list \<Rightarrow> ssa_vars \<Rightarrow> varnode list \<times> ssa_vars" where
  "rename_inputs st [] sv = ([], sv)"
| "rename_inputs st (v # vs) sv =
     (case rename_input st v sv of (v', sv') \<Rightarrow>
        (case rename_inputs st vs sv' of (vs', sv'') \<Rightarrow> (v' # vs', sv'')))"

record rename_ctx =
  rc_vars :: ssa_vars
  rc_stacks :: stacks
  rc_counter :: int
  rc_pushed :: "int list"

definition rename_op :: "pcode_insn \<Rightarrow> rename_ctx \<Rightarrow> pcode_insn \<times> rename_ctx" where
  "rename_op i c =
     (case (if pi_seq i \<noteq> -1 then rename_inputs (rc_stacks c) (pi_inputs i) (rc_vars c)
            else (pi_inputs i, rc_vars c)) of
        (ins, sv) \<Rightarrow>
      (case var_key (pi_output i) sv of
        (k, sv') \<Rightarrow>
          if 0 \<le> k then
            (let ver = rc_counter c + 1
             in (i\<lparr>pi_inputs := ins, pi_output := (pi_output i)\<lparr>vn_offset := word_of_int ver\<rparr>\<rparr>,
                 \<lparr>rc_vars = sv', rc_stacks = (rc_stacks c)(k := ver # rc_stacks c k),
                  rc_counter = ver, rc_pushed = k # rc_pushed c\<rparr>))
          else (i\<lparr>pi_inputs := ins\<rparr>, c\<lparr>rc_vars := sv'\<rparr>)))"

fun rename_ops :: "pcode_insn list \<Rightarrow> rename_ctx \<Rightarrow> pcode_insn list \<times> rename_ctx" where
  "rename_ops [] c = ([], c)"
| "rename_ops (i # ops) c =
     (case rename_op i c of (i', c') \<Rightarrow>
        (case rename_ops ops c' of (ops', c'') \<Rightarrow> (i' # ops', c'')))"

text \<open>The phi inputs of a successor that belong to predecessor slot \<open>p\<close>.\<close>

fun rename_phis :: "stacks \<Rightarrow> nat \<Rightarrow> pcode_insn list \<Rightarrow> ssa_vars \<Rightarrow> pcode_insn list \<times> ssa_vars" where
  "rename_phis st p [] sv = ([], sv)"
| "rename_phis st p (i # ops) sv =
     (if pi_seq i \<noteq> -1 then (i # ops, sv)
      else if p < length (pi_inputs i) then
        (case rename_input st (pi_inputs i ! p) sv of (v, sv') \<Rightarrow>
          (case rename_phis st p ops sv' of (ops', sv'') \<Rightarrow>
             (i\<lparr>pi_inputs := (pi_inputs i)[p := v]\<rparr> # ops', sv'')))
      else (case rename_phis st p ops sv of (ops', sv') \<Rightarrow> (i # ops', sv')))"

fun first_index :: "int \<Rightarrow> int list \<Rightarrow> nat option" where
  "first_index x [] = None"
| "first_index x (y # ys) = (if y = x then Some 0 else map_option Suc (first_index x ys))"

definition rename_succ :: "int \<Rightarrow> int \<Rightarrow> renamer \<Rightarrow> renamer" where
  "rename_succ blk s r =
     (if \<not> in_range (rn_blocks r) s then r
      else (case first_index blk (pb_preds (rn_blocks r ! nat s)) of
        None \<Rightarrow> r
      | Some p \<Rightarrow>
          (case rename_phis (rn_stacks r) p (pb_ops (rn_blocks r ! nat s)) (rn_vars r) of
             (ops, sv) \<Rightarrow>
               r\<lparr>rn_blocks := (rn_blocks r)[nat s := (rn_blocks r ! nat s)\<lparr>pb_ops := ops\<rparr>],
                 rn_vars := sv\<rparr>)))"

definition pop_key :: "int \<Rightarrow> stacks \<Rightarrow> stacks" where
  "pop_key k st = st(k := tl (st k))"

text \<open>The operations of the block itself.\<close>

definition rename_own :: "int \<Rightarrow> renamer \<Rightarrow> renamer \<times> int list" where
  "rename_own b r =
     (case rename_ops (pb_ops (rn_blocks r ! nat b))
             \<lparr>rc_vars = rn_vars r, rc_stacks = rn_stacks r, rc_counter = rn_counter r, rc_pushed = []\<rparr> of
        (ops, c) \<Rightarrow>
          (\<lparr>rn_blocks = (rn_blocks r)[nat b := (rn_blocks r ! nat b)\<lparr>pb_ops := ops\<rparr>],
            rn_vars = rc_vars c, rn_stacks = rc_stacks c, rn_counter = rc_counter c\<rparr>, rc_pushed c))"

fun rename_block :: "nat \<Rightarrow> int list list \<Rightarrow> int \<Rightarrow> renamer \<Rightarrow> renamer" where
  "rename_block 0 children b r = r"
| "rename_block (Suc d) children b r =
     (if \<not> in_range (rn_blocks r) b then r
      else
        (case rename_own b r of
           (r1, pushed) \<Rightarrow>
             (let r2 = fold (rename_succ b) (pb_succs (rn_blocks r1 ! nat b)) r1;
                  r3 = fold (rename_block d children) (children ! nat b) r2
              in r3\<lparr>rn_stacks := fold pop_key pushed (rn_stacks r3)\<rparr>)))"

definition initial_stacks :: "int list \<Rightarrow> stacks" where
  "initial_stacks vars = (\<lambda>k. if k \<in> set vars then [0] else [])"

definition ssa_build :: "(int list \<Rightarrow> int list) \<Rightarrow> pcode_func \<Rightarrow> pcode_func option" where
  "ssa_build ord f =
     (let n = length (pf_blocks f); e = entry_block f; rpo = compute_rpo f in
      if n = 0 then Some f
      else do {
        idom \<leftarrow> compute_idom f;
        (case insert_phis ord (compute_dom_frontiers (pf_blocks f) idom) (pf_blocks f) of
           (bs, vars, sv) \<Rightarrow>
             (let r = rename_block (Suc n) (compute_dom_children n e rpo idom) e
                        \<lparr>rn_blocks = bs, rn_vars = sv, rn_stacks = initial_stacks vars, rn_counter = 0\<rparr>
              in Some (f\<lparr>pf_blocks := rn_blocks r, pf_next_ssa := rn_counter r\<rparr>)))
      })"

end
