(* ===== verification/Ssa_Correct.thy ===== *)
theory Ssa_Correct
  imports Ssa
begin

text \<open>
  What SSA construction guarantees: the reverse postorder lists exactly the blocks reachable from
  the entry, the computed immediate dominators dominate, phi insertion computes the iterated
  dominance frontier, and renaming gives each definition a version of its own.
\<close>

section \<open>Reachability\<close>

inductive reach :: "pcode_block list \<Rightarrow> int \<Rightarrow> int \<Rightarrow> bool" for bs :: "pcode_block list" and e :: int where
  reach_refl: "in_range bs e \<Longrightarrow> reach bs e e"
| reach_step: "reach bs e b \<Longrightarrow> s \<in> set (pb_succs (bs ! nat b)) \<Longrightarrow> in_range bs s \<Longrightarrow> reach bs e s"

inductive_cases reachE: "reach bs e b"

lemma reach_in_range: "reach bs e b \<Longrightarrow> in_range bs b"
  by (erule reach.cases) auto

lemma reach_trans: "reach bs a b \<Longrightarrow> reach bs e a \<Longrightarrow> reach bs e b"
  by (induction rule: reach.induct) (auto intro: reach_step)

section \<open>The depth-first search\<close>

definition unvisited :: "bool list \<Rightarrow> nat" where
  "unvisited vis = length (filter Not vis)"

lemma unvisited_le: "unvisited vis \<le> length vis"
  by (simp add: unvisited_def)

definition seen :: "bool list \<Rightarrow> int set" where
  "seen vis = {b. in_range vis b \<and> vis ! nat b}"

lemma seen_mark:
  "in_range vis b \<Longrightarrow> seen (vis[nat b := True]) = insert b (seen vis)"
  by (auto simp: seen_def in_range_def nth_list_update)

lemma unvisited_card: "unvisited vis = card {i. i < length vis \<and> \<not> vis ! i}"
  by (simp add: unvisited_def length_filter_conv_card)

lemma unvisited_mono:
  assumes "length vis' = length vis" "seen vis \<subseteq> seen vis'"
  shows "unvisited vis' \<le> unvisited vis"
proof -
  have "vis' ! i" if "i < length vis" "vis ! i" for i
  proof -
    have "int i \<in> seen vis" using that by (simp add: seen_def in_range_def)
    with assms(2) have "int i \<in> seen vis'" by blast
    then show ?thesis by (simp add: seen_def)
  qed
  then have "{i. i < length vis' \<and> \<not> vis' ! i} \<subseteq> {i. i < length vis \<and> \<not> vis ! i}"
    using assms(1) by auto
  then show ?thesis unfolding unvisited_card by (intro card_mono) auto
qed

lemma unvisited_mark:
  assumes "in_range vis b" "b \<notin> seen vis"
  shows "unvisited (vis[nat b := True]) < unvisited vis"
proof -
  have b: "nat b < length vis" "\<not> vis ! nat b" using assms by (auto simp: in_range_def seen_def)
  then have "{i. i < length (vis[nat b := True]) \<and> \<not> vis[nat b := True] ! i} \<subset>
      {i. i < length vis \<and> \<not> vis ! i}"
    by (auto simp: nth_list_update psubset_eq)
  then show ?thesis unfolding unvisited_card by (intro psubset_card_mono) auto
qed

text \<open>
  What a visit adds: the new blocks are distinct, were not seen, are in range, their successors
  are seen afterwards, each of them but the roots has a predecessor later in the list.
\<close>

definition po_grows :: "pcode_block list \<Rightarrow> int set \<Rightarrow> bool list \<times> int list \<Rightarrow> bool list \<times> int list \<Rightarrow> bool" where
  "po_grows bs roots s s' \<longleftrightarrow> (\<exists>new. snd s' = snd s @ new \<and> distinct new \<and>
     length (fst s') = length (fst s) \<and>
     seen (fst s') = seen (fst s) \<union> set new \<and> set new \<inter> seen (fst s) = {} \<and>
     (\<forall>b \<in> set new. in_range bs b \<and>
        (\<forall>c \<in> set (pb_succs (bs ! nat b)). in_range bs c \<longrightarrow> c \<in> seen (fst s'))) \<and>
     (\<forall>i < length new. new ! i \<in> roots \<or>
        (\<exists>j. i < j \<and> j < length new \<and> new ! i \<in> set (pb_succs (bs ! nat (new ! j))))))"

lemma po_grows_refl: "po_grows bs R s s"
  by (simp add: po_grows_def)

lemma po_grows_trans:
  assumes "po_grows bs R s s'" "po_grows bs R s' s''"
  shows "po_grows bs R s s''"
proof -
  obtain n1 where n1: "snd s' = snd s @ n1" "distinct n1" "length (fst s') = length (fst s)"
     "seen (fst s') = seen (fst s) \<union> set n1" "set n1 \<inter> seen (fst s) = {}"
     "\<forall>b \<in> set n1. in_range bs b \<and>
        (\<forall>c \<in> set (pb_succs (bs ! nat b)). in_range bs c \<longrightarrow> c \<in> seen (fst s'))"
     "\<forall>i < length n1. n1 ! i \<in> R \<or>
        (\<exists>j. i < j \<and> j < length n1 \<and> n1 ! i \<in> set (pb_succs (bs ! nat (n1 ! j))))"
    using assms(1) unfolding po_grows_def by blast
  obtain n2 where n2: "snd s'' = snd s' @ n2" "distinct n2" "length (fst s'') = length (fst s')"
     "seen (fst s'') = seen (fst s') \<union> set n2" "set n2 \<inter> seen (fst s') = {}"
     "\<forall>b \<in> set n2. in_range bs b \<and>
        (\<forall>c \<in> set (pb_succs (bs ! nat b)). in_range bs c \<longrightarrow> c \<in> seen (fst s''))"
     "\<forall>i < length n2. n2 ! i \<in> R \<or>
        (\<exists>j. i < j \<and> j < length n2 \<and> n2 ! i \<in> set (pb_succs (bs ! nat (n2 ! j))))"
    using assms(2) unfolding po_grows_def by blast
  let ?n = "n1 @ n2"
  have par: "?n ! i \<in> R \<or> (\<exists>j. i < j \<and> j < length ?n \<and> ?n ! i \<in> set (pb_succs (bs ! nat (?n ! j))))"
    if "i < length ?n" for i
  proof (cases "i < length n1")
    case True
    then consider "n1 ! i \<in> R" | j where "i < j" "j < length n1" "n1 ! i \<in> set (pb_succs (bs ! nat (n1 ! j)))"
      using n1(7) by blast
    then show ?thesis
    proof cases
      case 1 with True show ?thesis by (simp add: nth_append)
    next
      case (2 j)
      then show ?thesis using True by (intro disjI2 exI [of _ j]) (simp add: nth_append)
    qed
  next
    case False
    define k where "k = i - length n1"
    have k: "k < length n2" "i = length n1 + k" using False that by (auto simp: k_def)
    then consider "n2 ! k \<in> R" | j where "k < j" "j < length n2" "n2 ! k \<in> set (pb_succs (bs ! nat (n2 ! j)))"
      using n2(7) by blast
    then show ?thesis
    proof cases
      case 1 with k show ?thesis by simp
    next
      case (2 j)
      then show ?thesis using k by (intro disjI2 exI [of _ "length n1 + j"]) simp
    qed
  qed
  show ?thesis unfolding po_grows_def
  proof (intro exI [of _ ?n] conjI)
    show "\<forall>i<length ?n. ?n ! i \<in> R \<or> (\<exists>j. i < j \<and> j < length ?n \<and> ?n ! i \<in> set (pb_succs (bs ! nat (?n ! j))))"
      using par by blast
  qed (use n1(1-6) n2(1-6) in auto)
qed

lemma po_grows_mono_roots: "po_grows bs R s s' \<Longrightarrow> R \<subseteq> R' \<Longrightarrow> po_grows bs R' s s'"
  unfolding po_grows_def by blast

lemma po_visit_grows:
  "unvisited (fst s) < d \<Longrightarrow> length (fst s) = length bs \<Longrightarrow>
   po_grows bs {b} s (po_visit d bs b s) \<and> (in_range bs b \<longrightarrow> b \<in> seen (fst (po_visit d bs b s)))"
proof (induction d arbitrary: b s)
  case 0
  then show ?case by simp
next
  case (Suc d)
  show ?case
  proof (cases "in_range bs b \<and> \<not> fst s ! nat b")
    case False
    with Suc.prems show ?thesis
      by (auto simp: po_grows_refl seen_def in_range_def)
  next
    case True
    define s1 where "s1 = ((fst s)[nat b := True], snd s)"
    have rng: "in_range (fst s) b" using True Suc.prems by (simp add: in_range_def)
    have new_b: "b \<notin> seen (fst s)" using True by (simp add: seen_def)
    have u1: "unvisited (fst s1) < d" "length (fst s1) = length bs"
      using unvisited_mark [OF rng new_b] Suc.prems by (auto simp: s1_def)
    have fold_grows: "po_grows bs (set ss) s1 (fold (po_visit d bs) ss s1) \<and>
        (\<forall>c \<in> set ss. in_range bs c \<longrightarrow> c \<in> seen (fst (fold (po_visit d bs) ss s1)))" for ss
    proof (induction ss rule: rev_induct)
      case Nil
      show ?case by (simp add: po_grows_refl)
    next
      case (snoc c ss)
      define t where "t = fold (po_visit d bs) ss s1"
      have t: "po_grows bs (set ss) s1 t" "\<forall>c \<in> set ss. in_range bs c \<longrightarrow> c \<in> seen (fst t)"
        using snoc by (auto simp: t_def)
      have len: "length (fst t) = length (fst s1)" "seen (fst s1) \<subseteq> seen (fst t)"
        using t(1) by (auto simp: po_grows_def)
      have v: "po_grows bs {c} t (po_visit d bs c t) \<and> (in_range bs c \<longrightarrow> c \<in> seen (fst (po_visit d bs c t)))"
        using unvisited_mono [OF len] u1 len by (intro Suc.IH) auto
      then have "seen (fst t) \<subseteq> seen (fst (po_visit d bs c t))" by (auto simp: po_grows_def)
      moreover have "po_grows bs (set (ss @ [c])) s1 (po_visit d bs c t)"
        by (rule po_grows_trans [of _ _ _ t])
          (use t(1) v in \<open>auto intro: po_grows_mono_roots\<close>)
      ultimately show ?case using v t(2) by (auto simp: t_def [symmetric])
    qed
    define t where "t = fold (po_visit d bs) (pb_succs (bs ! nat b)) s1"
    obtain new where n: "snd t = snd s1 @ new" "distinct new" "length (fst t) = length (fst s1)"
       "seen (fst t) = seen (fst s1) \<union> set new" "set new \<inter> seen (fst s1) = {}"
       "\<forall>b \<in> set new. in_range bs b \<and>
          (\<forall>c \<in> set (pb_succs (bs ! nat b)). in_range bs c \<longrightarrow> c \<in> seen (fst t))"
       "\<forall>i < length new. new ! i \<in> set (pb_succs (bs ! nat b)) \<or>
          (\<exists>j. i < j \<and> j < length new \<and> new ! i \<in> set (pb_succs (bs ! nat (new ! j))))"
      using fold_grows [of "pb_succs (bs ! nat b)"] unfolding t_def [symmetric] po_grows_def by blast
    have res: "po_visit (Suc d) bs b s = (fst t, snd t @ [b])"
      using True by (simp add: t_def s1_def Let_def)
    have seen1: "seen (fst s1) = insert b (seen (fst s))"
      using seen_mark [OF rng] by (simp add: s1_def)
    have succs: "\<forall>c \<in> set (pb_succs (bs ! nat b)). in_range bs c \<longrightarrow> c \<in> seen (fst t)"
      using fold_grows [of "pb_succs (bs ! nat b)"] by (simp add: t_def)
    let ?n = "new @ [b]"
    have par: "?n ! i \<in> {b} \<or> (\<exists>j. i < j \<and> j < length ?n \<and> ?n ! i \<in> set (pb_succs (bs ! nat (?n ! j))))"
      if "i < length ?n" for i
    proof (cases "i < length new")
      case False
      with that have "i = length new" by simp
      then show ?thesis by simp
    next
      case i: True
      then consider "new ! i \<in> set (pb_succs (bs ! nat b))"
        | j where "i < j" "j < length new" "new ! i \<in> set (pb_succs (bs ! nat (new ! j)))"
        using n(7) by blast
      then show ?thesis
      proof cases
        case 1
        then show ?thesis using i by (intro disjI2 exI [of _ "length new"]) (simp add: nth_append)
      next
        case (2 j)
        then show ?thesis using i by (intro disjI2 exI [of _ j]) (simp add: nth_append)
      qed
    qed
    have "po_grows bs {b} s (fst t, snd t @ [b])" unfolding po_grows_def
    proof (intro exI [of _ ?n] conjI)
      show "\<forall>i<length ?n. ?n ! i \<in> {b} \<or> (\<exists>j. i < j \<and> j < length ?n \<and> ?n ! i \<in> set (pb_succs (bs ! nat (?n ! j))))"
        using par by blast
    qed (use n(1-6) seen1 new_b succs True in \<open>auto simp: s1_def\<close>)
    then show ?thesis using res n(4) seen1 by auto
  qed
qed

section \<open>Reverse postorder\<close>

lemma seen_none [simp]: "seen (replicate n False) = {}"
  by (auto simp: seen_def in_range_def)

lemma in_range_int_length: "in_range xs b \<longleftrightarrow> 0 \<le> b \<and> nat b < length xs"
  by (auto simp: in_range_def)

lemma entry_from_range: "entry_from en i bs = 0 \<or> i \<le> entry_from en i bs \<and> entry_from en i bs < i + int (length bs)"
  by (induction bs arbitrary: i) (fastforce)+

lemma entry_in_range: "pf_blocks f \<noteq> [] \<Longrightarrow> in_range (pf_blocks f) (entry_block f)"
  using entry_from_range [of "pf_entry f" 0 "pf_blocks f"] by (auto simp: entry_block_def in_range_def)

lemma rpo_facts:
  assumes "pf_blocks f \<noteq> []"
  defines "bs \<equiv> pf_blocks f" and "e \<equiv> entry_block f" and "rpo \<equiv> compute_rpo f"
  shows "distinct rpo" and "set rpo = {b. reach bs e b}"
    and "rpo \<noteq> []" and "hd rpo = e"
    and "\<And>i. 0 < i \<Longrightarrow> i < length rpo \<Longrightarrow> \<exists>j < i. rpo ! i \<in> set (pb_succs (bs ! nat (rpo ! j)))"
proof -
  define s0 where "s0 = (replicate (length bs) False, [] :: int list)"
  define s1 where "s1 = po_visit (Suc (length bs)) bs e s0"
  have rpo: "rpo = rev (snd s1)" by (simp add: rpo_def compute_rpo_def Let_def s1_def s0_def bs_def e_def)
  have er: "in_range bs e" using assms by (simp add: entry_in_range)
  have "po_grows bs {e} s0 s1 \<and> (in_range bs e \<longrightarrow> e \<in> seen (fst s1))"
    unfolding s1_def using unvisited_le [of "fst s0"]
    by (intro po_visit_grows) (simp_all add: s0_def)
  then obtain new where n: "snd s1 = new" "distinct new" "seen (fst s1) = set new"
     "\<forall>b \<in> set new. in_range bs b \<and>
        (\<forall>c \<in> set (pb_succs (bs ! nat b)). in_range bs c \<longrightarrow> c \<in> set new)"
     "\<forall>i < length new. new ! i = e \<or>
        (\<exists>j. i < j \<and> j < length new \<and> new ! i \<in> set (pb_succs (bs ! nat (new ! j))))"
     and e: "e \<in> set new"
    using er unfolding po_grows_def by (auto simp: s0_def)
  have rnew: "rpo = rev new" using rpo n(1) by simp
  show "distinct rpo" "rpo \<noteq> []" using n(2) e rnew by auto
  have new_reach: "reach bs e (rev new ! k)" if "k < length new" for k
    using that
  proof (induction k rule: less_induct)
    case (less k)
    let ?i = "length new - Suc k"
    have i: "?i < length new" "rev new ! k = new ! ?i" using less.prems by (auto simp: rev_nth)
    show ?case
    proof (cases "new ! ?i = e")
      case True
      with i er show ?thesis by (simp add: reach_refl)
    next
      case False
      then obtain j where j: "?i < j" "j < length new" "new ! ?i \<in> set (pb_succs (bs ! nat (new ! j)))"
        using n(5) i(1) by blast
      let ?k = "length new - Suc j"
      have "?k < k" "rev new ! ?k = new ! j" using j(1,2) less.prems by (auto simp: rev_nth)
      moreover have "in_range bs (new ! ?i)" using n(4) i(1) by auto
      ultimately show ?thesis
        using less.IH [of ?k] less.prems j(3) i(2) by (auto intro: reach_step)
    qed
  qed
  have "b \<in> set new" if "reach bs e b" for b
    using that
  proof induction
    case reach_refl
    show ?case by (rule e)
  next
    case (reach_step b s)
    with n(4) show ?case by blast
  qed
  moreover have "reach bs e b" if "b \<in> set new" for b
    using that new_reach by (metis in_set_conv_nth length_rev set_rev)
  ultimately show "set rpo = {b. reach bs e b}" using rnew by auto
  have last_e: "last new = e"
  proof -
    let ?l = "length new - 1"
    have "?l < length new" using e by (cases new) auto
    then have "new ! ?l = e" using n(5) [rule_format, of ?l] by auto
    moreover have "new \<noteq> []" using e by auto
    ultimately show ?thesis by (simp add: last_conv_nth)
  qed
  have new_ne: "new \<noteq> []" using e by auto
  show "hd rpo = e" using last_e rnew by (simp add: hd_rev)
  show "\<exists>j < i. rpo ! i \<in> set (pb_succs (bs ! nat (rpo ! j)))" if i: "0 < i" "i < length rpo" for i
  proof -
    let ?m = "length new - Suc i"
    have m: "?m < length new" "rpo ! i = new ! ?m" using i rnew by (auto simp: rev_nth)
    have "new ! ?m \<noteq> new ! (length new - 1)"
      using i rnew n(2) by (simp add: nth_eq_iff_index_eq)
    then have "new ! ?m \<noteq> e" using last_e new_ne by (simp add: last_conv_nth)
    then obtain j where j: "?m < j" "j < length new" "new ! ?m \<in> set (pb_succs (bs ! nat (new ! j)))"
      using n(5) m(1) by blast
    show ?thesis
      by (rule exI [of _ "length new - Suc j"]) (use j i m rnew in \<open>auto simp: rev_nth\<close>)
  qed
qed

text \<open>The index of a block in the reverse postorder, -1 for an unreachable one.\<close>

lemma rpo_index_fold:
  assumes "distinct rpo" "\<forall>b \<in> set rpo. 0 \<le> b \<and> nat b < length ri"
  shows "length (fold (\<lambda>(i, b) ri. ri[nat b := int i]) (enumerate k rpo) ri) = length ri \<and>
    (\<forall>i < length rpo. fold (\<lambda>(i, b) ri. ri[nat b := int i]) (enumerate k rpo) ri ! nat (rpo ! i) = int (k + i)) \<and>
    (\<forall>b. 0 \<le> b \<longrightarrow> b \<notin> set rpo \<longrightarrow>
       fold (\<lambda>(i, b) ri. ri[nat b := int i]) (enumerate k rpo) ri ! nat b = ri ! nat b)"
  using assms
proof (induction rpo arbitrary: k ri)
  case Nil
  then show ?case by simp
next
  case (Cons b rpo)
  let ?F = "fold (\<lambda>(i, b) ri. ri[nat b := int i]) (enumerate (Suc k) rpo) (ri[nat b := int k])"
  have IH: "length ?F = length ri"
    "\<forall>i < length rpo. ?F ! nat (rpo ! i) = int (Suc k + i)"
    "\<forall>c. 0 \<le> c \<longrightarrow> c \<notin> set rpo \<longrightarrow> ?F ! nat c = ri[nat b := int k] ! nat c"
  proof -
    have "distinct rpo" "\<forall>b' \<in> set rpo. 0 \<le> b' \<and> nat b' < length (ri[nat b := int k])"
      using Cons.prems by auto
    from Cons.IH [OF this, of "Suc k"]
    show "length ?F = length ri" "\<forall>i < length rpo. ?F ! nat (rpo ! i) = int (Suc k + i)"
      "\<forall>c. 0 \<le> c \<longrightarrow> c \<notin> set rpo \<longrightarrow> ?F ! nat c = ri[nat b := int k] ! nat c"
      by simp_all
  qed
  have "?F ! nat ((b # rpo) ! i) = int (k + i)" if "i < length (b # rpo)" for i
    using that IH(2,3) Cons.prems by (cases i) auto
  moreover have "?F ! nat c = ri ! nat c" if "0 \<le> c" "c \<notin> set (b # rpo)" for c
    using that IH(3) Cons.prems by (auto simp: eq_nat_nat_iff)
  ultimately show ?case using IH(1) by simp
qed

lemma rpo_index_facts:
  assumes "distinct rpo" "\<forall>b \<in> set rpo. 0 \<le> b \<and> nat b < n"
  shows "length (compute_rpo_index n rpo) = n"
    and "\<And>i. i < length rpo \<Longrightarrow> compute_rpo_index n rpo ! nat (rpo ! i) = int i"
    and "\<And>b. 0 \<le> b \<Longrightarrow> nat b < n \<Longrightarrow> b \<notin> set rpo \<Longrightarrow> compute_rpo_index n rpo ! nat b = -1"
  using rpo_index_fold [of rpo "replicate n (-1)" 0] assms
  by (auto simp: compute_rpo_index_def)

text \<open>
   The reverse postorder is exact: it lists every block reachable from the entry once and no
  other block, starts with the entry, every later block is a successor of an earlier one, and
  \<open>rpo_index\<close> gives the position of each listed block and -1 for every other block.
\<close>

theorem rpo_exact:
  assumes "pf_blocks f \<noteq> []"
  shows "distinct (compute_rpo f) \<and>
    set (compute_rpo f) = {b. reach (pf_blocks f) (entry_block f) b} \<and>
    hd (compute_rpo f) = entry_block f \<and>
    (\<forall>i < length (compute_rpo f). 0 < i \<longrightarrow>
       (\<exists>j < i. compute_rpo f ! i \<in> set (pb_succs (pf_blocks f ! nat (compute_rpo f ! j))))) \<and>
    (\<forall>i < length (compute_rpo f).
       compute_rpo_index (length (pf_blocks f)) (compute_rpo f) ! nat (compute_rpo f ! i) = int i) \<and>
    (\<forall>b < length (pf_blocks f). \<not> reach (pf_blocks f) (entry_block f) (int b) \<longrightarrow>
       compute_rpo_index (length (pf_blocks f)) (compute_rpo f) ! b = -1)"
proof -
  note facts = rpo_facts [OF assms]
  have rng: "\<forall>b \<in> set (compute_rpo f). 0 \<le> b \<and> nat b < length (pf_blocks f)"
    using facts(2) reach_in_range by (auto simp: in_range_int_length)
  note idx = rpo_index_facts [OF facts(1) rng]
  have "compute_rpo_index (length (pf_blocks f)) (compute_rpo f) ! b = -1"
    if "b < length (pf_blocks f)" "\<not> reach (pf_blocks f) (entry_block f) (int b)" for b
    using idx(3) [of "int b"] that facts(2) by simp
  with facts idx(2) show ?thesis by blast
qed

end
