(* ===== verification/Ssa_Dom.thy ===== *)
theory Ssa_Dom
  imports Ssa_Correct
begin

text \<open>
  Soundness of \<open>compute_dominators\<close>: when the iteration stops, the immediate dominator of every
  reachable block lies on every path from the entry to it.  On the way: the walks of
  \<open>intersect\<close> end, its guard is never what stops it, and it returns a common ancestor.
\<close>

section \<open>Numbered dominator trees\<close>

text \<open>\<open>ri\<close> numbers blocks injectively from the entry 0; the tree edges go down in number.\<close>

definition dom_inv :: "int list \<Rightarrow> int \<Rightarrow> int list \<Rightarrow> bool" where
  "dom_inv ri e idom \<longleftrightarrow> length idom = length ri \<and> in_range idom e \<and> ri ! nat e = 0 \<and> idom ! nat e = e \<and>
     (\<forall>b. in_range idom b \<longrightarrow> 0 \<le> idom ! nat b \<longrightarrow>
        0 \<le> ri ! nat b \<and> in_range idom (idom ! nat b) \<and> 0 \<le> idom ! nat (idom ! nat b) \<and>
        (b \<noteq> e \<longrightarrow> ri ! nat (idom ! nat b) < ri ! nat b))"

definition numbering :: "int list \<Rightarrow> bool" where
  "numbering ri \<longleftrightarrow> (\<forall>a b. in_range ri a \<longrightarrow> in_range ri b \<longrightarrow> 0 \<le> ri ! nat a \<longrightarrow>
     ri ! nat a = ri ! nat b \<longrightarrow> a = b) \<and> (\<forall>a. in_range ri a \<longrightarrow> ri ! nat a < int (length ri))"

text \<open>Blocks already in the tree.\<close>

definition placed :: "int list \<Rightarrow> int \<Rightarrow> bool" where
  "placed idom b \<longleftrightarrow> in_range idom b \<and> 0 \<le> idom ! nat b"

inductive anc :: "int list \<Rightarrow> int \<Rightarrow> int \<Rightarrow> bool" for idom :: "int list" where
  anc_self: "placed idom b \<Longrightarrow> anc idom b b"
| anc_up: "placed idom b \<Longrightarrow> anc idom a (idom ! nat b) \<Longrightarrow> anc idom a b"

lemma anc_trans: "anc idom b c \<Longrightarrow> anc idom a b \<Longrightarrow> anc idom a c"
  by (induction rule: anc.induct) (auto intro: anc_up)

lemma anc_placed: "anc idom a b \<Longrightarrow> placed idom a \<and> placed idom b"
  by (induction rule: anc.induct) auto

lemma dom_invD:
  assumes "dom_inv ri e idom" "placed idom b"
  shows "0 \<le> ri ! nat b" "placed idom (idom ! nat b)" "b \<noteq> e \<Longrightarrow> ri ! nat (idom ! nat b) < ri ! nat b"
  using assms by (auto simp: dom_inv_def placed_def)

lemma anc_ri:
  assumes "dom_inv ri e idom"
  shows "anc idom a b \<Longrightarrow> ri ! nat a \<le> ri ! nat b"
proof (induction rule: anc.induct)
  case (anc_self b)
  show ?case by simp
next
  case (anc_up b a)
  have "ri ! nat (idom ! nat b) \<le> ri ! nat b"
    using dom_invD(3) [OF assms anc_up.hyps(1)] assms by (cases "b = e") (auto simp: dom_inv_def)
  with anc_up.IH show ?case by simp
qed

lemma anc_entry:
  assumes "idom ! nat e = e"
  shows "anc idom a b \<Longrightarrow> b = e \<Longrightarrow> a = e"
  by (induction rule: anc.induct) (use assms in auto)

section \<open>The walks\<close>

lemma walk_up_spec:
  assumes inv: "dom_inv ri e idom"
  shows "placed idom x \<Longrightarrow> 0 \<le> lim \<Longrightarrow> nat (ri ! nat x) < fuel \<Longrightarrow>
    \<exists>y. walk_up fuel ri idom x lim = Some y \<and> anc idom y x \<and> ri ! nat y \<le> lim \<and>
      ri ! nat y \<le> ri ! nat x \<and> (lim < ri ! nat x \<longrightarrow> ri ! nat y < ri ! nat x) \<and>
      (ri ! nat x \<le> lim \<longrightarrow> y = x) \<and> (\<forall>z. anc idom z x \<longrightarrow> ri ! nat z \<le> lim \<longrightarrow> anc idom z y)"
proof (induction fuel arbitrary: x)
  case 0
  then show ?case by simp
next
  case (Suc fuel)
  show ?case
  proof (cases "lim < ri ! nat x")
    case False
    then show ?thesis using Suc.prems by (auto intro: anc_self)
  next
    case True
    define x' where "x' = idom ! nat x"
    have "x \<noteq> e" using True Suc.prems inv by (auto simp: dom_inv_def)
    then have lt: "ri ! nat x' < ri ! nat x" and pl: "placed idom x'"
      using dom_invD [OF inv Suc.prems(1)] by (auto simp: x'_def)
    have "0 \<le> ri ! nat x'" using dom_invD(1) [OF inv pl] .
    then obtain y where y: "walk_up fuel ri idom x' lim = Some y" "anc idom y x'" "ri ! nat y \<le> lim"
        "ri ! nat y \<le> ri ! nat x'" "\<forall>z. anc idom z x' \<longrightarrow> ri ! nat z \<le> lim \<longrightarrow> anc idom z y"
      using Suc.IH [of x'] Suc.prems pl lt by (auto simp: nat_less_iff)
    have "0 \<le> x'" using pl by (simp add: placed_def in_range_def)
    then have "walk_up (Suc fuel) ri idom x lim = Some y"
      using True y(1) by (simp add: Let_def x'_def [symmetric])
    moreover have "anc idom y x" using y(2) Suc.prems(1) by (auto simp: x'_def intro: anc_up)
    moreover have "anc idom z y" if "anc idom z x" "ri ! nat z \<le> lim" for z
      using that(1)
    proof (cases rule: anc.cases)
      case anc_self
      then show ?thesis using that(2) True by simp
    next
      case anc_up
      then show ?thesis using that(2) y(5) by (simp add: x'_def)
    qed
    ultimately show ?thesis using y lt True by auto
  qed
qed

lemma intersect_loop_spec:
  assumes inv: "dom_inv ri e idom" and num: "numbering ri" and fuel: "length idom < fuel"
  shows "placed idom a \<Longrightarrow> placed idom b \<Longrightarrow> nat (ri ! nat a) + nat (ri ! nat b) < g \<Longrightarrow>
    \<exists>c. intersect_loop g fuel ri idom a b = Some c \<and> anc idom c a \<and> anc idom c b \<and>
      (\<forall>z. anc idom z a \<longrightarrow> anc idom z b \<longrightarrow> anc idom z c)"
proof (induction g arbitrary: a b)
  case 0
  then show ?case by simp
next
  case (Suc g)
  show ?case
  proof (cases "a = b")
    case True
    then show ?thesis using Suc.prems by (auto intro: anc_self)
  next
    case ne: False
    have len: "length idom = length ri" using inv by (simp add: dom_inv_def)
    have ra: "0 \<le> a" "in_range idom a" "0 \<le> ri ! nat a" and rb: "0 \<le> b" "in_range idom b" "0 \<le> ri ! nat b"
      using Suc.prems dom_invD(1) [OF inv] by (auto simp: placed_def in_range_def)
    have bound: "ri ! nat x < int (length idom)" if "in_range idom x" for x
      using num that len by (auto simp: numbering_def in_range_def)
    have fl: "nat (ri ! nat x) < fuel" if "in_range idom x" for x
      using bound [OF that] fuel by simp
    obtain a' where a': "walk_up fuel ri idom a (ri ! nat b) = Some a'" "anc idom a' a"
        "ri ! nat a' \<le> ri ! nat a" "ri ! nat b < ri ! nat a \<longrightarrow> ri ! nat a' < ri ! nat a"
        "ri ! nat a \<le> ri ! nat b \<longrightarrow> a' = a" "\<forall>z. anc idom z a \<longrightarrow> ri ! nat z \<le> ri ! nat b \<longrightarrow> anc idom z a'"
      using walk_up_spec [OF inv Suc.prems(1) rb(3) fl [OF ra(2)]] by blast
    have pa': "placed idom a'" "0 \<le> a'" "0 \<le> ri ! nat a'"
      using anc_placed [OF a'(2)] dom_invD(1) [OF inv] by (auto simp: placed_def in_range_def)
    obtain b' where b': "walk_up fuel ri idom b (ri ! nat a') = Some b'" "anc idom b' b"
        "ri ! nat b' \<le> ri ! nat b" "ri ! nat a' < ri ! nat b \<longrightarrow> ri ! nat b' < ri ! nat b"
        "\<forall>z. anc idom z b \<longrightarrow> ri ! nat z \<le> ri ! nat a' \<longrightarrow> anc idom z b'"
      using walk_up_spec [OF inv Suc.prems(2) pa'(3) fl [OF rb(2)]] by blast
    have pb': "placed idom b'" "0 \<le> b'" "0 \<le> ri ! nat b'"
      using anc_placed [OF b'(2)] dom_invD(1) [OF inv] by (auto simp: placed_def in_range_def)
    have neq: "ri ! nat a \<noteq> ri ! nat b"
      using ne num ra rb len by (auto simp: numbering_def in_range_def)
    have "nat (ri ! nat a') + nat (ri ! nat b') < nat (ri ! nat a) + nat (ri ! nat b)"
    proof (cases "ri ! nat b < ri ! nat a")
      case True
      then show ?thesis using a' b'(3) pa' pb' by linarith
    next
      case False
      then have "a' = a" "ri ! nat a' < ri ! nat b" using a'(5) neq by auto
      then show ?thesis using b'(4) pb' rb by simp
    qed
    then obtain c where c: "intersect_loop g fuel ri idom a' b' = Some c"
        "anc idom c a'" "anc idom c b'" "\<forall>z. anc idom z a' \<longrightarrow> anc idom z b' \<longrightarrow> anc idom z c"
      using Suc.IH [OF pa'(1) pb'(1)] Suc.prems(3) by auto
    have "intersect_loop (Suc g) fuel ri idom a b = Some c"
      using ne ra rb by (simp add: a'(1) b'(1) c(1)) (use pa' pb' in simp)
    moreover have "anc idom z c" if z: "anc idom z a" "anc idom z b" for z
      using z a'(6) b'(5) c(4) anc_ri [OF inv] by blast
    ultimately show ?thesis using c a'(2) b'(2) by (auto intro: anc_trans)
  qed
qed

lemma intersect_spec:
  assumes "dom_inv ri e idom" "numbering ri" "placed idom a" "placed idom b"
  shows "\<exists>c. intersect ri idom a b = Some c \<and> anc idom c a \<and> anc idom c b \<and>
    (\<forall>z. anc idom z a \<longrightarrow> anc idom z b \<longrightarrow> anc idom z c)"
proof -
  have len: "length idom = length ri" using assms(1) by (simp add: dom_inv_def)
  have "nat (ri ! nat x) < length idom" if "placed idom x" for x
  proof -
    have "in_range ri x" using that len by (simp add: placed_def in_range_def)
    then have "ri ! nat x < int (length ri)" using assms(2) unfolding numbering_def by blast
    then show ?thesis using len dom_invD(1) [OF assms(1) that] by simp
  qed
  then have "nat (ri ! nat a) + nat (ri ! nat b) < 2 * length idom + 8"
    using assms(3,4) by (metis add_strict_mono mult_2 trans_less_add1)
  then show ?thesis
    using intersect_loop_spec [OF assms(1,2) _ assms(3,4)] by (simp add: intersect_def Let_def)
qed

text \<open>The new immediate dominator is the closest common ancestor of the placed predecessors.\<close>

lemma dom_preds_spec:
  assumes inv: "dom_inv ri e idom" and num: "numbering ri"
  shows "acc < 0 \<or> placed idom acc \<Longrightarrow>
    \<exists>r. dom_preds ri idom ps acc = Some r \<and> (r < 0 \<or> placed idom r) \<and>
      (0 \<le> acc \<longrightarrow> anc idom r acc) \<and> (\<forall>p \<in> set ps. placed idom p \<longrightarrow> anc idom r p) \<and>
      (\<forall>z. 0 \<le> r \<longrightarrow> (0 \<le> acc \<longrightarrow> anc idom z acc) \<longrightarrow> (\<forall>p \<in> set ps. placed idom p \<longrightarrow> anc idom z p) \<longrightarrow>
        anc idom z r)"
proof (induction ps arbitrary: acc)
  case Nil
  then show ?case by (auto intro: anc_self)
next
  case (Cons p ps)
  show ?case
  proof (cases "placed idom p")
    case False
    then have "\<not> in_range idom p \<or> idom ! nat p < 0" by (auto simp: placed_def)
    with False Cons show ?thesis by auto
  next
    case pl: True
    then have p: "in_range idom p" "\<not> idom ! nat p < 0" "0 \<le> p"
      by (auto simp: placed_def in_range_def)
    show ?thesis
    proof (cases "acc < 0")
      case True
      with Cons.IH [of p] p pl show ?thesis by auto
    next
      case False
      then have "placed idom acc" using Cons.prems by simp
      then obtain c where c: "intersect ri idom p acc = Some c" "anc idom c p" "anc idom c acc"
          "\<forall>z. anc idom z p \<longrightarrow> anc idom z acc \<longrightarrow> anc idom z c"
        using intersect_spec [OF inv num pl] by blast
      then have "placed idom c" "0 \<le> c" using anc_placed by (auto simp: placed_def in_range_def)
      with Cons.IH [of c] obtain r where r: "dom_preds ri idom ps c = Some r" "r < 0 \<or> placed idom r"
          "anc idom r c" "\<forall>p \<in> set ps. placed idom p \<longrightarrow> anc idom r p"
          "\<forall>z. 0 \<le> r \<longrightarrow> (0 \<le> c \<longrightarrow> anc idom z c) \<longrightarrow> (\<forall>p \<in> set ps. placed idom p \<longrightarrow> anc idom z p) \<longrightarrow> anc idom z r"
        by auto
      have "dom_preds ri idom (p # ps) acc = Some r" using r(1) c(1) False p by simp
      moreover have "anc idom z r"
        if "0 \<le> r" "0 \<le> acc \<longrightarrow> anc idom z acc" "\<forall>q \<in> set (p # ps). placed idom q \<longrightarrow> anc idom z q" for z
        using that r(5) c(4) False pl by simp
      moreover have "\<forall>q \<in> set (p # ps). placed idom q \<longrightarrow> anc idom r q"
        using r(3,4) c(2) by (auto intro: anc_trans)
      moreover have "anc idom r acc" using r(3) c(3) by (auto intro: anc_trans)
      ultimately show ?thesis using r(2) by blast
    qed
  qed
qed

section \<open>The iteration\<close>

text \<open>Every edge between blocks is in the predecessor list of its target.\<close>

definition preds_complete :: "pcode_block list \<Rightarrow> bool" where
  "preds_complete bs \<longleftrightarrow> (\<forall>p < length bs. \<forall>s \<in> set (pb_succs (bs ! p)). in_range bs s \<longrightarrow>
     int p \<in> set (pb_preds (bs ! nat s)))"

lemma preds_completeD:
  "preds_complete bs \<Longrightarrow> in_range bs p \<Longrightarrow> s \<in> set (pb_succs (bs ! nat p)) \<Longrightarrow> in_range bs s \<Longrightarrow>
   p \<in> set (pb_preds (bs ! nat s))"
  unfolding preds_complete_def in_range_def by (metis int_nat_eq nat_less_iff zless_nat_eq_int_zless)

lemma dom_inv_update:
  assumes "dom_inv ri e idom" "in_range idom b" "b \<noteq> e" "placed idom r" "0 \<le> ri ! nat b" "ri ! nat r < ri ! nat b"
  shows "dom_inv ri e (idom[nat b := r])"
proof -
  have r0: "0 \<le> r" and rb: "r \<noteq> b" and n: "nat b < length idom" "0 \<le> b"
    using assms by (auto simp: placed_def in_range_def)
  have upd: "idom[nat b := r] ! nat c = (if c = b then r else idom ! nat c)" if "in_range idom c" for c
    using that n by (auto simp: in_range_def nth_list_update eq_nat_nat_iff)
  have ir: "in_range (idom[nat b := r]) c \<longleftrightarrow> in_range idom c" for c by (simp add: in_range_def)
  have e: "in_range idom e" "ri ! nat e = 0" "idom ! nat e = e" "length idom = length ri"
    using assms(1) by (auto simp: dom_inv_def)
  have "0 \<le> ri ! nat c \<and> in_range idom (idom[nat b := r] ! nat c) \<and>
      0 \<le> idom[nat b := r] ! nat (idom[nat b := r] ! nat c) \<and>
      (c \<noteq> e \<longrightarrow> ri ! nat (idom[nat b := r] ! nat c) < ri ! nat c)"
    if c: "in_range idom c" "0 \<le> idom[nat b := r] ! nat c" for c
  proof (cases "c = b")
    case True
    then show ?thesis using assms r0 rb upd by (auto simp: placed_def)
  next
    case False
    then have "placed idom c" using c upd by (simp add: placed_def)
    then have "0 \<le> ri ! nat c" "placed idom (idom ! nat c)" "c \<noteq> e \<longrightarrow> ri ! nat (idom ! nat c) < ri ! nat c"
      using dom_invD [OF assms(1)] by auto
    then show ?thesis using False c upd r0 by (auto simp: placed_def)
  qed
  then show ?thesis using e upd [OF e(1)] assms(3) by (simp add: dom_inv_def ir)
qed

lemma rpo_numbering:
  assumes "pf_blocks f \<noteq> []"
  defines "n \<equiv> length (pf_blocks f)" and "rpo \<equiv> compute_rpo f"
  shows "numbering (compute_rpo_index n rpo)" "length (compute_rpo_index n rpo) = n"
    "\<And>i. i < length rpo \<Longrightarrow> compute_rpo_index n rpo ! nat (rpo ! i) = int i"
    "\<forall>b \<in> set rpo. in_range (pf_blocks f) b"
proof -
  note facts = rpo_facts [OF assms(1), folded rpo_def]
  show rng: "\<forall>b \<in> set rpo. in_range (pf_blocks f) b" using facts(2) reach_in_range by auto
  then have rng': "\<forall>b \<in> set rpo. 0 \<le> b \<and> nat b < n" by (simp add: n_def in_range_int_length)
  note idx = rpo_index_facts [OF facts(1) rng']
  show "length (compute_rpo_index n rpo) = n" by (rule idx(1))
  show "compute_rpo_index n rpo ! nat (rpo ! i) = int i" if "i < length rpo" for i
    using that by (rule idx(2))
  have "length rpo = card (nat ` set rpo)"
    using facts(1) rng' by (simp add: card_image distinct_card inj_on_def eq_nat_nat_iff)
  also have "\<dots> \<le> card {..<n}" using rng' by (intro card_mono) auto
  finally have len: "length rpo \<le> n" by simp
  have val: "\<exists>i < length rpo. a = rpo ! i \<and> compute_rpo_index n rpo ! nat a = int i"
    if "in_range (compute_rpo_index n rpo) a" "0 \<le> compute_rpo_index n rpo ! nat a" for a
  proof (cases "a \<in> set rpo")
    case True
    then show ?thesis using idx(2) by (auto simp: in_set_conv_nth)
  next
    case False
    have "0 \<le> a" "nat a < n" using that(1) idx(1) by (auto simp: in_range_def)
    then show ?thesis using False that(2) idx(3) [of a] by simp
  qed
  show "numbering (compute_rpo_index n rpo)"
    unfolding numbering_def
  proof (intro conjI allI impI)
    fix a b
    assume "in_range (compute_rpo_index n rpo) a" "in_range (compute_rpo_index n rpo) b"
      "0 \<le> compute_rpo_index n rpo ! nat a"
      "compute_rpo_index n rpo ! nat a = compute_rpo_index n rpo ! nat b"
    then show "a = b" using val [of a] val [of b] by auto
  next
    fix a assume a: "in_range (compute_rpo_index n rpo) a"
    show "compute_rpo_index n rpo ! nat a < int (length (compute_rpo_index n rpo))"
    proof (cases "0 \<le> compute_rpo_index n rpo ! nat a")
      case True
      then show ?thesis using val [OF a] len idx(1) by auto
    qed (use idx(1) in simp)
  qed
qed

text \<open>What \<open>rpo\<close> and its numbering give the iteration, and the state between two rounds.\<close>

definition rpo_ok :: "pcode_block list \<Rightarrow> int \<Rightarrow> int list \<Rightarrow> int list \<Rightarrow> bool" where
  "rpo_ok bs e rpo ri \<longleftrightarrow> numbering ri \<and> length ri = length bs \<and> rpo \<noteq> [] \<and> hd rpo = e \<and>
     (\<forall>i < length rpo. in_range bs (rpo ! i) \<and> ri ! nat (rpo ! i) = int i) \<and>
     (\<forall>i < length rpo. 0 < i \<longrightarrow> (\<exists>j < i. rpo ! i \<in> set (pb_succs (bs ! nat (rpo ! j)))))"

definition round_ok :: "int \<Rightarrow> int list \<Rightarrow> int list \<Rightarrow> nat \<Rightarrow> int list \<Rightarrow> bool" where
  "round_ok e rpo ri k idom \<longleftrightarrow> dom_inv ri e idom \<and> (\<forall>j < k. j < length rpo \<longrightarrow> placed idom (rpo ! j))"

text \<open>One update: block \<open>k\<close> of the reverse postorder.\<close>

lemma dom_update:
  assumes rpo: "rpo_ok bs e rpo ri" and preds: "preds_complete bs"
    and k: "0 < k" "k < length rpo" and ok: "round_ok e rpo ri k idom"
  shows "\<exists>r. dom_preds ri idom (pb_preds (bs ! nat (rpo ! k))) (-1) = Some r \<and> 0 \<le> r \<and>
    (\<forall>p \<in> set (pb_preds (bs ! nat (rpo ! k))). placed idom p \<longrightarrow> anc idom r p) \<and>
    (\<forall>z. (\<forall>p \<in> set (pb_preds (bs ! nat (rpo ! k))). placed idom p \<longrightarrow> anc idom z p) \<longrightarrow> anc idom z r) \<and>
    round_ok e rpo ri (Suc k) (idom[nat (rpo ! k) := r])"
proof -
  let ?b = "rpo ! k"
  have inv: "dom_inv ri e idom" and pl: "\<And>j. j < k \<Longrightarrow> placed idom (rpo ! j)"
    using ok k by (auto simp: round_ok_def)
  have num: "numbering ri" and len: "length ri = length bs" "length idom = length ri"
    and idx: "\<And>i. i < length rpo \<Longrightarrow> in_range bs (rpo ! i) \<and> ri ! nat (rpo ! i) = int i"
    using rpo inv by (auto simp: rpo_ok_def dom_inv_def)
  obtain j where j: "j < k" "?b \<in> set (pb_succs (bs ! nat (rpo ! j)))"
    using rpo k by (auto simp: rpo_ok_def)
  have q: "rpo ! j \<in> set (pb_preds (bs ! nat ?b))"
    using preds_completeD [OF preds _ j(2)] idx [of j] idx [of k] j k by simp
  obtain r where r: "dom_preds ri idom (pb_preds (bs ! nat ?b)) (-1) = Some r" "r < 0 \<or> placed idom r"
      "\<forall>p \<in> set (pb_preds (bs ! nat ?b)). placed idom p \<longrightarrow> anc idom r p"
      "\<forall>z. 0 \<le> r \<longrightarrow> (\<forall>p \<in> set (pb_preds (bs ! nat ?b)). placed idom p \<longrightarrow> anc idom z p) \<longrightarrow> anc idom z r"
    using dom_preds_spec [OF inv num, of "-1" "pb_preds (bs ! nat ?b)"] by auto
  have a: "anc idom r (rpo ! j)" using r(3) q pl [OF j(1)] by blast
  then have r0: "0 \<le> r" "placed idom r" using anc_placed by (auto simp: placed_def in_range_def)
  have lt: "ri ! nat r < ri ! nat ?b"
    using anc_ri [OF inv a] idx [of j] idx [of k] j k by simp
  have "rpo ! 0 = e" using rpo by (auto simp: rpo_ok_def hd_conv_nth)
  moreover have "ri ! nat (rpo ! 0) = 0" using idx [of 0] k by fastforce
  ultimately have be: "?b \<noteq> e" using idx [of k] k by auto
  have rb: "in_range idom ?b" using idx [of k] k len by (simp add: in_range_def)
  have inv': "dom_inv ri e (idom[nat ?b := r])"
    using idx [of k] k by (intro dom_inv_update [OF inv rb be r0(2) _ lt]) simp
  have "placed (idom[nat ?b := r]) (rpo ! i)" if "i < Suc k" for i
  proof (cases "i = k")
    case True
    moreover have "nat ?b < length idom" using rb by (auto simp: in_range_def)
    ultimately show ?thesis using rb r0 by (simp add: placed_def in_range_def)
  next
    case False
    then have "i < k" using that by simp
    then have "placed idom (rpo ! i)" by (rule pl)
    moreover have "nat (rpo ! i) \<noteq> nat ?b"
      using idx [of i] idx [of k] \<open>i < k\<close> k by (auto simp: in_range_def)
    ultimately show ?thesis by (simp add: placed_def in_range_def)
  qed
  then show ?thesis using r r0 inv' by (auto simp: round_ok_def)
qed

lemma dom_round_spec:
  assumes rpo: "rpo_ok bs e rpo ri" and preds: "preds_complete bs"
  shows "0 < k \<Longrightarrow> round_ok e rpo ri k (fst s) \<Longrightarrow>
    \<exists>s'. dom_round bs ri (drop k rpo) s = Some s' \<and> round_ok e rpo ri (length rpo) (fst s') \<and>
      (snd s \<longrightarrow> snd s') \<and>
      (\<not> snd s' \<longrightarrow> fst s' = fst s \<and> (\<forall>b \<in> set (drop k rpo). \<forall>p \<in> set (pb_preds (bs ! nat b)).
          placed (fst s) p \<longrightarrow> anc (fst s) (fst s ! nat b) p))"
proof (induction "length rpo - k" arbitrary: k s)
  case 0
  then have "length rpo \<le> k" by simp
  with 0 show ?case by (simp add: round_ok_def)
next
  case (Suc d)
  have k: "k < length rpo" using Suc.hyps(2) by simp
  define b where "b = rpo ! k"
  have dr: "drop k rpo = b # drop (Suc k) rpo" using k by (simp add: b_def Cons_nth_drop_Suc)
  obtain r where r: "dom_preds ri (fst s) (pb_preds (bs ! nat b)) (-1) = Some r" "0 \<le> r"
      "\<forall>p \<in> set (pb_preds (bs ! nat b)). placed (fst s) p \<longrightarrow> anc (fst s) r p"
      "round_ok e rpo ri (Suc k) ((fst s)[nat b := r])"
    using dom_update [OF rpo preds Suc.prems(1) k Suc.prems(2)] unfolding b_def by blast
  define t where "t = (if fst s ! nat b \<noteq> r then ((fst s)[nat b := r], True) else s)"
  have ft: "fst t = (fst s)[nat b := r]" by (auto simp: t_def)
  have step: "dom_round bs ri (drop k rpo) s = dom_round bs ri (drop (Suc k) rpo) t"
    using r(1,2) by (simp add: dr t_def)
  obtain s' where s': "dom_round bs ri (drop (Suc k) rpo) t = Some s'"
      "round_ok e rpo ri (length rpo) (fst s')" "snd t \<longrightarrow> snd s'"
      "\<not> snd s' \<longrightarrow> fst s' = fst t \<and> (\<forall>b \<in> set (drop (Suc k) rpo). \<forall>p \<in> set (pb_preds (bs ! nat b)).
          placed (fst t) p \<longrightarrow> anc (fst t) (fst t ! nat b) p)"
  proof -
    have "d = length rpo - Suc k" "0 < Suc k" "round_ok e rpo ri (Suc k) (fst t)"
      using Suc.hyps(2) r(4) ft by simp_all
    from Suc.hyps(1) [OF this] show ?thesis using that by blast
  qed
  have "\<not> snd s' \<Longrightarrow> t = s \<and> fst s ! nat b = r"
    using s'(3) by (auto simp: t_def split: if_splits)
  then have "\<not> snd s' \<longrightarrow> fst s' = fst s \<and> (\<forall>b \<in> set (drop k rpo). \<forall>p \<in> set (pb_preds (bs ! nat b)).
          placed (fst s) p \<longrightarrow> anc (fst s) (fst s ! nat b) p)"
    using s'(4) r(3) unfolding dr by auto
  moreover have "snd s \<longrightarrow> snd s'" using s'(3) by (auto simp: t_def split: if_splits)
  ultimately show ?case using s'(1,2) step by auto
qed

text \<open>The loop, where it returns, returns a tree that a further round would not change.\<close>

lemma dom_loop_spec:
  assumes rpo: "rpo_ok bs e rpo ri" and preds: "preds_complete bs"
    and ret: "dom_loop bs ri (tl rpo) idom0 = Some idom" and start: "round_ok e rpo ri 1 idom0"
  shows "round_ok e rpo ri (length rpo) idom \<and>
    (\<forall>b \<in> set (tl rpo). \<forall>p \<in> set (pb_preds (bs ! nat b)). placed idom p \<longrightarrow> anc idom (idom ! nat b) p)"
proof -
  let ?P = "\<lambda>idom. round_ok e rpo ri (length rpo) idom \<and>
    (\<forall>b \<in> set (tl rpo). \<forall>p \<in> set (pb_preds (bs ! nat b)). placed idom p \<longrightarrow> anc idom (idom ! nat b) p)"
  have d1: "drop 1 rpo = tl rpo" by (simp add: drop_Suc)
  have "bs = bs \<longrightarrow> ri = ri \<longrightarrow> tl rpo = tl rpo \<longrightarrow> round_ok e rpo ri 1 idom0 \<longrightarrow> ?P idom"
  proof (rule dom_loop.raw_induct [OF _ ret, where P = "\<lambda>bs' ri' order idom0 idom.
        bs' = bs \<longrightarrow> ri' = ri \<longrightarrow> order = tl rpo \<longrightarrow> round_ok e rpo ri 1 idom0 \<longrightarrow> ?P idom"], intro impI)
    fix rec bs' ri' order idom0 idom
    assume IH: "\<And>bs' ri' order idom0 idom. rec bs' ri' order idom0 = Some idom \<Longrightarrow>
          bs' = bs \<longrightarrow> ri' = ri \<longrightarrow> order = tl rpo \<longrightarrow> round_ok e rpo ri 1 idom0 \<longrightarrow> ?P idom"
      and eq: "(case dom_round bs' ri' order (idom0, False) of None \<Rightarrow> None
          | Some s \<Rightarrow> if snd s then rec bs' ri' order (fst s) else Some (fst s)) = Some idom"
      and args: "bs' = bs" "ri' = ri" "order = tl rpo" and ok: "round_ok e rpo ri 1 idom0"
    obtain s' where s': "dom_round bs ri (drop 1 rpo) (idom0, False) = Some s'"
        "round_ok e rpo ri (length rpo) (fst s')"
        "\<not> snd s' \<longrightarrow> fst s' = idom0 \<and> (\<forall>b \<in> set (drop 1 rpo). \<forall>p \<in> set (pb_preds (bs ! nat b)).
            placed idom0 p \<longrightarrow> anc idom0 (idom0 ! nat b) p)"
      using dom_round_spec [OF rpo preds, of 1 "(idom0, False)"] ok by auto
    show "?P idom"
    proof (cases "snd s'")
      case True
      then have "rec bs ri (tl rpo) (fst s') = Some idom" using eq args s'(1) d1 by simp
      moreover have "round_ok e rpo ri 1 (fst s')"
        using s'(2) rpo by (auto simp: round_ok_def rpo_ok_def neq_Nil_conv)
      ultimately show ?thesis using IH by blast
    next
      case False
      then have "idom = idom0" "fst s' = idom0" using eq args s'(1,3) d1 by auto
      then show ?thesis using False s'(2,3) d1 by simp
    qed
  qed
  with start show ?thesis by simp
qed

section \<open>Paths and dominance\<close>

text \<open>Paths from the entry, newest block first.\<close>

inductive path_from :: "pcode_block list \<Rightarrow> int \<Rightarrow> int list \<Rightarrow> bool" for bs :: "pcode_block list" and e :: int where
  path_entry: "in_range bs e \<Longrightarrow> path_from bs e [e]"
| path_edge: "path_from bs e (b # xs) \<Longrightarrow> s \<in> set (pb_succs (bs ! nat b)) \<Longrightarrow> in_range bs s \<Longrightarrow>
    path_from bs e (s # b # xs)"

definition dominates :: "pcode_block list \<Rightarrow> int \<Rightarrow> int \<Rightarrow> int \<Rightarrow> bool" where
  "dominates bs e d b \<longleftrightarrow> (\<forall>xs. path_from bs e (b # xs) \<longrightarrow> d \<in> set (b # xs))"

lemma path_reach: "path_from bs e ys \<Longrightarrow> reach bs e (hd ys)"
  by (induction rule: path_from.induct) (auto intro: reach.intros)

lemma anc_on_path:
  assumes "rpo_ok bs e rpo ri" "preds_complete bs" "round_ok e rpo ri (length rpo) idom"
    and rset: "set rpo = {b. reach bs e b}"
    and fix_point: "\<forall>b \<in> set (tl rpo). \<forall>p \<in> set (pb_preds (bs ! nat b)). placed idom p \<longrightarrow> anc idom (idom ! nat b) p"
  shows "path_from bs e ys \<Longrightarrow> anc idom a (hd ys) \<Longrightarrow> a \<in> set ys"
proof (induction arbitrary: a rule: path_from.induct)
  case path_entry
  have "idom ! nat e = e" using assms(3) by (simp add: round_ok_def dom_inv_def)
  with path_entry show ?case by (auto dest: anc_entry)
next
  case (path_edge b xs s)
  have rb: "reach bs e b" using path_reach [OF path_edge.hyps(1)] by simp
  have pl: "placed idom c" if "c \<in> set rpo" for c
    using that assms(3) by (auto simp: round_ok_def in_set_conv_nth)
  have s: "s \<in> set rpo" using rb path_edge.hyps rset by (auto intro: reach_step)
  have e: "idom ! nat e = e" using assms(3) by (simp add: round_ok_def dom_inv_def)
  have "anc idom a s" using path_edge.prems by simp
  then show ?case
  proof (cases rule: anc.cases)
    case anc_self
    then show ?thesis by simp
  next
    case anc_up
    show ?thesis
    proof (cases "s = e")
      case True
      then show ?thesis using anc_entry [OF e \<open>anc idom a s\<close>] by simp
    next
      case False
      then have "s \<in> set (tl rpo)" using s assms(1) by (cases rpo) (auto simp: rpo_ok_def)
      moreover have "b \<in> set (pb_preds (bs ! nat s))"
        using assms(2) reach_in_range [OF rb] path_edge.hyps by (auto dest: preds_completeD)
      ultimately have "anc idom (idom ! nat s) b" using fix_point pl rb rset by blast
      then have "anc idom a b" using anc_up(2) by (rule anc_trans)
      then show ?thesis using path_edge.IH [of a] by simp
    qed
  qed
qed

lemma rpo_ok_rpo:
  assumes "pf_blocks f \<noteq> []"
  shows "rpo_ok (pf_blocks f) (entry_block f) (compute_rpo f)
    (compute_rpo_index (length (pf_blocks f)) (compute_rpo f))"
  unfolding rpo_ok_def
proof (intro conjI allI impI)
  fix i assume i: "i < length (compute_rpo f)"
  then show "in_range (pf_blocks f) (compute_rpo f ! i)" using rpo_numbering(4) [OF assms] by simp
  show "compute_rpo_index (length (pf_blocks f)) (compute_rpo f) ! nat (compute_rpo f ! i) = int i"
    using i by (rule rpo_numbering(3) [OF assms])
  show "\<exists>j<i. compute_rpo f ! i \<in> set (pb_succs (pf_blocks f ! nat (compute_rpo f ! j)))" if "0 < i"
    using that i by (rule rpo_facts(5) [OF assms])
qed (use rpo_facts [OF assms] rpo_numbering [OF assms] in simp_all)

lemma round_ok_start:
  assumes rpo: "rpo_ok bs e rpo ri"
  shows "round_ok e rpo ri 1 ((replicate (length bs) (-1))[nat e := e])"
proof -
  have hd: "rpo ! 0 = e" "in_range bs e" "ri ! nat e = 0" "length ri = length bs"
    using rpo by (fastforce simp: rpo_ok_def hd_conv_nth)+
  then have e: "nat e < length bs" "0 \<le> e" by (auto simp: in_range_def)
  let ?t = "(replicate (length bs) (-1))[nat e := e]"
  have val: "?t ! nat b = (if b = e then e else -1)" if "in_range ?t b" for b
    using that e by (auto simp: in_range_def nth_list_update eq_nat_nat_iff)
  have "dom_inv ri e ?t"
    unfolding dom_inv_def using hd e val by (auto simp: in_range_def split: if_splits)
  moreover have "placed ?t e" using e by (simp add: placed_def in_range_def)
  ultimately show ?thesis using hd by (simp add: round_ok_def)
qed

lemma idom_dominates:
  assumes "pf_blocks f \<noteq> []" and "preds_complete (pf_blocks f)"
    and "compute_idom f = Some idom" and "reach (pf_blocks f) (entry_block f) b"
  shows "0 \<le> idom ! nat b \<and> dominates (pf_blocks f) (entry_block f) (idom ! nat b) b \<and>
    (b \<noteq> entry_block f \<longrightarrow> idom ! nat b \<noteq> b)"
proof -
  define bs e rpo ri where defs: "bs = pf_blocks f" "e = entry_block f" "rpo = compute_rpo f"
    "ri = compute_rpo_index (length (pf_blocks f)) (compute_rpo f)"
  have rpo: "rpo_ok bs e rpo ri" unfolding defs by (rule rpo_ok_rpo [OF assms(1)])
  have preds: "preds_complete bs" unfolding defs by (rule assms(2))
  have "dom_loop bs ri (tl rpo) ((replicate (length bs) (-1))[nat e := e]) = Some idom"
    using assms(3) by (simp add: compute_idom_def Let_def defs)
  from dom_loop_spec [OF rpo preds this round_ok_start [OF rpo]]
  have fp: "round_ok e rpo ri (length rpo) idom"
    "\<forall>b \<in> set (tl rpo). \<forall>p \<in> set (pb_preds (bs ! nat b)). placed idom p \<longrightarrow> anc idom (idom ! nat b) p"
    by auto
  have rset: "set rpo = {b. reach bs e b}" using rpo_facts [OF assms(1)] by (simp add: defs)
  then have "b \<in> set rpo" using assms(4) by (simp add: defs)
  then have pb: "placed idom b" using fp(1) by (auto simp: round_ok_def in_set_conv_nth)
  have inv: "dom_inv ri e idom" using fp(1) by (simp add: round_ok_def)
  have "anc idom (idom ! nat b) b" using dom_invD(2) [OF inv pb] pb by (auto intro: anc.intros)
  then have "dominates bs e (idom ! nat b) b"
    unfolding dominates_def using anc_on_path [OF rpo preds fp(1) rset fp(2)] by fastforce
  moreover have "b \<noteq> e \<longrightarrow> idom ! nat b \<noteq> b" using dom_invD(3) [OF inv pb] by auto
  ultimately show ?thesis using pb by (simp add: placed_def defs)
qed

end
