(* ===== verification/Ssa_Dom_Exact.thy ===== *)
theory Ssa_Dom_Exact
  imports Ssa_Dom
begin

text \<open>
  \<open>compute_dominators\<close> ends on every graph and computes exactly the dominators.  The tree is changed
  in place, so a change at one block changes the ancestors of all blocks below it; the invariant
  below shows that a block only ever moves up to an ancestor of its former parent, which bounds the
  number of rounds, and that no dominator is lost on the way.
\<close>

section \<open>The invariant of the iteration\<close>

text \<open>Forward edges between reachable blocks, along which the numbers grow.\<close>

definition fwd :: "pcode_block list \<Rightarrow> int list \<Rightarrow> int list \<Rightarrow> int \<Rightarrow> int \<Rightarrow> bool" where
  "fwd bs rpo ri u v \<longleftrightarrow> u \<in> set rpo \<and> v \<in> set rpo \<and> v \<in> set (pb_succs (bs ! nat u)) \<and> ri ! nat u < ri ! nat v"

definition parents_low :: "pcode_block list \<Rightarrow> int \<Rightarrow> int list \<Rightarrow> int list \<Rightarrow> bool" where
  "parents_low bs e ri idom \<longleftrightarrow> (\<forall>b a. placed idom b \<longrightarrow> b \<noteq> e \<longrightarrow>
     (\<forall>p \<in> set (pb_preds (bs ! nat b)). placed idom p \<longrightarrow> anc idom a p) \<longrightarrow> ri ! nat a \<le> ri ! nat (idom ! nat b))"

definition parents_reach :: "pcode_block list \<Rightarrow> int \<Rightarrow> int list \<Rightarrow> int list \<Rightarrow> int list \<Rightarrow> bool" where
  "parents_reach bs e rpo ri idom \<longleftrightarrow>
     (\<forall>b. placed idom b \<longrightarrow> b \<in> set rpo \<and> (b \<noteq> e \<longrightarrow> (fwd bs rpo ri)\<^sup>*\<^sup>* (idom ! nat b) b))"

definition round_closed :: "pcode_block list \<Rightarrow> int list \<Rightarrow> int list \<Rightarrow> nat \<Rightarrow> int list \<Rightarrow> bool" where
  "round_closed bs rpo ri k idom \<longleftrightarrow> (\<forall>j < k. \<forall>u. 0 < j \<longrightarrow> j < length rpo \<longrightarrow> fwd bs rpo ri u (rpo ! j) \<longrightarrow>
     anc idom (idom ! nat (rpo ! j)) u)"

definition dominators_kept :: "pcode_block list \<Rightarrow> int \<Rightarrow> int list \<Rightarrow> bool" where
  "dominators_kept bs e idom \<longleftrightarrow> (\<forall>b d. placed idom b \<longrightarrow> dominates bs e d b \<longrightarrow> anc idom d b)"

text \<open>Every entry of a predecessor list is an edge.\<close>

definition preds_sound :: "pcode_block list \<Rightarrow> bool" where
  "preds_sound bs \<longleftrightarrow> (\<forall>b < length bs. \<forall>p \<in> set (pb_preds (bs ! b)). in_range bs p \<and>
     int b \<in> set (pb_succs (bs ! nat p)))"

definition iter_ok :: "pcode_block list \<Rightarrow> int \<Rightarrow> int list \<Rightarrow> int list \<Rightarrow> nat \<Rightarrow> int list \<Rightarrow> bool" where
  "iter_ok bs e rpo ri k idom \<longleftrightarrow> round_ok e rpo ri k idom \<and> parents_low bs e ri idom \<and>
     parents_reach bs e rpo ri idom \<and> round_closed bs rpo ri k idom \<and> (preds_sound bs \<longrightarrow> dominators_kept bs e idom)"

lemma iter_okD:
  assumes "iter_ok bs e rpo ri k idom"
  shows "round_ok e rpo ri k idom" "dom_inv ri e idom" "parents_low bs e ri idom" "parents_reach bs e rpo ri idom"
    "round_closed bs rpo ri k idom" "preds_sound bs \<Longrightarrow> dominators_kept bs e idom"
  using assms by (auto simp: iter_ok_def round_ok_def)

lemma fwd_path_ri: "(fwd bs rpo ri)\<^sup>*\<^sup>* u v \<Longrightarrow> ri ! nat u \<le> ri ! nat v"
  by (induction rule: rtranclp_induct) (auto simp: fwd_def)

lemma anc_fwd_path:
  assumes "parents_reach bs e rpo ri idom" "idom ! nat e = e"
  shows "anc idom a b \<Longrightarrow> (fwd bs rpo ri)\<^sup>*\<^sup>* a b"
proof (induction rule: anc.induct)
  case (anc_up b a)
  show ?case
  proof (cases "b = e")
    case True
    with anc_up assms(2) show ?thesis by simp
  next
    case False
    then have "(fwd bs rpo ri)\<^sup>*\<^sup>* (idom ! nat b) b" using assms(1) anc_up.hyps(1) by (simp add: parents_reach_def)
    with anc_up.IH show ?thesis by simp
  qed
qed simp

section \<open>Dominators and forward paths\<close>

text \<open>A path of forward edges extends a path of the graph by blocks of larger number.\<close>

lemma path_append_fwd:
  assumes "(fwd bs rpo ri)\<^sup>*\<^sup>* u v" "path_from bs e (u # xs)" "\<forall>b \<in> set rpo. in_range bs b"
  shows "\<exists>ys. path_from bs e (v # ys @ xs) \<and> (\<forall>y \<in> set (v # ys). y = u \<or> ri ! nat u < ri ! nat y)"
  using assms(1)
proof (induction rule: rtranclp_induct)
  case base
  show ?case by (rule exI [of _ "[]"]) (use assms(2) in simp)
next
  case (step y z)
  then obtain ys where ys: "path_from bs e (y # ys @ xs)" "\<forall>b \<in> set (y # ys). b = u \<or> ri ! nat u < ri ! nat b"
    by blast
  have "path_from bs e (z # (y # ys) @ xs)"
    using path_edge [OF ys(1)] step.hyps(2) assms(3) by (simp add: fwd_def)
  moreover have "ri ! nat u < ri ! nat z"
    using fwd_path_ri [OF step.hyps(1)] step.hyps(2) by (simp add: fwd_def)
  ultimately show ?case using ys(2) by (intro exI [of _ "y # ys"]) simp
qed

lemma dominates_fwd:
  assumes "dominates bs e d x" "(fwd bs rpo ri)\<^sup>*\<^sup>* b x" "ri ! nat d < ri ! nat b" "\<forall>b \<in> set rpo. in_range bs b"
  shows "dominates bs e d b"
  unfolding dominates_def
proof (intro allI impI)
  fix xs assume "path_from bs e (b # xs)"
  then obtain ys where ys: "path_from bs e (x # ys @ xs)" "\<forall>y \<in> set (x # ys). y = b \<or> ri ! nat b < ri ! nat y"
    using path_append_fwd [OF assms(2) _ assms(4)] by blast
  have "d \<in> set (x # ys @ xs)" using assms(1) ys(1) unfolding dominates_def by blast
  moreover have "d \<notin> set (x # ys)" using ys(2) assms(3) by force
  ultimately show "d \<in> set (b # xs)" by auto
qed

lemma dominates_pred:
  assumes "dominates bs e d b" "d \<noteq> b" "b \<in> set (pb_succs (bs ! nat p))" "in_range bs b"
  shows "dominates bs e d p"
  unfolding dominates_def
proof (intro allI impI)
  fix xs assume "path_from bs e (p # xs)"
  then have "path_from bs e (b # p # xs)" using assms(3,4) by (rule path_edge)
  then show "d \<in> set (p # xs)" using assms(1,2) unfolding dominates_def by fastforce
qed

section \<open>One update\<close>

lemma rpo_okD:
  assumes "rpo_ok bs e rpo ri" "i < length rpo"
  shows "in_range bs (rpo ! i)" "ri ! nat (rpo ! i) = int i"
  using assms by (simp_all add: rpo_ok_def)

lemma rpo_nth_of:
  assumes "rpo_ok bs e rpo ri" "v \<in> set rpo"
  shows "nat (ri ! nat v) < length rpo" "rpo ! nat (ri ! nat v) = v" "int (nat (ri ! nat v)) = ri ! nat v"
  using assms by (auto simp: rpo_ok_def in_set_conv_nth)

text \<open>Along forward edges inside the part of the round that is done, ancestors of small number persist.\<close>

lemma anc_back_fwd:
  assumes rpo: "rpo_ok bs e rpo ri" and closed: "round_closed bs rpo ri k idom"
  shows "(fwd bs rpo ri)\<^sup>*\<^sup>* o' x \<Longrightarrow> ri ! nat x < int k \<Longrightarrow> anc idom a x \<Longrightarrow> ri ! nat a \<le> ri ! nat o' \<Longrightarrow> anc idom a o'"
proof (induction arbitrary: a rule: rtranclp_induct)
  case (step y z)
  have z: "z \<in> set rpo" "ri ! nat y < ri ! nat z" "y \<in> set rpo" using step.hyps(2) by (auto simp: fwd_def)
  define j where "j = nat (ri ! nat z)"
  have j: "j < length rpo" "rpo ! j = z" unfolding j_def by (rule rpo_nth_of [OF rpo z(1)])+
  have ri0: "0 \<le> ri ! nat y" using rpo z(3) by (auto simp: rpo_ok_def in_set_conv_nth)
  then have "0 < j" "j < k" using z(2) step.prems(1) by (auto simp: j_def)
  then have up: "anc idom (idom ! nat z) y"
    using closed step.hyps(2) j unfolding round_closed_def by blast
  have "ri ! nat o' < ri ! nat z" using fwd_path_ri [OF step.hyps(1)] z(2) by simp
  then have "a \<noteq> z" using step.prems(3) by auto
  with step.prems(2) have "anc idom a (idom ! nat z)" by (auto elim: anc.cases)
  with up have "anc idom a y" by (rule anc_trans)
  then show ?case using step.IH step.prems z(2) by simp
qed simp

text \<open>The new parent is an ancestor of the old one.\<close>

lemma parent_moves_up:
  assumes rpo: "rpo_ok bs e rpo ri" and preds: "preds_complete bs" and ok: "iter_ok bs e rpo ri k idom"
    and k: "k < length rpo" and b: "placed idom (rpo ! k)" "rpo ! k \<noteq> e"
    and r: "\<forall>p \<in> set (pb_preds (bs ! nat (rpo ! k))). placed idom p \<longrightarrow> anc idom r p"
  shows "anc idom r (idom ! nat (rpo ! k))"
proof -
  let ?b = "rpo ! k"
  let ?o = "idom ! nat ?b"
  have low: "ri ! nat r \<le> ri ! nat ?o" using iter_okD(3) [OF ok] b r by (simp add: parents_low_def)
  have path: "(fwd bs rpo ri)\<^sup>*\<^sup>* ?o ?b" using iter_okD(4) [OF ok] b by (simp add: parents_reach_def)
  have "?o \<noteq> ?b" using dom_invD(3) [OF iter_okD(2) [OF ok] b(1)] b(2) by auto
  with path obtain p where p: "(fwd bs rpo ri)\<^sup>*\<^sup>* ?o p" "fwd bs rpo ri p ?b" by (metis rtranclp.cases)
  define j where "j = nat (ri ! nat p)"
  have "p \<in> set rpo" using p(2) by (simp add: fwd_def)
  then have j: "j < length rpo" "rpo ! j = p" "ri ! nat p = int j"
    using rpo_nth_of [OF rpo] unfolding j_def by auto
  have jk: "j < k" using p(2) j rpo_okD(2) [OF rpo k] by (simp add: fwd_def)
  have "p \<in> set (pb_preds (bs ! nat ?b))"
    using preds_completeD [OF preds, of p ?b] rpo_okD(1) [OF rpo] j k p(2) by (auto simp: fwd_def)
  moreover have "placed idom p" using iter_okD(1) [OF ok] jk j by (auto simp: round_ok_def)
  ultimately have "anc idom r p" using r by blast
  then show ?thesis
    using anc_back_fwd [OF rpo iter_okD(5) [OF ok] p(1)] jk j(3) low by simp
qed

text \<open>Ancestors in the tree after an update.\<close>

lemma update_nth:
  assumes "in_range idom b" "in_range idom c"
  shows "idom[nat b := r] ! nat c = (if c = b then r else idom ! nat c)"
  using assms by (auto simp: in_range_def nth_list_update eq_nat_nat_iff)

lemma anc_shrink:
  assumes up: "placed idom b \<Longrightarrow> anc idom r (idom ! nat b)" and b: "in_range idom b"
    and inv: "dom_inv ri e idom"
  shows "anc (idom[nat b := r]) a x \<Longrightarrow> placed idom x \<Longrightarrow> anc idom a x"
proof (induction rule: anc.induct)
  case (anc_self x)
  then show ?case by (simp add: anc.anc_self)
next
  case (anc_up x a)
  have nx: "idom[nat b := r] ! nat x = (if x = b then r else idom ! nat x)"
    using update_nth [OF b, of x] anc_up.prems by (simp add: placed_def)
  show ?case
  proof (cases "x = b")
    case True
    then have o: "anc idom r (idom ! nat x)" using up anc_up.prems by simp
    have "anc idom a r" using anc_up.IH nx True anc_placed [OF o] by simp
    with o have "anc idom a (idom ! nat x)" by (rule anc_trans)
    then show ?thesis using anc_up.prems by (rule anc.anc_up [rotated])
  next
    case False
    then have "anc idom a (idom ! nat x)" using anc_up.IH nx dom_invD(2) [OF inv anc_up.prems] by simp
    then show ?thesis using anc_up.prems by (rule anc.anc_up [rotated])
  qed
qed

lemma placed_update: "0 \<le> r \<Longrightarrow> placed idom x \<Longrightarrow> placed (idom[nat b := r]) x"
  by (cases "nat x = nat b") (auto simp: placed_def in_range_def)

lemma anc_low:
  assumes b: "in_range idom b" and inv: "dom_inv ri e idom" and r: "0 \<le> r"
  shows "anc idom a x \<Longrightarrow> ri ! nat x < ri ! nat b \<Longrightarrow> anc (idom[nat b := r]) a x"
proof (induction rule: anc.induct)
  case (anc_self x)
  then show ?case using r by (simp add: anc.anc_self placed_update)
next
  case (anc_up x a)
  have "ri ! nat (idom ! nat x) \<le> ri ! nat x"
    using dom_invD(3) [OF inv anc_up.hyps(1)] inv by (cases "x = e") (auto simp: dom_inv_def)
  then have "anc (idom[nat b := r]) a (idom ! nat x)" using anc_up.IH anc_up.prems by simp
  moreover have "idom[nat b := r] ! nat x = idom ! nat x"
    using update_nth [OF b, of x] anc_up by (auto simp: placed_def)
  ultimately show ?case using anc_up.hyps(1) r by (simp add: anc.anc_up placed_update)
qed

section \<open>The invariant is kept\<close>

lemma iter_step:
  assumes rpo: "rpo_ok bs e rpo ri" and preds: "preds_complete bs" and rset: "set rpo = {b. reach bs e b}"
    and ok: "iter_ok bs e rpo ri k idom" and k: "0 < k" "k < length rpo"
    and r: "\<forall>p \<in> set (pb_preds (bs ! nat (rpo ! k))). placed idom p \<longrightarrow> anc idom r p"
    and great: "\<forall>z. (\<forall>p \<in> set (pb_preds (bs ! nat (rpo ! k))). placed idom p \<longrightarrow> anc idom z p) \<longrightarrow> anc idom z r"
    and next_ok: "round_ok e rpo ri (Suc k) (idom[nat (rpo ! k) := r])"
  shows "iter_ok bs e rpo ri (Suc k) (idom[nat (rpo ! k) := r])"
proof -
  let ?b = "rpo ! k"
  let ?t = "idom[nat ?b := r]"
  note inv = iter_okD(2) [OF ok]
  have len: "length idom = length bs" using inv rpo by (simp add: dom_inv_def rpo_ok_def)
  have rb: "in_range idom ?b" and ib: "ri ! nat ?b = int k"
    using rpo_okD [OF rpo k(2)] len by (simp_all add: in_range_def)
  have be: "?b \<noteq> e" using ib inv k by (auto simp: dom_inv_def)
  have ie: "idom ! nat e = e" "in_range idom e" using inv by (auto simp: dom_inv_def)
  obtain j where j: "j < k" "?b \<in> set (pb_succs (bs ! nat (rpo ! j)))"
    using rpo k by (auto simp: rpo_ok_def)
  have q: "placed idom (rpo ! j)" "anc idom r (rpo ! j)" "fwd bs rpo ri (rpo ! j) ?b"
  proof -
    show pj: "placed idom (rpo ! j)" using iter_okD(1) [OF ok] j k by (simp add: round_ok_def)
    have "rpo ! j \<in> set (pb_preds (bs ! nat ?b))"
      using preds_completeD [OF preds _ j(2)] rpo_okD(1) [OF rpo] j k by simp
    with r pj show "anc idom r (rpo ! j)" by blast
    show "fwd bs rpo ri (rpo ! j) ?b" using j k rpo_okD(2) [OF rpo] by (simp add: fwd_def)
  qed
  have pr: "placed idom r" "0 \<le> r" using anc_placed [OF q(2)] by (auto simp: placed_def in_range_def)
  have up: "anc idom r (idom ! nat ?b)" if "placed idom ?b"
    by (rule parent_moves_up [OF rpo preds ok k(2) that be r])
  note shrink = anc_shrink [OF up rb inv]
  note low = anc_low [OF rb inv pr(2)]
  have nth: "?t ! nat c = (if c = ?b then r else idom ! nat c)" if "in_range idom c" for c
    by (rule update_nth [OF rb that])
  have pl: "placed ?t c \<longleftrightarrow> c = ?b \<or> placed idom c" for c
    using rb pr(2) nth [of c] by (auto simp: placed_def in_range_def)
  have fr: "(fwd bs rpo ri)\<^sup>*\<^sup>* r ?b"
    using anc_fwd_path [OF iter_okD(4) [OF ok] ie(1) q(2)] q(3) by simp
  have "parents_low bs e ri ?t"
    unfolding parents_low_def
  proof (intro allI impI)
    fix c a assume c: "placed ?t c" "c \<noteq> e" and a: "\<forall>p \<in> set (pb_preds (bs ! nat c)). placed ?t p \<longrightarrow> anc ?t a p"
    have a': "\<forall>p \<in> set (pb_preds (bs ! nat c)). placed idom p \<longrightarrow> anc idom a p"
      using a shrink pl by blast
    show "ri ! nat a \<le> ri ! nat (?t ! nat c)"
    proof (cases "c = ?b")
      case True
      then have "anc idom a r" using a' great by blast
      then show ?thesis using True nth [OF rb] anc_ri [OF inv] by simp
    next
      case False
      then have "placed idom c" using c(1) pl by blast
      then show ?thesis using False c(2) a' iter_okD(3) [OF ok] nth [of c] by (simp add: parents_low_def placed_def)
    qed
  qed
  moreover have "parents_reach bs e rpo ri ?t"
    unfolding parents_reach_def
  proof (intro allI impI conjI)
    fix c assume c: "placed ?t c"
    show "c \<in> set rpo" using c pl iter_okD(4) [OF ok] k by (auto simp: parents_reach_def)
    assume "c \<noteq> e"
    then show "(fwd bs rpo ri)\<^sup>*\<^sup>* (?t ! nat c) c"
      using c pl fr iter_okD(4) [OF ok] nth [of c] rb by (auto simp: parents_reach_def placed_def)
  qed
  moreover have "round_closed bs rpo ri (Suc k) ?t"
    unfolding round_closed_def
  proof (intro allI impI)
    fix i u assume i: "i < Suc k" "0 < i" "i < length rpo" and u: "fwd bs rpo ri u (rpo ! i)"
    have ui: "ri ! nat u < int i" using u rpo_okD(2) [OF rpo i(3)] by (simp add: fwd_def)
    show "anc ?t (?t ! nat (rpo ! i)) u"
    proof (cases "i = k")
      case True
      define m where "m = nat (ri ! nat u)"
      have "u \<in> set rpo" using u by (simp add: fwd_def)
      then have m: "m < length rpo" "rpo ! m = u" "int m = ri ! nat u"
        using rpo_nth_of [OF rpo] unfolding m_def by auto
      then have "placed idom u" using iter_okD(1) [OF ok] ui True by (auto simp: round_ok_def)
      moreover have "u \<in> set (pb_preds (bs ! nat ?b))"
        using preds_completeD [OF preds, of u ?b] u True rpo_okD(1) [OF rpo m(1)] rpo_okD(1) [OF rpo k(2)] m
        by (simp add: fwd_def)
      ultimately have "anc idom r u" using r by blast
      then have "anc ?t r u" using low ui ib True by simp
      then show ?thesis using True nth [OF rb] by simp
    next
      case False
      then have "anc idom (idom ! nat (rpo ! i)) u" using i u iter_okD(5) [OF ok] by (simp add: round_closed_def)
      then have "anc ?t (idom ! nat (rpo ! i)) u" using low ui ib i False by simp
      moreover have "?t ! nat (rpo ! i) = idom ! nat (rpo ! i)"
        using nth [of "rpo ! i"] rpo_okD [OF rpo i(3)] ib False len by (auto simp: in_range_def)
      ultimately show ?thesis by simp
    qed
  qed
  moreover have "dominators_kept bs e ?t" if sound: "preds_sound bs"
  proof -
    note kept = iter_okD(6) [OF ok sound]
    have inr: "\<forall>b \<in> set rpo. in_range bs b" using rset reach_in_range by auto
    have at_b: "anc ?t d ?b" if d: "dominates bs e d ?b" "d \<noteq> ?b" for d
    proof -
      have "anc idom d p" if p: "p \<in> set (pb_preds (bs ! nat ?b))" "placed idom p" for p
      proof -
        have "?b \<in> set (pb_succs (bs ! nat p))"
          using sound p(1) rpo_okD(1) [OF rpo k(2)] unfolding preds_sound_def
          by (metis in_range_def int_nat_eq nat_less_iff)
        then have "dominates bs e d p" by (rule dominates_pred [OF d _ rpo_okD(1) [OF rpo k(2)]])
        with kept p(2) show ?thesis by (simp add: dominators_kept_def)
      qed
      then have "anc idom d r" using great by blast
      moreover have "ri ! nat r < ri ! nat ?b"
        using anc_ri [OF inv q(2)] rpo_okD(2) [OF rpo, of j] ib j k by simp
      ultimately have "anc ?t d r" by (rule low)
      then show ?thesis using nth [OF rb] pl [of ?b] by (metis anc.anc_up)
    qed
    have bb: "anc ?t d ?b" if "dominates bs e d ?b" for d
      using at_b [OF that] pl by (cases "d = ?b") (auto intro: anc.anc_self)
    have len': "length ri = length idom" using inv by (simp add: dom_inv_def)
    have "anc ?t d x" if "anc idom d x" "dominates bs e d x" for d x
      using that
    proof (induction rule: anc.induct)
      case (anc_self x)
      then show ?case using pl by (auto intro: anc.anc_self)
    next
      case (anc_up x d)
      consider "x = ?b" | "d = x" | "x = e" | "x \<noteq> ?b" "d \<noteq> x" "x \<noteq> e" by blast
      then show ?case
      proof cases
        case 1
        then show ?thesis using bb anc_up.prems by simp
      next
        case 2
        then show ?thesis using pl anc_up.hyps(1) by (auto intro: anc.anc_self)
      next
        case 3
        then have "d = e" using anc_entry [OF ie(1) anc_up.hyps(2)] ie(1) by simp
        then show ?thesis using 3 pl anc_up.hyps(1) by (auto intro: anc.anc_self)
      next
        case 4
        have path: "(fwd bs rpo ri)\<^sup>*\<^sup>* (idom ! nat x) x"
          using iter_okD(4) [OF ok] anc_up.hyps(1) 4(3) by (simp add: parents_reach_def)
        have px: "placed idom d" "placed idom (idom ! nat x)" using anc_placed [OF anc_up.hyps(2)] by auto
        have "anc ?t d (idom ! nat x)"
        proof (cases "d = idom ! nat x")
          case True
          then show ?thesis using px pl by (auto intro: anc.anc_self)
        next
          case False
          have "ri ! nat d \<noteq> ri ! nat (idom ! nat x)"
            using False rpo px dom_invD(1) [OF inv] len'
            by (auto simp: rpo_ok_def numbering_def placed_def in_range_def)
          then have "ri ! nat d < ri ! nat (idom ! nat x)" using anc_ri [OF inv anc_up.hyps(2)] by simp
          from dominates_fwd [OF anc_up.prems path this inr] show ?thesis by (rule anc_up.IH)
        qed
        moreover have "?t ! nat x = idom ! nat x" using nth [of x] anc_up.hyps(1) 4(1) by (simp add: placed_def)
        ultimately show ?thesis using pl anc_up.hyps(1) by (simp add: anc.anc_up)
      qed
    qed
    then show ?thesis using kept bb pl unfolding dominators_kept_def by metis
  qed
  ultimately show ?thesis using next_ok by (simp add: iter_ok_def)
qed

section \<open>Rounds and their number\<close>

text \<open>The sum of the parents' numbers; a block without a parent counts as all blocks.\<close>

definition tree_weight :: "int list \<Rightarrow> int list \<Rightarrow> int list \<Rightarrow> nat" where
  "tree_weight rpo ri idom =
     (\<Sum>b \<in> set rpo. if placed idom b then nat (ri ! nat (idom ! nat b)) else length rpo)"

lemma tree_weight_less:
  assumes rpo: "rpo_ok bs e rpo ri" and inv: "dom_inv ri e idom" and k: "k < length rpo" and be: "rpo ! k \<noteq> e"
    and r: "anc idom r p" "fwd bs rpo ri p (rpo ! k)"
    and up: "placed idom (rpo ! k) \<Longrightarrow> anc idom r (idom ! nat (rpo ! k))" and ch: "idom ! nat (rpo ! k) \<noteq> r"
  shows "tree_weight rpo ri (idom[nat (rpo ! k) := r]) < tree_weight rpo ri idom"
  unfolding tree_weight_def
proof (rule sum_strict_mono_ex1)
  let ?b = "rpo ! k"
  let ?t = "idom[nat ?b := r]"
  let ?w = "\<lambda>idom b. if placed idom b then nat (ri ! nat (idom ! nat b)) else length rpo"
  have len: "length idom = length bs" "length ri = length idom" using inv rpo by (simp_all add: dom_inv_def rpo_ok_def)
  have rb: "in_range idom ?b" using rpo_okD [OF rpo k] len by (simp add: in_range_def)
  have pr: "placed idom r" "0 \<le> r" "0 \<le> ri ! nat r"
    using anc_placed [OF r(1)] dom_invD(1) [OF inv] by (auto simp: placed_def in_range_def)
  have pb: "placed ?t ?b" "?t ! nat ?b = r"
    using rb pr(2) update_nth [OF rb rb] by (auto simp: placed_def in_range_def)
  have lt: "?w ?t ?b < ?w idom ?b"
  proof (cases "placed idom ?b")
    case True
    have "ri ! nat r \<noteq> ri ! nat (idom ! nat ?b)"
      using ch rpo pr dom_invD(1,2) [OF inv] True len
      by (auto simp: rpo_ok_def numbering_def placed_def in_range_def)
    then have "ri ! nat r < ri ! nat (idom ! nat ?b)" using anc_ri [OF inv up [OF True]] by simp
    then show ?thesis using pb True pr by simp
  next
    case False
    have "p \<in> set rpo" using r(2) by (simp add: fwd_def)
    then have "ri ! nat p < int (length rpo)" using rpo_nth_of [OF rpo] by (metis of_nat_less_iff)
    then have "ri ! nat r < int (length rpo)" using anc_ri [OF inv r(1)] by simp
    then show ?thesis using pb False pr by simp
  qed
  show "\<exists>b \<in> set rpo. ?w ?t b < ?w idom b" by (rule bexI [where x = ?b], rule lt) (use k in simp)
  show "\<forall>c \<in> set rpo. ?w ?t c \<le> ?w idom c"
  proof
    fix c assume "c \<in> set rpo"
    then have "in_range idom c" using rpo len by (auto simp: rpo_ok_def in_set_conv_nth in_range_def)
    then have "?t ! nat c = (if c = ?b then r else idom ! nat c)" by (rule update_nth [OF rb])
    then show "?w ?t c \<le> ?w idom c"
      using less_imp_le [OF lt] by (cases "c = ?b") (auto simp: placed_def in_range_def)
  qed
qed simp

lemma round_total:
  assumes rpo: "rpo_ok bs e rpo ri" and preds: "preds_complete bs" and rset: "set rpo = {b. reach bs e b}"
  shows "0 < k \<Longrightarrow> iter_ok bs e rpo ri k (fst s) \<Longrightarrow>
    \<exists>s'. dom_round bs ri (drop k rpo) s = Some s' \<and> iter_ok bs e rpo ri (length rpo) (fst s') \<and>
      tree_weight rpo ri (fst s') \<le> tree_weight rpo ri (fst s) \<and>
      (snd s' \<longrightarrow> snd s \<or> tree_weight rpo ri (fst s') < tree_weight rpo ri (fst s))"
proof (induction "length rpo - k" arbitrary: k s)
  case 0
  then have "iter_ok bs e rpo ri (length rpo) (fst s)"
    by (auto simp: iter_ok_def round_ok_def round_closed_def)
  with 0 show ?case by simp
next
  case (Suc d)
  have k: "k < length rpo" using Suc.hyps(2) by simp
  define b where "b = rpo ! k"
  note ok = Suc.prems(2)
  note inv = iter_okD(2) [OF ok]
  obtain r where r: "dom_preds ri (fst s) (pb_preds (bs ! nat b)) (-1) = Some r" "0 \<le> r"
      "\<forall>p \<in> set (pb_preds (bs ! nat b)). placed (fst s) p \<longrightarrow> anc (fst s) r p"
      "\<forall>z. (\<forall>p \<in> set (pb_preds (bs ! nat b)). placed (fst s) p \<longrightarrow> anc (fst s) z p) \<longrightarrow> anc (fst s) z r"
      "round_ok e rpo ri (Suc k) ((fst s)[nat b := r])"
    using dom_update [OF rpo preds Suc.prems(1) k iter_okD(1) [OF ok]] unfolding b_def by blast
  have be: "b \<noteq> e" using rpo_okD(2) [OF rpo k] inv Suc.prems(1) by (auto simp: dom_inv_def b_def)
  define t where "t = (if fst s ! nat b \<noteq> r then ((fst s)[nat b := r], True) else s)"
  have ft: "fst t = (fst s)[nat b := r]" by (auto simp: t_def)
  have step: "dom_round bs ri (drop k rpo) s = dom_round bs ri (drop (Suc k) rpo) t"
    using r(1,2) k by (simp add: b_def t_def flip: Cons_nth_drop_Suc)
  have okt: "iter_ok bs e rpo ri (Suc k) (fst t)"
    unfolding ft b_def
    by (rule iter_step [OF rpo preds rset ok Suc.prems(1) k]) (use r in \<open>simp_all add: b_def\<close>)
  have wt: "tree_weight rpo ri (fst t) < tree_weight rpo ri (fst s) \<or> t = s"
  proof (cases "fst s ! nat b = r")
    case False
    obtain j where j: "j < k" "b \<in> set (pb_succs (bs ! nat (rpo ! j)))"
      using rpo k Suc.prems(1) by (auto simp: rpo_ok_def b_def)
    have f: "fwd bs rpo ri (rpo ! j) b" using j k rpo_okD(2) [OF rpo] by (simp add: fwd_def b_def)
    have "rpo ! j \<in> set (pb_preds (bs ! nat b))"
      using preds_completeD [OF preds _ j(2)] rpo_okD(1) [OF rpo] j k by (simp add: b_def)
    moreover have "placed (fst s) (rpo ! j)" using iter_okD(1) [OF ok] j k by (simp add: round_ok_def)
    ultimately have a: "anc (fst s) r (rpo ! j)" using r(3) by blast
    have "placed (fst s) b \<Longrightarrow> anc (fst s) r (fst s ! nat b)"
      unfolding b_def by (rule parent_moves_up [OF rpo preds ok k]) (use be r(3) in \<open>simp_all add: b_def\<close>)
    then show ?thesis
      unfolding ft b_def using tree_weight_less [OF rpo inv k _ a] f be False by (simp add: b_def)
  qed (simp add: t_def)
  have d: "d = length rpo - Suc k" using Suc.hyps(2) by simp
  from Suc.hyps(1) [OF d _ okt] obtain s' where s': "dom_round bs ri (drop (Suc k) rpo) t = Some s'"
      "iter_ok bs e rpo ri (length rpo) (fst s')" "tree_weight rpo ri (fst s') \<le> tree_weight rpo ri (fst t)"
      "snd s' \<longrightarrow> snd t \<or> tree_weight rpo ri (fst s') < tree_weight rpo ri (fst t)" by auto
  then show ?case using step wt by auto
qed

lemma dom_loop_total:
  assumes rpo: "rpo_ok bs e rpo ri" and preds: "preds_complete bs" and rset: "set rpo = {b. reach bs e b}"
  shows "iter_ok bs e rpo ri 1 idom0 \<Longrightarrow>
    \<exists>idom. dom_loop bs ri (tl rpo) idom0 = Some idom \<and> iter_ok bs e rpo ri (length rpo) idom"
proof (induction "tree_weight rpo ri idom0" arbitrary: idom0 rule: less_induct)
  case less
  obtain s' where s': "dom_round bs ri (tl rpo) (idom0, False) = Some s'"
      "iter_ok bs e rpo ri (length rpo) (fst s')"
      "snd s' \<longrightarrow> tree_weight rpo ri (fst s') < tree_weight rpo ri idom0"
    using round_total [OF rpo preds rset, of 1 "(idom0, False)"] less.prems by (auto simp: drop_Suc)
  show ?case
  proof (cases "snd s'")
    case True
    have "rpo \<noteq> []" using rpo by (simp add: rpo_ok_def)
    then have "iter_ok bs e rpo ri 1 (fst s')"
      using s'(2) by (auto simp: iter_ok_def round_ok_def round_closed_def neq_Nil_conv)
    with less.hyps [of "fst s'"] True s' obtain idom where
      "dom_loop bs ri (tl rpo) (fst s') = Some idom" "iter_ok bs e rpo ri (length rpo) idom" by blast
    then show ?thesis using True s'(1) by (subst dom_loop.simps) auto
  next
    case False
    then show ?thesis using s' by (subst dom_loop.simps) auto
  qed
qed

lemma iter_ok_start:
  assumes rpo: "rpo_ok bs e rpo ri"
  shows "iter_ok bs e rpo ri 1 ((replicate (length bs) (-1))[nat e := e])"
proof -
  let ?t = "(replicate (length bs) (-1))[nat e := e]"
  have ok: "round_ok e rpo ri 1 ?t" by (rule round_ok_start [OF rpo])
  have "rpo \<noteq> []" "hd rpo = e" using rpo by (simp_all add: rpo_ok_def)
  then have er: "e \<in> set rpo" by auto
  have re: "in_range bs e" using ok by (simp add: round_ok_def dom_inv_def in_range_def)
  have only: "c = e" if "placed ?t c" for c
    using that re by (auto simp: placed_def in_range_def nth_list_update eq_nat_nat_iff split: if_splits)
  have "dominators_kept bs e ?t"
    unfolding dominators_kept_def
  proof (intro allI impI)
    fix b d assume b: "placed ?t b" "dominates bs e d b"
    have "path_from bs e [e]" by (rule path_entry [OF re])
    then have "d = e" using b only unfolding dominates_def by fastforce
    then show "anc ?t d b" using b only by (auto intro: anc.anc_self)
  qed
  then show ?thesis
    using ok only er by (auto simp: iter_ok_def parents_low_def parents_reach_def round_closed_def)
qed

section \<open>The result\<close>

lemma rpo_set: "pf_blocks f \<noteq> [] \<Longrightarrow> set (compute_rpo f) = {b. reach (pf_blocks f) (entry_block f) b}"
  by (rule rpo_facts)

lemma compute_idom_total:
  assumes "pf_blocks f \<noteq> []" "preds_complete (pf_blocks f)"
  obtains idom where "compute_idom f = Some idom"
    "iter_ok (pf_blocks f) (entry_block f) (compute_rpo f)
       (compute_rpo_index (length (pf_blocks f)) (compute_rpo f)) (length (compute_rpo f)) idom"
  using dom_loop_total [OF rpo_ok_rpo [OF assms(1)] assms(2) rpo_set [OF assms(1)] iter_ok_start [OF rpo_ok_rpo [OF assms(1)]]]
  by (auto simp: compute_idom_def Let_def)

text \<open>
  C4.  Dominators are computed exactly, on every graph: where the predecessor lists hold the edges of
  the graph and nothing else, \<open>compute_dominators\<close> ends; an unreachable block gets no immediate
  dominator, and every reachable block but the entry gets its immediate dominator: a block other than
  itself that lies on every path from the entry to it, and on which every other such block lies in
  turn.
\<close>

theorem compute_dominators_exact:
  assumes "pf_blocks f \<noteq> []" "preds_complete (pf_blocks f)" "preds_sound (pf_blocks f)"
  shows "\<exists>idom. compute_idom f = Some idom \<and>
    (\<forall>b. in_range (pf_blocks f) b \<longrightarrow> \<not> reach (pf_blocks f) (entry_block f) b \<longrightarrow> idom ! nat b < 0) \<and>
    (\<forall>b. reach (pf_blocks f) (entry_block f) b \<longrightarrow> b \<noteq> entry_block f \<longrightarrow>
       idom ! nat b \<noteq> b \<and> dominates (pf_blocks f) (entry_block f) (idom ! nat b) b \<and>
       (\<forall>d. dominates (pf_blocks f) (entry_block f) d b \<longrightarrow> d \<noteq> b \<longrightarrow>
          dominates (pf_blocks f) (entry_block f) d (idom ! nat b)))"
proof -
  let ?bs = "pf_blocks f" and ?e = "entry_block f" and ?rpo = "compute_rpo f"
  let ?ri = "compute_rpo_index (length ?bs) ?rpo"
  obtain idom where idom: "compute_idom f = Some idom" "iter_ok ?bs ?e ?rpo ?ri (length ?rpo) idom"
    by (rule compute_idom_total [OF assms(1,2)])
  note rpo = rpo_ok_rpo [OF assms(1)]
  note inv = iter_okD(2) [OF idom(2)]
  have len: "length idom = length ?bs" using inv rpo by (simp add: dom_inv_def rpo_ok_def)
  have "dom_loop ?bs ?ri (tl ?rpo) ((replicate (length ?bs) (-1))[nat ?e := ?e]) = Some idom"
    using idom(1) by (simp add: compute_idom_def Let_def)
  from dom_loop_spec [OF rpo assms(2) this round_ok_start [OF rpo]]
  have on_path: "anc idom a (hd ys) \<Longrightarrow> path_from ?bs ?e ys \<Longrightarrow> a \<in> set ys" for a ys
    using anc_on_path [OF rpo assms(2) _ rpo_set [OF assms(1)]] by blast
  have dom: "dominates ?bs ?e a b" if "anc idom a b" for a b
    unfolding dominates_def using on_path [of a "b # xs" for xs] that by simp
  have pl: "placed idom b" if "reach ?bs ?e b" for b
  proof -
    have "b \<in> set ?rpo" using that rpo_set [OF assms(1)] by simp
    then show ?thesis using iter_okD(1) [OF idom(2)] by (auto simp: round_ok_def in_set_conv_nth)
  qed
  have "idom ! nat b < 0" if "in_range ?bs b" "\<not> reach ?bs ?e b" for b
  proof (rule ccontr)
    assume "\<not> idom ! nat b < 0"
    then have "placed idom b" using that(1) len by (simp add: placed_def in_range_def)
    then have "b \<in> set ?rpo" using iter_okD(4) [OF idom(2)] by (simp add: parents_reach_def)
    with that(2) show False using rpo_set [OF assms(1)] by simp
  qed
  moreover have "idom ! nat b \<noteq> b \<and> dominates ?bs ?e (idom ! nat b) b \<and>
      (\<forall>d. dominates ?bs ?e d b \<longrightarrow> d \<noteq> b \<longrightarrow> dominates ?bs ?e d (idom ! nat b))"
    if b: "reach ?bs ?e b" "b \<noteq> ?e" for b
  proof (intro conjI allI impI)
    note pb = pl [OF b(1)]
    show "idom ! nat b \<noteq> b" using dom_invD(3) [OF inv pb b(2)] by auto
    show "dominates ?bs ?e (idom ! nat b) b"
      using dom_invD(2) [OF inv pb] pb by (intro dom) (auto intro: anc.intros)
    fix d assume d: "dominates ?bs ?e d b" "d \<noteq> b"
    have "anc idom d b" using iter_okD(6) [OF idom(2) assms(3)] pb d(1) by (simp add: dominators_kept_def)
    then have "anc idom d (idom ! nat b)" using d(2) by (auto elim: anc.cases)
    then show "dominates ?bs ?e d (idom ! nat b)" by (rule dom)
  qed
  ultimately show ?thesis using idom(1) by blast
qed

end
