(* ===== verification/Loops_Dom.thy ===== *)
theory Loops_Dom
  imports Loops_Order Ssa_Dom_Exact
begin

text \<open>
  The dominators of loop detection are those of the decompiler's SSA construction on the graph of places in
  the reverse postorder: both find the closest common ancestor, so the two iterations go through the same
  trees, and what is proved of \<open>dom_loop\<close> holds of \<open>idom_loop\<close>.  In particular the iteration ends and
  no walk leaves the tree.
\<close>

section \<open>Closest common ancestors\<close>

text \<open>Blocks numbered by their place.\<close>

definition places :: "nat \<Rightarrow> int list" where
  "places n = map int [0..<n]"

lemma nth_places [simp]: "i < n \<Longrightarrow> places n ! i = int i"
  by (simp add: places_def)

lemma length_places [simp]: "length (places n) = n"
  by (simp add: places_def)

lemma set_places: "set (places n) = {0..<int n}"
  by (simp add: places_def image_int_atLeastLessThan)

lemma place_number: "in_range (places n) x \<Longrightarrow> places n ! nat x = x"
  by (simp add: in_range_def nat_less_iff)

lemma climb_walk:
  assumes "dom_inv (places n) 0 idom"
  shows "placed idom x \<Longrightarrow> 0 \<le> lim \<Longrightarrow> nat x < fuel \<Longrightarrow> climb idom x lim = walk_up fuel (places n) idom x lim"
proof (induction fuel arbitrary: x)
  case (Suc fuel)
  have len: "length idom = n" using assms by (simp add: dom_inv_def)
  have x: "places n ! nat x = x" "0 \<le> x"
    using Suc.prems(1) len by (auto simp: placed_def in_range_def nat_less_iff)
  show ?case
  proof (cases "lim < x")
    case True
    let ?y = "idom ! nat x"
    have "x \<noteq> 0" using True Suc.prems(2) by simp
    then have y: "placed idom ?y" "places n ! nat ?y < x"
      using dom_invD [OF assms Suc.prems(1)] x by auto
    then have "0 \<le> ?y" "?y < x" using len by (auto simp: placed_def in_range_def nat_less_iff)
    then have "nat ?y < fuel" using Suc.prems(3) x(2) by simp
    with Suc.IH [OF y(1) Suc.prems(2)] True x \<open>0 \<le> ?y\<close> show ?thesis
      by (simp add: climb.simps [of idom x] Let_def)
  next
    case False
    then show ?thesis using x by (simp add: climb.simps [of idom x])
  qed
qed simp

lemma meet_loop:
  assumes inv: "dom_inv (places n) 0 idom"
  shows "placed idom a \<Longrightarrow> placed idom b \<Longrightarrow> nat a + nat b < g \<Longrightarrow>
    meet idom a b = intersect_loop g (Suc (length idom)) (places n) idom a b"
proof (induction g arbitrary: a b)
  case (Suc g)
  have len: "length idom = n" using inv by (simp add: dom_inv_def)
  have pl: "0 \<le> x \<and> nat x < Suc (length idom) \<and> places n ! nat x = x \<and> in_range idom x" if "placed idom x" for x
    using that len by (auto simp: placed_def in_range_def nat_less_iff)
  note ra = pl [OF Suc.prems(1)] and rb = pl [OF Suc.prems(2)]
  show ?case
  proof (cases "a = b")
    case True
    then show ?thesis by (simp add: meet.simps [of idom b b])
  next
    case False
    obtain a' where a': "walk_up (Suc (length idom)) (places n) idom a b = Some a'" "anc idom a' a" "a' \<le> a"
        "b < a \<longrightarrow> a' < a" "a \<le> b \<longrightarrow> a' = a"
      using walk_up_spec [OF inv Suc.prems(1), of b "Suc (length idom)"] ra rb pl anc_placed by (metis (no_types, lifting))
    note pa' = anc_placed [OF a'(2), THEN conjunct1] and ra' = pl [OF conjunct1 [OF anc_placed [OF a'(2)]]]
    obtain b' where b': "walk_up (Suc (length idom)) (places n) idom b a' = Some b'" "anc idom b' b" "b' \<le> b"
        "a' < b \<longrightarrow> b' < b"
      using walk_up_spec [OF inv Suc.prems(2), of a' "Suc (length idom)"] ra' rb pl anc_placed by (metis (no_types, lifting))
    note pb' = anc_placed [OF b'(2), THEN conjunct1] and rb' = pl [OF conjunct1 [OF anc_placed [OF b'(2)]]]
    have "nat a' + nat b' < nat a + nat b"
    proof (cases "b < a")
      case True
      then show ?thesis using a' b' ra' rb' by linarith
    next
      case nb: False
      then have "a' = a" "a' < b" using a'(5) False by auto
      then show ?thesis using b' rb' by linarith
    qed
    then have IH: "meet idom a' b' = intersect_loop g (Suc (length idom)) (places n) idom a' b'"
      using Suc.IH [OF pa' pb'] Suc.prems(3) by simp
    have "climb idom a b = Some a'" "climb idom b a' = Some b'"
      using climb_walk [OF inv Suc.prems(1)] climb_walk [OF inv Suc.prems(2)] ra rb ra' a'(1) b'(1) by auto
    then have "meet idom a b = meet idom a' b'"
      using False ra rb by (simp add: meet.simps [of idom a b])
    with IH False ra rb a'(1) b'(1) ra' rb' show ?thesis by simp
  qed
qed simp

lemma places_numbering: "numbering (places n)"
  by (auto simp: numbering_def in_range_def nat_less_iff)

lemma anc_antisym:
  assumes "dom_inv (places n) 0 idom" "anc idom a b" "anc idom b a"
  shows "a = b"
proof -
  have "length idom = n" using assms(1) by (simp add: dom_inv_def)
  then have "places n ! nat a = a" "places n ! nat b = b"
    using anc_placed [OF assms(2)] by (auto simp: placed_def in_range_def nat_less_iff)
  then show ?thesis using anc_ri [OF assms(1,2)] anc_ri [OF assms(1,3)] by simp
qed

lemma meet_intersect:
  assumes inv: "dom_inv (places n) 0 idom" and pl: "placed idom a" "placed idom b"
  shows "meet idom a b = intersect (places n) idom b a"
proof -
  have len: "length idom = n" using inv by (simp add: dom_inv_def)
  let ?g = "Suc (nat a + nat b)"
  have no: "places n ! nat a = a" "places n ! nat b = b"
    using pl len by (auto simp: placed_def in_range_def nat_less_iff)
  obtain c where c: "intersect_loop ?g (Suc (length idom)) (places n) idom a b = Some c" "anc idom c a" "anc idom c b"
      "\<forall>z. anc idom z a \<longrightarrow> anc idom z b \<longrightarrow> anc idom z c"
    using intersect_loop_spec [OF inv places_numbering _ pl, of "Suc (length idom)" ?g] no by auto
  obtain d where d: "intersect (places n) idom b a = Some d" "anc idom d b" "anc idom d a"
      "\<forall>z. anc idom z b \<longrightarrow> anc idom z a \<longrightarrow> anc idom z d"
    using intersect_spec [OF inv places_numbering pl(2,1)] by blast
  have "c = d" using anc_antisym [OF inv, of c d] c d by blast
  with meet_loop [OF inv pl, of ?g] c(1) d(1) show ?thesis by simp
qed

lemma meet_preds_dom:
  assumes inv: "dom_inv (places n) 0 idom"
  shows "\<forall>p \<in> set ps. in_range idom p \<and> -1 \<le> idom ! nat p \<Longrightarrow> acc = -1 \<or> placed idom acc \<Longrightarrow>
    meet_preds idom ps acc = dom_preds (places n) idom ps acc"
proof (induction ps arbitrary: acc)
  case (Cons p ps)
  show ?case
  proof (cases "idom ! nat p = -1")
    case True
    then show ?thesis using Cons by simp
  next
    case False
    then have p: "placed idom p" "\<not> idom ! nat p < 0" "in_range idom p" "0 \<le> p"
      using Cons.prems(1) by (auto simp: placed_def in_range_def)
    show ?thesis
    proof (cases "acc = -1")
      case True
      then show ?thesis using False p Cons by simp
    next
      case nacc: False
      then have acc: "placed idom acc" "0 \<le> acc" using Cons.prems(2) by (auto simp: placed_def in_range_def)
      obtain d where d: "intersect (places n) idom p acc = Some d" "anc idom d p"
        using intersect_spec [OF inv places_numbering p(1) acc(1)] by blast
      then have "placed idom d" using anc_placed by blast
      with Cons.IH [of d] Cons.prems(1) d(1) meet_intersect [OF inv acc(1) p(1)] False nacc acc(2) p(2,3) show ?thesis
        by simp
    qed
  qed
qed simp


section \<open>The graph of places\<close>

definition place_block :: "block_map \<Rightarrow> va_t list \<Rightarrow> nat \<Rightarrow> pcode_block" where
  "place_block bs rpo i = default_block
     \<lparr>pb_succs := List.map_filter (place rpo) (succs_of bs (rpo ! i)), pb_preds := pred_places bs rpo (int i)\<rparr>"

definition place_graph :: "block_map \<Rightarrow> va_t list \<Rightarrow> pcode_block list" where
  "place_graph bs rpo = map (place_block bs rpo) [0..<length rpo]"

text \<open>The predecessor lists hold the edges and nothing else.\<close>

definition graph_ok :: "block_map \<Rightarrow> bool" where
  "graph_ok bs \<longleftrightarrow> (\<forall>y. map_of bs y \<noteq> None \<longrightarrow> set (preds_of bs y) = {p. y \<in> set (succs_of bs p)})"

lemma place_nth: "distinct rpo \<Longrightarrow> k < length rpo \<Longrightarrow> place rpo (rpo ! k) = Some (int k)"
proof (induction rpo arbitrary: k)
  case (Cons x xs)
  then show ?case by (cases k) auto
qed simp

lemma place_SomeD: "place rpo a = Some i \<Longrightarrow> \<exists>k < length rpo. i = int k \<and> rpo ! k = a"
proof (induction rpo arbitrary: i)
  case (Cons x xs)
  show ?case
  proof (cases "x = a")
    case True
    then show ?thesis using Cons.prems by (intro exI [of _ 0]) simp
  next
    case False
    then obtain m where m: "place xs a = Some m" "i = m + 1" using Cons.prems by auto
    from Cons.IH [OF m(1)] obtain k where "k < length xs" "m = int k" "xs ! k = a" by blast
    with m(2) show ?thesis by (intro exI [of _ "Suc k"]) simp
  qed
qed simp

lemma place_Some: "distinct rpo \<Longrightarrow> place rpo a = Some i \<longleftrightarrow> (\<exists>k < length rpo. i = int k \<and> rpo ! k = a)"
  using place_nth place_SomeD by blast

lemma place_None: "place rpo a = None \<longleftrightarrow> a \<notin> set rpo"
  by (induction rpo) auto

lemma in_map_filter: "y \<in> set (List.map_filter f xs) \<longleftrightarrow> (\<exists>x \<in> set xs. f x = Some y)"
  by (force simp: List.map_filter_def)


lemma place_graph_simps:
  assumes "distinct rpo" "i < length rpo"
  shows "int j \<in> set (pb_succs (place_graph bs rpo ! i)) \<longleftrightarrow> j < length rpo \<and> rpo ! j \<in> set (succs_of bs (rpo ! i))"
    "int j \<in> set (pb_preds (place_graph bs rpo ! i)) \<longleftrightarrow> j < length rpo \<and> rpo ! j \<in> set (preds_of bs (rpo ! i))"
    "pb_preds (place_graph bs rpo ! i) = pred_places bs rpo (int i)"
  using assms by (auto simp: place_graph_def place_block_def pred_places_def in_map_filter place_Some)

lemma length_place_graph [simp]: "length (place_graph bs rpo) = length rpo"
  by (simp add: place_graph_def)

lemma is_rpoD:
  assumes "is_rpo bs e rpo"
  shows "rpo \<noteq> []" "rpo ! 0 = e" "distinct rpo" "set rpo = {x. (edge bs)\<^sup>*\<^sup>* e x}"
    "\<And>i. i < length rpo \<Longrightarrow> 0 < i \<Longrightarrow> \<exists>j < i. edge bs (rpo ! j) (rpo ! i)"
  using assms by (auto simp: is_rpo_def hd_conv_nth)

lemma rpo_has_block:
  assumes "is_rpo bs e rpo" "map_of bs e \<noteq> None" "x \<in> set rpo"
  shows "map_of bs x \<noteq> None"
proof -
  have "(edge bs)\<^sup>*\<^sup>* e x" using is_rpoD(4) [OF assms(1)] assms(3) by simp
  then show ?thesis by (cases rule: rtranclp.cases) (use assms(2) in \<open>auto simp: edge_def\<close>)
qed

lemma place_rpo_ok:
  assumes "is_rpo bs e rpo"
  shows "rpo_ok (place_graph bs rpo) 0 (places (length rpo)) (places (length rpo))"
proof -
  note R = is_rpoD [OF assms]
  have "\<exists>j < i. places (length rpo) ! i \<in> set (pb_succs (place_graph bs rpo ! nat (places (length rpo) ! j)))"
    if i: "i < length rpo" "0 < i" for i
  proof -
    obtain j where "j < i" "edge bs (rpo ! j) (rpo ! i)" using R(5) [OF i] by blast
    then show ?thesis using i place_graph_simps(1) [OF R(3), of j i] by (auto simp: edge_def)
  qed
  moreover have "places (length rpo) \<noteq> []" "hd (places (length rpo)) = 0"
    using R(1) by (auto simp: places_def hd_map)
  ultimately show ?thesis
    by (auto simp: rpo_ok_def places_numbering in_range_def)
qed

lemma edge_in_rpo:
  assumes "is_rpo bs e rpo" "i < length rpo" "edge bs (rpo ! i) y"
  shows "y \<in> set rpo"
proof -
  have "(edge bs)\<^sup>*\<^sup>* e (rpo ! i)" using is_rpoD(4) [OF assms(1)] assms(2) nth_mem by blast
  with assms(3) show ?thesis unfolding is_rpoD(4) [OF assms(1)] by auto
qed

lemma place_preds:
  assumes "is_rpo bs e rpo" "map_of bs e \<noteq> None" "graph_ok bs"
  shows "preds_complete (place_graph bs rpo)" "preds_sound (place_graph bs rpo)"
proof -
  note R = is_rpoD [OF assms(1)]
  have eq: "rpo ! p \<in> set (preds_of bs (rpo ! b)) \<longleftrightarrow> rpo ! b \<in> set (succs_of bs (rpo ! p))" if "b < length rpo" for p b
    using assms(3) rpo_has_block [OF assms(1,2)] that by (simp add: graph_ok_def)
  show "preds_complete (place_graph bs rpo)"
    unfolding preds_complete_def
  proof (intro allI impI ballI)
    fix p s assume p: "p < length (place_graph bs rpo)" and s: "s \<in> set (pb_succs (place_graph bs rpo ! p))"
      and r: "in_range (place_graph bs rpo) s"
    then obtain k where k: "s = int k" "k < length rpo" by (auto simp: in_range_def nonneg_int_cases dest!: zero_le_imp_eq_int)
    then show "int p \<in> set (pb_preds (place_graph bs rpo ! nat s))"
      using p s place_graph_simps(1) [OF R(3), of p k] place_graph_simps(2) [OF R(3), of k p] eq [of k p] by simp
  qed
  show "preds_sound (place_graph bs rpo)"
    unfolding preds_sound_def
  proof (intro allI impI ballI)
    fix b p assume b: "b < length (place_graph bs rpo)" and p: "p \<in> set (pb_preds (place_graph bs rpo ! b))"
    then obtain k where k: "p = int k" "k < length rpo"
      using place_graph_simps(3) [OF R(3), of b] by (auto simp: pred_places_def in_map_filter place_Some [OF R(3)])
    then show "in_range (place_graph bs rpo) p \<and> int b \<in> set (pb_succs (place_graph bs rpo ! nat p))"
      using b p place_graph_simps(2) [OF R(3), of b k] place_graph_simps(1) [OF R(3), of k b] eq [of b k]
      by (simp add: in_range_def)
  qed
qed


section \<open>The iteration\<close>

definition low_ok :: "int list \<Rightarrow> bool" where
  "low_ok idom \<longleftrightarrow> (\<forall>x \<in> set idom. -1 \<le> x)"

lemma low_ok_update: "low_ok idom \<Longrightarrow> -1 \<le> r \<Longrightarrow> low_ok (idom[i := r])"
  by (auto simp: low_ok_def dest!: set_update_subset_insert [THEN subsetD])

lemma pred_places_range: "distinct rpo \<Longrightarrow> p \<in> set (pred_places bs rpo i) \<Longrightarrow> 0 \<le> p \<and> p < int (length rpo)"
  by (auto simp: pred_places_def in_map_filter place_Some)

lemma idom_round_eq:
  assumes rpo: "is_rpo bs e rpo" and preds: "preds_complete (place_graph bs rpo)"
  defines "N \<equiv> length rpo"
  shows "0 < k \<Longrightarrow> round_ok 0 (places N) (places N) k (fst s) \<Longrightarrow> low_ok (fst s) \<Longrightarrow>
    \<exists>s'. idom_round (pred_places bs rpo) (drop k (places N)) s = Some s' \<and>
         dom_round (place_graph bs rpo) (places N) (drop k (places N)) s = Some s' \<and> low_ok (fst s')"
proof (induction "N - k" arbitrary: k s)
  case 0
  then show ?case by simp
next
  case (Suc d)
  have k: "k < N" using Suc.hyps(2) by simp
  note dist = is_rpoD(3) [OF rpo]
  let ?ps = "pred_places bs rpo (int k)"
  have dr: "drop k (places N) = int k # drop (Suc k) (places N)"
    using k Cons_nth_drop_Suc [of k "places N"] by simp
  have ok: "rpo_ok (place_graph bs rpo) 0 (places N) (places N)" unfolding N_def by (rule place_rpo_ok [OF rpo])
  have pb: "pb_preds (place_graph bs rpo ! k) = ?ps" using place_graph_simps(3) [OF dist] k by (simp add: N_def)
  obtain r where r: "dom_preds (places N) (fst s) ?ps (-1) = Some r" "0 \<le> r"
      "round_ok 0 (places N) (places N) (Suc k) ((fst s)[k := r])"
    using dom_update [OF ok preds Suc.prems(1) _ Suc.prems(2)] k pb by auto
  have inv: "dom_inv (places N) 0 (fst s)" using Suc.prems(2) by (simp add: round_ok_def)
  have "length (fst s) = N" using inv by (simp add: dom_inv_def)
  then have "\<forall>p \<in> set ?ps. in_range (fst s) p \<and> -1 \<le> fst s ! nat p"
    using pred_places_range [OF dist] Suc.prems(3) by (auto simp: in_range_def low_ok_def N_def nat_less_iff)
  then have m: "meet_preds (fst s) ?ps (-1) = Some r" using meet_preds_dom [OF inv] r(1) by simp
  let ?t = "if fst s ! k \<noteq> r then ((fst s)[k := r], True) else s"
  have ft: "fst ?t = (fst s)[k := r]" by auto
  have "d = N - Suc k" "round_ok 0 (places N) (places N) (Suc k) (fst ?t)" "low_ok (fst ?t)"
    using Suc.hyps(2) r(2,3) ft low_ok_update [OF Suc.prems(3)] by simp_all
  from Suc.hyps(1) [OF this(1) _ this(2,3)] obtain s' where
    "idom_round (pred_places bs rpo) (drop (Suc k) (places N)) ?t = Some s'"
    "dom_round (place_graph bs rpo) (places N) (drop (Suc k) (places N)) ?t = Some s'" "low_ok (fst s')" by auto
  then show ?case using r m pb unfolding dr by (intro exI [of _ s']) (auto split: if_splits)
qed

lemma idom_loop_total:
  assumes rpo: "is_rpo bs e rpo" and g: "map_of bs e \<noteq> None" "graph_ok bs"
    and rset: "set (places (length rpo)) = {b. reach (place_graph bs rpo) 0 b}"
  shows "iter_ok (place_graph bs rpo) 0 (places (length rpo)) (places (length rpo)) 1 idom0 \<Longrightarrow> low_ok idom0 \<Longrightarrow>
    \<exists>idom. idom_loop (pred_places bs rpo) (tl (places (length rpo))) idom0 = Some idom \<and>
      dom_loop (place_graph bs rpo) (places (length rpo)) (tl (places (length rpo))) idom0 = Some idom \<and>
      iter_ok (place_graph bs rpo) 0 (places (length rpo)) (places (length rpo)) (length rpo) idom"
proof (induction "tree_weight (places (length rpo)) (places (length rpo)) idom0" arbitrary: idom0 rule: less_induct)
  case less
  let ?N = "length rpo" let ?ri = "places ?N" let ?bs = "place_graph bs rpo"
  note ok = place_rpo_ok [OF rpo] and pc = place_preds(1) [OF rpo g]
  have d1: "drop 1 ?ri = tl ?ri" by (simp add: drop_Suc)
  obtain s' where s': "dom_round ?bs ?ri (drop 1 ?ri) (idom0, False) = Some s'" "iter_ok ?bs 0 ?ri ?ri ?N (fst s')"
      "snd s' \<longrightarrow> tree_weight ?ri ?ri (fst s') < tree_weight ?ri ?ri idom0"
    using round_total [OF ok pc rset, of 1 "(idom0, False)"] less.prems by auto
  have ir: "idom_round (pred_places bs rpo) (drop 1 ?ri) (idom0, False) = Some s'" "low_ok (fst s')"
    using idom_round_eq [OF rpo pc, of 1 "(idom0, False)"] less.prems s'(1) by (auto simp: iter_ok_def)
  show ?case
  proof (cases "snd s'")
    case True
    have "0 < ?N" using is_rpoD(1) [OF rpo] by simp
    then have "iter_ok ?bs 0 ?ri ?ri 1 (fst s')"
      using s'(2) by (auto simp: iter_ok_def round_ok_def round_closed_def)
    with less.hyps [of "fst s'"] True s' ir obtain idom where
      "idom_loop (pred_places bs rpo) (tl ?ri) (fst s') = Some idom"
      "dom_loop ?bs ?ri (tl ?ri) (fst s') = Some idom" "iter_ok ?bs 0 ?ri ?ri ?N idom" by blast
    then show ?thesis using True s'(1) ir(1) unfolding d1
      by (simp add: idom_loop.simps [of _ _ idom0] dom_loop.simps [of _ _ _ idom0])
  next
    case False
    then show ?thesis using s' ir(1) unfolding d1
      by (simp add: idom_loop.simps [of _ _ idom0] dom_loop.simps [of _ _ _ idom0])
  qed
qed

lemma upto_places: "[1..int n - 1] = tl (places n)"
  by (rule nth_equalityI) (auto simp: nth_tl nat_diff_distrib)

end
