(* ===== verification/Loops_Correct.thy ===== *)
theory Loops_Correct
  imports Loops_Dom Cfg_Correct
begin

text \<open>
  Loop detection ends and finds exactly the natural loops: one for each edge between reachable blocks whose
  target lies on every path from the entry to its source, with a body that is the natural loop of the edge.
\<close>

section \<open>Dominance between blocks\<close>

text \<open>Paths from the entry, newest block first.\<close>

inductive bpath :: "block_map \<Rightarrow> va_t \<Rightarrow> va_t list \<Rightarrow> bool" for bs e where
  entry: "bpath bs e [e]"
| step: "bpath bs e (b # xs) \<Longrightarrow> edge bs b s \<Longrightarrow> bpath bs e (s # b # xs)"

definition block_dominates :: "block_map \<Rightarrow> va_t \<Rightarrow> va_t \<Rightarrow> va_t \<Rightarrow> bool" where
  "block_dominates bs e d b \<longleftrightarrow> (\<forall>xs. bpath bs e (b # xs) \<longrightarrow> d \<in> set (b # xs))"

definition block_of :: "va_t list \<Rightarrow> int \<Rightarrow> va_t" where
  "block_of rpo x = rpo ! nat x"

lemma place_edge:
  assumes "is_rpo bs e rpo" "map_of bs e \<noteq> None" "i < length rpo" "j < length rpo"
  shows "int j \<in> set (pb_succs (place_graph bs rpo ! i)) \<longleftrightarrow> edge bs (rpo ! i) (rpo ! j)"
  using place_graph_simps(1) [OF is_rpoD(3) [OF assms(1)] assms(3)] rpo_has_block [OF assms(1,2)] assms(4)
  by (auto simp: edge_def)

lemma path_to_blocks:
  assumes "is_rpo bs e rpo" "map_of bs e \<noteq> None"
  shows "path_from (place_graph bs rpo) 0 ys \<Longrightarrow>
    bpath bs e (map (block_of rpo) ys) \<and> (\<forall>y \<in> set ys. in_range rpo y)"
proof (induction rule: path_from.induct)
  case path_entry
  then show ?case using is_rpoD(2) [OF assms(1)] by (auto simp: block_of_def in_range_def intro: bpath.entry)
next
  case (path_edge b xs s)
  have r: "in_range rpo b" "in_range rpo s" using path_edge by (auto simp: in_range_def)
  then have "edge bs (rpo ! nat b) (rpo ! nat s)"
    using path_edge place_edge [OF assms, of "nat b" "nat s"] by (simp add: in_range_def nat_less_iff)
  with path_edge r show ?case by (auto simp: block_of_def intro: bpath.step)
qed

lemma path_from_blocks:
  assumes "is_rpo bs e rpo" "map_of bs e \<noteq> None"
  shows "bpath bs e zs \<Longrightarrow> \<exists>ys. path_from (place_graph bs rpo) 0 ys \<and> map (block_of rpo) ys = zs"
proof (induction rule: bpath.induct)
  case entry
  have "0 < length rpo" using is_rpoD(1) [OF assms(1)] by simp
  then show ?case using is_rpoD(2) [OF assms(1)]
    by (intro exI [of _ "[0]"]) (auto simp: block_of_def in_range_def intro: path_entry)
next
  case (step b xs s)
  then obtain y ys where y: "path_from (place_graph bs rpo) 0 (y # ys)" "block_of rpo y = b" "map (block_of rpo) ys = xs"
    by auto
  have ry: "in_range rpo y" using path_to_blocks [OF assms y(1)] by simp
  then have "edge bs (rpo ! nat y) s" using step.hyps(2) y(2) by (simp add: block_of_def)
  moreover from this have "s \<in> set rpo"
    using edge_in_rpo [OF assms(1), of "nat y"] ry by (simp add: in_range_def nat_less_iff)
  then obtain k where k: "k < length rpo" "rpo ! k = s" by (auto simp: in_set_conv_nth)
  ultimately have "int k \<in> set (pb_succs (place_graph bs rpo ! nat y))"
    using place_edge [OF assms, of "nat y" k] ry by (simp add: in_range_def nat_less_iff)
  then have "path_from (place_graph bs rpo) 0 (int k # y # ys)"
    using k by (intro path_edge [OF y(1)]) (simp_all add: in_range_def)
  moreover have "block_of rpo (int k) = s" using k by (simp add: block_of_def)
  ultimately show ?case using y(2,3) by (intro exI [of _ "int k # y # ys"]) simp
qed

lemma dominates_blocks:
  assumes "is_rpo bs e rpo" "map_of bs e \<noteq> None" "i < length rpo" "j < length rpo"
  shows "dominates (place_graph bs rpo) 0 (int i) (int j) \<longleftrightarrow> block_dominates bs e (rpo ! i) (rpo ! j)"
proof -
  have inj: "x = int k" if "in_range rpo x" "block_of rpo x = rpo ! k" "k < length rpo" for x k
    using that nth_eq_iff_index_eq [OF is_rpoD(3) [OF assms(1)], of "nat x" k]
    by (auto simp: block_of_def in_range_def nat_less_iff)
  show ?thesis
  proof
    assume d: "dominates (place_graph bs rpo) 0 (int i) (int j)"
    show "block_dominates bs e (rpo ! i) (rpo ! j)"
      unfolding block_dominates_def
    proof (intro allI impI)
      fix xs assume "bpath bs e (rpo ! j # xs)"
      then obtain y ys where y: "path_from (place_graph bs rpo) 0 (y # ys)" "block_of rpo y = rpo ! j"
          "map (block_of rpo) ys = xs"
        using path_from_blocks [OF assms(1,2)] by fastforce
      then have "y = int j" using path_to_blocks [OF assms(1,2) y(1)] inj assms(4) by simp
      then have "int i \<in> set (y # ys)" using d y(1) by (simp add: dominates_def)
      then have "block_of rpo (int i) \<in> set (map (block_of rpo) (y # ys))" unfolding set_map by (rule imageI)
      then show "rpo ! i \<in> set (rpo ! j # xs)" using y by (simp add: block_of_def)
    qed
  next
    assume d: "block_dominates bs e (rpo ! i) (rpo ! j)"
    show "dominates (place_graph bs rpo) 0 (int i) (int j)"
      unfolding dominates_def
    proof (intro allI impI)
      fix xs assume p: "path_from (place_graph bs rpo) 0 (int j # xs)"
      have b: "bpath bs e (map (block_of rpo) (int j # xs))" "\<forall>y \<in> set (int j # xs). in_range rpo y"
        using path_to_blocks [OF assms(1,2) p] by auto
      then have "rpo ! i \<in> set (map (block_of rpo) (int j # xs))"
        using d [unfolded block_dominates_def, rule_format, of "map (block_of rpo) xs"] by (simp add: block_of_def)
      then obtain y where y: "y \<in> set (int j # xs)" "block_of rpo y = rpo ! i" unfolding set_map by fastforce
      with b(2) inj assms(3) have "y = int i" by blast
      with y(1) show "int i \<in> set (int j # xs)" by simp
    qed
  qed
qed

section \<open>The tree of a function\<close>

lemma places_reachable:
  assumes "is_rpo bs e rpo" "map_of bs e \<noteq> None"
  shows "set (places (length rpo)) = {b. reach (place_graph bs rpo) 0 b}"
proof -
  have "reach (place_graph bs rpo) 0 (int i)" if "i < length rpo" for i
    using that
  proof (induction i rule: less_induct)
    case (less i)
    show ?case
    proof (cases "i = 0")
      case True
      with less.prems show ?thesis by (auto simp: in_range_def intro: reach_refl)
    next
      case False
      then obtain j where j: "j < i" "edge bs (rpo ! j) (rpo ! i)" using is_rpoD(5) [OF assms(1)] less.prems by blast
      then have "int i \<in> set (pb_succs (place_graph bs rpo ! j))" using place_edge [OF assms] less.prems by simp
      with less.IH [of j] j less.prems show ?thesis by (auto simp: in_range_def intro: reach_step)
    qed
  qed
  moreover have "0 \<le> b \<and> b < int (length rpo)" if "reach (place_graph bs rpo) 0 b" for b
    using reach_in_range [OF that] by (simp add: in_range_def)
  ultimately show ?thesis unfolding set_places by (auto simp: nonneg_int_cases dest!: zero_le_imp_eq_int)
qed

lemma loop_idoms_tree:
  assumes rpo: "is_rpo bs e rpo" and g: "map_of bs e \<noteq> None" "graph_ok bs"
  shows "\<exists>idom. loop_idoms bs rpo = Some idom \<and> dom_inv (places (length rpo)) 0 idom \<and>
    (\<forall>j < length rpo. placed idom (int j)) \<and>
    (\<forall>i < length rpo. \<forall>j < length rpo. anc idom (int i) (int j) \<longleftrightarrow> block_dominates bs e (rpo ! i) (rpo ! j))"
proof -
  let ?N = "length rpo" let ?ri = "places ?N" let ?G = "place_graph bs rpo"
  let ?start = "(replicate ?N (-1))[0 := 0] :: int list"
  note ok = place_rpo_ok [OF rpo] and pc = place_preds [OF rpo g] and rset = places_reachable [OF rpo g(1)]
  have start: "iter_ok ?G 0 ?ri ?ri 1 ?start" using iter_ok_start [OF ok] by simp
  have low: "low_ok ?start" by (rule low_ok_update) (auto simp: low_ok_def)
  obtain idom where idom: "idom_loop (pred_places bs rpo) (tl ?ri) ?start = Some idom"
      "dom_loop ?G ?ri (tl ?ri) ?start = Some idom" "iter_ok ?G 0 ?ri ?ri ?N idom"
    using idom_loop_total [OF rpo g rset start low] by blast
  have pl: "placed idom (int j)" if "j < ?N" for j
    using iter_okD(1) [OF idom(3)] that by (auto simp: round_ok_def)
  have fixed: "\<forall>b \<in> set (tl ?ri). \<forall>p \<in> set (pb_preds (?G ! nat b)). placed idom p \<longrightarrow> anc idom (idom ! nat b) p"
    using dom_loop_spec [OF ok pc(1) idom(2)] iter_okD(1) [OF start] by blast
  have "anc idom a b \<Longrightarrow> dominates ?G 0 a b" for a b
    unfolding dominates_def
    using anc_on_path [OF ok pc(1) _ rset fixed, of "b # xs" a for xs] iter_okD(1) [OF idom(3)] by simp
  moreover have "dominates ?G 0 d (int j) \<Longrightarrow> anc idom d (int j)" if "j < ?N" for d j
    using iter_okD(6) [OF idom(3) pc(2)] pl [OF that] by (simp add: dominators_kept_def)
  ultimately have "anc idom (int i) (int j) \<longleftrightarrow> block_dominates bs e (rpo ! i) (rpo ! j)" if "i < ?N" "j < ?N" for i j
    using dominates_blocks [OF rpo g(1) that] that by blast
  with idom pl iter_okD(2) [OF idom(3)] show ?thesis by (simp add: loop_idoms_def upto_places)
qed


section \<open>Back edges\<close>

lemma climb_decides:
  assumes inv: "dom_inv (places n) 0 idom" and pl: "placed idom (int s)" "placed idom (int t)"
  shows "is_back_edge idom (int s) (int t) = Some (anc idom (int t) (int s))"
proof -
  have len: "length idom = n" using inv by (simp add: dom_inv_def)
  have no: "places n ! nat x = x" if "placed idom x" for x
    using that len by (auto simp: placed_def in_range_def nat_less_iff)
  obtain y where y: "walk_up (Suc s) (places n) idom (int s) (int t) = Some y" "anc idom y (int s)"
      "places n ! nat y \<le> int t" "\<forall>z. anc idom z (int s) \<longrightarrow> places n ! nat z \<le> int t \<longrightarrow> anc idom z y"
    using walk_up_spec [OF inv pl(1), of "int t" "Suc s"] no [OF pl(1)] by auto
  have "climb idom (int s) (int t) = Some y" using climb_walk [OF inv pl(1), of "int t" "Suc s"] y(1) by simp
  moreover have "y = int t \<longleftrightarrow> anc idom (int t) (int s)"
  proof
    assume a: "anc idom (int t) (int s)"
    then have ty: "anc idom (int t) y" using y(4) no [OF pl(2)] by simp
    then have "placed idom y" using anc_placed by blast
    then show "y = int t" using anc_ri [OF inv ty] y(3) no [OF pl(2)] no [of y] by simp
  qed (use y(2) in simp)
  ultimately show ?thesis by (simp add: is_back_edge_def)
qed

section \<open>Bodies\<close>

text \<open>The blocks that reach the latch without passing the header, and the header.\<close>

inductive_set natural_loop :: "block_map \<Rightarrow> va_t list \<Rightarrow> va_t \<Rightarrow> va_t \<Rightarrow> va_t set" for bs rpo h s where
  nl_header: "h \<in> natural_loop bs rpo h s"
| nl_latch: "s \<in> natural_loop bs rpo h s"
| nl_back: "x \<in> natural_loop bs rpo h s \<Longrightarrow> x \<noteq> h \<Longrightarrow> p \<in> set (preds_of bs x) \<Longrightarrow> p \<in> set rpo \<Longrightarrow>
    p \<in> natural_loop bs rpo h s"

definition body_inv :: "block_map \<Rightarrow> va_t list \<Rightarrow> va_t \<Rightarrow> va_t \<Rightarrow> body_state \<Rightarrow> bool" where
  "body_inv bs rpo h src s \<longleftrightarrow>
     h \<in> set (bd_blocks s) \<and> src \<in> set (bd_blocks s) \<and> set (bd_blocks s) \<subseteq> natural_loop bs rpo h src \<and>
     set (bd_wl s) \<subseteq> set (bd_blocks s) - {h} \<and>
     (\<forall>x \<in> set (bd_blocks s) - set (bd_wl s) - {h}. set (preds_of bs x) \<inter> set rpo \<subseteq> set (bd_blocks s))"

text \<open>What the fold over the predecessors of a block does.\<close>

definition body_add :: "va_t list \<Rightarrow> va_t \<Rightarrow> body_state \<Rightarrow> body_state" where
  "body_add rpo p s = (if p \<in> set rpo \<and> p \<notin> set (bd_blocks s)
     then s\<lparr>bd_blocks := bd_blocks s @ [p], bd_wl := bd_wl s @ [p]\<rparr> else s)"

lemma body_step_fold: "body_step bs rpo s = fold (body_add rpo) (preds_of bs (hd (bd_wl s))) (s\<lparr>bd_wl := tl (bd_wl s)\<rparr>)"
  by (simp add: body_step_def body_add_def [abs_def])

lemma body_fold:
  "\<exists>new. bd_blocks (fold (body_add rpo) ps s) = bd_blocks s @ new \<and> bd_wl (fold (body_add rpo) ps s) = bd_wl s @ new \<and>
    set new = (set ps \<inter> set rpo) - set (bd_blocks s)"
proof (induction ps arbitrary: s)
  case (Cons p ps)
  show ?case
  proof (cases "p \<in> set rpo \<and> p \<notin> set (bd_blocks s)")
    case True
    let ?t = "body_add rpo p s"
    obtain new where "bd_blocks (fold (body_add rpo) ps ?t) = bd_blocks ?t @ new" "bd_wl (fold (body_add rpo) ps ?t) = bd_wl ?t @ new"
        "set new = (set ps \<inter> set rpo) - set (bd_blocks ?t)"
      using Cons.IH [of ?t] by blast
    moreover have "bd_blocks ?t = bd_blocks s @ [p]" "bd_wl ?t = bd_wl s @ [p]" using True by (simp_all add: body_add_def)
    ultimately show ?thesis using True by (intro exI [of _ "p # new"]) auto
  next
    case False
    then have "body_add rpo p s = s" by (auto simp: body_add_def)
    moreover have "set (p # ps) \<inter> set rpo - set (bd_blocks s) = set ps \<inter> set rpo - set (bd_blocks s)" using False by auto
    ultimately show ?thesis using Cons.IH [of s] by simp
  qed
qed simp

lemma body_step_ok:
  assumes "body_inv bs rpo h src s" "bd_wl s \<noteq> []"
  shows "body_inv bs rpo h src (body_step bs rpo s) \<and>
    (card (set rpo - set (bd_blocks (body_step bs rpo s))) < card (set rpo - set (bd_blocks s)) \<or>
     card (set rpo - set (bd_blocks (body_step bs rpo s))) = card (set rpo - set (bd_blocks s)) \<and>
     length (bd_wl (body_step bs rpo s)) < length (bd_wl s))"
proof -
  obtain x w where w: "bd_wl s = x # w" using assms(2) by (cases "bd_wl s") auto
  obtain new where new: "bd_blocks (body_step bs rpo s) = bd_blocks s @ new" "bd_wl (body_step bs rpo s) = w @ new"
      "set new = (set (preds_of bs x) \<inter> set rpo) - set (bd_blocks s)"
    using body_fold [of rpo "preds_of bs x" "s\<lparr>bd_wl := w\<rparr>"] by (auto simp: body_step_fold w)
  have x: "x \<in> natural_loop bs rpo h src" "x \<noteq> h" using assms(1) w by (auto simp: body_inv_def)
  have sub: "set new \<subseteq> natural_loop bs rpo h src" using new(3) x by (auto intro: natural_loop.nl_back)
  have "body_inv bs rpo h src (body_step bs rpo s)"
    using assms(1) w sub new unfolding body_inv_def by auto
  moreover have "card (set rpo - set (bd_blocks s @ new)) < card (set rpo - set (bd_blocks s))" if ne: "new \<noteq> []"
  proof (rule psubset_card_mono)
    obtain p where "p \<in> set new" using ne by (cases new) auto
    then show "set rpo - set (bd_blocks s @ new) \<subset> set rpo - set (bd_blocks s)" using new(3) by auto
  qed simp
  ultimately show ?thesis using new w by (cases "new = []") auto
qed

lemma body_loop_ok:
  "body_inv bs rpo h src s \<Longrightarrow> \<exists>body. body_loop bs rpo s = Some body \<and> set body = natural_loop bs rpo h src"
proof (induction s rule: wf_induct_rule [OF wf_measures [of "[\<lambda>s. card (set rpo - set (bd_blocks s)), \<lambda>s. length (bd_wl s)]"]])
  case (1 s)
  show ?case
  proof (cases "bd_wl s = []")
    case True
    have "natural_loop bs rpo h src \<subseteq> set (bd_blocks s)"
    proof
      fix x assume "x \<in> natural_loop bs rpo h src"
      then show "x \<in> set (bd_blocks s)"
        by induction (use 1(2) True in \<open>auto simp: body_inv_def\<close>)
    qed
    with True 1(2) show ?thesis by (auto simp: body_loop.simps [of bs rpo s] body_inv_def)
  next
    case False
    note step = body_step_ok [OF 1(2) False]
    from 1(1) [OF _ conjunct1 [OF step]] step obtain body where
      "body_loop bs rpo (body_step bs rpo s) = Some body" "set body = natural_loop bs rpo h src" by auto
    with False show ?thesis by (simp add: body_loop.simps [of bs rpo s])
  qed
qed

lemma loop_body_exact: "\<exists>body. loop_body bs rpo h src = Some body \<and> set body = natural_loop bs rpo h src"
  unfolding loop_body_def
  by (rule body_loop_ok) (auto simp: body_inv_def intro: natural_loop.intros)

section \<open>The loops\<close>

lemma collect_image:
  assumes "\<forall>x \<in> set xs. \<exists>ys. f x = Some ys \<and> (\<forall>y \<in> set ys. Q y) \<and> g ` set ys = S x"
  shows "\<exists>zs. collect f xs = Some zs \<and> (\<forall>z \<in> set zs. Q z) \<and> g ` set zs = (\<Union>x \<in> set xs. S x)"
  using assms
proof (induction xs)
  case (Cons x xs)
  then obtain zs where zs: "collect f xs = Some zs" "\<forall>z \<in> set zs. Q z" "g ` set zs = (\<Union>x \<in> set xs. S x)" by auto
  obtain ys where "f x = Some ys" "\<forall>y \<in> set ys. Q y" "g ` set ys = S x" using Cons.prems by auto
  with zs show ?case by (auto simp: image_Un)
qed simp

text \<open>The loop of an edge, with a register that its body, in some order, counts in.\<close>

definition loop_ends :: "loop_info \<Rightarrow> va_t \<times> va_t" where
  "loop_ends l = (li_header l, li_back_edge_src l)"

definition counts_in_body :: "block_map \<Rightarrow> va_t list \<Rightarrow> loop_info \<Rightarrow> bool" where
  "counts_in_body bs rpo l \<longleftrightarrow> (\<exists>order. set order = natural_loop bs rpo (li_header l) (li_back_edge_src l) \<and>
     li_induction_reg l = induction_reg bs order)"

lemma loop_at_exact:
  assumes rpo: "is_rpo bs e rpo" and enum: "\<And>xs. set (enum xs) = set xs" and s: "s < length rpo"
    and inv: "dom_inv (places (length rpo)) 0 idom" and pl: "\<forall>j < length rpo. placed idom (int j)"
    and dom: "\<forall>i < length rpo. \<forall>j < length rpo. anc idom (int i) (int j) \<longleftrightarrow> block_dominates bs e (rpo ! i) (rpo ! j)"
  shows "\<exists>ls. loop_at enum bs rpo idom (int s) t = Some ls \<and> (\<forall>l \<in> set ls. counts_in_body bs rpo l) \<and>
    loop_ends ` set ls = (if t \<in> set rpo \<and> block_dominates bs e t (rpo ! s) then {(t, rpo ! s)} else {})"
proof (cases "place rpo t")
  case None
  then have "t \<notin> set rpo" by (simp add: place_None)
  with None show ?thesis by (simp add: loop_at_def)
next
  case (Some i)
  then obtain k where k: "k < length rpo" "i = int k" "rpo ! k = t" using place_SomeD by blast
  have "is_back_edge idom (int s) i = Some (block_dominates bs e t (rpo ! s))"
    using climb_decides [OF inv] pl dom s k by auto
  moreover obtain body where "loop_body bs rpo t (rpo ! s) = Some body" "set body = natural_loop bs rpo t (rpo ! s)"
    using loop_body_exact by blast
  moreover have "t \<in> set rpo" using k by auto
  ultimately show ?thesis
    using Some enum by (auto simp: loop_at_def loop_ends_def counts_in_body_def)
qed

lemma UN_pairs: "(\<Union>x \<in> Collect P. {(t, x) | t. Q x t \<and> D t x}) = {(h, s). P s \<and> Q s h \<and> D h s}"
  by auto

lemma indices: "(\<Union>si \<in> set [0..int n - 1]. F (nat si)) = (\<Union>s \<in> {..<n}. F s)"
proof -
  have "set [0..int n - 1] = int ` {..<n}" by (auto simp: image_iff nonneg_int_cases dest!: zero_le_imp_eq_int)
  then show ?thesis by simp
qed

text \<open>
  C8. Loop detection ends on every graph whose predecessor lists agree with its successors, and finds exactly
  the natural loops: the pairs of a header and a block that is reachable, has the header as a successor and
  is dominated by it.  The register of each loop is read from the blocks of its natural loop.
\<close>

theorem find_loops_exact:
  assumes "map_of (fn_blocks f) (fn_entry f) \<noteq> None" "graph_ok (fn_blocks f)" "\<And>xs. set (enum xs) = set xs"
  shows "\<exists>ls rpo. find_loops enum f = Some ls \<and> is_rpo (fn_blocks f) (fn_entry f) rpo \<and>
    (\<forall>l \<in> set ls. counts_in_body (fn_blocks f) rpo l) \<and>
    loop_ends ` set ls = {(h, s). (edge (fn_blocks f))\<^sup>*\<^sup>* (fn_entry f) s \<and> edge (fn_blocks f) s h \<and>
      block_dominates (fn_blocks f) (fn_entry f) h s}"
proof -
  let ?bs = "fn_blocks f" and ?e = "fn_entry f"
  obtain po where po: "post_order ?bs ?e = Some po" "is_rpo ?bs ?e (rev po)" using post_order_exact [OF assms(1)] by blast
  define rpo where "rpo = rev po"
  have rpo: "is_rpo ?bs ?e rpo" using po(2) by (simp add: rpo_def)
  obtain idom where idom: "loop_idoms ?bs rpo = Some idom" "dom_inv (places (length rpo)) 0 idom"
      "\<forall>j < length rpo. placed idom (int j)"
      "\<forall>i < length rpo. \<forall>j < length rpo. anc idom (int i) (int j) \<longleftrightarrow> block_dominates ?bs ?e (rpo ! i) (rpo ! j)"
    using loop_idoms_tree [OF rpo assms(1,2)] by blast
  let ?S = "\<lambda>s. \<Union>t \<in> set (succs_of ?bs (rpo ! s)).
      if t \<in> set rpo \<and> block_dominates ?bs ?e t (rpo ! s) then {(t, rpo ! s)} else {}"
  have inner: "\<exists>ys. collect (loop_at enum ?bs rpo idom si) (succs_of ?bs (rpo ! nat si)) = Some ys \<and>
      (\<forall>y \<in> set ys. counts_in_body ?bs rpo y) \<and> loop_ends ` set ys = ?S (nat si)"
    if si: "si \<in> set [0..int (length rpo) - 1]" for si
  proof -
    obtain s where s: "si = int s" "s < length rpo"
      using si by (auto simp: nonneg_int_cases dest!: zero_le_imp_eq_int)
    show ?thesis
      unfolding s nat_int
      by (rule collect_image) (use loop_at_exact [OF rpo assms(3) s(2) idom(2-4)] in blast)
  qed
  obtain ls where ls: "collect (\<lambda>si. collect (loop_at enum ?bs rpo idom si) (succs_of ?bs (rpo ! nat si)))
      [0..int (length rpo) - 1] = Some ls" "\<forall>l \<in> set ls. counts_in_body ?bs rpo l"
      "loop_ends ` set ls = (\<Union>si \<in> set [0..int (length rpo) - 1]. ?S (nat si))"
    using collect_image [of "[0..int (length rpo) - 1]" "\<lambda>si. collect (loop_at enum ?bs rpo idom si) (succs_of ?bs (rpo ! nat si))"
        "counts_in_body ?bs rpo" loop_ends "\<lambda>si. ?S (nat si)"] inner by blast
  have fl: "find_loops enum f = Some ls" using po(1) idom(1) ls(1) by (simp add: find_loops_def rpo_def Let_def)
  have "(\<Union>si \<in> set [0..int (length rpo) - 1]. ?S (nat si)) = (\<Union>s \<in> {..<length rpo}. ?S s)"
    unfolding indices [of "\<lambda>s. ?S s"] by simp
  also have "\<dots> = (\<Union>x \<in> set rpo. {(t, x) | t. t \<in> set (succs_of ?bs x) \<and> t \<in> set rpo \<and> block_dominates ?bs ?e t x})"
  proof -
    have im: "set rpo = (\<lambda>s. rpo ! s) ` {..<length rpo}" by (auto simp: in_set_conv_nth)
    have "?S s = {(t, rpo ! s) | t. t \<in> set (succs_of ?bs (rpo ! s)) \<and> t \<in> set rpo \<and> block_dominates ?bs ?e t (rpo ! s)}" for s
      by (auto split: if_splits)
    then show ?thesis unfolding im by simp
  qed
  also have "\<dots> = {(h, s). (edge ?bs)\<^sup>*\<^sup>* ?e s \<and> edge ?bs s h \<and> block_dominates ?bs ?e h s}"
  proof -
    have inner: "t \<in> set (succs_of ?bs x) \<and> t \<in> set rpo \<longleftrightarrow> edge ?bs x t" if x: "x \<in> set rpo" for x t
    proof
      assume "edge ?bs x t"
      moreover from this have "(edge ?bs)\<^sup>*\<^sup>* ?e t"
        using x unfolding is_rpoD(4) [OF rpo] by (auto intro: rtranclp.rtrancl_into_rtrancl)
      ultimately show "t \<in> set (succs_of ?bs x) \<and> t \<in> set rpo"
        unfolding is_rpoD(4) [OF rpo] by (simp add: edge_def)
    qed (use rpo_has_block [OF rpo assms(1)] in \<open>auto simp: edge_def\<close>)
    have "(\<Union>x \<in> set rpo. {(t, x) | t. t \<in> set (succs_of ?bs x) \<and> t \<in> set rpo \<and> block_dominates ?bs ?e t x}) =
        (\<Union>x \<in> set rpo. {(t, x) | t. edge ?bs x t \<and> block_dominates ?bs ?e t x})"
    proof (rule SUP_cong [OF refl])
      fix x assume "x \<in> set rpo"
      note iff = inner [OF this]
      show "{(t, x) | t. t \<in> set (succs_of ?bs x) \<and> t \<in> set rpo \<and> block_dominates ?bs ?e t x} =
          {(t, x) | t. edge ?bs x t \<and> block_dominates ?bs ?e t x}"
        using iff by blast
    qed
    then show ?thesis unfolding is_rpoD(4) [OF rpo] UN_pairs .
  qed
  finally have ends: "loop_ends ` set ls =
      {(h, s). (edge ?bs)\<^sup>*\<^sup>* ?e s \<and> edge ?bs s h \<and> block_dominates ?bs ?e h s}"
    by (rule trans [OF ls(3)])
  show ?thesis by (rule exI [of _ ls], rule exI [of _ rpo]) (intro conjI fl rpo ls(2) ends)
qed

end
