(* ===== verification/Loops_Example.thy ===== *)
theory Loops_Example
  imports Loops_Correct Cfg_Example
begin

text \<open>
  The graphs that \<open>build_one_cfg\<close> makes satisfy what loop detection assumes of them, and the loops of a small
  function: a block that branches to itself, entered from the block before it.
\<close>

lemma cfg_graph_ok:
  assumes "cfg_spec ce bs"
  shows "graph_ok bs"
proof -
  note spec = assms [unfolded cfg_spec_def]
  have dist: "distinct (map fst bs)" by (rule conjunct1 [OF spec])
  have preds: "set (bb_preds bb) = {p. \<exists>pb. (p, pb) \<in> set bs \<and> a \<in> set (bb_succs pb)}" if "(a, bb) \<in> set bs" for a bb
    using bspec [OF conjunct2 [OF conjunct2 [OF conjunct2 [OF spec]]] that] by simp
  have mem: "map_of bs a = Some bb \<longleftrightarrow> (a, bb) \<in> set bs" for a bb
    using dist by simp
  show ?thesis
    unfolding graph_ok_def
  proof (intro allI impI)
    fix y assume "map_of bs y \<noteq> None"
    then obtain bb where bb: "map_of bs y = Some bb" by blast
    have "y \<in> set (succs_of bs p) \<longleftrightarrow> (\<exists>pb. (p, pb) \<in> set bs \<and> y \<in> set (bb_succs pb))" for p
      by (cases "map_of bs p") (simp_all add: succs_of_def mem [symmetric])
    then show "set (preds_of bs y) = {p. y \<in> set (succs_of bs p)}"
      using preds [of y bb] mem [of y bb] bb by (simp add: preds_of_def)
  qed
qed

definition small_block :: "va_t \<Rightarrow> va_t list \<Rightarrow> va_t list \<Rightarrow> va_t \<times> basic_block" where
  "small_block a ss ps = (a, \<lparr>bb_start = a, bb_insns = [mini_insn a INop [] [0x90]], bb_succs = ss, bb_end = a + 1, bb_preds = ps\<rparr>)"

definition loop_func :: func where
  "loop_func = (new_func 16 ''f'')\<lparr>fn_analyzed := True,
     fn_blocks := [small_block 16 [17] [], small_block 17 [17, 19] [16, 17], small_block 19 [] [17]]\<rparr>"

lemma loop_func_ok: "graph_ok (fn_blocks loop_func)"
  by (auto simp: graph_ok_def loop_func_def small_block_def succs_of_def preds_of_def split: if_splits)

lemma loop_func_found: "map_option (map loop_ends) (find_loops id loop_func) = Some [(17, 17)]"
  by code_simp

lemma find_loops_exact_witness:
  "\<exists>ls rpo. find_loops id loop_func = Some ls \<and> is_rpo (fn_blocks loop_func) (fn_entry loop_func) rpo \<and>
    (\<forall>l \<in> set ls. counts_in_body (fn_blocks loop_func) rpo l) \<and>
    loop_ends ` set ls = {(h, s). (edge (fn_blocks loop_func))\<^sup>*\<^sup>* (fn_entry loop_func) s \<and>
      edge (fn_blocks loop_func) s h \<and> block_dominates (fn_blocks loop_func) (fn_entry loop_func) h s}"
  by (rule find_loops_exact [OF _ loop_func_ok]) (simp_all add: loop_func_def small_block_def new_func_def)

end
