(* ===== verification/Pe_Loader.thy ===== *)
theory Pe_Loader
  imports Image "HOL-Library.AList"
begin

text \<open>
  The PE loader (\<open>src/src/hyperion/core/loader/pe_loader.cpp\<close>).  A file is a list of bytes.  A read past
  its end and a division by zero are faults, the left values of the result; a file the loader rejects is
  \<open>Inr None\<close>.  A \<open>size_t\<close> offset is a natural number, added to in 64 bits where the code checks the sum; a
  32-bit offset is a word.  The packed structures are read as a whole at the place \<open>ptr_at\<close> accepts.
  \<open>Import::ordinal\<close> has no initialiser: its indeterminate value is the parameter \<open>undef\<close>.
\<close>

datatype fault = Div_By_Zero | Out_Of_Bounds

fun and_then :: "'e + 'a \<Rightarrow> ('a \<Rightarrow> 'e + 'b) \<Rightarrow> 'e + 'b" where
  "and_then (Inl e) f = Inl e"
| "and_then (Inr a) f = f a"

lemma and_then_Inl: "and_then m f = Inl e \<longleftrightarrow> m = Inl e \<or> (\<exists>a. m = Inr a \<and> f a = Inl e)"
  by (cases m) auto

lemma and_then_Inr: "and_then m f = Inr b \<longleftrightarrow> (\<exists>a. m = Inr a \<and> f a = Inr b)"
  by (cases m) auto

lemmas and_then_eq = and_then_Inl and_then_Inr

section \<open>Limits and file structures\<close>

definition k_max_file_size :: nat where "k_max_file_size = 2 * 1024 * 1024 * 1024"
definition k_max_sections :: u16 where "k_max_sections = 256"
definition k_max_imports :: u32 where "k_max_imports = 1000000"
definition k_max_exports :: u32 where "k_max_exports = 1000000"
definition k_max_name_len :: nat where "k_max_name_len = 1024"
definition k_max_ilt_entries :: u32 where "k_max_ilt_entries = 500000"
definition k_max_exceptions :: nat where "k_max_exceptions = 500000"

text \<open>The field of \<open>n\<close> bytes at offset \<open>off\<close> of a structure.\<close>

fun le_word :: "u8 list \<Rightarrow> 'w::len word" where
  "le_word [] = 0"
| "le_word (b # bs) = ucast b + 256 * le_word bs"

lemma le_word_value: "le_word bs = of_nat (le_value bs)"
  by (induction bs) simp_all

definition fld :: "u8 list \<Rightarrow> nat \<Rightarrow> nat \<Rightarrow> 'w::len word" where
  "fld bs off n = le_word (take n (drop off bs))"

record dos_hdr =
  dh_magic :: u16
  dh_lfanew :: u32

definition dos_hdr_at :: "u8 list \<Rightarrow> dos_hdr" where
  "dos_hdr_at bs = \<lparr>dh_magic = fld bs 0 2, dh_lfanew = fld bs 60 4\<rparr>"

record coff_hdr =
  ch_num_sections :: u16
  ch_opt_size :: u16

definition coff_hdr_at :: "u8 list \<Rightarrow> coff_hdr" where
  "coff_hdr_at bs = \<lparr>ch_num_sections = fld bs 2 2, ch_opt_size = fld bs 16 2\<rparr>"

record data_dir =
  dd_rva :: u32
  dd_size :: u32

record opt_hdr =
  oh_entry_rva :: u32
  oh_image_base :: u64
  oh_sect_align :: u32
  oh_num_dd :: u32
  oh_dd :: "data_dir list"

definition dirs_at :: "u8 list \<Rightarrow> nat \<Rightarrow> data_dir list" where
  "dirs_at bs off = map (\<lambda>k. \<lparr>dd_rva = fld bs (off + 8 * k) 4, dd_size = fld bs (off + 8 * k + 4) 4\<rparr>) [0..<16]"

definition opt_hdr64_at :: "u8 list \<Rightarrow> opt_hdr" where
  "opt_hdr64_at bs = \<lparr>oh_entry_rva = fld bs 16 4, oh_image_base = fld bs 24 8, oh_sect_align = fld bs 32 4,
     oh_num_dd = fld bs 108 4, oh_dd = dirs_at bs 112\<rparr>"

definition opt_hdr32_at :: "u8 list \<Rightarrow> opt_hdr" where
  "opt_hdr32_at bs = \<lparr>oh_entry_rva = fld bs 16 4, oh_image_base = fld bs 28 4, oh_sect_align = fld bs 32 4,
     oh_num_dd = fld bs 92 4, oh_dd = dirs_at bs 96\<rparr>"

record sect_hdr =
  sh_name :: "u8 list"
  sh_vsize :: u32
  sh_vrva :: u32
  sh_raw_sz :: u32
  sh_raw_ptr :: u32
  sh_chars :: u32

definition sect_hdr_at :: "u8 list \<Rightarrow> sect_hdr" where
  "sect_hdr_at bs = \<lparr>sh_name = take 8 bs, sh_vsize = fld bs 8 4, sh_vrva = fld bs 12 4, sh_raw_sz = fld bs 16 4,
     sh_raw_ptr = fld bs 20 4, sh_chars = fld bs 36 4\<rparr>"

record imp_desc =
  id_orig_thunk :: u32
  id_name_rva :: u32
  id_thunk :: u32

definition imp_desc_at :: "u8 list \<Rightarrow> imp_desc" where
  "imp_desc_at bs = \<lparr>id_orig_thunk = fld bs 0 4, id_name_rva = fld bs 12 4, id_thunk = fld bs 16 4\<rparr>"

record exp_dir =
  ed_ord_base :: u32
  ed_num_funcs :: u32
  ed_num_names :: u32
  ed_funcs_rva :: u32
  ed_names_rva :: u32
  ed_ords_rva :: u32

definition exp_dir_at :: "u8 list \<Rightarrow> exp_dir" where
  "exp_dir_at bs = \<lparr>ed_ord_base = fld bs 16 4, ed_num_funcs = fld bs 20 4, ed_num_names = fld bs 24 4,
     ed_funcs_rva = fld bs 28 4, ed_names_rva = fld bs 32 4, ed_ords_rva = fld bs 36 4\<rparr>"

section \<open>Reading\<close>

definition safe_add :: "nat \<Rightarrow> nat \<Rightarrow> nat option" where
  "safe_add a b = (let r = (of_nat a + of_nat b :: u64) in if r < of_nat a then None else Some (unat r))"

text \<open>A \<open>memcpy\<close> of \<open>n\<close> bytes.\<close>

definition copy :: "u8 list \<Rightarrow> nat \<Rightarrow> nat \<Rightarrow> fault + u8 list" where
  "copy raw off n = (case read_bytes raw off n of Some bs \<Rightarrow> Inr bs | None \<Rightarrow> Inl Out_Of_Bounds)"

text \<open>The bytes of a structure of \<open>n\<close> bytes, if the bounds check accepts it.\<close>

definition ptr_at :: "u8 list \<Rightarrow> nat \<Rightarrow> nat \<Rightarrow> fault + u8 list option" where
  "ptr_at raw off n =
     (if length raw < unat (of_nat off + of_nat n :: u64) then Inr None else and_then (copy raw off n) (\<lambda>bs. Inr (Some bs)))"

definition c_string :: "u8 list \<Rightarrow> string" where
  "c_string bs = map (\<lambda>b. char_of (unat b)) (takeWhile (\<lambda>b. b \<noteq> 0) bs)"

definition safe_string :: "u8 list \<Rightarrow> nat \<Rightarrow> string" where
  "safe_string raw off =
     (if length raw \<le> off then [] else c_string (take (min (length raw - off) k_max_name_len) (drop off raw)))"

definition seg_rva :: "pe_image \<Rightarrow> segment \<Rightarrow> u32" where
  "seg_rva img s = ucast (sg_va s - img_base img)"

fun rva_in :: "pe_image \<Rightarrow> u32 \<Rightarrow> segment list \<Rightarrow> u32" where
  "rva_in img rva [] = 0"
| "rva_in img rva (s # ss) =
     (if seg_rva img s \<le> rva \<and> (ucast rva :: u64) < ucast (seg_rva img s) + sg_file_sz s
      then ucast (sg_file_off s + ucast (rva - seg_rva img s)) else rva_in img rva ss)"

definition rva_to_raw :: "pe_image \<Rightarrow> u32 \<Rightarrow> u32" where
  "rva_to_raw img rva = rva_in img rva (img_segments img)"

definition entry_in_section :: "pe_image \<Rightarrow> va_t \<Rightarrow> bool" where
  "entry_in_section img e \<longleftrightarrow> (\<exists>s \<in> set (img_segments img). sg_va s \<le> e \<and> e < sg_va s + sg_size s)"

fun sections_overlap :: "segment list \<Rightarrow> bool" where
  "sections_overlap [] = False"
| "sections_overlap (a # ss) =
     ((\<exists>b \<in> set ss. sg_va a < sg_va b + sg_size b \<and> sg_va b < sg_va a + sg_size a) \<or> sections_overlap ss)"

section \<open>Headers and sections\<close>

definition empty_image :: "u8 list \<Rightarrow> pe_image" where
  "empty_image raw = \<lparr>img_arch = X86, img_base = 0, img_entry = 0, img_segments = [], img_imports = [],
     img_exports = [], img_runtime_funcs = [], img_symbols = [], img_encrypted = False, img_raw = raw\<rparr>"

definition opt_size_of :: "bool \<Rightarrow> nat" where
  "opt_size_of x64 = (if x64 then 240 else 224)"

definition opt_hdr_at :: "bool \<Rightarrow> u8 list \<Rightarrow> opt_hdr" where
  "opt_hdr_at x64 = (if x64 then opt_hdr64_at else opt_hdr32_at)"

text \<open>\<open>image_base % sect_align\<close> is evaluated before \<open>sect_align != 0\<close> is.\<close>

definition check_alignment :: "opt_hdr \<Rightarrow> fault + bool" where
  "check_alignment oh =
     (if oh_sect_align oh = 0 then Inl Div_By_Zero
      else Inr (oh_image_base oh mod ucast (oh_sect_align oh) \<noteq> 0 \<and> oh_sect_align oh \<noteq> 0))"

definition with_opt_hdr :: "bool \<Rightarrow> opt_hdr \<Rightarrow> pe_image \<Rightarrow> pe_image" where
  "with_opt_hdr x64 oh img = img\<lparr>img_arch := (if x64 then X64 else X86), img_base := oh_image_base oh,
     img_entry := oh_image_base oh + ucast (oh_entry_rva oh)\<rparr>"

definition parse_opt_hdr :: "u8 list \<Rightarrow> nat \<Rightarrow> bool \<Rightarrow> pe_image \<Rightarrow> fault + pe_image option" where
  "parse_opt_hdr raw off x64 img =
     and_then (ptr_at raw off (opt_size_of x64)) (\<lambda>p. case p of None \<Rightarrow> Inr None
       | Some bs \<Rightarrow> let oh = opt_hdr_at x64 bs in
           and_then (check_alignment oh) (\<lambda>_. Inr (Some (with_opt_hdr x64 oh img))))"

definition parse_magic :: "u8 list \<Rightarrow> nat \<Rightarrow> pe_image \<Rightarrow> fault + pe_image option" where
  "parse_magic raw off img =
     (if length raw < off + 2 then Inr None
      else and_then (copy raw off 2) (\<lambda>bs.
        if (fld bs 0 2 :: u16) = 0x20B then parse_opt_hdr raw off True img
        else if (fld bs 0 2 :: u16) = 0x10B then parse_opt_hdr raw off False img
        else Inr None))"

definition parse_coff :: "u8 list \<Rightarrow> nat \<Rightarrow> pe_image \<Rightarrow> fault + pe_image option" where
  "parse_coff raw off img =
     and_then (ptr_at raw off 20) (\<lambda>p. case p of None \<Rightarrow> Inr None
       | Some bs \<Rightarrow>
           if k_max_sections < ch_num_sections (coff_hdr_at bs) then Inr None
           else (case safe_add off 20 of None \<Rightarrow> Inr None | Some opt_off \<Rightarrow> parse_magic raw opt_off img))"

text \<open>\<open>"PE\0\0"\<close>\<close>

definition pe_sig :: "u8 list" where "pe_sig = [0x50, 0x45, 0, 0]"

definition parse_headers :: "u8 list \<Rightarrow> pe_image \<Rightarrow> fault + pe_image option" where
  "parse_headers raw img =
     and_then (ptr_at raw 0 64) (\<lambda>p. case p of None \<Rightarrow> Inr None
       | Some bs \<Rightarrow>
           if dh_magic (dos_hdr_at bs) \<noteq> 0x5A4D then Inr None
           else let pe = unat (dh_lfanew (dos_hdr_at bs)) in
             (case safe_add pe 4 of None \<Rightarrow> Inr None
              | Some sig_end \<Rightarrow>
                  if length raw < sig_end then Inr None
                  else and_then (copy raw pe 4) (\<lambda>sig.
                    if sig \<noteq> pe_sig then Inr None else parse_coff raw sig_end img)))"

definition segment_of :: "u8 list \<Rightarrow> pe_image \<Rightarrow> sect_hdr \<Rightarrow> fault + segment" where
  "segment_of raw img sh =
     (let seg = \<lparr>sg_name = c_string (sh_name sh), sg_va = img_base img + ucast (sh_vrva sh),
                 sg_size = ucast (if sh_vsize sh \<noteq> 0 then max (sh_vsize sh) (sh_raw_sz sh) else sh_raw_sz sh),
                 sg_file_off = ucast (sh_raw_ptr sh), sg_file_sz = ucast (sh_raw_sz sh), sg_flags = sh_chars sh,
                 sg_data = []\<rparr> in
      case safe_add (unat (sh_raw_ptr sh)) (unat (sh_raw_sz sh)) of None \<Rightarrow> Inr seg
      | Some raw_end \<Rightarrow>
          if raw_end \<le> length raw
          then and_then (copy raw (unat (sh_raw_ptr sh)) (unat (sh_raw_sz sh))) (\<lambda>d. Inr (seg\<lparr>sg_data := d\<rparr>))
          else Inr seg)"

fun sections_from :: "u8 list \<Rightarrow> nat \<Rightarrow> nat list \<Rightarrow> pe_image \<Rightarrow> fault + pe_image" where
  "sections_from raw off [] img = Inr img"
| "sections_from raw off (i # is) img =
     (case safe_add off (i * 40) of None \<Rightarrow> Inr img
      | Some e \<Rightarrow> and_then (ptr_at raw e 40) (\<lambda>p. case p of None \<Rightarrow> Inr img
          | Some bs \<Rightarrow> and_then (segment_of raw img (sect_hdr_at bs)) (\<lambda>seg.
              sections_from raw off is (img\<lparr>img_segments := img_segments img @ [seg]\<rparr>))))"

definition parse_sections :: "u8 list \<Rightarrow> pe_image \<Rightarrow> fault + pe_image option" where
  "parse_sections raw img =
     and_then (ptr_at raw 0 64) (\<lambda>p. case p of None \<Rightarrow> Inr None
       | Some dos \<Rightarrow> (case safe_add (unat (dh_lfanew (dos_hdr_at dos))) 4 of None \<Rightarrow> Inr None
         | Some coff_off \<Rightarrow> and_then (ptr_at raw coff_off 20) (\<lambda>p. case p of None \<Rightarrow> Inr None
             | Some bs \<Rightarrow> (case safe_add coff_off (20 + unat (ch_opt_size (coff_hdr_at bs))) of None \<Rightarrow> Inr None
                 | Some sec_off \<Rightarrow>
                     and_then (sections_from raw sec_off [0..<unat (ch_num_sections (coff_hdr_at bs))] img)
                       (\<lambda>img. Inr (Some img))))))"

section \<open>Data directories\<close>

text \<open>
  The directory \<open>k\<close> of the optional header, as the three parsers look it up again; \<open>None\<close> is their
  early return.
\<close>

definition opt_off_of :: "u8 list \<Rightarrow> fault + nat option" where
  "opt_off_of raw =
     and_then (ptr_at raw 0 64) (\<lambda>p. case p of None \<Rightarrow> Inr None
       | Some dos \<Rightarrow> Inr (safe_add (unat (dh_lfanew (dos_hdr_at dos)) + 4) 20))"

definition dir_of :: "u8 list \<Rightarrow> nat \<Rightarrow> bool \<Rightarrow> nat \<Rightarrow> fault + data_dir option" where
  "dir_of raw off x64 k =
     and_then (ptr_at raw off (opt_size_of x64)) (\<lambda>p. case p of None \<Rightarrow> Inr None
       | Some bs \<Rightarrow> let oh = opt_hdr_at x64 bs in
           if unat (oh_num_dd oh) < k + 1 then Inr None else Inr (Some (oh_dd oh ! k)))"

definition data_dir_of :: "u8 list \<Rightarrow> nat \<Rightarrow> fault + data_dir option" where
  "data_dir_of raw k =
     and_then (opt_off_of raw) (\<lambda>q. case q of None \<Rightarrow> Inr None
       | Some off \<Rightarrow>
           if length raw < off + 2 then Inr None
           else and_then (copy raw off 2) (\<lambda>bs. dir_of raw off ((fld bs 0 2 :: u16) = 0x20B) k))"

section \<open>Imports\<close>

text \<open>\<open>h_off + 2 < size_\<close> adds in 32 bits.\<close>

definition import_of :: "u16 \<Rightarrow> u8 list \<Rightarrow> pe_image \<Rightarrow> bool \<Rightarrow> string \<Rightarrow> va_t \<Rightarrow> u64 \<Rightarrow> fault + import_entry" where
  "import_of undef raw img x64 dll iat e =
     (let imp = \<lparr>im_dll = dll, im_name = [], im_ordinal = undef, im_iat_addr = iat\<rparr> in
      if e AND (if x64 then 0x8000000000000000 else 0x80000000) \<noteq> 0
      then Inr (imp\<lparr>im_ordinal := ucast (e AND 0xFFFF),
                    im_name := ''ord_'' @ dec_str (unat (ucast (e AND 0xFFFF) :: u16))\<rparr>)
      else let h = rva_to_raw img (ucast e) in
        if h \<noteq> 0 \<and> unat (h + 2) < length raw
        then and_then (copy raw (unat h) 2) (\<lambda>bs.
               Inr (imp\<lparr>im_ordinal := fld bs 0 2, im_name := safe_string raw (unat h + 2)\<rparr>))
        else Inr imp)"

text \<open>The lookup table of one library: \<open>c\<close> entries so far, the next at \<open>t\<close>, its slot at \<open>iat\<close>.\<close>

function ilt_loop ::
  "u16 \<Rightarrow> u8 list \<Rightarrow> pe_image \<Rightarrow> bool \<Rightarrow> string \<Rightarrow> u32 \<Rightarrow> u32 \<Rightarrow> u32 \<Rightarrow> fault + import_entry list" where
  "ilt_loop undef raw img x64 dll c t iat =
     (let w = (if x64 then 8 else 4) in
      if t = 0 \<or> length raw \<le> unat t \<or> k_max_ilt_entries \<le> c \<or> length raw < unat (t + of_nat w) then Inr []
      else and_then (copy raw (unat t) w) (\<lambda>bs. let e = (fld bs 0 w :: u64) in
        if e = 0 then Inr []
        else and_then (import_of undef raw img x64 dll (img_base img + ucast iat) e) (\<lambda>imp.
          and_then (ilt_loop undef raw img x64 dll (c + 1) (t + of_nat w) (iat + of_nat w)) (\<lambda>imps. Inr (imp # imps)))))"
  by pat_completeness auto
termination
proof (relation "measure (\<lambda>(undef, raw, img, x64, dll, c, t, iat). 500000 - unat c)", goal_cases)
  case (2 undef raw img x64 dll c t iat w bs e imp)
  then have "\<not> k_max_ilt_entries \<le> c" by blast
  then have "unat c < 500000" by (simp add: k_max_ilt_entries_def word_le_nat_alt)
  then show ?case by (simp add: unat_word_ariths)
qed simp

declare ilt_loop.simps [simp del]

text \<open>The import descriptors: \<open>n\<close> so far, the next at \<open>off\<close>.\<close>

function descs_from :: "u16 \<Rightarrow> u8 list \<Rightarrow> pe_image \<Rightarrow> bool \<Rightarrow> u32 \<Rightarrow> u32 \<Rightarrow> fault + import_entry list" where
  "descs_from undef raw img x64 n off =
     (if k_max_imports \<le> n then Inr []
      else and_then (ptr_at raw (unat off) 20) (\<lambda>p. case p of None \<Rightarrow> Inr []
        | Some bs \<Rightarrow> let d = imp_desc_at bs in
            if id_orig_thunk d = 0 \<and> id_thunk d = 0 then Inr []
            else let dll = safe_string raw (unat (rva_to_raw img (id_name_rva d)));
                     thunk = (if id_orig_thunk d \<noteq> 0 then id_orig_thunk d else id_thunk d) in
              and_then (ilt_loop undef raw img x64 dll 0 (rva_to_raw img thunk) (id_thunk d)) (\<lambda>imps.
                and_then (descs_from undef raw img x64 (n + 1) (off + 20)) (\<lambda>more. Inr (imps @ more)))))"
  by pat_completeness auto
termination
proof (relation "measure (\<lambda>(undef, raw, img, x64, n, off). 1000000 - unat n)", goal_cases)
  case (2 undef raw img x64 n off)
  then have "\<not> k_max_imports \<le> n" by blast
  then have "unat n < 1000000" by (simp add: k_max_imports_def word_le_nat_alt)
  then show ?case by (simp add: unat_word_ariths)
qed simp

declare descs_from.simps [simp del]

definition parse_imports :: "u16 \<Rightarrow> u8 list \<Rightarrow> pe_image \<Rightarrow> fault + bool \<times> pe_image" where
  "parse_imports undef raw img =
     and_then (data_dir_of raw 1) (\<lambda>q. case q of None \<Rightarrow> Inr (False, img)
       | Some dir \<Rightarrow>
           if dd_rva dir = 0 then Inr (True, img)
           else let off = rva_to_raw img (dd_rva dir) in
             if off = 0 then Inr (False, img)
             else and_then (descs_from undef raw img (img_arch img = X64) 0 off) (\<lambda>imps.
               Inr (True, img\<lparr>img_imports := img_imports img @ imps\<rparr>)))"

section \<open>Exports\<close>

text \<open>The names by index of their function; a later name of the same function replaces the earlier.\<close>

fun export_names :: "u8 list \<Rightarrow> pe_image \<Rightarrow> exp_dir \<Rightarrow> nat \<Rightarrow> nat \<Rightarrow> nat list \<Rightarrow> (nat \<times> string) list \<Rightarrow>
    fault + (nat \<times> string) list" where
  "export_names raw img d names_off ords_off [] acc = Inr acc"
| "export_names raw img d names_off ords_off (i # is) acc =
     (if names_off = 0 \<or> ords_off = 0 then Inr acc
      else if length raw < names_off + i * 4 + 4 \<or> length raw < ords_off + i * 2 + 2 then Inr acc
      else and_then (copy raw (names_off + i * 4) 4) (\<lambda>nb. and_then (copy raw (ords_off + i * 2) 2) (\<lambda>ob.
        let k = unat (fld ob 0 2 :: u16) in
        export_names raw img d names_off ords_off is
          (if k < unat (ed_num_funcs d)
           then AList.update k (safe_string raw (unat (rva_to_raw img (fld nb 0 4)))) acc else acc))))"

definition name_of_export :: "(nat \<times> string) list \<Rightarrow> nat \<Rightarrow> string" where
  "name_of_export names k = (case map_of names k of Some n \<Rightarrow> n | None \<Rightarrow> [])"

definition export_of :: "u8 list \<Rightarrow> pe_image \<Rightarrow> data_dir \<Rightarrow> exp_dir \<Rightarrow> string \<Rightarrow> nat \<Rightarrow> u32 \<Rightarrow> export_entry" where
  "export_of raw img dir d name k rva =
     (let fwd = dd_rva dir \<le> rva \<and> (ucast rva :: u64) < ucast (dd_rva dir) + ucast (dd_size dir) in
      \<lparr>ex_name = name, ex_ordinal = ucast (of_nat k + ed_ord_base d), ex_addr = img_base img + ucast rva,
       ex_forwarded = fwd, ex_forwarder = (if fwd then safe_string raw (unat (rva_to_raw img rva)) else [])\<rparr>)"

fun exports_from :: "u8 list \<Rightarrow> pe_image \<Rightarrow> data_dir \<Rightarrow> exp_dir \<Rightarrow> nat \<Rightarrow> (nat \<times> string) list \<Rightarrow> nat list \<Rightarrow>
    fault + export_entry list" where
  "exports_from raw img dir d funcs_off names [] = Inr []"
| "exports_from raw img dir d funcs_off names (k # ks) =
     (if length raw < funcs_off + k * 4 + 4 then Inr []
      else and_then (copy raw (funcs_off + k * 4) 4) (\<lambda>bs. let rva = (fld bs 0 4 :: u32) in
        and_then (exports_from raw img dir d funcs_off names ks) (\<lambda>es.
          Inr (if rva = 0 then es else export_of raw img dir d (name_of_export names k) k rva # es))))"

definition parse_export_dir :: "u8 list \<Rightarrow> pe_image \<Rightarrow> data_dir \<Rightarrow> exp_dir \<Rightarrow> fault + bool \<times> pe_image" where
  "parse_export_dir raw img dir d =
     (let at = (\<lambda>rva. unat (rva_to_raw img rva)) in
      if k_max_exports < ed_num_funcs d \<or> k_max_exports < ed_num_names d \<or> at (ed_funcs_rva d) = 0
      then Inr (False, img)
      else and_then (export_names raw img d (at (ed_names_rva d)) (at (ed_ords_rva d)) [0..<unat (ed_num_names d)] [])
        (\<lambda>names. and_then (exports_from raw img dir d (at (ed_funcs_rva d)) names [0..<unat (ed_num_funcs d)])
          (\<lambda>es. Inr (True, img\<lparr>img_exports := img_exports img @ es\<rparr>))))"

definition parse_exports :: "u8 list \<Rightarrow> pe_image \<Rightarrow> fault + bool \<times> pe_image" where
  "parse_exports raw img =
     and_then (data_dir_of raw 0) (\<lambda>q. case q of None \<Rightarrow> Inr (False, img)
       | Some dir \<Rightarrow>
           if dd_rva dir = 0 then Inr (True, img)
           else let off = rva_to_raw img (dd_rva dir) in
             if off = 0 then Inr (False, img)
             else and_then (ptr_at raw (unat off) 40) (\<lambda>p. case p of None \<Rightarrow> Inr (False, img)
               | Some bs \<Rightarrow> parse_export_dir raw img dir (exp_dir_at bs)))"

section \<open>Exception directory\<close>

fun rt_funcs_from :: "u8 list \<Rightarrow> pe_image \<Rightarrow> nat \<Rightarrow> nat list \<Rightarrow> fault + runtime_func list" where
  "rt_funcs_from raw img off [] = Inr []"
| "rt_funcs_from raw img off (i # is) =
     (case safe_add off (i * 12) of None \<Rightarrow> Inr []
      | Some e \<Rightarrow> and_then (ptr_at raw e 12) (\<lambda>p. case p of None \<Rightarrow> Inr []
          | Some bs \<Rightarrow>
              if (fld bs 0 4 :: u32) = 0 then Inr []
              else and_then (rt_funcs_from raw img off is) (\<lambda>fs.
                Inr (\<lparr>rf_start = img_base img + ucast (fld bs 0 4 :: u32),
                      rf_end = img_base img + ucast (fld bs 4 4 :: u32)\<rparr> # fs))))"

definition parse_exceptions :: "u8 list \<Rightarrow> pe_image \<Rightarrow> fault + pe_image" where
  "parse_exceptions raw img =
     (if img_arch img \<noteq> X64 then Inr img
      else and_then (opt_off_of raw) (\<lambda>q. case q of None \<Rightarrow> Inr img
        | Some off \<Rightarrow> and_then (dir_of raw off True 3) (\<lambda>q. case q of None \<Rightarrow> Inr img
          | Some dir \<Rightarrow>
              if dd_rva dir = 0 \<or> dd_size dir = 0 \<or> rva_to_raw img (dd_rva dir) = 0 then Inr img
              else and_then
                (rt_funcs_from raw img (unat (rva_to_raw img (dd_rva dir)))
                   [0..<min (unat (dd_size dir) div 12) k_max_exceptions])
                (\<lambda>fs. Inr (img\<lparr>img_runtime_funcs := img_runtime_funcs img @ fs\<rparr>)))))"

section \<open>Loading\<close>

definition parse_dirs :: "u16 \<Rightarrow> u8 list \<Rightarrow> pe_image \<Rightarrow> fault + pe_image" where
  "parse_dirs undef raw img =
     and_then (parse_imports undef raw img) (\<lambda>(ok, img). and_then (parse_exports raw img) (\<lambda>(ok, img).
       parse_exceptions raw img))"

definition load_buffer :: "u16 \<Rightarrow> u8 list \<Rightarrow> fault + pe_image option" where
  "load_buffer undef raw =
     (if length raw < 64 then Inr None
      else and_then (parse_headers raw (empty_image raw)) (\<lambda>q. case q of None \<Rightarrow> Inr None
        | Some img \<Rightarrow> and_then (parse_sections raw img) (\<lambda>q. case q of None \<Rightarrow> Inr None
          | Some img \<Rightarrow> and_then (parse_dirs undef raw img) (\<lambda>img. Inr (Some img)))))"

text \<open>\<open>load\<close>: the bytes of the file, if it could be opened.\<close>

definition load_file :: "u16 \<Rightarrow> u8 list option \<Rightarrow> fault + pe_image option" where
  "load_file undef contents =
     (case contents of None \<Rightarrow> Inr None
      | Some raw \<Rightarrow>
          if k_max_file_size < length raw then Inr None
          else if length raw < 64 then Inr None else load_buffer undef raw)"

end
