(* ===== verification/Pe_Correct.thy ===== *)
theory Pe_Correct
  imports Pe_Loader
begin

text \<open>
  The PE loader on files of at most two gigabytes: what its headers and sections parse to, that the only
  faults are the division by a zero section alignment and the read of an import hint at the two last
  32-bit offsets, and that its image meets the assumptions of the analyser's segment index when no
  sections overlap.
\<close>

section \<open>Reads that pass their check\<close>

lemma k_max_file_size_eq: "k_max_file_size = 2147483648"
  by (simp add: k_max_file_size_def)

lemma copy_ok [simp]: "off + n \<le> length raw \<Longrightarrow> copy raw off n = Inr (take n (drop off raw))"
  by (simp add: copy_def read_bytes_Some)

lemma copy_fault: "copy raw off n = Inl f \<longleftrightarrow> f = Out_Of_Bounds \<and> length raw < off + n"
  using read_bytes_None [of raw off n] by (auto simp: copy_def simp del: read_bytes_None split: option.splits)

lemma unat_sum: "a + b < 2 ^ 64 \<Longrightarrow> unat (of_nat a + of_nat b :: u64) = a + b"
  by (simp only: of_nat_add [symmetric] Word.unat_of_nat) simp

lemma safe_add_ok: "a + b < 2 ^ 64 \<Longrightarrow> safe_add a b = Some (a + b)"
  by (simp add: safe_add_def Let_def word_less_nat_alt unat_sum Word.unat_of_nat)

lemma ptr_at_ok:
  assumes "off + n < 2 ^ 64"
  shows "ptr_at raw off n = Inr (if length raw < off + n then None else Some (take n (drop off raw)))"
  using assms by (simp add: ptr_at_def unat_sum)

lemma unat_lt: "unat (w :: 32 word) < 4294967296" "unat (v :: 16 word) < 65536"
  using unsigned_less [of w, where 'a = nat] unsigned_less [of v, where 'a = nat] by simp_all

lemma unat_up [simp]: "unat (ucast (w :: 32 word) :: 64 word) = unat w"
  using unat_lt(1) [of w] by (simp add: unsigned_ucast_eq unsigned_take_bit_eq take_bit_nat_eq_self)

lemma unat_down: "unat (ucast (v :: 64 word) :: 32 word) = unat v mod 4294967296"
  by (simp add: unsigned_ucast_eq unsigned_take_bit_eq take_bit_eq_mod)

section \<open>Headers\<close>

text \<open>The header of a file, read without checks, and whether the loader accepts it: \<open>Some x64\<close>.\<close>

definition lfanew :: "u8 list \<Rightarrow> nat" where
  "lfanew raw = unat (dh_lfanew (dos_hdr_at (take 64 raw)))"

definition coff_of :: "u8 list \<Rightarrow> coff_hdr" where
  "coff_of raw = coff_hdr_at (take 20 (drop (lfanew raw + 4) raw))"

definition magic_of :: "u8 list \<Rightarrow> u16" where
  "magic_of raw = fld (take 2 (drop (lfanew raw + 24) raw)) 0 2"

definition opt_of :: "u8 list \<Rightarrow> bool \<Rightarrow> opt_hdr" where
  "opt_of raw x64 = opt_hdr_at x64 (take (opt_size_of x64) (drop (lfanew raw + 24) raw))"

definition pe_kind :: "u8 list \<Rightarrow> bool option" where
  "pe_kind raw =
     (if 64 \<le> length raw \<and> dh_magic (dos_hdr_at (take 64 raw)) = 0x5A4D \<and> lfanew raw + 26 \<le> length raw \<and>
         take 4 (drop (lfanew raw) raw) = pe_sig \<and> ch_num_sections (coff_of raw) \<le> 256
      then (if magic_of raw = 0x20B \<and> lfanew raw + 24 + 240 \<le> length raw then Some True
            else if magic_of raw = 0x10B \<and> lfanew raw + 24 + 224 \<le> length raw then Some False else None)
      else None)"

lemma lfanew_lt: "lfanew raw < 4294967296"
  by (simp add: lfanew_def unat_lt)

lemma parse_opt_hdr_eq:
  assumes "off + 240 < 2 ^ 64"
  shows "parse_opt_hdr raw off x64 img =
    (let oh = opt_hdr_at x64 (take (opt_size_of x64) (drop off raw)) in
     if length raw < off + opt_size_of x64 then Inr None
     else if oh_sect_align oh = 0 then Inl Div_By_Zero else Inr (Some (with_opt_hdr x64 oh img)))"
  using assms by (simp add: parse_opt_hdr_def ptr_at_ok opt_size_of_def check_alignment_def Let_def)

text \<open>
  Reading the headers is total up to the alignment: the loader accepts exactly the files \<open>pe_kind\<close>
  accepts, fills in architecture, base and entry from the optional header, and divides by zero for every
  accepted file whose section alignment is zero.
\<close>

lemma parse_headers_exact:
  "parse_headers raw img =
     (case pe_kind raw of None \<Rightarrow> Inr None
      | Some x64 \<Rightarrow> if oh_sect_align (opt_of raw x64) = 0 then Inl Div_By_Zero
                    else Inr (Some (with_opt_hdr x64 (opt_of raw x64) img)))"
proof -
  have l: "lfanew raw < 4294967296" by (rule lfanew_lt)
  have magic: "parse_magic raw (lfanew raw + 24) img =
      (if length raw < lfanew raw + 26 then Inr None
       else if magic_of raw = 0x20B then parse_opt_hdr raw (lfanew raw + 24) True img
       else if magic_of raw = 0x10B then parse_opt_hdr raw (lfanew raw + 24) False img else Inr None)"
    by (simp add: parse_magic_def magic_of_def)
  have coff: "parse_coff raw (lfanew raw + 4) img =
      (if length raw < lfanew raw + 24 \<or> 256 < ch_num_sections (coff_of raw) then Inr None
       else parse_magic raw (lfanew raw + 24) img)"
    using l by (simp add: parse_coff_def ptr_at_ok safe_add_ok coff_of_def k_max_sections_def add.commute [of 24])
  have "parse_headers raw img =
      (if length raw < 64 \<or> dh_magic (dos_hdr_at (take 64 raw)) \<noteq> 0x5A4D \<or> length raw < lfanew raw + 4 \<or>
          take 4 (drop (lfanew raw) raw) \<noteq> pe_sig then Inr None else parse_coff raw (lfanew raw + 4) img)"
    using l by (simp add: parse_headers_def ptr_at_ok safe_add_ok lfanew_def Let_def)
  with l show ?thesis
    by (auto simp: coff magic parse_opt_hdr_eq pe_kind_def opt_of_def opt_size_of_def Let_def not_less)
qed

section \<open>Sections\<close>

definition sect_off :: "u8 list \<Rightarrow> nat" where
  "sect_off raw = lfanew raw + 24 + unat (ch_opt_size (coff_of raw))"

definition sect_at :: "u8 list \<Rightarrow> nat \<Rightarrow> sect_hdr" where
  "sect_at raw i = sect_hdr_at (take 40 (drop (sect_off raw + i * 40) raw))"

text \<open>The section headers that lie in the file, up to the first that does not.\<close>

definition sect_hdrs :: "u8 list \<Rightarrow> sect_hdr list" where
  "sect_hdrs raw = map (sect_at raw)
     (takeWhile (\<lambda>i. sect_off raw + i * 40 + 40 \<le> length raw) [0..<unat (ch_num_sections (coff_of raw))])"

text \<open>The segment of a header: its bytes if the file holds them all, else none.\<close>

definition plain_segment :: "u8 list \<Rightarrow> va_t \<Rightarrow> sect_hdr \<Rightarrow> segment" where
  "plain_segment raw base sh =
     \<lparr>sg_name = c_string (sh_name sh), sg_va = base + ucast (sh_vrva sh),
      sg_size = ucast (if sh_vsize sh \<noteq> 0 then max (sh_vsize sh) (sh_raw_sz sh) else sh_raw_sz sh),
      sg_file_off = ucast (sh_raw_ptr sh), sg_file_sz = ucast (sh_raw_sz sh), sg_flags = sh_chars sh,
      sg_data = (if unat (sh_raw_ptr sh) + unat (sh_raw_sz sh) \<le> length raw
                 then take (unat (sh_raw_sz sh)) (drop (unat (sh_raw_ptr sh)) raw) else [])\<rparr>"

lemma segment_of_eq: "segment_of raw img sh = Inr (plain_segment raw (img_base img) sh)"
proof -
  have "unat (sh_raw_ptr sh) + unat (sh_raw_sz sh) < 2 ^ 64"
    using unat_lt(1) [of "sh_raw_ptr sh"] unat_lt(1) [of "sh_raw_sz sh"] by simp
  then show ?thesis by (simp add: segment_of_def plain_segment_def safe_add_ok Let_def)
qed

lemma sections_from_eq:
  assumes "\<forall>i \<in> set is. off + i * 40 + 40 < 2 ^ 64"
  shows "sections_from raw off is img = Inr (img\<lparr>img_segments := img_segments img @
    map (\<lambda>i. plain_segment raw (img_base img) (sect_hdr_at (take 40 (drop (off + i * 40) raw))))
      (takeWhile (\<lambda>i. off + i * 40 + 40 \<le> length raw) is)\<rparr>)"
  using assms
proof (induction "is" arbitrary: img)
  case (Cons i "is")
  then show ?case by (simp add: safe_add_ok ptr_at_ok segment_of_eq)
qed simp

lemma parse_sections_eq:
  assumes "pe_kind raw = Some x64"
  shows "parse_sections raw img =
    Inr (Some (img\<lparr>img_segments := img_segments img @ map (plain_segment raw (img_base img)) (sect_hdrs raw)\<rparr>))"
proof -
  have l: "lfanew raw < 4294967296" by (rule lfanew_lt)
  have b: "64 \<le> length raw" "lfanew raw + 24 \<le> length raw"
    using assms by (auto simp: pe_kind_def split: if_splits)
  have o: "sect_off raw < 4295032856"
    using l unat_lt(2) [of "ch_opt_size (coff_of raw)"] by (simp add: sect_off_def)
  have lt: "\<forall>i \<in> set [0..<unat (ch_num_sections (coff_of raw))]. sect_off raw + i * 40 + 40 < 2 ^ 64"
    using o unat_lt(2) [of "ch_num_sections (coff_of raw)"] by auto
  have "safe_add (lfanew raw + 4) (20 + unat (ch_opt_size (coff_of raw))) = Some (sect_off raw)"
    using l unat_lt(2) [of "ch_opt_size (coff_of raw)"] by (subst safe_add_ok) (auto simp: sect_off_def)
  with l b sections_from_eq [OF lt] show ?thesis
    by (simp add: parse_sections_def ptr_at_ok safe_add_ok lfanew_def [symmetric] coff_of_def [symmetric]
        sect_hdrs_def sect_at_def comp_def)
qed


section \<open>Imports\<close>

text \<open>No import hint lies at one of the two last 32-bit offsets.\<close>

definition hints_ok :: "pe_image \<Rightarrow> bool" where
  "hints_ok img \<longleftrightarrow> (\<forall>rva. rva_to_raw img rva < 0xFFFFFFFE)"

definition ord_flag :: "bool \<Rightarrow> u64" where
  "ord_flag x64 = (if x64 then 0x8000000000000000 else 0x80000000)"

lemma import_of_fault:
  assumes "length raw \<le> k_max_file_size"
  shows "import_of undef raw img x64 dll iat e = Inl f \<longleftrightarrow>
    f = Out_Of_Bounds \<and> e AND ord_flag x64 = 0 \<and> 0xFFFFFFFE \<le> rva_to_raw img (ucast e) \<and>
    unat (rva_to_raw img (ucast e) + 2) < length raw"
proof -
  let ?h = "rva_to_raw img (ucast e)"
  have "0xFFFFFFFE \<le> ?h" if "unat (?h + 2) < length raw" "length raw < unat ?h + 2"
    using that by (rule_tac ccontr) (simp add: not_le word_less_nat_alt unat_word_ariths)
  moreover have "length raw < unat ?h + 2 \<and> ?h \<noteq> 0" if "0xFFFFFFFE \<le> ?h"
    using that assms by (auto simp: k_max_file_size_eq word_le_nat_alt)
  ultimately show ?thesis
    by (auto simp: import_of_def ord_flag_def Let_def and_then_eq copy_fault)
qed


definition plain_import :: "u16 \<Rightarrow> u8 list \<Rightarrow> pe_image \<Rightarrow> bool \<Rightarrow> string \<Rightarrow> va_t \<Rightarrow> u64 \<Rightarrow> import_entry" where
  "plain_import undef raw img x64 dll iat e =
     (let h = rva_to_raw img (ucast e); o16 = (ucast (e AND 0xFFFF) :: u16) in
      if e AND ord_flag x64 \<noteq> 0
      then \<lparr>im_dll = dll, im_name = ''ord_'' @ dec_str (unat o16), im_ordinal = o16, im_iat_addr = iat\<rparr>
      else if h \<noteq> 0 \<and> unat h + 2 < length raw
      then \<lparr>im_dll = dll, im_name = safe_string raw (unat h + 2), im_ordinal = fld (take 2 (drop (unat h) raw)) 0 2,
            im_iat_addr = iat\<rparr>
      else \<lparr>im_dll = dll, im_name = [], im_ordinal = undef, im_iat_addr = iat\<rparr>)"

lemma import_of_ok:
  assumes "hints_ok img"
  shows "import_of undef raw img x64 dll iat e = Inr (plain_import undef raw img x64 dll iat e)"
proof -
  have h: "unat (rva_to_raw img (ucast e)) < 4294967294"
    using assms by (auto simp: hints_ok_def word_less_nat_alt)
  then have "unat (rva_to_raw img (ucast e) + 2) = unat (rva_to_raw img (ucast e)) + 2"
    by (simp add: unat_word_ariths)
  with h show ?thesis by (auto simp: import_of_def plain_import_def ord_flag_def Let_def)
qed

text \<open>The \<open>k\<close>th entry of the lookup table at \<open>t\<close>, and how many entries there are before a zero or the end.\<close>

definition ilt_width :: "bool \<Rightarrow> nat" where
  "ilt_width x64 = (if x64 then 8 else 4)"

definition ilt_entry :: "u8 list \<Rightarrow> bool \<Rightarrow> nat \<Rightarrow> nat \<Rightarrow> u64" where
  "ilt_entry raw x64 t k = fld (take (ilt_width x64) (drop (t + k * ilt_width x64) raw)) 0 (ilt_width x64)"

definition ilt_entries :: "u8 list \<Rightarrow> bool \<Rightarrow> nat \<Rightarrow> nat \<Rightarrow> nat list" where
  "ilt_entries raw x64 t m = takeWhile
     (\<lambda>k. t + (k + 1) * ilt_width x64 \<le> length raw \<and> ilt_entry raw x64 t k \<noteq> 0) [0..<m]"

definition lib_imports :: "u16 \<Rightarrow> u8 list \<Rightarrow> pe_image \<Rightarrow> bool \<Rightarrow> string \<Rightarrow> nat \<Rightarrow> u32 \<Rightarrow> nat \<Rightarrow> import_entry list" where
  "lib_imports undef raw img x64 dll t iat m =
     map (\<lambda>k. plain_import undef raw img x64 dll (img_base img + ucast (iat + of_nat (k * ilt_width x64)))
                (ilt_entry raw x64 t k)) (ilt_entries raw x64 t m)"

lemma ilt_width_pos [simp]: "0 < ilt_width x64"
  by (simp add: ilt_width_def)

lemma ilt_entry_Suc: "ilt_entry raw x64 t (Suc k) = ilt_entry raw x64 (t + ilt_width x64) k"
  by (simp add: ilt_entry_def algebra_simps)

lemma ilt_entries_Suc:
  "ilt_entries raw x64 t (Suc m) =
     (if t + ilt_width x64 \<le> length raw \<and> ilt_entry raw x64 t 0 \<noteq> 0
      then 0 # map Suc (ilt_entries raw x64 (t + ilt_width x64) m) else [])"
  by (simp add: ilt_entries_def upt_conv_Cons map_Suc_upt [symmetric] takeWhile_map comp_def ilt_entry_Suc add.assoc
      del: upt_Suc)

lemma lib_imports_Suc:
  "lib_imports undef raw img x64 dll t iat (Suc m) =
     (if t + ilt_width x64 \<le> length raw \<and> ilt_entry raw x64 t 0 \<noteq> 0
      then plain_import undef raw img x64 dll (img_base img + ucast iat) (ilt_entry raw x64 t 0)
        # lib_imports undef raw img x64 dll (t + ilt_width x64) (iat + of_nat (ilt_width x64)) m else [])"
  by (simp add: lib_imports_def ilt_entries_Suc ilt_entry_Suc comp_def algebra_simps)

lemma ilt_loop_exact:
  assumes "hints_ok img" "length raw \<le> k_max_file_size"
  shows "t \<noteq> 0 \<Longrightarrow> unat c + m = 500000 \<Longrightarrow>
    ilt_loop undef raw img x64 dll c t iat = Inr (lib_imports undef raw img x64 dll (unat t) iat m)"
proof (induction m arbitrary: c t iat)
  case 0
  then have "k_max_ilt_entries \<le> c" by (simp add: k_max_ilt_entries_def word_le_nat_alt)
  then show ?case by (simp add: ilt_loop.simps [of _ _ _ _ _ c] lib_imports_def ilt_entries_def)
next
  case (Suc m)
  let ?w = "ilt_width x64"
  have w: "(if x64 then 8 else 4) = ?w" "(if x64 then 8 else 4) = (of_nat ?w :: u32)" by (simp_all add: ilt_width_def)
  have c: "\<not> k_max_ilt_entries \<le> c" "unat (c + 1) + m = 500000"
    using Suc.prems by (simp_all add: k_max_ilt_entries_def word_le_nat_alt unat_word_ariths)
  show ?case
  proof (cases "unat t + ?w \<le> length raw")
    case True
    then have tw: "unat (t + of_nat ?w) = unat t + ?w"
      using assms(2) by (simp add: k_max_file_size_eq unat_word_ariths ilt_width_def split: if_splits)
    then have "t + of_nat ?w \<noteq> 0" by (metis add_is_0 ilt_width_pos not_gr_zero unat_0)
    note IH = Suc.IH [OF this c(2), unfolded tw]
    have "unat t < length raw" using True ilt_width_pos [of x64] by linarith
    then show ?thesis
      using True c(1) Suc.prems(1) tw IH
      by (subst ilt_loop.simps)
        (simp add: w lib_imports_Suc import_of_ok [OF assms(1)] ilt_entry_def Let_def)
  next
    case False
    have "length raw \<le> unat t \<or> length raw < unat (t + of_nat ?w)"
    proof (cases "unat t < length raw")
      case True
      then have "unat (t + of_nat ?w) = unat t + ?w"
        using assms(2) by (simp add: k_max_file_size_eq unat_word_ariths ilt_width_def)
      with False show ?thesis by simp
    qed simp
    with False show ?thesis
      by (subst ilt_loop.simps) (auto simp: w lib_imports_Suc Let_def)
  qed
qed


text \<open>The \<open>k\<close>th import descriptor from \<open>off\<close>, and how many there are before an empty one or the end.\<close>

definition desc_at :: "u8 list \<Rightarrow> nat \<Rightarrow> nat \<Rightarrow> imp_desc" where
  "desc_at raw off k = imp_desc_at (take 20 (drop (off + k * 20) raw))"

definition descs :: "u8 list \<Rightarrow> nat \<Rightarrow> nat \<Rightarrow> imp_desc list" where
  "descs raw off m = map (desc_at raw off) (takeWhile
     (\<lambda>k. off + (k + 1) * 20 \<le> length raw \<and> (id_orig_thunk (desc_at raw off k) \<noteq> 0 \<or> id_thunk (desc_at raw off k) \<noteq> 0))
     [0..<m])"

definition desc_imports :: "u16 \<Rightarrow> u8 list \<Rightarrow> pe_image \<Rightarrow> bool \<Rightarrow> imp_desc \<Rightarrow> import_entry list" where
  "desc_imports undef raw img x64 d =
     (let thunk = (if id_orig_thunk d \<noteq> 0 then id_orig_thunk d else id_thunk d); t = rva_to_raw img thunk in
      if t = 0 then []
      else lib_imports undef raw img x64 (safe_string raw (unat (rva_to_raw img (id_name_rva d)))) (unat t)
             (id_thunk d) 500000)"

lemma desc_at_Suc: "desc_at raw off (Suc k) = desc_at raw (off + 20) k"
  by (simp add: desc_at_def algebra_simps)

lemma descs_Suc:
  "descs raw off (Suc m) =
     (if off + 20 \<le> length raw \<and> (id_orig_thunk (desc_at raw off 0) \<noteq> 0 \<or> id_thunk (desc_at raw off 0) \<noteq> 0)
      then desc_at raw off 0 # descs raw (off + 20) m else [])"
  by (simp add: descs_def upt_conv_Cons map_Suc_upt [symmetric] takeWhile_map comp_def desc_at_Suc add.assoc
      del: upt_Suc)

lemma desc_ilt:
  assumes "hints_ok img" "length raw \<le> k_max_file_size"
  shows "ilt_loop undef raw img x64 (safe_string raw (unat (rva_to_raw img (id_name_rva d)))) 0
    (rva_to_raw img (if id_orig_thunk d \<noteq> 0 then id_orig_thunk d else id_thunk d)) (id_thunk d) =
    Inr (desc_imports undef raw img x64 d)"
proof (cases "rva_to_raw img (if id_orig_thunk d \<noteq> 0 then id_orig_thunk d else id_thunk d) = 0")
  case True
  then show ?thesis by (simp add: ilt_loop.simps [of _ _ _ _ _ 0 0] desc_imports_def)
next
  case False
  then show ?thesis by (simp add: ilt_loop_exact [OF assms False, of 0 500000] desc_imports_def Let_def)
qed

lemma descs_from_exact:
  assumes "hints_ok img" "length raw \<le> k_max_file_size"
  shows "unat n + m = 1000000 \<Longrightarrow>
    descs_from undef raw img x64 n off = Inr (concat (map (desc_imports undef raw img x64) (descs raw (unat off) m)))"
proof (induction m arbitrary: n off)
  case 0
  then have "k_max_imports \<le> n" by (simp add: k_max_imports_def word_le_nat_alt)
  then show ?case by (simp add: descs_from.simps [of _ _ _ _ n] descs_def)
next
  case (Suc m)
  have n: "\<not> k_max_imports \<le> n" "unat (n + 1) + m = 1000000"
    using Suc.prems by (simp_all add: k_max_imports_def word_le_nat_alt unat_word_ariths)
  have p: "ptr_at raw (unat off) 20 = Inr (if length raw < unat off + 20 then None else Some (take 20 (drop (unat off) raw)))"
    using unat_lt(1) [of off] by (simp add: ptr_at_ok)
  show ?case
  proof (cases "unat off + 20 \<le> length raw")
    case True
    then have "unat (off + 20) = unat off + 20"
      using assms(2) by (simp add: k_max_file_size_eq unat_word_ariths)
    note IH = Suc.IH [OF n(2), of "off + 20", unfolded this]
    have d0: "imp_desc_at (take 20 (drop (unat off) raw)) = desc_at raw (unat off) 0" by (simp add: desc_at_def)
    show ?thesis
      using True n(1) IH desc_ilt [OF assms, of undef x64 "desc_at raw (unat off) 0"]
      by (subst descs_from.simps) (auto simp: p d0 descs_Suc Let_def)
  next
    case False
    with n(1) show ?thesis by (subst descs_from.simps) (simp add: p descs_Suc)
  qed
qed

section \<open>Data directories\<close>

lemma pe_kind_bounds:
  assumes "pe_kind raw = Some x64"
  shows "64 \<le> length raw" "lfanew raw + 24 + opt_size_of x64 \<le> length raw" "(magic_of raw = 0x20B) = x64"
  using assms by (auto simp: pe_kind_def opt_size_of_def split: if_splits)

lemma opt_off_of_eq:
  assumes "pe_kind raw = Some x64" shows "opt_off_of raw = Inr (Some (lfanew raw + 24))"
  using pe_kind_bounds(1) [OF assms] lfanew_lt [of raw]
  by (simp add: opt_off_of_def ptr_at_ok safe_add_ok lfanew_def [symmetric])

definition dir_at :: "u8 list \<Rightarrow> bool \<Rightarrow> nat \<Rightarrow> data_dir option" where
  "dir_at raw x64 k =
     (if unat (oh_num_dd (opt_of raw x64)) \<le> k then None else Some (oh_dd (opt_of raw x64) ! k))"

lemma dir_of_eq:
  assumes "pe_kind raw = Some x64" shows "dir_of raw (lfanew raw + 24) x64 k = Inr (dir_at raw x64 k)"
proof -
  have "lfanew raw + 24 + opt_size_of x64 < 2 ^ 64" using lfanew_lt [of raw] by (simp add: opt_size_of_def)
  then show ?thesis
    using pe_kind_bounds(2) [OF assms] by (auto simp: dir_of_def ptr_at_ok dir_at_def opt_of_def Let_def)
qed

lemma data_dir_of_eq:
  assumes "pe_kind raw = Some x64" shows "data_dir_of raw k = Inr (dir_at raw x64 k)"
proof -
  have "2 \<le> opt_size_of x64" by (simp add: opt_size_of_def)
  then show ?thesis
    using pe_kind_bounds [OF assms] dir_of_eq [OF assms, of k]
    by (auto simp: data_dir_of_def opt_off_of_eq [OF assms] magic_of_def)
qed


lemma parse_imports_exact:
  assumes "pe_kind raw = Some x64" "(img_arch img = X64) = x64" "hints_ok img" "length raw \<le> k_max_file_size"
  shows "parse_imports undef raw img =
    Inr (case dir_at raw x64 1 of None \<Rightarrow> (False, img)
         | Some dir \<Rightarrow>
             let off = rva_to_raw img (dd_rva dir) in
             if dd_rva dir = 0 then (True, img) else if off = 0 then (False, img)
             else (True, img\<lparr>img_imports := img_imports img @
                     concat (map (desc_imports undef raw img x64) (descs raw (unat off) 1000000))\<rparr>))"
proof -
  have "descs_from undef raw img x64 0 off =
      Inr (concat (map (desc_imports undef raw img x64) (descs raw (unat off) 1000000)))" for off
    by (rule descs_from_exact [OF assms(3,4)]) simp
  then show ?thesis
    using data_dir_of_eq [OF assms(1), of 1] assms(2)
    by (simp add: parse_imports_def Let_def split: option.split)
qed

section \<open>Exports and the exception directory do not fault\<close>

lemma export_names_total: "\<exists>names. export_names raw img d names_off ords_off is acc = Inr names"
proof (induction "is" arbitrary: acc)
  case (Cons i "is")
  show ?case
  proof (cases "names_off = 0 \<or> ords_off = 0 \<or> length raw < names_off + i * 4 + 4 \<or> length raw < ords_off + i * 2 + 2")
    case False
    then show ?thesis using Cons.IH by (auto simp: Let_def)
  qed auto
qed simp

lemma exports_from_total: "\<exists>es. exports_from raw img dir d funcs_off names ks = Inr es"
  by (induction ks) (auto simp: Let_def)

lemma rt_funcs_from_total:
  assumes "\<forall>i \<in> set is. off + i * 12 + 12 < 2 ^ 64"
  shows "\<exists>fs. rt_funcs_from raw img off is = Inr fs"
  using assms
proof (induction "is")
  case (Cons i "is")
  then show ?case by (auto simp: safe_add_ok ptr_at_ok)
qed simp

lemma parse_exports_total:
  assumes "pe_kind raw = Some x64"
  shows "\<exists>ok es. parse_exports raw img = Inr (ok, img\<lparr>img_exports := img_exports img @ es\<rparr>)"
proof -
  have dir: "\<exists>ok es. parse_export_dir raw img dir d = Inr (ok, img\<lparr>img_exports := img_exports img @ es\<rparr>)" for dir d
  proof -
    obtain names where n: "export_names raw img d (unat (rva_to_raw img (ed_names_rva d)))
        (unat (rva_to_raw img (ed_ords_rva d))) [0..<unat (ed_num_names d)] [] = Inr names"
      using export_names_total by blast
    obtain es where "exports_from raw img dir d (unat (rva_to_raw img (ed_funcs_rva d))) names
        [0..<unat (ed_num_funcs d)] = Inr es"
      using exports_from_total by blast
    with n show ?thesis
      by (cases "k_max_exports < ed_num_funcs d \<or> k_max_exports < ed_num_names d \<or>
          rva_to_raw img (ed_funcs_rva d) = 0")
        (auto simp: parse_export_dir_def Let_def intro: exI [of _ "[]"])
  qed
  have skip: "img = img\<lparr>img_exports := img_exports img @ []\<rparr>" by simp
  show ?thesis
  proof (cases "dir_at raw x64 0")
    case None
    then show ?thesis using skip data_dir_of_eq [OF assms, of 0] by (auto simp: parse_exports_def intro: exI [of _ "[]"])
  next
    case (Some dd)
    let ?off = "rva_to_raw img (dd_rva dd)"
    have p: "ptr_at raw (unat ?off) 40 =
        Inr (if length raw < unat ?off + 40 then None else Some (take 40 (drop (unat ?off) raw)))"
      using unat_lt(1) [of ?off] by (simp add: ptr_at_ok)
    then show ?thesis
      using Some skip data_dir_of_eq [OF assms, of 0] dir
      by (auto simp: parse_exports_def Let_def intro: exI [of _ "[]"])
  qed
qed

lemma parse_exceptions_total:
  assumes "pe_kind raw = Some x64" "(img_arch img = X64) = x64"
  shows "\<exists>fs. parse_exceptions raw img = Inr (img\<lparr>img_runtime_funcs := img_runtime_funcs img @ fs\<rparr>)"
proof (cases "img_arch img = X64")
  case False
  then show ?thesis by (auto simp: parse_exceptions_def intro: exI [of _ "[]"])
next
  case True
  then have k: "pe_kind raw = Some True" using assms by simp
  show ?thesis
  proof (cases "dir_at raw True 3")
    case None
    with True show ?thesis
      using opt_off_of_eq [OF k] dir_of_eq [OF k, of 3] by (auto simp: parse_exceptions_def intro: exI [of _ "[]"])
  next
    case (Some dd)
    let ?off = "rva_to_raw img (dd_rva dd)" and ?n = "min (unat (dd_size dd) div 12) k_max_exceptions"
    have "\<forall>i \<in> set [0..<?n]. unat ?off + i * 12 + 12 < 2 ^ 64"
      using unat_lt(1) [of ?off] by (auto simp: k_max_exceptions_def)
    then obtain fs where "rt_funcs_from raw img (unat ?off) [0..<?n] = Inr fs"
      using rt_funcs_from_total by blast
    with True Some show ?thesis
      using opt_off_of_eq [OF k] dir_of_eq [OF k, of 3]
      by (auto simp: parse_exceptions_def intro: exI [of _ "[]"])
  qed
qed


section \<open>The whole file\<close>

lemma ilt_loop_fault: "ilt_loop undef raw img x64 dll c t iat = Inl f \<Longrightarrow> length raw \<le> k_max_file_size \<Longrightarrow> f = Out_Of_Bounds"
proof (induction undef raw img x64 dll c t iat rule: ilt_loop.induct)
  case (1 undef raw img x64 dll c t iat)
  show ?case
    using 1(2,3) 1(1) [OF refl]
    by (subst (asm) ilt_loop.simps) (fastforce simp: Let_def and_then_eq copy_fault import_of_fault split: if_splits)
qed

lemma descs_from_fault: "descs_from undef raw img x64 n off = Inl f \<Longrightarrow> length raw \<le> k_max_file_size \<Longrightarrow> f = Out_Of_Bounds"
proof (induction undef raw img x64 n off rule: descs_from.induct)
  case (1 undef raw img x64 n off)
  have noptr: "ptr_at raw (unat off) 20 \<noteq> Inl f" using unat_lt(1) [of off] by (simp add: ptr_at_ok)
  have n: "\<not> k_max_imports \<le> n" using 1(2) by (subst (asm) descs_from.simps) (auto split: if_splits)
  obtain q where q: "ptr_at raw (unat off) 20 = Inr q"
    using 1(2) n noptr by (subst (asm) descs_from.simps) (auto simp: and_then_eq)
  obtain bs where bs: "q = Some bs"
    using 1(2) n q by (subst (asm) descs_from.simps) (auto split: option.splits)
  let ?d = "imp_desc_at bs"
  have d: "\<not> (id_orig_thunk ?d = 0 \<and> id_thunk ?d = 0)"
    using 1(2) n q bs by (subst (asm) descs_from.simps) (auto split: if_splits)
  define ilt where "ilt = ilt_loop undef raw img x64 (safe_string raw (unat (rva_to_raw img (id_name_rva ?d)))) 0
      (rva_to_raw img (if id_orig_thunk ?d \<noteq> 0 then id_orig_thunk ?d else id_thunk ?d)) (id_thunk ?d)"
  have "and_then ilt (\<lambda>imps. and_then (descs_from undef raw img x64 (n + 1) (off + 20)) (\<lambda>more. Inr (imps @ more))) = Inl f"
    using 1(2) n q bs d by (subst (asm) descs_from.simps) (auto simp: Let_def ilt_def split: if_splits)
  then consider "ilt = Inl f" | imps where "ilt = Inr imps" "descs_from undef raw img x64 (n + 1) (off + 20) = Inl f"
    by (auto simp: and_then_eq)
  then show ?case
  proof cases
    case 1
    then show ?thesis using ilt_loop_fault "1.prems"(2) unfolding ilt_def by blast
  next
    case 2
    then show ?thesis
      using "1.IH" [OF n refl d refl refl _ "1.prems"(2)] by simp
  qed
qed


lemma parse_imports_fault:
  assumes "pe_kind raw = Some x64" "length raw \<le> k_max_file_size" "parse_imports undef raw img = Inl f"
  shows "f = Out_Of_Bounds"
  using assms(3) data_dir_of_eq [OF assms(1), of 1]
  by (auto simp: parse_imports_def and_then_eq Let_def split: option.splits if_splits
      dest: descs_from_fault [OF _ assms(2)])

text \<open>The image after headers and sections, on which the directories are parsed.\<close>

definition mapped_image :: "u8 list \<Rightarrow> bool \<Rightarrow> pe_image" where
  "mapped_image raw x64 = (with_opt_hdr x64 (opt_of raw x64) (empty_image raw))
     \<lparr>img_segments := map (plain_segment raw (oh_image_base (opt_of raw x64))) (sect_hdrs raw)\<rparr>"

lemma mapped_image_simps [simp]:
  "(img_arch (mapped_image raw x64) = X64) = x64"
  "img_base (mapped_image raw x64) = oh_image_base (opt_of raw x64)"
  "img_segments (mapped_image raw x64) = map (plain_segment raw (oh_image_base (opt_of raw x64))) (sect_hdrs raw)"
  by (simp_all add: mapped_image_def with_opt_hdr_def)

lemma load_buffer_eq:
  "load_buffer undef raw =
     (case pe_kind raw of None \<Rightarrow> Inr None
      | Some x64 \<Rightarrow> if oh_sect_align (opt_of raw x64) = 0 then Inl Div_By_Zero
                    else and_then (parse_dirs undef raw (mapped_image raw x64)) (\<lambda>img. Inr (Some img)))"
proof (cases "pe_kind raw")
  case None
  then show ?thesis by (simp add: load_buffer_def parse_headers_exact)
next
  case (Some x64)
  have "img_segments (with_opt_hdr x64 oh (empty_image raw)) = []"
      "img_base (with_opt_hdr x64 oh (empty_image raw)) = oh_image_base oh" for oh
    by (simp_all add: with_opt_hdr_def empty_image_def)
  with pe_kind_bounds(1) [OF Some] show ?thesis
    by (simp add: load_buffer_def parse_headers_exact Some parse_sections_eq [OF Some] mapped_image_def)
qed

lemma parse_dirs_cases:
  assumes "pe_kind raw = Some x64" "(img_arch img = X64) = x64" "length raw \<le> k_max_file_size"
  obtains "parse_dirs undef raw img = Inl Out_Of_Bounds" "\<not> hints_ok img"
  | imps es fs where "parse_dirs undef raw img =
      Inr (img\<lparr>img_imports := img_imports img @ imps, img_exports := img_exports img @ es,
               img_runtime_funcs := img_runtime_funcs img @ fs\<rparr>)"
proof (cases "parse_imports undef raw img")
  case (Inl f)
  then have f: "f = Out_Of_Bounds" by (rule parse_imports_fault [OF assms(1,3)])
  have "\<not> hints_ok img" using parse_imports_exact [OF assms(1,2) _ assms(3), of undef] Inl by auto
  with that(1) Inl f show ?thesis by (simp add: parse_dirs_def)
next
  case (Inr r)
  obtain ok img' where r: "r = (ok, img')" by (cases r)
  obtain imps where img': "img' = img\<lparr>img_imports := img_imports img @ imps\<rparr>"
    using Inr r data_dir_of_eq [OF assms(1), of 1]
    by (auto simp: parse_imports_def and_then_eq Let_def split: option.splits if_splits
        intro: that that [of "[]"])
  obtain ok2 es where es: "parse_exports raw img' = Inr (ok2, img'\<lparr>img_exports := img_exports img' @ es\<rparr>)"
    using parse_exports_total [OF assms(1)] by blast
  obtain fs where "parse_exceptions raw (img'\<lparr>img_exports := img_exports img' @ es\<rparr>) =
      Inr (img'\<lparr>img_exports := img_exports img' @ es, img_runtime_funcs := img_runtime_funcs img' @ fs\<rparr>)"
    using parse_exceptions_total [OF assms(1), of "img'\<lparr>img_exports := img_exports img' @ es\<rparr>"] assms(2) img' by auto
  with that(2) [of fs es imps] Inr r es img' show ?thesis by (simp add: parse_dirs_def)
qed



text \<open>Sections whose file ranges end below the two last offsets have no such hint.\<close>

lemma rva_in_bound:
  assumes "\<forall>s \<in> set ss. unat (sg_file_off s) + unat (sg_file_sz s) \<le> 0xFFFFFFFE"
  shows "rva_in img rva ss < 0xFFFFFFFE"
  using assms
proof (induction ss)
  case (Cons s ss)
  show ?case
  proof (cases "seg_rva img s \<le> rva \<and> (ucast rva :: u64) < ucast (seg_rva img s) + sg_file_sz s")
    case True
    have fs: "unat (sg_file_off s) + unat (sg_file_sz s) \<le> 4294967294" using Cons.prems by simp
    have le: "unat (seg_rva img s) \<le> unat rva" using True by (simp add: word_le_nat_alt)
    have "unat (ucast rva :: u64) < unat (ucast (seg_rva img s) + sg_file_sz s :: u64)"
      using True by (simp add: word_less_nat_alt)
    then have lt: "unat rva - unat (seg_rva img s) < unat (sg_file_sz s)"
      using fs unat_lt(1) [of "seg_rva img s"] le by (simp add: unat_word_ariths)
    have d: "unat (rva - seg_rva img s) = unat rva - unat (seg_rva img s)"
      using True by (simp add: unat_sub)
    have "unat (sg_file_off s + ucast (rva - seg_rva img s) :: u64) =
        unat (sg_file_off s) + (unat rva - unat (seg_rva img s))"
      using fs lt d unat_lt(1) [of "rva - seg_rva img s"] by (simp add: unat_word_ariths)
    then have "unat (ucast (sg_file_off s + ucast (rva - seg_rva img s) :: u64) :: u32) < 4294967294"
      using fs lt by (simp add: unat_down)
    with True show ?thesis by (simp add: word_less_nat_alt)
  qed (use Cons in auto)
qed simp

lemma hints_ok_of_ranges:
  assumes "\<forall>s \<in> set (img_segments img). unat (sg_file_off s) + unat (sg_file_sz s) \<le> 0xFFFFFFFE"
  shows "hints_ok img"
  using rva_in_bound [OF assms] by (simp add: hints_ok_def rva_to_raw_def)

section \<open>The image meets the assumptions of the analyser\<close>

lemma plain_segment_size:
  "unat (sg_size (plain_segment raw base sh)) < 4294967296"
  "length (sg_data (plain_segment raw base sh)) \<le> unat (sg_size (plain_segment raw base sh))"
  "unat (sg_va (plain_segment raw base sh)) \<le> unat base + unat (sh_vrva sh)"
proof -
  show "unat (sg_size (plain_segment raw base sh)) < 4294967296"
      "length (sg_data (plain_segment raw base sh)) \<le> unat (sg_size (plain_segment raw base sh))"
      "unat (sg_va (plain_segment raw base sh)) \<le> unat base + unat (sh_vrva sh)"
    using unat_lt(1) by (auto simp: plain_segment_def max_def word_le_nat_alt unat_word_ariths)
qed

lemma no_overlap_disjoint:
  assumes "\<not> sections_overlap ss" "\<forall>s \<in> set ss. unat (sg_va s) + unat (sg_size s) < 2 ^ 64"
  shows "i < length ss \<Longrightarrow> j < i \<Longrightarrow> seg_range (ss ! i) \<inter> seg_range (ss ! j) = {}"
  using assms
proof (induction ss arbitrary: i j)
  case (Cons a ss)
  have two: "seg_range b \<inter> seg_range a = {}" if "b \<in> set ss" for b
  proof -
    have "\<not> (sg_va a < sg_va b + sg_size b \<and> sg_va b < sg_va a + sg_size a)" using Cons.prems(3) that by auto
    moreover have "unat (sg_va s + sg_size s) = unat (sg_va s) + unat (sg_size s)" if "s \<in> {a, b}" for s
    proof -
      have "unat (sg_va s) + unat (sg_size s) < 2 ^ 64" using Cons.prems(4) that \<open>b \<in> set ss\<close> by auto
      then show ?thesis by (simp add: unat_word_ariths)
    qed
    ultimately show ?thesis by (auto simp: seg_range_def word_less_nat_alt)
  qed
  obtain i' where i: "i = Suc i'" using Cons.prems(2) by (cases i) auto
  show ?case
  proof (cases j)
    case 0
    with i Cons.prems(1) two show ?thesis by simp
  next
    case (Suc j')
    with i Cons show ?thesis by simp
  qed
qed simp

text \<open>The imports of a whole file, from its import directory.\<close>

definition file_imports :: "u16 \<Rightarrow> u8 list \<Rightarrow> bool \<Rightarrow> import_entry list" where
  "file_imports undef raw x64 =
     (case dir_at raw x64 1 of None \<Rightarrow> []
      | Some dir \<Rightarrow>
          let off = rva_to_raw (mapped_image raw x64) (dd_rva dir) in
          if dd_rva dir = 0 \<or> off = 0 then []
          else concat (map (desc_imports undef raw (mapped_image raw x64) x64) (descs raw (unat off) 1000000)))"


text \<open>
  C14. When the sections of a loaded file do not overlap (which the loader checks and only reports) and its
  base leaves room for 32-bit addresses, the image meets the assumptions under which the analyser's
  lookups by address are exact: no segment wraps around, none has more bytes than it maps, no two
  overlap.
\<close>

theorem loaded_image_ok:
  assumes "length raw \<le> k_max_file_size" "load_buffer undef raw = Inr (Some img)"
    and "\<not> sections_overlap (img_segments img)" "unat (img_base img) + 2 ^ 33 \<le> 2 ^ 64"
  shows "image_ok img"
proof -
  obtain x64 where k: "pe_kind raw = Some x64" "oh_sect_align (opt_of raw x64) \<noteq> 0"
      "parse_dirs undef raw (mapped_image raw x64) = Inr img"
    using assms(2) by (auto simp: load_buffer_eq and_then_eq split: option.splits if_splits)
  let ?base = "oh_image_base (opt_of raw x64)"
  have img: "img_segments img = map (plain_segment raw ?base) (sect_hdrs raw) \<and> img_base img = ?base"
    by (rule parse_dirs_cases [OF k(1) mapped_image_simps(1) [of raw x64] assms(1), of undef]) (use k(3) in auto)
  have wf: "unat (sg_va s) + unat (sg_size s) < 2 ^ 64 \<and> length (sg_data s) \<le> unat (sg_size s)"
    if s: "s \<in> set (img_segments img)" for s
  proof -
    obtain sh where "s = plain_segment raw ?base sh" using s img by auto
    with plain_segment_size [of raw ?base sh] unat_lt(1) [of "sh_vrva sh"] assms(4) img
    show ?thesis by auto
  qed
  with no_overlap_disjoint [OF assms(3)] show ?thesis by (auto simp: image_ok_def)
qed

text \<open>
  C39. The hint check fails to protect the read: for an import by name whose hint would be at one of the two
  last 32-bit offsets, the sum wraps, the check passes and two bytes far past the end of the file are read.
\<close>

theorem hint_check_wraps:
  assumes "length raw \<le> k_max_file_size" "2 \<le> length raw" "e AND ord_flag x64 = 0"
    and "0xFFFFFFFE \<le> rva_to_raw img (ucast e)"
  shows "import_of undef raw img x64 dll iat e = Inl Out_Of_Bounds"
proof -
  have "unat (rva_to_raw img (ucast e) + 2) < 2"
    using assms(4) unat_lt(1) [of "rva_to_raw img (ucast e)"]
    by (simp add: word_le_nat_alt unat_word_ariths le_mod_geq)
  then show ?thesis using assms by (simp add: import_of_fault)
qed

end
