(* ===== verification/Pe_Example.thy ===== *)
theory Pe_Example
  imports Pe_Correct
begin

text \<open>
  Two small files for the PE loader: one with an import and a data section, and the same file with a
  section that starts at the end of the 32-bit offsets, on which the loader reads out of bounds.
\<close>

text \<open>The four bytes of a 32-bit value.\<close>

definition le32 :: "u32 \<Rightarrow> u8 list" where
  "le32 w = [ucast w, ucast (drop_bit 8 w), ucast (drop_bit 16 w), ucast (drop_bit 24 w)]"

text \<open>
  Headers at 0, 64, 68 and 88, two section headers at 312 and 352, the bytes of the first section (the import
  directory) at 392.  The import is \<open>f\<close> of \<open>d\<close>, or the lookup table entry \<open>e\<close>.
\<close>

definition zeros :: "nat \<Rightarrow> u8 list" where "zeros n = replicate n 0"

definition small_file :: "u32 \<Rightarrow> u32 \<Rightarrow> u32 \<Rightarrow> u32 \<Rightarrow> u8 list" where
  "small_file align e ptr2 size2 =
     [0x4D, 0x5A] @ zeros 58 @ le32 64 @ pe_sig @ zeros 2 @ [2, 0] @ zeros 12 @ [224, 0] @ zeros 2 @
     [0x0B, 0x01] @ zeros 14 @ le32 0x1000 @ zeros 8 @ le32 0x400000 @ le32 align @ zeros 56 @ le32 16 @
     zeros 8 @ le32 0x1000 @ zeros 116 @ [0x2E, 0x74] @ zeros 6 @ le32 0x40 @ le32 0x1000 @ le32 56 @
     le32 392 @ zeros 12 @ le32 0x60000020 @ [0x2E, 0x64] @ zeros 6 @ le32 0x10 @ le32 0x2000 @
     le32 size2 @ le32 ptr2 @ zeros 12 @ le32 0xC0000040 @ le32 0x1028 @ zeros 8 @ le32 0x1034 @
     le32 0x1028 @ zeros 20 @ le32 e @ zeros 4 @ [7, 0, 0x66, 0] @ [0x64, 0] @ zeros 2"

definition good_file :: "u8 list" where "good_file = small_file 0x1000 0x1030 0 0"
definition unaligned_file :: "u8 list" where "unaligned_file = small_file 0 0x1030 0 0"
definition hint_file :: "u8 list" where "hint_file = small_file 0x1000 0x2000 0xFFFFFFFE 0x1000"



lemma small_size [simp]: "length (small_file align e ptr2 size2) = 448"
  by (simp add: small_file_def zeros_def le32_def pe_sig_def)

lemma small_sizes [simp]: "length good_file \<le> k_max_file_size" "length unaligned_file \<le> k_max_file_size"
  by (simp_all add: good_file_def unaligned_file_def k_max_file_size_eq)

lemma unaligned_faults: "load_buffer 9 unaligned_file = Inl Div_By_Zero"
  by code_simp


lemma good_loads: "\<exists>img. load_buffer 9 good_file = Inr (Some img) \<and> \<not> sections_overlap (img_segments img) \<and>
    img_base img = 0x400000 \<and> map im_name (img_imports img) = [''f'']"
proof -
  have "(case load_buffer 9 good_file of Inr (Some img) \<Rightarrow> \<not> sections_overlap (img_segments img) \<and>
      img_base img = 0x400000 \<and> map im_name (img_imports img) = [''f''] | _ \<Rightarrow> False)"
    by code_simp
  then show ?thesis by (auto split: sum.splits option.splits)
qed

lemma loaded_image_ok_witness: "\<exists>img. load_buffer 9 good_file = Inr (Some img) \<and> image_ok img"
proof -
  obtain img where img: "load_buffer 9 good_file = Inr (Some img)" "\<not> sections_overlap (img_segments img)"
      "img_base img = 0x400000"
    using good_loads by blast
  from loaded_image_ok [OF small_sizes(1) img(1,2)] img show ?thesis by simp
qed

lemma good_hints: "hints_ok (mapped_image good_file False)"
proof (rule hints_ok_of_ranges)
  have "\<forall>s \<in> set (img_segments (mapped_image good_file False)). sg_file_off s \<le> 392 \<and> sg_file_sz s \<le> 56"
    by code_simp
  then show "\<forall>s \<in> set (img_segments (mapped_image good_file False)).
      unat (sg_file_off s) + unat (sg_file_sz s) \<le> 0xFFFFFFFE"
    by (auto simp: word_le_nat_alt)
qed



section \<open>The file that is read out of bounds\<close>

lemma hint_hdrs:
  "sect_hdrs hint_file =
     [\<lparr>sh_name = [0x2E, 0x74, 0, 0, 0, 0, 0, 0], sh_vsize = 0x40, sh_vrva = 0x1000, sh_raw_sz = 56, sh_raw_ptr = 392,
       sh_chars = 0x60000020\<rparr>,
      \<lparr>sh_name = [0x2E, 0x64, 0, 0, 0, 0, 0, 0], sh_vsize = 0x10, sh_vrva = 0x2000, sh_raw_sz = 0x1000,
       sh_raw_ptr = 0xFFFFFFFE, sh_chars = 0xC0000040\<rparr>]"
  by code_simp

lemma hint_headers:
  "pe_kind hint_file = Some False" "oh_sect_align (opt_of hint_file False) = 0x1000"
  "oh_image_base (opt_of hint_file False) = 0x400000"
  "dir_at hint_file False 1 = Some \<lparr>dd_rva = 0x1000, dd_size = 0\<rparr>"
  "imp_desc_at (take 20 (drop 392 hint_file)) = \<lparr>id_orig_thunk = 0x1028, id_name_rva = 0x1034, id_thunk = 0x1028\<rparr>"
  "(fld (take 4 (drop 432 hint_file)) 0 4 :: u64) = 0x2000"
  by code_simp+

lemma hint_rvas:
  "rva_to_raw (mapped_image hint_file False) 0x1000 = 392"
  "rva_to_raw (mapped_image hint_file False) 0x1028 = 432"
  "rva_to_raw (mapped_image hint_file False) 0x2000 = 0xFFFFFFFE"
  by (simp_all add: rva_to_raw_def hint_hdrs hint_headers seg_rva_def plain_segment_def)

lemma hint_length [simp]: "length hint_file = 448"
  by (simp add: hint_file_def)

lemma hint_check_wraps_witness:
  "import_of 9 hint_file (mapped_image hint_file False) False ''d'' 0x401028 0x2000 = Inl Out_Of_Bounds"
  by (rule hint_check_wraps) (simp_all add: hint_rvas k_max_file_size_eq ord_flag_def)

text \<open>The whole loader faults on the file.\<close>

lemma hint_file_faults: "load_buffer 9 hint_file = Inl Out_Of_Bounds"
proof -
  let ?m = "mapped_image hint_file False"
  have imp: "import_of 9 hint_file ?m False dll iat 0x2000 = Inl Out_Of_Bounds" for dll iat
    by (simp add: import_of_fault k_max_file_size_eq ord_flag_def hint_rvas)
  have ilt: "ilt_loop 9 hint_file ?m False dll 0 432 iat = Inl Out_Of_Bounds" for dll iat
    by (subst ilt_loop.simps) (simp add: k_max_ilt_entries_def hint_headers imp Let_def)
  have "descs_from 9 hint_file ?m False 0 392 = Inl Out_Of_Bounds"
    by (subst descs_from.simps) (simp add: k_max_imports_def ptr_at_ok hint_headers hint_rvas ilt Let_def)
  then have "parse_imports 9 hint_file ?m = Inl Out_Of_Bounds"
    by (simp add: parse_imports_def data_dir_of_eq [OF hint_headers(1)] hint_headers(4) [unfolded One_nat_def] hint_rvas)
  then show ?thesis by (simp add: load_buffer_eq hint_headers parse_dirs_def)
qed

end
