(* ===== verification/Aob.thy ===== *)
theory Aob
  imports Reader Fmt
begin

text \<open>
  Byte-pattern search (\<open>src/src/core/memory/aob.cpp\<close>): the pattern language with wildcards per half
  byte, matching, rendering, and the scan of memory regions in chunks by several workers.
\<close>

section \<open>Patterns\<close>

record aob_pattern =
  ap_bytes :: "byte list"
  ap_mask :: "byte list"

definition ap_size :: "aob_pattern \<Rightarrow> nat" where
  "ap_size p = length (ap_bytes p)"

definition has_wildcards :: "aob_pattern \<Rightarrow> bool" where
  "has_wildcards p \<longleftrightarrow> list_ex (\<lambda>m. m \<noteq> 0xFF) (ap_mask p)"

definition hex_val :: "char \<Rightarrow> int" where
  "hex_val c = (let n = of_char c :: int in
     if 48 \<le> n \<and> n \<le> 57 then n - 48
     else if 97 \<le> n \<and> n \<le> 102 then n - 97 + 10
     else if 65 \<le> n \<and> n \<le> 70 then n - 65 + 10
     else - 1)"

definition is_sep :: "char \<Rightarrow> bool" where
  "is_sep c \<longleftrightarrow> c = CHR '' '' \<or> c = CHR 0x09 \<or> c = CHR '','' "

fun tokenize :: "string \<Rightarrow> string \<Rightarrow> string list" where
  "tokenize cur [] = (if cur = [] then [] else [cur])"
| "tokenize cur (c # cs) =
     (if is_sep c then (if cur = [] then tokenize [] cs else cur # tokenize [] cs) else tokenize (cur @ [c]) cs)"

definition is_wild :: "char \<Rightarrow> bool" where
  "is_wild c \<longleftrightarrow> c = CHR ''?'' \<or> c = CHR ''*''"

definition hex_prefixed :: "string \<Rightarrow> bool" where
  "hex_prefixed t \<longleftrightarrow> take 2 t = ''0x'' \<or> take 2 t = ''0X''"

definition all_hex :: "string \<Rightarrow> bool" where
  "all_hex t \<longleftrightarrow> t \<noteq> [] \<and> list_all (\<lambda>c. c \<in> set ''0123456789abcdefABCDEF'') t"

text \<open>The byte \<open>hi << 4 | lo\<close> of two digits.\<close>

definition byte_of :: "int \<Rightarrow> int \<Rightarrow> byte" where
  "byte_of hi lo = word_of_int (push_bit 4 hi OR lo)"

fun compact_bytes :: "string \<Rightarrow> byte list" where
  "compact_bytes (a # b # cs) = byte_of (hex_val a) (hex_val b) # compact_bytes cs"
| "compact_bytes _ = []"

definition bad_token :: "string \<Rightarrow> string" where
  "bad_token t = ''bad token '' @ [CHR 0x27] @ t @ [CHR 0x27]"

text \<open>One token, without its prefix: the byte and the mask of the half bytes that must match.\<close>

definition parse_token :: "string \<Rightarrow> string + (byte \<times> byte)" where
  "parse_token t =
     (if t = [] then Inl ''empty token''
      else if t = ''??'' \<or> t = ''*'' \<or> t = ''?'' then Inr (0, 0)
      else if 2 < length t then Inl (bad_token t)
      else (let w0 = is_wild (t ! 0); hi = (if w0 then - 1 else hex_val (t ! 0));
                mask = (if w0 then 0 else 0xF0) in
        if \<not> w0 \<and> hi < 0 then Inl (bad_token t)
        else if length t = 2 then
          (let w1 = is_wild (t ! 1); lo = (if w1 then - 1 else hex_val (t ! 1)) in
            if \<not> w1 \<and> lo < 0 then Inl (bad_token t)
            else Inr (byte_of (if hi < 0 then 0 else hi) (if lo < 0 then 0 else lo),
                      if w1 then mask AND 0xF0 else mask OR 0x0F))
        else Inr (byte_of (if hi < 0 then 0 else hi) 0, 0x0F)))"

fun parse_tokens :: "string list \<Rightarrow> string + aob_pattern" where
  "parse_tokens [] = Inr \<lparr>ap_bytes = [], ap_mask = []\<rparr>"
| "parse_tokens (t # ts) =
     (case parse_token (if hex_prefixed t then drop 2 t else t) of
        Inl e \<Rightarrow> Inl e
      | Inr (b, m) \<Rightarrow> (case parse_tokens ts of
            Inl e \<Rightarrow> Inl e
          | Inr p \<Rightarrow> Inr \<lparr>ap_bytes = b # ap_bytes p, ap_mask = m # ap_mask p\<rparr>))"

definition compact_token :: "string \<Rightarrow> string" where
  "compact_token t = (if 2 < length t \<and> hex_prefixed t then drop 2 t else t)"

definition aob_compile :: "string \<Rightarrow> string + aob_pattern" where
  "aob_compile text =
     (let tokens = tokenize [] text in
      if tokens = [] then Inl ''empty pattern''
      else if length tokens = 1 \<and> \<not> list_ex is_wild text \<and>
          (let t = compact_token (tokens ! 0) in 2 < length t \<and> length t mod 2 = 0 \<and> all_hex t) then
        (let bs = compact_bytes (compact_token (tokens ! 0)) in
          Inr \<lparr>ap_bytes = bs, ap_mask = replicate (length bs) 0xFF\<rparr>)
      else parse_tokens tokens)"

fun match_all :: "byte list \<Rightarrow> byte list \<Rightarrow> byte list \<Rightarrow> bool" where
  "match_all (b # bs) (m # ms) (d # ds) \<longleftrightarrow> (m = 0 \<or> d AND m = b AND m) \<and> match_all bs ms ds"
| "match_all _ _ _ \<longleftrightarrow> True"

definition aob_match :: "aob_pattern \<Rightarrow> byte list \<Rightarrow> bool" where
  "aob_match p d \<longleftrightarrow> ap_size p \<noteq> 0 \<and> ap_size p \<le> length d \<and> match_all (ap_bytes p) (ap_mask p) d"

definition aob_contains :: "aob_pattern \<Rightarrow> byte list \<Rightarrow> bool" where
  "aob_contains p d \<longleftrightarrow> ap_size p \<noteq> 0 \<and> ap_size p \<le> length d \<and>
     list_ex (\<lambda>off. aob_match p (drop off d)) [0..<Suc (length d - ap_size p)]"

definition hex1 :: "byte \<Rightarrow> char" where
  "hex1 b = hex_digit (unat (b AND 0xF))"

definition hex2 :: "byte \<Rightarrow> string" where
  "hex2 b = [hex1 (drop_bit 4 b), hex1 b]"

definition token_text :: "byte \<Rightarrow> byte \<Rightarrow> string" where
  "token_text b m =
     (if m = 0xFF then hex2 b
      else if m = 0xF0 then [hex1 (drop_bit 4 b), CHR ''?'']
      else if m = 0x0F then [CHR ''?'', hex1 b]
      else ''??'')"

definition aob_to_string :: "aob_pattern \<Rightarrow> string" where
  "aob_to_string p = join '' '' (map (\<lambda>(b, m). token_text b m) (zip (ap_bytes p) (ap_mask p)))"

definition aob_from_bytes :: "byte list \<Rightarrow> string" where
  "aob_from_bytes bs = join '' '' (map hex2 bs)"

section \<open>Compiling a rendered pattern\<close>

text \<open>The half bytes a mask leaves open do not matter.\<close>

definition masks :: "byte list" where "masks = [0xFF, 0xF0, 0x0F, 0]"

definition wf_pattern :: "aob_pattern \<Rightarrow> bool" where
  "wf_pattern p \<longleftrightarrow> ap_bytes p \<noteq> [] \<and> length (ap_mask p) = length (ap_bytes p) \<and> list_all (\<lambda>m. m \<in> set masks) (ap_mask p)"

definition canon :: "aob_pattern \<Rightarrow> aob_pattern" where
  "canon p = p\<lparr>ap_bytes := map2 (AND) (ap_bytes p) (ap_mask p)\<rparr>"

lemma tokenize_word:
  "list_all (\<lambda>c. \<not> is_sep c) t \<Longrightarrow> tokenize cur (t @ rest) = tokenize (cur @ t) rest"
  by (induction t arbitrary: cur) auto

lemma tokenize_join:
  "list_all (\<lambda>t. t \<noteq> [] \<and> list_all (\<lambda>c. \<not> is_sep c) t) ts \<Longrightarrow> tokenize [] (join '' '' ts) = ts"
proof (induction ts)
  case (Cons t ts)
  then have ih: "tokenize [] (join '' '' ts) = ts" and t: "t \<noteq> []" "list_all (\<lambda>c. \<not> is_sep c) t" by simp_all
  show ?case
  proof (cases ts)
    case Nil
    with t tokenize_word [OF t(2), of "[]" "[]"] show ?thesis by simp
  next
    case (Cons u us)
    with t ih tokenize_word [OF t(2), of "[]" "'' '' @ join '' '' ts"] show ?thesis by (simp add: is_sep_def)
  qed
qed simp

lemma hex1_facts: "\<not> is_wild (hex1 b)" "\<not> is_sep (hex1 b)" "hex_val (hex1 b) = uint (b AND 0xF)"
  "hex1 b \<noteq> CHR ''x''" "hex1 b \<noteq> CHR ''X''"
proof -
  have lt: "unat (b AND 0xF) < 16" using word_and_le1 [of b "0xF"] by (simp add: word_le_nat_alt)
  have "list_all (\<lambda>n. \<not> is_wild (hex_digit n) \<and> \<not> is_sep (hex_digit n) \<and> hex_val (hex_digit n) = int n \<and>
      hex_digit n \<noteq> CHR ''x'' \<and> hex_digit n \<noteq> CHR ''X'') [0..<16]" by code_simp
  with lt have "\<not> is_wild (hex1 b) \<and> \<not> is_sep (hex1 b) \<and> hex_val (hex1 b) = int (unat (b AND 0xF)) \<and>
      hex1 b \<noteq> CHR ''x'' \<and> hex1 b \<noteq> CHR ''X''" by (simp add: list_all_iff hex1_def)
  then show "\<not> is_wild (hex1 b)" "\<not> is_sep (hex1 b)" "hex_val (hex1 b) = uint (b AND 0xF)"
    "hex1 b \<noteq> CHR ''x''" "hex1 b \<noteq> CHR ''X''" by simp_all
qed

lemma byte_of_words: "byte_of (uint x) (uint y) = push_bit 4 x OR y" "byte_of 0 (uint y) = y"
    "byte_of (uint x) 0 = push_bit 4 x"
  by (simp_all add: byte_of_def push_bit_of_int [symmetric] of_int_or_eq)

lemma byte_halves:
  "push_bit 4 (drop_bit 4 b) AND 0xF0 OR b AND 0xF = (b :: byte)"
  "push_bit 4 (drop_bit 4 b) AND 0xF0 = (b :: byte) AND 0xF0"
  "(b :: byte) AND 0xFF = b" "(b :: byte) AND 0xF0 OR b AND 0xF = b"
proof -
  have m: "(0xF :: byte) = mask 4" "(0xF0 :: byte) = push_bit 4 (mask 4)" "(0xFF :: byte) = mask 8"
    by (simp_all add: mask_eq_exp_minus_1)
  show "push_bit 4 (drop_bit 4 b) AND 0xF0 OR b AND 0xF = b"
    "push_bit 4 (drop_bit 4 b) AND 0xF0 = b AND 0xF0" "b AND 0xFF = b"
    "b AND 0xF0 OR b AND 0xF = b"
    unfolding m by (rule bit_word_eqI; auto simp: bit_simps)+
qed

lemma token_text_facts:
  "length (token_text b m) = 2" "\<not> hex_prefixed (token_text b m)" "list_all (\<lambda>c. \<not> is_sep c) (token_text b m)"
  using hex1_facts by (auto simp: token_text_def hex2_def hex_prefixed_def is_sep_def)

lemma parse_token_text: "m \<in> set masks \<Longrightarrow> parse_token (token_text b m) = Inr (b AND m, m)"
  using hex1_facts hex1_facts(3) [of "drop_bit 4 b"]
  by (auto simp: masks_def token_text_def hex2_def parse_token_def Let_def byte_of_words byte_halves is_wild_def)

lemma parse_tokens_text:
  "length ms = length bs \<Longrightarrow> list_all (\<lambda>m. m \<in> set masks) ms \<Longrightarrow>
   parse_tokens (map (\<lambda>(b, m). token_text b m) (zip bs ms)) = Inr \<lparr>ap_bytes = map2 (AND) bs ms, ap_mask = ms\<rparr>"
proof (induction bs arbitrary: ms)
  case (Cons b bs)
  then obtain m ms' where ms: "ms = m # ms'" by (cases ms) auto
  with Cons show ?case by (simp add: token_text_facts parse_token_text)
qed simp

lemma compile_to_string:
  assumes "wf_pattern p"
  shows "aob_compile (aob_to_string p) = Inr (canon p)"
proof -
  let ?ts = "map (\<lambda>(b, m). token_text b m) (zip (ap_bytes p) (ap_mask p))"
  have ts: "list_all (\<lambda>t. t \<noteq> [] \<and> list_all (\<lambda>c. \<not> is_sep c) t) ?ts"
    using token_text_facts by (auto simp: list_all_iff) (metis list.size(3) zero_neq_numeral)
  have tok: "tokenize [] (aob_to_string p) = ?ts" unfolding aob_to_string_def by (rule tokenize_join [OF ts])
  have ne: "?ts \<noteq> []" using assms by (auto simp: wf_pattern_def)
  then have "length (?ts ! 0) = 2" by (cases "zip (ap_bytes p) (ap_mask p)") (auto simp: token_text_facts)
  then have "\<not> 2 < length (compact_token (?ts ! 0))" by (simp add: compact_token_def)
  moreover have "parse_tokens ?ts = Inr (canon p)"
    using parse_tokens_text [of "ap_mask p" "ap_bytes p"] assms by (simp add: wf_pattern_def canon_def)
  ultimately show ?thesis using ne unfolding aob_compile_def Let_def tok by simp
qed

lemma match_all_canon: "length ms = length bs \<Longrightarrow> match_all (map2 (AND) bs ms) ms d = match_all bs ms d"
proof (induction bs arbitrary: ms d)
  case (Cons b bs)
  then obtain m ms' where "ms = m # ms'" by (cases ms) auto
  with Cons show ?case by (cases d) (auto simp: and.assoc)
qed simp

lemma aob_match_canon: "wf_pattern p \<Longrightarrow> aob_match (canon p) d = aob_match p d"
  by (simp add: aob_match_def canon_def ap_size_def wf_pattern_def match_all_canon)

lemma parse_token_mask: "parse_token t = Inr (b, m) \<Longrightarrow> m \<in> set masks"
  by (auto simp: parse_token_def Let_def masks_def split: if_splits)

lemma parse_tokens_wf:
  "parse_tokens ts = Inr p \<Longrightarrow> length (ap_bytes p) = length ts \<and> length (ap_mask p) = length ts \<and>
     list_all (\<lambda>m. m \<in> set masks) (ap_mask p)"
  by (induction ts arbitrary: p) (auto split: sum.splits prod.splits dest: parse_token_mask)

lemma compact_bytes_Nil: "2 \<le> length t \<Longrightarrow> compact_bytes t \<noteq> []"
  by (cases t rule: compact_bytes.cases) auto

lemma aob_compile_wf:
  assumes "aob_compile text = Inr p"
  shows "wf_pattern p"
proof (cases "parse_tokens (tokenize [] text) = Inr p \<and> tokenize [] text \<noteq> []")
  case True
  then show ?thesis using parse_tokens_wf [of "tokenize [] text" p] by (auto simp: wf_pattern_def)
next
  case False
  with assms show ?thesis
    using compact_bytes_Nil [of "compact_token (tokenize [] text ! 0)"]
    by (auto simp: aob_compile_def wf_pattern_def Let_def masks_def list_all_iff split: if_splits)
qed

text \<open>
  C29.  Rendering a compiled pattern and compiling the text again gives the same pattern: whatever text
  \<open>aob_compile\<close> accepts, compact or spaced, with wildcards or not, \<open>aob_to_string\<close> of the result compiles
  to a pattern with the same mask and the same masked bytes, which matches the same data, anchored and
  at any offset.
\<close>

theorem aob_text_roundtrip:
  assumes "aob_compile text = Inr p"
  shows "(let q = \<lparr>ap_bytes = map2 (AND) (ap_bytes p) (ap_mask p), ap_mask = ap_mask p\<rparr> in
    aob_compile (aob_to_string p) = Inr q \<and> aob_match q d = aob_match p d \<and> aob_contains q d = aob_contains p d)"
proof -
  have wf: "wf_pattern p" by (rule aob_compile_wf [OF assms])
  have c: "canon p = \<lparr>ap_bytes = map2 (AND) (ap_bytes p) (ap_mask p), ap_mask = ap_mask p\<rparr>"
    by (simp add: canon_def)
  have "ap_size (canon p) = ap_size p" using wf by (simp add: ap_size_def canon_def wf_pattern_def)
  then have "aob_contains (canon p) d = aob_contains p d"
    by (simp add: aob_contains_def aob_match_canon [OF wf])
  with compile_to_string [OF wf] aob_match_canon [OF wf] show ?thesis
    by (simp add: Let_def flip: c)
qed

theorem aob_text_roundtrip_witness:
  "aob_compile ''0xDE a? *'' = Inr \<lparr>ap_bytes = [0xDE, 0xA0, 0], ap_mask = [0xFF, 0xF0, 0]\<rparr> \<and>
   aob_compile (aob_to_string \<lparr>ap_bytes = [0xDE, 0xA0, 0], ap_mask = [0xFF, 0xF0, 0]\<rparr>) =
     Inr \<lparr>ap_bytes = [0xDE, 0xA0, 0], ap_mask = [0xFF, 0xF0, 0]\<rparr>"
proof -
  have c: "aob_compile ''0xDE a? *'' = Inr \<lparr>ap_bytes = [0xDE, 0xA0, 0], ap_mask = [0xFF, 0xF0, 0]\<rparr>"
    by code_simp
  with aob_text_roundtrip [OF c] show ?thesis by (simp add: Let_def)
qed

end
