(* ===== verification/Aob_Scan.thy ===== *)
theory Aob_Scan
  imports Aob
begin

text \<open>
  The scan of \<open>src/src/core/memory/aob.cpp\<close>: \<open>aob_scan\<close> cuts the regions into aligned spans, workers take
  the spans from a shared counter, read them in chunks that overlap by the pattern's length less one,
  and the hits are merged, sorted and made unique.  Which worker takes which span, the order in which the
  workers finish and when each finds the token cancelled are the argument \<open>sched\<close>.
\<close>

section \<open>The scan\<close>

text \<open>\<open>scan_region_t\<close> of \<open>memscan.hpp\<close>.\<close>

record scan_region =
  sr_base :: va_t
  sr_size :: nat
  sr_protect :: u32
  sr_type :: u32

record aob_options =
  ao_alignment :: nat
  ao_max_results :: nat
  ao_chunk_bytes :: nat
  ao_threads :: nat

record aob_stats =
  as_bytes_scanned :: nat
  as_matches :: nat
  as_truncated :: bool
  as_cancelled :: bool

definition max_aob_matches :: nat where "max_aob_matches = 100000"
definition scan_chunk_bytes :: nat where "scan_chunk_bytes = 2 ^ 20"

definition opt_max :: "aob_options \<Rightarrow> nat" where
  "opt_max opt = (if ao_max_results opt \<noteq> 0 then ao_max_results opt else max_aob_matches)"

definition opt_chunk :: "aob_options \<Rightarrow> nat" where
  "opt_chunk opt = (if ao_chunk_bytes opt \<noteq> 0 then ao_chunk_bytes opt else scan_chunk_bytes)"

definition opt_align :: "aob_options \<Rightarrow> nat" where
  "opt_align opt = max (if ao_alignment opt \<noteq> 0 then ao_alignment opt else 1) 1"

text \<open>The spans: begin rounded up to the alignment, end.\<close>

definition span_of :: "nat \<Rightarrow> scan_region \<Rightarrow> va_t \<times> va_t" where
  "span_of align reg =
     ((sr_base reg + of_nat align - 1) div of_nat align * of_nat align, sr_base reg + of_nat (sr_size reg))"

definition spans_of :: "aob_pattern \<Rightarrow> nat \<Rightarrow> scan_region list \<Rightarrow> (va_t \<times> va_t) list" where
  "spans_of p align regions =
     filter (\<lambda>(b, e). \<not> e \<le> b) (map (span_of align) (filter (\<lambda>reg. \<not> sr_size reg < ap_size p) regions))"

definition worker_count :: "aob_options \<Rightarrow> nat \<Rightarrow> nat \<Rightarrow> nat" where
  "worker_count opt hw n =
     (let nw = max 1 (min (if ao_threads opt \<noteq> 0 then ao_threads opt else hw) 64) in
      if n \<noteq> 0 then min nw n else nw)"

text \<open>What a worker has found: its matches, whether it dropped one, the bytes it read.\<close>

record scan_acc =
  sa_matches :: "va_t list"
  sa_truncated :: bool
  sa_bytes :: nat

definition add_hit :: "nat \<Rightarrow> va_t \<Rightarrow> scan_acc \<Rightarrow> scan_acc" where
  "add_hit mx a s =
     (if length (sa_matches s) < mx then s\<lparr>sa_matches := sa_matches s @ [a]\<rparr> else s\<lparr>sa_truncated := True\<rparr>)"

text \<open>
  \<open>for (a = lo; a <= hi; a += align)\<close> over the data read at \<open>start\<close>.  The sum wraps, so a \<open>hi\<close> close to the
  top of the address space would keep the loop from ending: \<open>None\<close>.
\<close>

partial_function (option) scan_loop ::
  "aob_pattern \<Rightarrow> byte list \<Rightarrow> va_t \<Rightarrow> nat \<Rightarrow> nat \<Rightarrow> va_t \<Rightarrow> va_t \<Rightarrow> scan_acc \<Rightarrow> scan_acc option" where
  "scan_loop p d start align mx hi a s =
     (if a \<le> hi then scan_loop p d start align mx hi (a + of_nat align)
         (if aob_match p (drop (unat (a - start)) d) then add_hit mx a s else s)
      else Some s)"

declare scan_loop.simps [code]

text \<open>The sink of the fallback: one readable run.\<close>

definition scan_run :: "aob_pattern \<Rightarrow> nat \<Rightarrow> nat \<Rightarrow> run \<Rightarrow> scan_acc \<Rightarrow> scan_acc option" where
  "scan_run p align mx r s =
     (case r of (a, d) \<Rightarrow> (let s' = s\<lparr>sa_bytes := sa_bytes s + length d\<rparr> in
        if length d < ap_size p then Some s'
        else scan_loop p d a align mx (a + of_nat (length d) - of_nat (ap_size p)) a s'))"

fun scan_runs :: "aob_pattern \<Rightarrow> nat \<Rightarrow> nat \<Rightarrow> run list \<Rightarrow> scan_acc \<Rightarrow> scan_acc option" where
  "scan_runs p align mx [] s = Some s"
| "scan_runs p align mx (r # rs) s = Option.bind (scan_run p align mx r s) (scan_runs p align mx rs)"

text \<open>One chunk at \<open>cursor\<close> of a span that ends at \<open>stop\<close>: the hits, the token, the next cursor.\<close>

definition scan_chunk ::
  "reader \<Rightarrow> aob_pattern \<Rightarrow> nat \<Rightarrow> nat \<Rightarrow> nat \<Rightarrow> va_t \<Rightarrow> token \<Rightarrow> va_t \<Rightarrow> scan_acc \<Rightarrow> (scan_acc \<times> token \<times> va_t) option" where
  "scan_chunk read p align mx chunk stop t cursor s =
     (let want = min chunk (unat (stop - cursor)) in
      case read cursor want of
        None \<Rightarrow> (case resilient_read read cursor want 4096 t of (runs, t') \<Rightarrow>
            map_option (\<lambda>s'. (s', t', cursor + of_nat want)) (scan_runs p align mx runs s))
      | Some d \<Rightarrow> (let s' = s\<lparr>sa_bytes := sa_bytes s + want\<rparr>;
            hi = cursor + of_nat want - of_nat (ap_size p);
            back = min (ap_size p - 1) (want - 1) in
          map_option (\<lambda>s''. (s'', t, cursor + of_nat (want - back))) (scan_loop p d cursor align mx hi cursor s')))"

text \<open>A span; the token comes back because the worker polls it again.\<close>

partial_function (option) scan_span ::
  "reader \<Rightarrow> aob_pattern \<Rightarrow> nat \<Rightarrow> nat \<Rightarrow> nat \<Rightarrow> va_t \<Rightarrow> token \<Rightarrow> va_t \<Rightarrow> scan_acc \<Rightarrow> (scan_acc \<times> token) option" where
  "scan_span read p align mx chunk stop tok cursor s =
     (if cursor + of_nat (ap_size p) \<le> stop then
        (if fst (poll tok) then Some (s, snd (poll tok))
         else Option.bind (scan_chunk read p align mx chunk stop (snd (poll tok)) cursor s)
           (\<lambda>r. scan_span read p align mx chunk stop (fst (snd r)) (snd (snd r)) (fst r)))
      else Some (s, tok))"

declare scan_span.simps [code]

text \<open>A worker takes its spans one after the other, polling the token before each.\<close>

fun run_worker ::
  "reader \<Rightarrow> aob_pattern \<Rightarrow> nat \<Rightarrow> nat \<Rightarrow> nat \<Rightarrow> token \<Rightarrow> (va_t \<times> va_t) list \<Rightarrow> scan_acc \<Rightarrow> scan_acc option" where
  "run_worker read p align mx chunk tok [] s = Some s"
| "run_worker read p align mx chunk tok ((b, e) # spans) s =
     (case poll tok of
        (True, t) \<Rightarrow> Some s
      | (False, t) \<Rightarrow> Option.bind (scan_span read p align mx chunk e t b s)
          (\<lambda>(s', t'). run_worker read p align mx chunk t' spans s'))"

text \<open>The end of a worker, under the lock: its matches join the result up to the cap.\<close>

fun merge_hits :: "nat \<Rightarrow> va_t list \<Rightarrow> va_t list \<Rightarrow> va_t list \<times> bool" where
  "merge_hits mx [] ms = (ms, False)"
| "merge_hits mx (a # as) ms = (if mx \<le> length ms then (ms, True) else merge_hits mx as (ms @ [a]))"

type_synonym schedule = "(token \<times> nat list) list"

fun run_workers ::
  "reader \<Rightarrow> aob_pattern \<Rightarrow> nat \<Rightarrow> nat \<Rightarrow> nat \<Rightarrow> (va_t \<times> va_t) list \<Rightarrow> schedule \<Rightarrow> va_t list \<Rightarrow> aob_stats \<Rightarrow>
   (va_t list \<times> aob_stats) option" where
  "run_workers read p align mx chunk spans [] ms st = Some (ms, st)"
| "run_workers read p align mx chunk spans ((tok, idx) # sched) ms st =
     Option.bind (run_worker read p align mx chunk tok (map ((!) spans) idx)
         \<lparr>sa_matches = [], sa_truncated = False, sa_bytes = 0\<rparr>)
       (\<lambda>s. case merge_hits mx (sa_matches s) ms of (ms', dropped) \<Rightarrow>
          run_workers read p align mx chunk spans sched ms'
            (st\<lparr>as_bytes_scanned := as_bytes_scanned st + sa_bytes s,
                as_truncated := as_truncated st \<or> sa_truncated s \<or> dropped\<rparr>))"

text \<open>
  What the threads can do: every span is taken once, each worker takes its spans in ascending order, and
  there are as many workers as \<open>worker_count\<close> says.
\<close>

definition schedule_ok :: "nat \<Rightarrow> nat \<Rightarrow> schedule \<Rightarrow> bool" where
  "schedule_ok workers n sched \<longleftrightarrow> length sched = workers \<and> mset (concat (map snd sched)) = mset [0..<n] \<and>
     list_all (\<lambda>w. sorted (snd w)) sched"

definition aob_scan ::
  "reader \<Rightarrow> scan_region list \<Rightarrow> aob_pattern \<Rightarrow> aob_options \<Rightarrow> schedule \<Rightarrow> bool \<Rightarrow> (va_t list \<times> aob_stats) option" where
  "aob_scan read regions p opt sched finally_cancelled =
     (let st = \<lparr>as_bytes_scanned = 0, as_matches = 0, as_truncated = False, as_cancelled = False\<rparr> in
      if ap_size p = 0 then Some ([], st)
      else map_option
        (\<lambda>(ms, st'). let ms' = remdups_adj (sort ms) in
           (ms', st'\<lparr>as_matches := length ms', as_cancelled := finally_cancelled\<rparr>))
        (run_workers read p (opt_align opt) (opt_max opt) (opt_chunk opt)
           (spans_of p (opt_align opt) regions) sched [] st))"

end
