(* ===== verification/Pointer_Scan.thy ===== *)
theory Pointer_Scan
  imports Aob_Scan
begin

text \<open>
  The backward pointer scan (\<open>src/src/core/memory/pointer_scan.cpp\<close>): a sweep collects every aligned
  non-null qword of the regions, the levels walk from the target back to the holders of pointers near it,
  and every node gives a chain.  \<open>std::sort\<close>, which leaves the order of equal values open, is the
  argument \<open>arrange\<close>.  \<open>None\<close> stands for a loop that never ends and for a read outside a buffer.
\<close>

type_synonym i32 = "32 word"

section \<open>Options, edges and nodes\<close>

record pointer_options =
  po_target :: va_t
  po_depth :: u32
  po_min_offset :: i32
  po_max_offset :: i32
  po_alignment :: u32
  po_frontier_cap :: u64
  po_only_module_backed :: bool

record pointer_chain =
  pc_addresses :: "va_t list"
  pc_offsets :: "int list"

record pointer_stats =
  ps_edges_explored :: u64
  ps_truncated :: bool
  ps_cancelled :: bool

definition new_stats :: pointer_stats where
  "new_stats = \<lparr>ps_edges_explored = 0, ps_truncated = False, ps_cancelled = False\<rparr>"

definition max_pointer_edges :: u64 where "max_pointer_edges = 40000000"
definition max_pointer_depth :: nat where "max_pointer_depth = 7"
definition max_pointer_chains :: u64 where "max_pointer_chains = 100000"

record edge_t =
  ed_value :: u64
  ed_holder :: va_t

record node_t =
  nd_addr :: va_t
  nd_parent :: int
  nd_offset :: int

definition k_mem_image :: u32 where "k_mem_image = 0x1000000"

definition in_module_backed :: "va_t \<Rightarrow> scan_region list \<Rightarrow> bool" where
  "in_module_backed a regions = list_ex (\<lambda>reg. sr_type reg AND k_mem_image \<noteq> 0 \<and>
     sr_base reg \<le> a \<and> a < sr_base reg + of_nat (sr_size reg)) regions"

definition scan_depth :: "pointer_options \<Rightarrow> nat" where
  "scan_depth opt = min (if po_depth opt \<noteq> 0 then unat (po_depth opt) else 1) max_pointer_depth"

definition min_off :: "pointer_options \<Rightarrow> int" where
  "min_off opt = sint (po_min_offset opt)"

definition max_off :: "pointer_options \<Rightarrow> int" where
  "max_off opt = max (sint (po_max_offset opt)) (sint (po_min_offset opt))"

definition scan_align :: "pointer_options \<Rightarrow> nat" where
  "scan_align opt = max (if po_alignment opt \<noteq> 0 then unat (po_alignment opt) else 1) 1"

text \<open>The spans: regions of eight bytes or more, begin rounded up; \<open>e <= b + 8\<close> drops a span.\<close>

definition round_up :: "nat \<Rightarrow> va_t \<Rightarrow> va_t" where
  "round_up align a = (a + of_nat align - 1) div of_nat align * of_nat align"

definition pointer_spans :: "nat \<Rightarrow> scan_region list \<Rightarrow> (va_t \<times> va_t) list" where
  "pointer_spans align regions =
     filter (\<lambda>(b, e). \<not> e \<le> b + 8)
       (map (\<lambda>reg. (round_up align (sr_base reg), sr_base reg + of_nat (sr_size reg)))
         (filter (\<lambda>reg. \<not> sr_size reg < 8) regions))"

section \<open>The sweep\<close>

record sweep =
  sw_edges :: "edge_t list"
  sw_stats :: pointer_stats

text \<open>\<open>memcpy(&v, data + off, 8)\<close> on a little-endian machine.\<close>

definition qword_at :: "byte list \<Rightarrow> nat \<Rightarrow> u64" where
  "qword_at d off = word_of_int (horner_sum uint 256 (take 8 (drop off d)))"

text \<open>The body of the sink's loop: the new state and whether the sink returns.\<close>

definition take_qword :: "u64 \<Rightarrow> va_t \<Rightarrow> sweep \<Rightarrow> sweep \<times> bool" where
  "take_qword v p s =
     (if v \<noteq> 0 then
        (let st = (sw_stats s)\<lparr>ps_edges_explored := ps_edges_explored (sw_stats s) + 1\<rparr>;
             over = max_pointer_edges < ps_edges_explored st in
         (s\<lparr>sw_edges := sw_edges s @ [\<lparr>ed_value = v, ed_holder = p\<rparr>],
            sw_stats := (if over then st\<lparr>ps_truncated := True\<rparr> else st)\<rparr>, over))
      else (s, False))"

text \<open>\<open>while (p + 8 <= run_end)\<close>; both sides wrap, so \<open>p\<close> can be outside the run.\<close>

partial_function (option) sweep_run :: "nat \<Rightarrow> va_t \<Rightarrow> byte list \<Rightarrow> va_t \<Rightarrow> sweep \<Rightarrow> sweep option" where
  "sweep_run align run d p s =
     (if p + 8 \<le> run + of_nat (length d) then
        (if length d < unat (p - run) + 8 then None
         else if snd (take_qword (qword_at d (unat (p - run))) p s)
         then Some (fst (take_qword (qword_at d (unat (p - run))) p s))
         else sweep_run align run d (p + of_nat align) (fst (take_qword (qword_at d (unat (p - run))) p s)))
      else Some s)"

declare sweep_run.simps [code]

fun sweep_runs :: "nat \<Rightarrow> run list \<Rightarrow> sweep \<Rightarrow> sweep option" where
  "sweep_runs align [] s = Some s"
| "sweep_runs align ((a, d) # rs) s = Option.bind (sweep_run align a d (round_up align a) s) (sweep_runs align rs)"

definition pointer_chunk :: u64 where "pointer_chunk = 0x100000"

text \<open>\<open>while (cursor < s.end && !st.truncated)\<close>.\<close>

definition span_chunk :: "reader \<Rightarrow> nat \<Rightarrow> va_t \<Rightarrow> token \<Rightarrow> va_t \<Rightarrow> sweep \<Rightarrow> (sweep \<times> token \<times> va_t) option" where
  "span_chunk read align stop t cursor s =
     (let want = unat (min pointer_chunk (stop - cursor)) in
      case resilient_read read cursor want 8 t of (runs, t') \<Rightarrow>
        map_option (\<lambda>s'. (s', t', cursor + of_nat want)) (sweep_runs align runs s))"

partial_function (option) sweep_span :: "reader \<Rightarrow> nat \<Rightarrow> va_t \<Rightarrow> token \<Rightarrow> va_t \<Rightarrow> sweep \<Rightarrow> (sweep \<times> token) option" where
  "sweep_span read align stop tok cursor s =
     (if cursor < stop \<and> \<not> ps_truncated (sw_stats s) then
        (if fst (poll tok) then Some (s\<lparr>sw_stats := (sw_stats s)\<lparr>ps_cancelled := True\<rparr>\<rparr>, snd (poll tok))
         else Option.bind (span_chunk read align stop (snd (poll tok)) cursor s)
           (\<lambda>r. sweep_span read align stop (fst (snd r)) (snd (snd r)) (fst r)))
      else Some (s, tok))"

declare sweep_span.simps [code]

fun sweep_spans :: "reader \<Rightarrow> nat \<Rightarrow> token \<Rightarrow> (va_t \<times> va_t) list \<Rightarrow> sweep \<Rightarrow> (sweep \<times> token) option" where
  "sweep_spans read align tok [] s = Some (s, tok)"
| "sweep_spans read align tok ((b, e) # spans) s =
     (if ps_truncated (sw_stats s) then Some (s, tok)
      else if fst (poll tok) then Some (s, snd (poll tok))
      else Option.bind (sweep_span read align e (snd (poll tok)) b s)
        (\<lambda>(s', t). sweep_spans read align t spans s'))"

section \<open>The levels\<close>

text \<open>The window of values that a holder near \<open>dest\<close> may have; \<open>None\<close> if there is none.\<close>

definition value_window :: "int \<Rightarrow> int \<Rightarrow> va_t \<Rightarrow> (u64 \<times> u64) option" where
  "value_window mn mx dest =
     (if 0 < mn \<and> dest < word_of_int mn then None
      else (let lo = (if 0 < mx \<and> dest < word_of_int mx then 0 else dest - word_of_int mx);
                hi = dest - word_of_int mn in
            if hi < lo then None else Some (lo, hi)))"

text \<open>\<open>lower_bound\<close> and \<open>upper_bound\<close> on the sorted edges.\<close>

definition edges_between :: "edge_t list \<Rightarrow> u64 \<Rightarrow> u64 \<Rightarrow> edge_t list" where
  "edges_between edges lo hi = takeWhile (\<lambda>e. ed_value e \<le> hi) (dropWhile (\<lambda>e. ed_value e < lo) edges)"

record level =
  lv_nodes :: "node_t list"
  lv_next :: "nat list"
  lv_stats :: pointer_stats
  lv_full :: bool

text \<open>The inner loop over the edges of one frontier node.\<close>

fun expand_edges :: "u64 \<Rightarrow> va_t \<Rightarrow> nat \<Rightarrow> edge_t list \<Rightarrow> level \<Rightarrow> level" where
  "expand_edges cap dest fidx [] l = l"
| "expand_edges cap dest fidx (e # es) l =
     (let node = \<lparr>nd_addr = ed_holder e, nd_parent = int fidx, nd_offset = sint (dest - ed_value e)\<rparr>;
          l' = l\<lparr>lv_nodes := lv_nodes l @ [node], lv_next := lv_next l @ [length (lv_nodes l)]\<rparr> in
      if cap \<le> of_nat (length (lv_next l'))
      then l'\<lparr>lv_stats := (lv_stats l')\<lparr>ps_truncated := True\<rparr>, lv_full := True\<rparr>
      else expand_edges cap dest fidx es l')"

definition expand_node :: "pointer_options \<Rightarrow> edge_t list \<Rightarrow> nat \<Rightarrow> level \<Rightarrow> level" where
  "expand_node opt edges fidx l =
     (let dest = nd_addr (lv_nodes l ! fidx) in
      case value_window (min_off opt) (max_off opt) dest of
        None \<Rightarrow> l
      | Some (lo, hi) \<Rightarrow> expand_edges (po_frontier_cap opt) dest fidx (edges_between edges lo hi) l)"

fun expand_frontier :: "pointer_options \<Rightarrow> edge_t list \<Rightarrow> token \<Rightarrow> nat list \<Rightarrow> level \<Rightarrow> level \<times> token" where
  "expand_frontier opt edges tok [] l = (l, tok)"
| "expand_frontier opt edges tok (fidx # rest) l =
     (case poll tok of
        (True, t) \<Rightarrow> (l\<lparr>lv_stats := (lv_stats l)\<lparr>ps_cancelled := True\<rparr>\<rparr>, t)
      | (False, t) \<Rightarrow> if lv_full l then (l, t) else expand_frontier opt edges t rest (expand_node opt edges fidx l))"

text \<open>The loop over the levels; the number counts those that are left.\<close>

fun expand_levels ::
  "pointer_options \<Rightarrow> edge_t list \<Rightarrow> nat \<Rightarrow> token \<Rightarrow> nat list \<Rightarrow> node_t list \<Rightarrow> pointer_stats \<Rightarrow> node_t list \<times> pointer_stats" where
  "expand_levels opt edges 0 tok frontier nodes st = (nodes, st)"
| "expand_levels opt edges (Suc n) tok frontier nodes st =
     (if frontier = [] then (nodes, st)
      else case poll tok of
        (True, t) \<Rightarrow> (nodes, st\<lparr>ps_cancelled := True\<rparr>)
      | (False, t) \<Rightarrow>
        (case expand_frontier opt edges t frontier \<lparr>lv_nodes = nodes, lv_next = [], lv_stats = st, lv_full = False\<rparr> of
           (l, t') \<Rightarrow>
             if ps_truncated (lv_stats l) \<and> lv_next l = [] then (lv_nodes l, lv_stats l)
             else expand_levels opt edges n t' (lv_next l) (lv_nodes l) (lv_stats l)))"

section \<open>The chains\<close>

text \<open>\<open>for (n = i; n > 0; n = nodes[n].parent)\<close>.\<close>

partial_function (option) chain_nodes :: "node_t list \<Rightarrow> int \<Rightarrow> node_t list option" where
  "chain_nodes nodes n =
     (if n \<le> 0 then Some []
      else Option.bind (chain_nodes nodes (nd_parent (nodes ! nat n))) (\<lambda>ns. Some (nodes ! nat n # ns)))"

text \<open>\<open>while (nodes[n].parent > 0) n = nodes[n].parent\<close>.\<close>

partial_function (option) chain_end :: "node_t list \<Rightarrow> int \<Rightarrow> int option" where
  "chain_end nodes n =
     (if 0 < nd_parent (nodes ! nat n) then chain_end nodes (nd_parent (nodes ! nat n)) else Some n)"

declare chain_nodes.simps [code] chain_end.simps [code]

definition chain_from :: "node_t list \<Rightarrow> nat \<Rightarrow> pointer_chain option" where
  "chain_from nodes i =
     map_option (\<lambda>ns. \<lparr>pc_addresses = map nd_addr ns, pc_offsets = map nd_offset ns\<rparr>) (chain_nodes nodes (int i))"

definition root_kept :: "pointer_options \<Rightarrow> scan_region list \<Rightarrow> node_t list \<Rightarrow> nat \<Rightarrow> bool option" where
  "root_kept opt regions nodes i =
     (if po_only_module_backed opt
      then map_option (\<lambda>n. in_module_backed (nd_addr (nodes ! nat n)) regions) (chain_end nodes (int i))
      else Some True)"

text \<open>The loop over the nodes.\<close>

fun build_chains ::
  "pointer_options \<Rightarrow> scan_region list \<Rightarrow> node_t list \<Rightarrow> nat list \<Rightarrow> pointer_chain list \<Rightarrow> pointer_stats \<Rightarrow>
   (pointer_chain list \<times> pointer_stats) option" where
  "build_chains opt regions nodes [] results st = Some (results, st)"
| "build_chains opt regions nodes (i # is) results st =
     (if max_pointer_chains \<le> of_nat (length results) then Some (results, st\<lparr>ps_truncated := True\<rparr>)
      else Option.bind (root_kept opt regions nodes i) (\<lambda>keep.
        if \<not> keep then build_chains opt regions nodes is results st
        else Option.bind (chain_from nodes i) (\<lambda>c. build_chains opt regions nodes is (results @ [c]) st)))"

definition pointer_scan ::
  "reader \<Rightarrow> (edge_t list \<Rightarrow> edge_t list) \<Rightarrow> scan_region list \<Rightarrow> pointer_options \<Rightarrow> token \<Rightarrow> pointer_stats \<Rightarrow>
   (pointer_chain list \<times> pointer_stats) option" where
  "pointer_scan read arrange regions opt tok stats =
     Option.bind (sweep_spans read (scan_align opt) tok (pointer_spans (scan_align opt) regions)
         \<lparr>sw_edges = [], sw_stats = stats\<rparr>) (\<lambda>(s, t).
       let (c, t') = poll t;
           st = (if c then (sw_stats s)\<lparr>ps_cancelled := True\<rparr> else sw_stats s);
           root = [\<lparr>nd_addr = po_target opt, nd_parent = -1, nd_offset = 0\<rparr>];
           (nodes, st') = (if sw_edges s \<noteq> [] \<and> \<not> ps_cancelled st
             then expand_levels opt (arrange (sw_edges s)) (scan_depth opt) t' [0] root st else (root, st)) in
       build_chains opt regions nodes [1..<length nodes] [] st')"

end
