(* ===== verification/Pointer_Levels.thy ===== *)
theory Pointer_Levels
  imports Pointer_Scan
begin

text \<open>
  The levels of the pointer scan: the window of values holds exactly the values within the offsets of the
  destination, the nodes form a tree whose branches are chains of pointers, and without a limit or a
  cancellation every chain up to the depth is a node.
\<close>

section \<open>The window\<close>

text \<open>A value is near an address when their difference is within the offsets.\<close>

definition near :: "int \<Rightarrow> int \<Rightarrow> va_t \<Rightarrow> u64 \<Rightarrow> bool" where
  "near mn mx dest v \<longleftrightarrow> mn \<le> uint dest - uint v \<and> uint dest - uint v \<le> mx"

definition low_addr :: "va_t \<Rightarrow> bool" where
  "low_addr a \<longleftrightarrow> uint a + 2 ^ 32 < 2 ^ 64"

definition int32_range :: "int \<Rightarrow> bool" where
  "int32_range i \<longleftrightarrow> - (2 ^ 31) \<le> i \<and> i < 2 ^ 31"

lemma uint_of_int32:
  assumes "int32_range i"
  shows "uint (word_of_int i :: va_t) = (if 0 \<le> i then i else i + 2 ^ 64)"
proof -
  have "uint (word_of_int i :: va_t) = i mod 2 ^ 64" by (simp add: uint_word_of_int)
  also have "\<dots> = (if 0 \<le> i then i else i + 2 ^ 64)"
  proof (cases "0 \<le> i")
    case False
    have "i mod 2 ^ 64 = (i + 2 ^ 64) mod 2 ^ 64" by simp
    also have "\<dots> = i + 2 ^ 64" using False assms by (intro mod_pos_pos_trivial) (auto simp: int32_range_def)
    finally show ?thesis using False by simp
  qed (use assms in \<open>simp add: int32_range_def mod_pos_pos_trivial\<close>)
  finally show ?thesis .
qed

lemma uint_minus_word: "uint (a - b :: va_t) = (if uint b \<le> uint a then uint a - uint b else uint a - uint b + 2 ^ 64)"
  by (simp add: uint_sub_if')

lemma window_exact:
  assumes "low_addr dest" "int32_range mn" "int32_range mx" "mn \<le> mx"
  shows "(\<exists>lo hi. value_window mn mx dest = Some (lo, hi) \<and> lo \<le> v \<and> v \<le> hi) \<longleftrightarrow> near mn mx dest v"
proof -
  note r = assms(2,3) [unfolded int32_range_def] assms(4) assms(1) [unfolded low_addr_def]
  have v: "0 \<le> uint v" "uint v < 2 ^ 64" "0 \<le> uint dest" using unsigned_less [of v, where 'a = int] by simp_all
  have mn: "dest < word_of_int mn \<longleftrightarrow> (if 0 \<le> mn then uint dest < mn else uint dest < mn + 2 ^ 64)"
    by (simp add: word_less_def uint_of_int32 [OF assms(2)])
  have mx: "dest < word_of_int mx \<longleftrightarrow> (if 0 \<le> mx then uint dest < mx else uint dest < mx + 2 ^ 64)"
    by (simp add: word_less_def uint_of_int32 [OF assms(3)])
  have hi: "uint (dest - word_of_int mn) = uint dest - mn" if "\<not> (0 < mn \<and> dest < word_of_int mn)"
    using that r v unfolding mn uint_minus_word uint_of_int32 [OF assms(2)] by (auto split: if_splits)
  have lo: "uint (dest - word_of_int mx) = uint dest - mx" if "\<not> (0 < mx \<and> dest < word_of_int mx)"
    using that r v unfolding mx uint_minus_word uint_of_int32 [OF assms(3)] by (auto split: if_splits)
  show ?thesis
  proof (cases "0 < mn \<and> dest < word_of_int mn")
    case True
    then have "uint dest < mn" unfolding mn by simp
    with v(1) have "\<not> near mn mx dest v" unfolding near_def by linarith
    with True show ?thesis by (simp add: value_window_def)
  next
    case False
    note hi = hi [OF False]
    show ?thesis
    proof (cases "0 < mx \<and> dest < word_of_int mx")
      case True
      then have mx_dest: "uint dest < mx" unfolding mx by simp
      have "value_window mn mx dest = Some (0, dest - word_of_int mn)"
        unfolding value_window_def if_not_P [OF False] if_P [OF True] by (simp add: Let_def)
      then have "(\<exists>lo hi. value_window mn mx dest = Some (lo, hi) \<and> lo \<le> v \<and> v \<le> hi) \<longleftrightarrow> uint v \<le> uint dest - mn"
        by (simp add: word_le_def hi)
      also have "\<dots> \<longleftrightarrow> near mn mx dest v" unfolding near_def using mx_dest v(1) by linarith
      finally show ?thesis .
    next
      case mxF: False
      have "\<not> dest - word_of_int mn < dest - word_of_int mx"
        unfolding word_less_def hi lo [OF mxF] using assms(4) by linarith
      then have "value_window mn mx dest = Some (dest - word_of_int mx, dest - word_of_int mn)"
        unfolding value_window_def if_not_P [OF False] if_not_P [OF mxF] by (simp add: Let_def)
      then have "(\<exists>lo hi. value_window mn mx dest = Some (lo, hi) \<and> lo \<le> v \<and> v \<le> hi) \<longleftrightarrow>
          uint dest - mx \<le> uint v \<and> uint v \<le> uint dest - mn"
        by (simp add: word_le_def hi lo [OF mxF])
      also have "\<dots> \<longleftrightarrow> near mn mx dest v" unfolding near_def by linarith
      finally show ?thesis .
    qed
  qed
qed

lemma near_offset:
  assumes "near mn mx dest v" "int32_range mn" "int32_range mx"
  shows "sint (dest - v) = uint dest - uint v"
proof -
  have "sint (dest - v) = signed_take_bit 63 (uint (dest - v))" by (simp add: sint_uint)
  also have "\<dots> = signed_take_bit 63 (uint dest - uint v)"
  proof -
    have "uint (dest - v) = take_bit 64 (uint dest - uint v)" by (simp add: uint_word_ariths take_bit_eq_mod)
    then show ?thesis by (simp only: signed_take_bit_take_bit) simp
  qed
  also have "\<dots> = uint dest - uint v"
    by (rule signed_take_bit_int_eq_self) (use assms in \<open>auto simp: near_def int32_range_def\<close>)
  finally show ?thesis .
qed

lemma edges_between_sorted:
  assumes "sorted (map ed_value es)"
  shows "set (edges_between es lo hi) = {e \<in> set es. lo \<le> ed_value e \<and> ed_value e \<le> hi}"
  using assms
proof (induction es)
  case (Cons e es)
  show ?case
  proof (cases "ed_value e < lo")
    case True
    then show ?thesis using Cons by (auto simp: edges_between_def)
  next
    case False
    have "set (takeWhile (\<lambda>x. ed_value x \<le> hi) es) = {x \<in> set es. ed_value x \<le> hi}"
      using Cons.prems by (induction es) auto
    moreover have "\<forall>x \<in> set es. lo \<le> ed_value x" using False Cons.prems by auto
    ultimately show ?thesis using False Cons.prems by (auto simp: edges_between_def)
  qed
qed (simp add: edges_between_def)

section \<open>Chains of pointers\<close>

text \<open>The address a chain, root first, begins at; the empty chain is the target itself.\<close>

definition begins_at :: "va_t \<Rightarrow> edge_t list \<Rightarrow> va_t" where
  "begins_at tgt c = (case c of [] \<Rightarrow> tgt | e # _ \<Rightarrow> ed_holder e)"

lemma begins_at_simps [simp]: "begins_at tgt [] = tgt" "begins_at tgt (e # c) = ed_holder e"
  by (simp_all add: begins_at_def)

fun leads :: "edge_t set \<Rightarrow> int \<Rightarrow> int \<Rightarrow> va_t \<Rightarrow> edge_t list \<Rightarrow> bool" where
  "leads E mn mx tgt [] = True"
| "leads E mn mx tgt (e # c) \<longleftrightarrow> e \<in> E \<and> near mn mx (begins_at tgt c) (ed_value e) \<and> leads E mn mx tgt c"

fun offsets_of :: "va_t \<Rightarrow> edge_t list \<Rightarrow> int list" where
  "offsets_of tgt [] = []"
| "offsets_of tgt (e # c) = (uint (begins_at tgt c) - uint (ed_value e)) # offsets_of tgt c"

definition chain_result :: "va_t \<Rightarrow> edge_t list \<Rightarrow> pointer_chain" where
  "chain_result tgt c = \<lparr>pc_addresses = map ed_holder c, pc_offsets = offsets_of tgt c\<rparr>"

section \<open>The tree of nodes\<close>

definition grown :: "edge_t set \<Rightarrow> int \<Rightarrow> int \<Rightarrow> va_t \<Rightarrow> node_t list \<Rightarrow> edge_t list list \<Rightarrow> nat \<Rightarrow> bool" where
  "grown E mn mx tgt nodes cs i \<longleftrightarrow> (\<exists>e p. p < i \<and> cs ! i = e # cs ! p \<and> e \<in> E \<and>
     near mn mx (begins_at tgt (cs ! p)) (ed_value e) \<and>
     nodes ! i = \<lparr>nd_addr = ed_holder e, nd_parent = int p, nd_offset = uint (begins_at tgt (cs ! p)) - uint (ed_value e)\<rparr>)"

text \<open>The nodes with the chain each of them ends.\<close>

definition tree :: "edge_t set \<Rightarrow> int \<Rightarrow> int \<Rightarrow> va_t \<Rightarrow> node_t list \<Rightarrow> edge_t list list \<Rightarrow> bool" where
  "tree E mn mx tgt nodes cs \<longleftrightarrow> length cs = length nodes \<and> nodes \<noteq> [] \<and> cs ! 0 = [] \<and>
     nodes ! 0 = \<lparr>nd_addr = tgt, nd_parent = -1, nd_offset = 0\<rparr> \<and>
     (\<forall>i. 0 < i \<and> i < length nodes \<longrightarrow> grown E mn mx tgt nodes cs i)"

lemma treeD:
  assumes "tree E mn mx tgt nodes cs"
  shows "length cs = length nodes" "nodes \<noteq> []" "cs ! 0 = []" "nodes ! 0 = \<lparr>nd_addr = tgt, nd_parent = -1, nd_offset = 0\<rparr>"
    "0 < i \<Longrightarrow> i < length nodes \<Longrightarrow> grown E mn mx tgt nodes cs i"
  using assms by (auto simp: tree_def)

lemma tree_root: "tree E mn mx tgt [\<lparr>nd_addr = tgt, nd_parent = -1, nd_offset = 0\<rparr>] [[]]"
  by (simp add: tree_def)

lemma tree_addr:
  assumes "tree E mn mx tgt nodes cs" "i < length nodes"
  shows "nd_addr (nodes ! i) = begins_at tgt (cs ! i)"
  using treeD(3,4) [OF assms(1)] treeD(5) [OF assms(1), of i] assms(2) by (cases "i = 0") (auto simp: grown_def)

lemma tree_leads:
  assumes "tree E mn mx tgt nodes cs"
  shows "i < length nodes \<Longrightarrow> leads E mn mx tgt (cs ! i) \<and> (0 < i \<longrightarrow> cs ! i \<noteq> [])"
proof (induction i rule: less_induct)
  case (less i)
  show ?case
  proof (cases "i = 0")
    case True
    then show ?thesis using treeD(3) [OF assms] by simp
  next
    case False
    then obtain e p where "p < i" "cs ! i = e # cs ! p" "e \<in> E" "near mn mx (begins_at tgt (cs ! p)) (ed_value e)"
      using treeD(5) [OF assms, of i] less.prems by (auto simp: grown_def)
    then show ?thesis using less.IH [of p] less.prems by simp
  qed
qed

lemma tree_chain:
  assumes "tree E mn mx tgt nodes cs"
  shows "i < length nodes \<Longrightarrow> \<exists>ns. chain_nodes nodes (int i) = Some ns \<and>
    map nd_addr ns = map ed_holder (cs ! i) \<and> map nd_offset ns = offsets_of tgt (cs ! i)"
proof (induction i rule: less_induct)
  case (less i)
  show ?case
  proof (cases "i = 0")
    case True
    then show ?thesis using treeD(3) [OF assms] by (simp add: chain_nodes.simps)
  next
    case False
    then obtain e p where p: "p < i" "cs ! i = e # cs ! p"
        "nodes ! i = \<lparr>nd_addr = ed_holder e, nd_parent = int p, nd_offset = uint (begins_at tgt (cs ! p)) - uint (ed_value e)\<rparr>"
      using treeD(5) [OF assms, of i] less.prems by (auto simp: grown_def)
    with less.IH [of p] less.prems show ?thesis using False by (auto simp: chain_nodes.simps [of nodes "int i"])
  qed
qed

lemma tree_chain_result:
  "tree E mn mx tgt nodes cs \<Longrightarrow> i < length nodes \<Longrightarrow> chain_from nodes i = Some (chain_result tgt (cs ! i))"
  using tree_chain by (fastforce simp: chain_from_def chain_result_def)

lemma tree_end:
  assumes "tree E mn mx tgt nodes cs"
  shows "0 < i \<Longrightarrow> i < length nodes \<Longrightarrow>
    \<exists>j. chain_end nodes (int i) = Some j \<and> nd_addr (nodes ! nat j) = ed_holder (last (cs ! i))"
proof (induction i rule: less_induct)
  case (less i)
  then obtain e p where p: "p < i" "cs ! i = e # cs ! p"
      "nodes ! i = \<lparr>nd_addr = ed_holder e, nd_parent = int p, nd_offset = uint (begins_at tgt (cs ! p)) - uint (ed_value e)\<rparr>"
    using treeD(5) [OF assms, of i] by (auto simp: grown_def)
  show ?case
  proof (cases "p = 0")
    case True
    then show ?thesis using p treeD(3) [OF assms] by (simp add: chain_end.simps [of nodes "int i"])
  next
    case False
    then have "cs ! p \<noteq> []" using tree_leads [OF assms, of p] p(1) less.prems by simp
    with less.IH [of p] p less.prems False show ?thesis by (simp add: chain_end.simps [of nodes "int i"])
  qed
qed

section \<open>One level\<close>

definition node_for :: "va_t \<Rightarrow> nat \<Rightarrow> edge_t \<Rightarrow> node_t" where
  "node_for dest f e = \<lparr>nd_addr = ed_holder e, nd_parent = int f, nd_offset = sint (dest - ed_value e)\<rparr>"

text \<open>A level that got nodes; a limit that was hit stays reported.\<close>

definition appended :: "nat \<Rightarrow> level \<Rightarrow> level \<Rightarrow> bool" where
  "appended n l l' \<longleftrightarrow> lv_next l' = lv_next l @ [length (lv_nodes l)..<length (lv_nodes l) + n] \<and>
     (ps_truncated (lv_stats l) \<longrightarrow> ps_truncated (lv_stats l')) \<and> (ps_cancelled (lv_stats l) \<longrightarrow> ps_cancelled (lv_stats l')) \<and>
     (lv_full l' \<longrightarrow> lv_full l \<or> ps_truncated (lv_stats l'))"

lemma appended_refl: "appended 0 l l"
  by (simp add: appended_def)

lemma appended_trans:
  assumes "appended n l l'" "appended k l' l''" "length (lv_nodes l') = length (lv_nodes l) + n"
  shows "appended (n + k) l l''"
proof -
  have "[length (lv_nodes l)..<length (lv_nodes l) + n] @ [length (lv_nodes l) + n..<length (lv_nodes l) + n + k] =
      [length (lv_nodes l)..<length (lv_nodes l) + n + k]"
    by (rule upt_add_eq_append [symmetric]) simp
  then have "lv_next l'' = lv_next l @ [length (lv_nodes l)..<length (lv_nodes l) + (n + k)]"
    using assms by (simp add: appended_def add.assoc)
  with assms(1,2) show ?thesis unfolding appended_def by blast
qed

lemma expand_edges_ok:
  "\<exists>k. lv_nodes (expand_edges cap dest f es l) = lv_nodes l @ map (node_for dest f) (take k es) \<and> k \<le> length es \<and>
    appended k l (expand_edges cap dest f es l) \<and>
    (\<not> ps_truncated (lv_stats (expand_edges cap dest f es l)) \<longrightarrow> k = length es)"
proof (induction es arbitrary: l)
  case Nil
  then show ?case by (simp add: appended_refl)
next
  case (Cons e es)
  define l' where "l' = l\<lparr>lv_nodes := lv_nodes l @ [node_for dest f e], lv_next := lv_next l @ [length (lv_nodes l)]\<rparr>"
  have a: "appended 1 l l'" "length (lv_nodes l') = length (lv_nodes l) + 1" by (simp_all add: l'_def appended_def)
  show ?case
  proof (cases "cap \<le> of_nat (length (lv_next l'))")
    case True
    then have "expand_edges cap dest f (e # es) l = l'\<lparr>lv_stats := (lv_stats l')\<lparr>ps_truncated := True\<rparr>, lv_full := True\<rparr>"
      by (simp add: l'_def node_for_def Let_def)
    with a show ?thesis by (intro exI [of _ 1]) (simp add: l'_def appended_def)
  next
    case False
    then have eq: "expand_edges cap dest f (e # es) l = expand_edges cap dest f es l'"
      by (simp add: l'_def node_for_def Let_def)
    obtain k where k: "lv_nodes (expand_edges cap dest f es l') = lv_nodes l' @ map (node_for dest f) (take k es)"
        "k \<le> length es" "appended k l' (expand_edges cap dest f es l')"
        "\<not> ps_truncated (lv_stats (expand_edges cap dest f es l')) \<longrightarrow> k = length es"
      using Cons.IH [of l'] by blast
    show ?thesis
      unfolding eq
      by (rule exI [of _ "Suc k"]) (use k appended_trans [OF a(1) k(3) a(2)] in \<open>simp add: l'_def\<close>)
  qed
qed

lemma grown_append:
  assumes "grown E mn mx tgt nodes cs i" "i < length nodes" "length cs = length nodes"
  shows "grown E mn mx tgt (nodes @ ns) (cs @ ds) i"
proof -
  obtain e p where "p < i" "cs ! i = e # cs ! p" "e \<in> E" "near mn mx (begins_at tgt (cs ! p)) (ed_value e)"
      "nodes ! i = \<lparr>nd_addr = ed_holder e, nd_parent = int p, nd_offset = uint (begins_at tgt (cs ! p)) - uint (ed_value e)\<rparr>"
    using assms(1) unfolding grown_def by blast
  then show ?thesis
    unfolding grown_def by (intro exI [of _ e] exI [of _ p]) (use assms(2,3) in \<open>simp add: nth_append\<close>)
qed

lemma tree_extend:
  assumes t: "tree E mn mx tgt nodes cs" and f: "f < length nodes" and r: "int32_range mn" "int32_range mx"
    and es: "set es \<subseteq> {e \<in> E. near mn mx (begins_at tgt (cs ! f)) (ed_value e)}"
  shows "tree E mn mx tgt (nodes @ map (node_for (begins_at tgt (cs ! f)) f) es) (cs @ map (\<lambda>e. e # cs ! f) es)"
  unfolding tree_def
proof (intro conjI allI impI)
  note T = treeD [OF t]
  fix i assume i: "0 < i \<and> i < length (nodes @ map (node_for (begins_at tgt (cs ! f)) f) es)"
  show "grown E mn mx tgt (nodes @ map (node_for (begins_at tgt (cs ! f)) f) es) (cs @ map (\<lambda>e. e # cs ! f) es) i"
  proof (cases "i < length nodes")
    case True
    then show ?thesis using grown_append [OF T(5) [of i] True T(1)] True i by simp
  next
    case False
    then have k: "i - length nodes < length es" using i by auto
    then have e: "es ! (i - length nodes) \<in> E" "near mn mx (begins_at tgt (cs ! f)) (ed_value (es ! (i - length nodes)))"
      using es nth_mem by blast+
    show ?thesis
      unfolding grown_def
      by (rule exI [of _ "es ! (i - length nodes)"], rule exI [of _ f])
         (use False f k e T(1) near_offset [OF e(2) r] in \<open>simp add: nth_append node_for_def\<close>)
  qed
qed (use treeD [OF t] in \<open>simp_all add: nth_append\<close>)

text \<open>What a scan relies on: the edges are the sorted edges of the sweep, and addresses are not at the top.\<close>

definition scan_ok :: "edge_t set \<Rightarrow> pointer_options \<Rightarrow> edge_t list \<Rightarrow> bool" where
  "scan_ok E opt es \<longleftrightarrow> set es = E \<and> sorted (map ed_value es) \<and> low_addr (po_target opt) \<and> (\<forall>e \<in> E. low_addr (ed_holder e))"

lemma offsets_range: "int32_range (min_off opt)" "int32_range (max_off opt)" "min_off opt \<le> max_off opt"
proof -
  have s: "- (2 ^ 31) \<le> sint x" "sint x < 2 ^ 31" for x :: "32 word"
    using sint_greater_eq [of x] sint_less [of x] by simp_all
  show "int32_range (min_off opt)" "int32_range (max_off opt)" "min_off opt \<le> max_off opt"
    using s by (auto simp: min_off_def max_off_def int32_range_def max_def)
qed

abbreviation opt_tree :: "edge_t set \<Rightarrow> pointer_options \<Rightarrow> node_t list \<Rightarrow> edge_t list list \<Rightarrow> bool" where
  "opt_tree E opt \<equiv> tree E (min_off opt) (max_off opt) (po_target opt)"

abbreviation opt_leads :: "edge_t set \<Rightarrow> pointer_options \<Rightarrow> edge_t list \<Rightarrow> bool" where
  "opt_leads E opt \<equiv> leads E (min_off opt) (max_off opt) (po_target opt)"

definition longer :: "edge_t set \<Rightarrow> pointer_options \<Rightarrow> edge_t list \<Rightarrow> edge_t list set" where
  "longer E opt c = {e # c | e. e \<in> E \<and> near (min_off opt) (max_off opt) (begins_at (po_target opt) c) (ed_value e)}"

lemma expand_node_ok:
  assumes ok: "scan_ok E opt es" and t: "opt_tree E opt (lv_nodes l) cs" and f: "f < length cs"
  shows "\<exists>ds. opt_tree E opt (lv_nodes (expand_node opt es f l)) (cs @ ds) \<and>
    appended (length ds) l (expand_node opt es f l) \<and> set ds \<subseteq> longer E opt (cs ! f) \<and>
    (\<not> ps_truncated (lv_stats (expand_node opt es f l)) \<longrightarrow> set ds = longer E opt (cs ! f))"
proof -
  let ?dest = "begins_at (po_target opt) (cs ! f)" and ?mn = "min_off opt" and ?mx = "max_off opt"
  have f': "f < length (lv_nodes l)" using f treeD(1) [OF t] by simp
  have dest: "nd_addr (lv_nodes l ! f) = ?dest" by (rule tree_addr [OF t f'])
  have low: "low_addr ?dest"
    using tree_leads [OF t f'] ok by (cases "cs ! f") (auto simp: scan_ok_def)
  note w = window_exact [OF low offsets_range(1) [of opt] offsets_range(2) [of opt] offsets_range(3)]
  show ?thesis
  proof (cases "value_window ?mn ?mx ?dest")
    case None
    then have "longer E opt (cs ! f) = {}" using w by (auto simp: longer_def)
    with None show ?thesis using t by (intro exI [of _ "[]"]) (simp add: expand_node_def dest appended_refl)
  next
    case (Some lh)
    obtain lo hi where lh: "lh = (lo, hi)" by fastforce
    let ?bs = "edges_between es lo hi"
    have bs: "set ?bs = {e \<in> E. near ?mn ?mx ?dest (ed_value e)}"
      using edges_between_sorted [of es lo hi] ok w Some unfolding lh scan_ok_def by auto
    have eq: "expand_node opt es f l = expand_edges (po_frontier_cap opt) ?dest f ?bs l"
      using Some by (simp add: expand_node_def dest lh Let_def)
    obtain k where k: "lv_nodes (expand_node opt es f l) = lv_nodes l @ map (node_for ?dest f) (take k ?bs)" "k \<le> length ?bs"
        "appended k l (expand_node opt es f l)"
        "\<not> ps_truncated (lv_stats (expand_node opt es f l)) \<longrightarrow> k = length ?bs"
      using expand_edges_ok [of "po_frontier_cap opt" ?dest f ?bs l] unfolding eq by blast
    have sub: "set (take k ?bs) \<subseteq> {e \<in> E. near ?mn ?mx ?dest (ed_value e)}"
      using set_take_subset bs by fastforce
    have "opt_tree E opt (lv_nodes (expand_node opt es f l)) (cs @ map (\<lambda>e. e # cs ! f) (take k ?bs))"
      unfolding k(1) by (rule tree_extend [OF t f' offsets_range(1,2) sub])
    moreover have "set (map (\<lambda>e. e # cs ! f) (take k ?bs)) \<subseteq> longer E opt (cs ! f)"
      using sub by (auto simp: longer_def)
    moreover have "set (map (\<lambda>e. e # cs ! f) ?bs) = longer E opt (cs ! f)"
      using bs by (auto simp: longer_def)
    ultimately show ?thesis
      using k by (intro exI [of _ "map (\<lambda>e. e # cs ! f) (take k ?bs)"]) auto
  qed
qed

lemma expand_frontier_ok:
  assumes ok: "scan_ok E opt es"
  shows "opt_tree E opt (lv_nodes l) cs \<Longrightarrow> \<forall>f \<in> set fs. f < length cs \<Longrightarrow> (lv_full l \<longrightarrow> ps_truncated (lv_stats l)) \<Longrightarrow>
    expand_frontier opt es tok fs l = (l', t') \<Longrightarrow>
    \<exists>ds. opt_tree E opt (lv_nodes l') (cs @ ds) \<and> appended (length ds) l l' \<and>
      set ds \<subseteq> (\<Union>f \<in> set fs. longer E opt (cs ! f)) \<and>
      (\<not> ps_truncated (lv_stats l') \<and> \<not> ps_cancelled (lv_stats l') \<longrightarrow> set ds = (\<Union>f \<in> set fs. longer E opt (cs ! f)))"
proof (induction fs arbitrary: tok l cs)
  case Nil
  then show ?case by (intro exI [of _ "[]"]) (simp add: appended_refl)
next
  case (Cons f fs)
  obtain b t where p: "poll tok = (b, t)" by fastforce
  show ?case
  proof (cases "b \<or> lv_full l")
    case True
    then show ?thesis
      using Cons.prems p by (intro exI [of _ "[]"]) (auto simp: appended_def split: if_splits bool.splits)
  next
    case False
    let ?l = "expand_node opt es f l"
    obtain ds where ds: "opt_tree E opt (lv_nodes ?l) (cs @ ds)" "appended (length ds) l ?l" "set ds \<subseteq> longer E opt (cs ! f)"
        "\<not> ps_truncated (lv_stats ?l) \<longrightarrow> set ds = longer E opt (cs ! f)"
      using expand_node_ok [OF ok Cons.prems(1), of f] Cons.prems(2) by auto
    have same: "(\<Union>g \<in> set fs. longer E opt ((cs @ ds) ! g)) = (\<Union>g \<in> set fs. longer E opt (cs ! g))"
      using Cons.prems(2) by (simp add: nth_append)
    have full: "lv_full ?l \<longrightarrow> ps_truncated (lv_stats ?l)" using ds(2) Cons.prems(3) by (auto simp: appended_def)
    have run: "expand_frontier opt es t fs ?l = (l', t')" using Cons.prems(4) p False by simp
    have ix: "\<forall>g \<in> set fs. g < length (cs @ ds)" using Cons.prems(2) by auto
    obtain ds' where ds': "opt_tree E opt (lv_nodes l') ((cs @ ds) @ ds')" "appended (length ds') ?l l'"
        "set ds' \<subseteq> (\<Union>g \<in> set fs. longer E opt (cs ! g))"
        "\<not> ps_truncated (lv_stats l') \<and> \<not> ps_cancelled (lv_stats l') \<longrightarrow> set ds' = (\<Union>g \<in> set fs. longer E opt (cs ! g))"
      using Cons.IH [OF ds(1) ix full run] unfolding same by blast
    have len: "length (lv_nodes ?l) = length (lv_nodes l) + length ds"
      using treeD(1) [OF ds(1)] treeD(1) [OF Cons.prems(1)] by simp
    have "ps_truncated (lv_stats ?l) \<longrightarrow> ps_truncated (lv_stats l')" using ds'(2) by (simp add: appended_def)
    then show ?thesis
      using ds ds' appended_trans [OF ds(2) ds'(2) len] by (intro exI [of _ "ds @ ds'"]) auto
  qed
qed

section \<open>All levels\<close>

lemma leads_drop: "leads E mn mx tgt c \<Longrightarrow> leads E mn mx tgt (drop k c)"
proof (induction c arbitrary: k)
  case (Cons e c)
  then show ?case by (cases k) auto
qed simp

lemma leads_length_exists:
  assumes "leads E mn mx tgt c" "m \<le> length c"
  shows "\<exists>d. leads E mn mx tgt d \<and> length d = m"
  by (rule exI [of _ "drop (length c - m) c"]) (use assms leads_drop in auto)

definition unlimited :: "pointer_stats \<Rightarrow> bool" where
  "unlimited st \<longleftrightarrow> \<not> ps_truncated st \<and> \<not> ps_cancelled st"

text \<open>The nodes before level \<open>m\<close> and the frontier with the chains of length \<open>m\<close>.\<close>

definition levelled :: "edge_t set \<Rightarrow> pointer_options \<Rightarrow> nat \<Rightarrow> nat list \<Rightarrow> edge_t list list \<Rightarrow> pointer_stats \<Rightarrow> bool" where
  "levelled E opt m fs cs st \<longleftrightarrow> (\<forall>f \<in> set fs. f < length cs \<and> length (cs ! f) = m) \<and> (\<forall>c \<in> set cs. length c \<le> m) \<and>
     (unlimited st \<longrightarrow> {c. opt_leads E opt c \<and> length c \<le> m} \<subseteq> set cs \<and>
        {c. opt_leads E opt c \<and> length c = m} \<subseteq> (!) cs ` set fs)"

lemma levelled_next:
  assumes lv: "levelled E opt m fs cs st" and st: "unlimited st' \<longrightarrow> unlimited st"
    and ds: "set ds \<subseteq> (\<Union>f \<in> set fs. longer E opt (cs ! f))"
      "unlimited st' \<longrightarrow> set ds = (\<Union>f \<in> set fs. longer E opt (cs ! f))"
  shows "levelled E opt (Suc m) [length cs..<length cs + length ds] (cs @ ds) st'"
proof -
  have len: "length c = Suc m" if "c \<in> set ds" for c
    using ds(1) that lv by (auto simp: longer_def levelled_def)
  have img: "(!) (cs @ ds) ` set [length cs..<length cs + length ds] = set ds"
  proof -
    have "map ((!) (cs @ ds)) [length cs..<length cs + length ds] = ds"
      by (rule nth_equalityI) simp_all
    from arg_cong [OF this, of set] show ?thesis by (simp only: set_map)
  qed
  have top: "c \<in> set ds" if u: "unlimited st'" and c: "opt_leads E opt c" "length c = Suc m" for c
  proof (cases c)
    case (Cons e d)
    then have d: "opt_leads E opt d" "length d = m" "e \<in> E"
        "near (min_off opt) (max_off opt) (begins_at (po_target opt) d) (ed_value e)"
      using c by simp_all
    then have "d \<in> (!) cs ` set fs" using lv st u unfolding levelled_def by blast
    then obtain f where f: "f \<in> set fs" "d = cs ! f" by blast
    have "c \<in> longer E opt (cs ! f)" using d(3,4) unfolding longer_def Cons f(2) by blast
    then show ?thesis using ds(2) u f(1) by blast
  qed (use c in simp)
  have all: "c \<in> set (cs @ ds)" if u: "unlimited st'" and c: "opt_leads E opt c" "length c \<le> Suc m" for c
  proof (cases "length c = Suc m")
    case False
    then have "length c \<le> m" using c(2) by simp
    then have "c \<in> set cs" using lv st u c(1) unfolding levelled_def by blast
    then show ?thesis by simp
  qed (use top [OF u c(1)] in simp)
  have short: "length c \<le> Suc m" if "c \<in> set (cs @ ds)" for c
  proof (cases "c \<in> set ds")
    case False
    then have "c \<in> set cs" using that by simp
    then have "length c \<le> m" using lv unfolding levelled_def by blast
    then show ?thesis by simp
  qed (simp add: len)
  have new: "f < length (cs @ ds) \<and> length ((cs @ ds) ! f) = Suc m" if "f \<in> set [length cs..<length cs + length ds]" for f
    using len [of "(cs @ ds) ! f"] imageI [OF that, of "(!) (cs @ ds)"] that unfolding img by auto
  show ?thesis
    unfolding levelled_def img using new short all top by blast
qed

lemma expand_levels_ok:
  assumes ok: "scan_ok E opt es"
  shows "opt_tree E opt nodes cs \<Longrightarrow> levelled E opt m fs cs st \<Longrightarrow>
    expand_levels opt es n tok fs nodes st = (nodes', st') \<Longrightarrow>
    \<exists>cs'. opt_tree E opt nodes' cs' \<and> (\<forall>c \<in> set cs'. length c \<le> m + n) \<and>
      (unlimited st' \<longrightarrow> unlimited st \<and> {c. opt_leads E opt c \<and> length c \<le> m + n} \<subseteq> set cs')"
proof (induction n arbitrary: m tok fs nodes cs st)
  case 0
  then show ?case by (intro exI [of _ cs]) (auto simp: levelled_def)
next
  case (Suc n)
  have keep: "\<forall>c \<in> set cs. length c \<le> m + Suc n" using Suc.prems(2) by (fastforce simp: levelled_def)
  obtain b t where p: "poll tok = (b, t)" by fastforce
  show ?case
  proof (cases "fs = []")
    case True
    have "length c \<le> m" if u: "unlimited st" and c: "opt_leads E opt c" for c
    proof (rule ccontr)
      assume "\<not> length c \<le> m"
      then obtain d where "opt_leads E opt d" "length d = m" using leads_length_exists [OF c, of m] by auto
      with Suc.prems(2) u True show False by (auto simp: levelled_def)
    qed
    then show ?thesis
      using Suc.prems True keep by (intro exI [of _ cs]) (auto simp: levelled_def)
  next
    case fs: False
    show ?thesis
    proof (cases b)
      case True
      then show ?thesis using Suc.prems fs p keep by (intro exI [of _ cs]) (auto simp: unlimited_def)
    next
      case False
      define l where "l = \<lparr>lv_nodes = nodes, lv_next = [], lv_stats = st, lv_full = False\<rparr>"
      obtain l' t' where l': "expand_frontier opt es t fs l = (l', t')" by fastforce
      have pre: "opt_tree E opt (lv_nodes l) cs" "\<forall>f \<in> set fs. f < length cs" "lv_full l \<longrightarrow> ps_truncated (lv_stats l)"
        using Suc.prems(1,2) by (simp_all add: l_def levelled_def)
      obtain ds where ds: "opt_tree E opt (lv_nodes l') (cs @ ds)" "appended (length ds) l l'"
          "set ds \<subseteq> (\<Union>f \<in> set fs. longer E opt (cs ! f))"
          "unlimited (lv_stats l') \<longrightarrow> set ds = (\<Union>f \<in> set fs. longer E opt (cs ! f))"
        using expand_frontier_ok [OF ok pre l'] unfolding unlimited_def by blast
      have mono: "unlimited (lv_stats l') \<longrightarrow> unlimited st" using ds(2) by (auto simp: appended_def unlimited_def l_def)
      have nxt: "lv_next l' = [length cs..<length cs + length ds]"
        using ds(2) treeD(1) [OF Suc.prems(1)] by (simp add: appended_def l_def)
      note lv = levelled_next [OF Suc.prems(2) mono ds(3,4)]
      have run: "expand_levels opt es (Suc n) tok fs nodes st =
          (if ps_truncated (lv_stats l') \<and> lv_next l' = [] then (lv_nodes l', lv_stats l')
           else expand_levels opt es n t' (lv_next l') (lv_nodes l') (lv_stats l'))"
        using fs p False l' by (simp add: l_def)
      show ?thesis
      proof (cases "ps_truncated (lv_stats l') \<and> lv_next l' = []")
        case True
        have "length c \<le> Suc m" if "c \<in> set (cs @ ds)" for c
          using lv that unfolding levelled_def by blast
        then have "\<forall>c \<in> set (cs @ ds). length c \<le> m + Suc n" by fastforce
        with True show ?thesis
          using run Suc.prems(3) ds(1) by (intro exI [of _ "cs @ ds"]) (auto simp: unlimited_def)
      next
        case False
        have "expand_levels opt es n t' (lv_next l') (lv_nodes l') (lv_stats l') = (nodes', st')"
          using Suc.prems(3) unfolding run if_not_P [OF False] .
        from Suc.IH [OF ds(1) lv this [unfolded nxt]] mono show ?thesis by auto
      qed
    qed
  qed
qed

section \<open>The chains of the nodes\<close>

definition kept :: "pointer_options \<Rightarrow> scan_region list \<Rightarrow> edge_t list \<Rightarrow> bool" where
  "kept opt regions c \<longleftrightarrow> (po_only_module_backed opt \<longrightarrow> in_module_backed (ed_holder (last c)) regions)"

lemma build_chains_ok:
  assumes t: "opt_tree E opt nodes cs"
  shows "\<forall>i \<in> set is. 0 < i \<and> i < length nodes \<Longrightarrow>
    \<exists>rs st'. build_chains opt regions nodes is results st = Some (results @ rs, st') \<and>
      set rs \<subseteq> chain_result (po_target opt) ` {cs ! i | i. i \<in> set is \<and> kept opt regions (cs ! i)} \<and>
      (unlimited st' \<longrightarrow> unlimited st \<and>
        set rs = chain_result (po_target opt) ` {cs ! i | i. i \<in> set is \<and> kept opt regions (cs ! i)})"
proof (induction "is" arbitrary: results st)
  case Nil
  then show ?case by simp
next
  case (Cons i "is")
  have i: "0 < i" "i < length nodes" using Cons.prems by auto
  note c = tree_chain_result [OF t i(2)]
  have keep: "root_kept opt regions nodes i = Some (kept opt regions (cs ! i))"
    using tree_end [OF t i] by (auto simp: root_kept_def kept_def)
  show ?case
  proof (cases "max_pointer_chains \<le> of_nat (length results)")
    case True
    then show ?thesis by (auto simp: unlimited_def)
  next
    case False
    have rest: "\<forall>i \<in> set is. 0 < i \<and> i < length nodes" using Cons.prems by simp
    show ?thesis
    proof (cases "kept opt regions (cs ! i)")
      case True
      from Cons.IH [OF rest, of "results @ [chain_result (po_target opt) (cs ! i)]" st]
      obtain rs st' where rs: "build_chains opt regions nodes is (results @ [chain_result (po_target opt) (cs ! i)]) st =
            Some (results @ chain_result (po_target opt) (cs ! i) # rs, st')"
          "set rs \<subseteq> chain_result (po_target opt) ` {cs ! i | i. i \<in> set is \<and> kept opt regions (cs ! i)}"
          "unlimited st' \<longrightarrow> unlimited st \<and>
            set rs = chain_result (po_target opt) ` {cs ! i | i. i \<in> set is \<and> kept opt regions (cs ! i)}"
        by auto
      have eq: "{cs ! j | j. j \<in> set (i # is) \<and> kept opt regions (cs ! j)} =
          insert (cs ! i) {cs ! j | j. j \<in> set is \<and> kept opt regions (cs ! j)}"
        using True by auto
      show ?thesis
        unfolding eq
        by (rule exI [of _ "chain_result (po_target opt) (cs ! i) # rs"], rule exI [of _ st'])
           (use False True keep c rs in auto)
    next
      case drop: False
      have eq: "{cs ! j | j. j \<in> set (i # is) \<and> kept opt regions (cs ! j)} = {cs ! j | j. j \<in> set is \<and> kept opt regions (cs ! j)}"
        using drop by auto
      show ?thesis unfolding eq using Cons.IH [OF rest, of results st] False drop keep by simp
    qed
  qed
qed

end
