(* ===== verification/Pointer_Sweep.thy ===== *)
theory Pointer_Sweep
  imports Pointer_Levels
begin

text \<open>
  The sweep of the pointer scan: it ends, what it collects are non-null qwords that are readable at aligned
  addresses of the spans, and with an alignment that is a multiple of eight it misses none.
\<close>

section \<open>Qwords of the memory\<close>

definition mem_qword :: "memory \<Rightarrow> va_t \<Rightarrow> u64" where
  "mem_qword mem q = qword_at (content mem q 8) 0"

definition edge_of :: "memory \<Rightarrow> va_t \<Rightarrow> edge_t" where
  "edge_of mem q = \<lparr>ed_value = mem_qword mem q, ed_holder = q\<rparr>"

text \<open>The non-null readable qwords at aligned addresses between two bounds.\<close>

definition slots :: "memory \<Rightarrow> nat \<Rightarrow> nat \<Rightarrow> nat \<Rightarrow> edge_t set" where
  "slots mem align lo hi = {edge_of mem q | q. align dvd unat q \<and> lo \<le> unat q \<and> unat q + 8 \<le> hi \<and>
     readable mem q 8 \<and> mem_qword mem q \<noteq> 0}"

lemma slots_mono: "lo' \<le> lo \<Longrightarrow> hi \<le> hi' \<Longrightarrow> slots mem align lo hi \<subseteq> slots mem align lo' hi'"
  unfolding slots_def by fastforce

lemma slots_empty: "hi < lo + 8 \<Longrightarrow> slots mem align lo hi = {}"
  unfolding slots_def by auto

lemma slots_split:
  assumes "8 dvd align" "8 dvd mid" "lo \<le> mid" "mid \<le> hi"
  shows "slots mem align lo hi = slots mem align lo mid \<union> slots mem align mid hi"
proof -
  have cases: "q + 8 \<le> mid \<or> mid \<le> q" if "align dvd q" for q
  proof -
    have "8 dvd q" using assms(1) that by (rule dvd_trans)
    then obtain i j where "q = 8 * i" "mid = 8 * j" using assms(2) by (auto elim!: dvdE)
    then show ?thesis by (cases "i < j") auto
  qed
  have "slots mem align lo hi \<subseteq> slots mem align lo mid \<union> slots mem align mid hi"
    using cases unfolding slots_def by blast
  then show ?thesis
    using slots_mono [OF order_refl assms(4), of mem align lo] slots_mono [OF assms(3) order_refl, of mem align hi] by blast
qed

lemma content_part:
  assumes "k + m \<le> n"
  shows "take m (drop k (content mem a n)) = content mem (a + of_nat k) m"
  by (rule nth_equalityI) (use assms in \<open>auto simp: content_def add.assoc\<close>)

lemma readable_part:
  assumes "readable mem a n" "k + m \<le> n"
  shows "readable mem (a + of_nat k) m"
  unfolding readable_def
proof (intro allI impI)
  fix i assume "i < m"
  then have "k + i < n" using assms(2) by simp
  with assms(1) have "mem (a + of_nat (k + i)) \<noteq> None" unfolding readable_def by blast
  then show "mem (a + of_nat k + of_nat i) \<noteq> None" by (simp add: add.assoc)
qed

lemma unat_add_small: "unat a + k < 2 ^ 64 \<Longrightarrow> unat ((a :: va_t) + of_nat k) = unat a + k"
  by (simp add: unat_word_ariths unat_of_nat)

lemma qword_run:
  assumes "run_true mem (a, d)" "unat a \<le> unat q" "unat q + 8 \<le> unat a + length d"
  shows "qword_at d (unat q - unat a) = mem_qword mem q" "readable mem q 8"
proof -
  define k where "k = unat q - unat a"
  have q: "q = a + of_nat k" unfolding k_def using assms(2) by (simp add: word_unat_eq_iff unat_word_ariths unat_of_nat)
  have k: "k + 8 \<le> length d" using assms(2,3) by (simp add: k_def)
  have d: "readable mem a (length d)" "d = content mem a (length d)" using assms(1) by (simp_all add: run_true_def)
  have "take 8 (drop k d) = content mem q 8" by (subst d(2)) (simp add: content_part [OF k] q)
  then show "qword_at d (unat q - unat a) = mem_qword mem q"
    by (simp add: mem_qword_def qword_at_def flip: k_def) 
  show "readable mem q 8" unfolding q by (rule readable_part [OF d(1) k])
qed

section \<open>Rounding\<close>

lemma unat_round_up:
  assumes "0 < align" "unat a + align < 2 ^ 64"
  shows "unat (round_up align a) = (unat a + align - 1) div align * align"
proof -
  have al: "unat (of_nat align :: va_t) = align" using assms(2) by (simp add: unat_of_nat)
  have e: "a + of_nat align - 1 = a + of_nat (align - 1)" using assms(1) by (simp add: of_nat_diff)
  have s: "unat (a + of_nat align - 1) = unat a + align - 1" unfolding e by (subst unat_add_small) (use assms in auto)
  have "(unat a + align - 1) div align * align \<le> unat a + align - 1" by (rule div_times_less_eq_dividend)
  then have m: "(unat a + align - 1) div align * align < 2 ^ 64" using assms by linarith
  have "unat (round_up align a) = (unat a + align - 1) div align * align mod 2 ^ 64"
    by (simp add: round_up_def unat_word_ariths(2) unat_div_distrib s al)
  then show ?thesis using m by simp
qed

lemma round_up_bounds:
  assumes "0 < (align :: nat)"
  shows "u \<le> (u + align - 1) div align * align" "(u + align - 1) div align * align < u + align"
proof -
  have e: "(u + align - 1) div align * align + (u + align - 1) mod align = u + align - 1" by (rule div_mult_mod_eq)
  have "(u + align - 1) mod align < align" using assms by simp
  with e assms show "u \<le> (u + align - 1) div align * align" "(u + align - 1) div align * align < u + align" by linarith+
qed

lemma round_up_multiples:
  assumes "0 < (align :: nat)"
  shows "(\<exists>k. q = (u + align - 1) div align * align + k * align) \<longleftrightarrow> align dvd q \<and> u \<le> q"
proof (intro iffI)
  assume "\<exists>k. q = (u + align - 1) div align * align + k * align"
  then show "align dvd q \<and> u \<le> q" using round_up_bounds(1) [OF assms, of u] by auto
next
  assume "align dvd q \<and> u \<le> q"
  then have "q = q div align * align" "u \<le> q" by simp_all
  then obtain j where j: "q = j * align" "u \<le> q" by blast
  have "u + align - 1 < (j + 1) * align" using j assms by simp
  then have "(u + align - 1) div align < j + 1" by (rule less_mult_imp_div_less)
  then have "q = (u + align - 1) div align * align + (j - (u + align - 1) div align) * align"
    unfolding j(1) by (simp flip: distrib_right)
  then show "\<exists>k. q = (u + align - 1) div align * align + k * align" by blast
qed

section \<open>Runs\<close>

text \<open>
  What a part of the sweep adds: edges of \<open>E\<close>, and all of them if \<open>full\<close> holds, no limit was hit and the
  token is not about to be found cancelled.
\<close>

definition swept :: "bool \<Rightarrow> edge_t set \<Rightarrow> token \<Rightarrow> sweep \<Rightarrow> sweep \<Rightarrow> bool" where
  "swept full E tok s s' \<longleftrightarrow> (unlimited (sw_stats s') \<longrightarrow> unlimited (sw_stats s)) \<and>
     set (sw_edges s) \<subseteq> set (sw_edges s') \<and> set (sw_edges s') \<subseteq> set (sw_edges s) \<union> E \<and>
     (full \<and> unlimited (sw_stats s') \<and> tok \<noteq> Some 0 \<longrightarrow> E \<subseteq> set (sw_edges s'))"

lemma swept_refl: "swept full {} tok s s"
  by (simp add: swept_def)

lemma swept_trans:
  assumes "swept full E t s s'" "swept full F t' s' s''" "t' \<noteq> Some 0 \<longrightarrow> t \<noteq> Some 0"
  shows "swept full (E \<union> F) t' s s''"
  using assms unfolding swept_def by blast

lemma swept_weaken:
  "swept full E tok s s' \<Longrightarrow> E \<subseteq> F \<Longrightarrow> (full' \<and> unlimited (sw_stats s') \<and> tok \<noteq> Some 0 \<Longrightarrow> full \<and> F \<subseteq> E) \<Longrightarrow> swept full' F tok s s'"
  unfolding swept_def by blast

lemma take_qword_ok:
  assumes "take_qword v p s = (s', stop)"
  shows "swept True (if v = 0 then {} else {\<lparr>ed_value = v, ed_holder = p\<rparr>}) tok s s'" "stop \<longrightarrow> \<not> unlimited (sw_stats s')"
  using assms by (auto simp: take_qword_def swept_def unlimited_def Let_def split: if_splits)

definition run_slots :: "nat \<Rightarrow> va_t \<Rightarrow> byte list \<Rightarrow> va_t \<Rightarrow> edge_t set" where
  "run_slots align a d p = {\<lparr>ed_value = qword_at d (unat q - unat a), ed_holder = q\<rparr> | q.
     (\<exists>k. unat q = unat p + k * align) \<and> unat q + 8 \<le> unat a + length d \<and> qword_at d (unat q - unat a) \<noteq> 0}"

lemma run_slots_done: "unat a + length d < unat p + 8 \<Longrightarrow> run_slots align a d p = {}"
  unfolding run_slots_def by auto

lemma run_slots_step:
  assumes "unat p + 8 \<le> unat a + length d" "unat (p + of_nat align) = unat p + align"
  shows "run_slots align a d p = (if qword_at d (unat p - unat a) = 0 then {}
      else {\<lparr>ed_value = qword_at d (unat p - unat a), ed_holder = p\<rparr>}) \<union> run_slots align a d (p + of_nat align)"
proof -
  have "(\<exists>k. unat q = unat p + k * align) \<longleftrightarrow> q = p \<or> (\<exists>k. unat q = unat (p + of_nat align) + k * align)" for q
  proof
    assume "\<exists>k. unat q = unat p + k * align"
    then obtain k where k: "unat q = unat p + k * align" by blast
    show "q = p \<or> (\<exists>k. unat q = unat (p + of_nat align) + k * align)"
    proof (cases k)
      case 0
      with k show ?thesis by (simp add: word_unat_eq_iff)
    next
      case (Suc j)
      with k assms(2) show ?thesis by (intro disjI2 exI [of _ j]) simp
    qed
  next
    assume "q = p \<or> (\<exists>k. unat q = unat (p + of_nat align) + k * align)"
    then show "\<exists>k. unat q = unat p + k * align"
    proof
      assume "\<exists>k. unat q = unat (p + of_nat align) + k * align"
      then obtain k where "unat q = unat (p + of_nat align) + k * align" by blast
      then show ?thesis using assms(2) by (intro exI [of _ "Suc k"]) simp
    qed (intro exI [of _ 0], simp)
  qed
  then show ?thesis using assms(1) unfolding run_slots_def by auto
qed

lemma sweep_run_ok:
  assumes "0 < align" "unat a + length d + align + 8 < 2 ^ 64"
  shows "unat a \<le> unat p \<Longrightarrow> unat p < unat a + length d + align \<Longrightarrow>
    \<exists>s'. sweep_run align a d p s = Some s' \<and> swept True (run_slots align a d p) tok s s'"
proof (induction "unat a + length d + align - unat p" arbitrary: p s rule: less_induct)
  case less
  have top: "unat (p + 8) = unat p + 8" "unat (a + of_nat (length d)) = unat a + length d"
    using unat_add_small [of p 8] unat_add_small [of a "length d"] less.prems assms(2) by simp_all
  show ?case
  proof (cases "p + 8 \<le> a + of_nat (length d)")
    case False
    then have "run_slots align a d p = {}" using run_slots_done top by (simp add: word_le_nat_alt)
    with False show ?thesis by (simp add: sweep_run.simps [of align a d p] swept_refl)
  next
    case True
    then have in_run: "unat p + 8 \<le> unat a + length d" using top by (simp add: word_le_nat_alt)
    have off: "unat (p - a) = unat p - unat a" using less.prems(1) by (simp add: unat_sub word_le_nat_alt)
    have nxt: "unat (p + of_nat align) = unat p + align" by (rule unat_add_small) (use in_run assms(2) in simp)
    obtain s' stop where t: "take_qword (qword_at d (unat p - unat a)) p s = (s', stop)" by fastforce
    note q = take_qword_ok [OF t]
    have fits: "\<not> length d < unat (p - a) + 8" using in_run less.prems(1) off by simp
    have eq: "sweep_run align a d p s = (if stop then Some s' else sweep_run align a d (p + of_nat align) s')"
      using True fits by (simp add: sweep_run.simps [of align a d p s] off t)
    note slots = run_slots_step [OF in_run nxt]
    show ?thesis
    proof (cases stop)
      case True
      have "swept True (run_slots align a d p) tok s s'"
        using q(1) [of tok] q(2) True unfolding slots swept_def by blast
      with True eq show ?thesis by simp
    next
      case False
      have "\<exists>s''. sweep_run align a d (p + of_nat align) s' = Some s'' \<and> swept True (run_slots align a d (p + of_nat align)) tok s' s''"
        by (rule less.hyps) (use nxt in_run less.prems assms(1) in auto)
      then obtain s'' where "sweep_run align a d (p + of_nat align) s' = Some s''"
          "swept True (run_slots align a d (p + of_nat align)) tok s' s''" by blast
      then show ?thesis unfolding slots eq using swept_trans [OF q(1) [of tok]] False by simp
    qed
  qed
qed

lemma sweep_run_slots:
  assumes "0 < align" "unat a + length d + align + 8 < 2 ^ 64" "run_true mem (a, d)"
  shows "\<exists>s'. sweep_run align a d (round_up align a) s = Some s' \<and>
    swept True (slots mem align (unat a) (unat a + length d)) tok s s'"
proof -
  note r = unat_round_up [OF assms(1), of a] round_up_bounds [OF assms(1), of "unat a"]
  have u: "unat (round_up align a) = (unat a + align - 1) div align * align" using r(1) assms(2) by simp
  have "run_slots align a d (round_up align a) = slots mem align (unat a) (unat a + length d)"
    unfolding run_slots_def slots_def edge_of_def u round_up_multiples [OF assms(1)]
    using qword_run [OF assms(3)] by (intro Collect_cong) (metis (no_types, lifting))
  then show ?thesis using sweep_run_ok [OF assms(1,2), of "round_up align a" s tok] r u by simp
qed

section \<open>The runs of a resilient read\<close>

lemma poll_cases:
  "poll tok = (b, t) \<Longrightarrow> (b \<longleftrightarrow> tok = Some 0) \<and> (b \<longrightarrow> t = Some 0) \<and> (tok = None \<longleftrightarrow> t = None)"
  by (auto simp: poll_def split: option.splits nat.splits)

text \<open>A read after which the token is not found cancelled was never cut short.\<close>

lemma resilient_live:
  "resilient read ml tok st = (runs, t') \<Longrightarrow> t' \<noteq> Some 0 \<Longrightarrow> tok \<noteq> Some 0 \<and> fst (resilient read ml None st) = runs"
proof (induction read ml tok st arbitrary: runs rule: resilient.induct)
  case (1 read ml tok)
  then show ?case by simp
next
  case (2 read ml tok a n stack)
  obtain b t where p: "poll tok = (b, t)" by fastforce
  have b: "\<not> b" using 2(4,5) p poll_cases [OF p] by (auto split: bool.splits)
  have tok: "tok \<noteq> Some 0" using poll_cases [OF p] b by simp
  show ?case
  proof (cases "read a n")
    case (Some bs)
    then obtain rs where r: "resilient read ml t stack = (rs, t')" and runs: "runs = (a, bs) # rs"
      using 2(4) p b by (auto split: prod.splits)
    then show ?thesis using 2(3) [OF p [symmetric] eq_False [THEN iffD2, OF b] Some r] 2(5) tok Some
      by (simp add: case_prod_beta)
  next
    case None
    show ?thesis
    proof (cases "n \<le> leaf_size ml")
      case True
      then have r: "resilient read ml t stack = (runs, t')" using 2(4) p b None by simp
      then show ?thesis
        using 2(1) [OF p [symmetric] eq_False [THEN iffD2, OF b] None True r] 2(5) tok None True by simp
    next
      case False
      then have r: "resilient read ml t ((a + of_nat (half_of ml n), n - half_of ml n) # (a, half_of ml n) # stack) = (runs, t')"
        using 2(4) p b None by (simp add: Let_def)
      then show ?thesis
        using 2(2) [OF p [symmetric] eq_False [THEN iffD2, OF b] None False refl r] 2(5) tok None False
        by (simp add: Let_def)
    qed
  qed
qed

text \<open>A block of eight bytes on the grid of a segment.\<close>

definition on_grid :: "va_t \<Rightarrow> nat \<Rightarrow> va_t \<Rightarrow> bool" where
  "on_grid a n q \<longleftrightarrow> (\<exists>j. q = a + of_nat (8 * j) \<and> 8 * j + 8 \<le> n)"

lemma on_grid_halves:
  assumes "on_grid a n q" "8 < n"
  shows "on_grid a (half_of 8 n) q \<or> on_grid (a + of_nat (half_of 8 n)) (n - half_of 8 n) q"
proof -
  have "8 dvd half_of 8 n" by (simp add: half_of_def leaf_size_def max_def)
  then obtain i where h: "half_of 8 n = 8 * i" by (elim dvdE)
  obtain j where j: "q = a + of_nat (8 * j)" "8 * j + 8 \<le> n" using assms(1) unfolding on_grid_def by blast
  show ?thesis
  proof (cases "j < i")
    case True
    then have "8 * j + 8 \<le> half_of 8 n" unfolding h by simp
    with j(1) show ?thesis unfolding on_grid_def by blast
  next
    case False
    then have "8 * j = half_of 8 n + 8 * (j - i)" unfolding h by simp
    then have "q = a + of_nat (half_of 8 n) + of_nat (8 * (j - i))" "8 * (j - i) + 8 \<le> n - half_of 8 n"
      using j by (simp_all only: of_nat_add add.assoc)
    then show ?thesis unfolding on_grid_def by blast
  qed
qed

context memory_reader
begin

lemma resilient_blocks:
  "\<forall>q. readable mem q 8 \<and> (\<exists>(a, n) \<in> set st. on_grid a n q) \<longrightarrow>
    (\<exists>(a, bs) \<in> set (fst (resilient read 8 None st)). on_grid a (length bs) q)"
proof (rule resilient_rule [where P = "\<lambda>st runs. \<forall>q. readable mem q 8 \<and> (\<exists>(a, n) \<in> set st. on_grid a n q) \<longrightarrow>
     (\<exists>(a, bs) \<in> set runs. on_grid a (length bs) q)"], goal_cases)
  case (1 st)
  then show ?case by auto
next
  case (2 a n bs st rs)
  then have "length bs = n" by (auto dest!: read_Some)
  with 2(2) show ?case by fastforce
next
  case (3 a n st rs)
  have "\<not> on_grid a n q" if "readable mem q 8" for q
  proof
    assume "on_grid a n q"
    then obtain j where j: "q = a + of_nat (8 * j)" "8 * j + 8 \<le> n" unfolding on_grid_def by blast
    then have "j = 0" using 3(2) by (simp add: leaf_size_def)
    then have "q = a" "n = 8" using j 3(2) by (simp_all add: leaf_size_def)
    with 3(1) that show False by (simp add: read_None)
  qed
  with 3(3) show ?case by fastforce
next
  case (4 a n st rs)
  have n: "8 < n" using 4(2) by (simp add: leaf_size_def)
  show ?case
  proof (intro allI impI)
    fix q assume q: "readable mem q 8 \<and> (\<exists>(a, n) \<in> set ((a, n) # st). on_grid a n q)"
    then have "\<exists>(b, m) \<in> set ((a + of_nat (half_of 8 n), n - half_of 8 n) # (a, half_of 8 n) # st). on_grid b m q"
      using on_grid_halves [OF _ n] by auto
    with 4(3) q show "\<exists>(a, bs) \<in> set rs. on_grid a (length bs) q" by blast
  qed
qed

end

section \<open>Chunks and spans\<close>

definition slots_of_runs :: "memory \<Rightarrow> nat \<Rightarrow> run list \<Rightarrow> edge_t set" where
  "slots_of_runs mem align rs = (\<Union>(a, d) \<in> set rs. slots mem align (unat a) (unat a + length d))"

lemma sweep_runs_ok:
  assumes "0 < align"
  shows "list_all (run_true mem) rs \<Longrightarrow> \<forall>(a, d) \<in> set rs. unat a + length d + align + 8 < 2 ^ 64 \<Longrightarrow>
    \<exists>s'. sweep_runs align rs s = Some s' \<and> swept True (slots_of_runs mem align rs) tok s s'"
proof (induction rs arbitrary: s)
  case Nil
  then show ?case by (simp add: slots_of_runs_def swept_refl)
next
  case (Cons r rs)
  obtain a d where r: "r = (a, d)" by fastforce
  obtain s1 where s1: "sweep_run align a d (round_up align a) s = Some s1"
      "swept True (slots mem align (unat a) (unat a + length d)) tok s s1"
    using sweep_run_slots [OF assms, of a d mem s tok] Cons.prems unfolding r by auto
  obtain s2 where s2: "sweep_runs align rs s1 = Some s2" "swept True (slots_of_runs mem align rs) tok s1 s2"
    using Cons.IH [of s1] Cons.prems by auto
  have "slots_of_runs mem align (r # rs) = slots mem align (unat a) (unat a + length d) \<union> slots_of_runs mem align rs"
    by (simp add: slots_of_runs_def r)
  then show ?case using s1 s2 swept_trans [OF s1(2) s2(2)] by (simp add: r)
qed

context memory_reader
begin

lemma chunk_runs:
  assumes r: "resilient_read read c want 8 t = (runs, t')" and fits: "unat c + want < 2 ^ 64"
  shows "list_all (run_true mem) runs" "\<forall>(a, d) \<in> set runs. unat c \<le> unat a \<and> unat a + length d \<le> unat c + want"
    "slots_of_runs mem align runs \<subseteq> slots mem align (unat c) (unat c + want)"
    "t' \<noteq> Some 0 \<Longrightarrow> 8 dvd align \<Longrightarrow> 8 dvd unat c \<Longrightarrow> slots mem align (unat c) (unat c + want) \<subseteq> slots_of_runs mem align runs"
    "t' \<noteq> Some 0 \<Longrightarrow> t \<noteq> Some 0"
proof -
  have rr: "resilient read 8 t [(c, want)] = (runs, t')" using r by (simp add: resilient_read_def)
  have runs: "fst (resilient read 8 t [(c, want)]) = runs" using rr by simp
  show "list_all (run_true mem) runs" using resilient_true [of 8 t "[(c, want)]"] runs by simp
  show within: "\<forall>(a, d) \<in> set runs. unat c \<le> unat a \<and> unat a + length d \<le> unat c + want"
  proof (clarify)
    fix a d assume "(a, d) \<in> set runs"
    then obtain k where "a = c + of_nat k" "k + length d \<le> want"
      using resilient_pieces [of 8 t "[(c, want)]"] runs by fastforce
    then show "unat c \<le> unat a \<and> unat a + length d \<le> unat c + want" using unat_add_small [of c k] fits by simp
  qed
  show "slots_of_runs mem align runs \<subseteq> slots mem align (unat c) (unat c + want)"
    unfolding slots_of_runs_def using within slots_mono by fastforce
  show "t \<noteq> Some 0" if "t' \<noteq> Some 0" using resilient_live [OF rr that] by simp
  show "slots mem align (unat c) (unat c + want) \<subseteq> slots_of_runs mem align runs"
    if live: "t' \<noteq> Some 0" and dv: "8 dvd align" "8 dvd unat c"
  proof
    fix e assume "e \<in> slots mem align (unat c) (unat c + want)"
    then obtain q where q: "e = edge_of mem q" "align dvd unat q" "unat c \<le> unat q" "unat q + 8 \<le> unat c + want"
        "readable mem q 8" "mem_qword mem q \<noteq> 0" unfolding slots_def by blast
    have "8 dvd unat q - unat c" using dvd_trans [OF dv(1) q(2)] dv(2) by (rule dvd_diff_nat)
    then obtain j where j: "unat q - unat c = 8 * j" by (elim dvdE)
    have "unat (c + of_nat (8 * j)) = unat c + 8 * j" by (rule unat_add_small) (use j q(3,4) fits in linarith)
    then have "q = c + of_nat (8 * j)" using j q(3) by (simp add: word_unat_eq_iff)
    moreover have "8 * j + 8 \<le> want" using j q(3,4) by linarith
    ultimately have "\<exists>(a, n) \<in> set [(c, want)]. on_grid a n q" unfolding on_grid_def by auto
    moreover have "fst (resilient read 8 None [(c, want)]) = runs" using resilient_live [OF rr live] by simp
    ultimately obtain a d where ad: "(a, d) \<in> set runs" "on_grid a (length d) q"
      using resilient_blocks [of "[(c, want)]"] q(5) by fastforce
    obtain i where i: "q = a + of_nat (8 * i)" "8 * i + 8 \<le> length d" using ad(2) unfolding on_grid_def by blast
    have "unat a + length d \<le> unat c + want" using within ad(1) by fastforce
    then have "unat q = unat a + 8 * i" using unat_add_small [of a "8 * i"] i fits by simp
    then have "e \<in> slots mem align (unat a) (unat a + length d)" using q i(2) unfolding slots_def by auto
    with ad(1) show "e \<in> slots_of_runs mem align runs" unfolding slots_of_runs_def by blast
  qed
qed

lemma sweep_span_ok:
  assumes al: "0 < align" and top: "unat stop + align + 8 < 2 ^ 64"
  shows "unat cursor \<le> unat stop \<Longrightarrow> (8 dvd align \<longrightarrow> 8 dvd unat cursor) \<Longrightarrow>
    \<exists>s' t'. sweep_span read align stop tok cursor s = Some (s', t') \<and>
      swept (8 dvd align) (slots mem align (unat cursor) (unat stop)) t' s s' \<and> (t' \<noteq> Some 0 \<longrightarrow> tok \<noteq> Some 0)"
proof (induction "unat stop - unat cursor" arbitrary: tok cursor s rule: less_induct)
  case less
  show ?case
  proof (cases "cursor < stop \<and> \<not> ps_truncated (sw_stats s)")
    case False
    have "swept (8 dvd align) (slots mem align (unat cursor) (unat stop)) tok s s"
    proof (cases "ps_truncated (sw_stats s)")
      case True
      then show ?thesis by (simp add: swept_def unlimited_def)
    next
      case F: False
      then have "unat stop < unat cursor + 8" using False by (simp add: word_less_nat_alt)
      then show ?thesis by (simp add: slots_empty swept_refl)
    qed
    with False show ?thesis by (simp only: sweep_span.simps [of read align stop tok cursor s] if_False) blast
  next
    case go: True
    obtain b t where p: "poll tok = (b, t)" by fastforce
    show ?thesis
    proof (cases b)
      case True
      then have "sweep_span read align stop tok cursor s = Some (s\<lparr>sw_stats := (sw_stats s)\<lparr>ps_cancelled := True\<rparr>\<rparr>, t)"
        using go p by (simp add: sweep_span.simps [of read align stop tok cursor s])
      moreover have "t = Some 0" using poll_cases [OF p] True by simp
      ultimately show ?thesis by (simp add: swept_def unlimited_def)
    next
      case False
      have d: "unat (stop - cursor) = unat stop - unat cursor" using go by (simp add: unat_sub word_less_nat_alt word_le_nat_alt)
      define want where "want = unat (min pointer_chunk (stop - cursor))"
      have want_eq: "want = min (2 ^ 20) (unat stop - unat cursor)"
        by (simp add: want_def min_def word_le_nat_alt d pointer_chunk_def)
      have want: "0 < want" "unat cursor + want \<le> unat stop" "want \<le> unat stop - unat cursor"
        using go less.prems(1) by (auto simp: want_eq word_less_nat_alt min_def)
      have fits: "unat cursor + want < 2 ^ 64" using want(2) top by linarith
      obtain runs t1 where r: "resilient_read read cursor want 8 t = (runs, t1)" by fastforce
      note c = chunk_runs [OF r fits]
      have "\<forall>(a, d) \<in> set runs. unat a + length d + align + 8 < 2 ^ 64" using c(2) want(2) top by fastforce
      then obtain s1 where s1: "sweep_runs align runs s = Some s1" "swept True (slots_of_runs mem align runs) t1 s s1"
        using sweep_runs_ok [OF al c(1)] by blast
      have nxt: "unat (cursor + of_nat want) = unat cursor + want" by (rule unat_add_small [OF fits])
      have chunk: "span_chunk read align stop t cursor s = Some (s1, t1, cursor + of_nat want)"
        unfolding span_chunk_def want_def [symmetric] Let_def r s1(1) [symmetric] by (simp add: s1(1))
      have eq: "sweep_span read align stop tok cursor s = sweep_span read align stop t1 (cursor + of_nat want) s1"
        using go False p by (simp add: sweep_span.simps [of read align stop tok cursor s] chunk)
      let ?lo = "slots mem align (unat cursor) (unat cursor + want)" and ?hi = "slots mem align (unat cursor + want) (unat stop)"
      have grid: "8 dvd unat cursor + want \<or> unat cursor + want = unat stop" if "8 dvd align"
        using that less.prems(2) by (auto simp: want_eq min_def)
      have lo: "swept (8 dvd align) ?lo t1 s s1"
        by (rule swept_weaken [OF s1(2) c(3)]) (use c(4) less.prems(2) in auto)
      show ?thesis
      proof (cases "8 dvd unat cursor + want \<or> \<not> 8 dvd align")
        case True
        have "\<exists>s' t'. sweep_span read align stop t1 (cursor + of_nat want) s1 = Some (s', t') \<and>
            swept (8 dvd align) (slots mem align (unat (cursor + of_nat want)) (unat stop)) t' s1 s' \<and> (t' \<noteq> Some 0 \<longrightarrow> t1 \<noteq> Some 0)"
          by (rule less.hyps) (use nxt want True in auto)
        then obtain s' t' where s': "sweep_span read align stop t1 (cursor + of_nat want) s1 = Some (s', t')"
            "swept (8 dvd align) ?hi t' s1 s'" "t' \<noteq> Some 0 \<longrightarrow> t1 \<noteq> Some 0" unfolding nxt by blast
        have sub: "?lo \<union> ?hi \<subseteq> slots mem align (unat cursor) (unat stop)"
          using slots_mono want(2) by (metis le_add1 order_refl sup.bounded_iff)
        have "swept (8 dvd align) (slots mem align (unat cursor) (unat stop)) t' s s'"
          by (rule swept_weaken [OF swept_trans [OF lo s'(2,3)] sub])
             (use slots_split [of align "unat cursor + want" "unat cursor" "unat stop" mem] True want in auto)
        moreover have "t' \<noteq> Some 0 \<longrightarrow> tok \<noteq> Some 0" using s'(3) c(5) False poll_cases [OF p] by auto
        ultimately show ?thesis using eq s'(1) by simp
      next
        case last: False
        then have e: "unat cursor + want = unat stop" using grid by blast
        then have "cursor + of_nat want = stop" using nxt by (simp add: word_unat_eq_iff)
        then have "sweep_span read align stop t1 (cursor + of_nat want) s1 = Some (s1, t1)"
          by (simp add: sweep_span.simps [of read align stop t1 stop s1])
        moreover have "t1 \<noteq> Some 0 \<longrightarrow> tok \<noteq> Some 0" using c(5) False poll_cases [OF p] by auto
        ultimately show ?thesis using eq lo e by simp
      qed
    qed
  qed
qed

end

end
