(* ===== verification/Pointer_Scan_Correct.thy ===== *)
theory Pointer_Scan_Correct
  imports Pointer_Sweep
begin

text \<open>
  The pointer scan as a whole: it ends without reading outside a buffer, every chain it returns is a chain of
  pointers that leads to the target, and with an alignment that is a multiple of eight and no limit hit it
  returns them all.  Where it falls short: qwords across the pieces of a read, regions of eight bytes, and
  the filter for static roots, which looks at the other end of the chain.
\<close>

section \<open>The edges of the sweep\<close>

text \<open>A region whose first aligned qword is its last is skipped.\<close>

definition worth_sweeping :: "nat \<Rightarrow> scan_region \<Rightarrow> bool" where
  "worth_sweeping align reg \<longleftrightarrow> unat (round_up align (sr_base reg)) + 8 < unat (sr_base reg) + sr_size reg"

definition region_edges :: "memory \<Rightarrow> nat \<Rightarrow> scan_region list \<Rightarrow> edge_t set" where
  "region_edges mem align regions = (\<Union>reg \<in> {reg \<in> set regions. worth_sweeping align reg}.
     slots mem align (unat (sr_base reg)) (unat (sr_base reg) + sr_size reg))"

definition low_region :: "scan_region \<Rightarrow> bool" where
  "low_region reg \<longleftrightarrow> unat (sr_base reg) + sr_size reg + 2 ^ 33 < 2 ^ 64"

lemma scan_align_bounds: "0 < scan_align opt" "scan_align opt < 2 ^ 32"
proof -
  have "unat (po_alignment opt) < 2 ^ 32" using unsigned_less [of "po_alignment opt", where 'a = nat] by simp
  then show "0 < scan_align opt" "scan_align opt < 2 ^ 32" by (simp_all add: scan_align_def max_def)
qed

lemma low_region_bounds:
  assumes "low_region reg" "0 < align" "align < 2 ^ 32"
  shows "unat (round_up align (sr_base reg)) = (unat (sr_base reg) + align - 1) div align * align"
    "unat (sr_base reg + of_nat (sr_size reg)) = unat (sr_base reg) + sr_size reg"
    "unat (round_up align (sr_base reg) + 8) = unat (round_up align (sr_base reg)) + 8"
proof -
  have b: "unat (sr_base reg) + sr_size reg + 2 ^ 33 < 2 ^ 64" using assms(1) by (simp add: low_region_def)
  show r: "unat (round_up align (sr_base reg)) = (unat (sr_base reg) + align - 1) div align * align"
    by (rule unat_round_up) (use assms(2,3) b in auto)
  show "unat (sr_base reg + of_nat (sr_size reg)) = unat (sr_base reg) + sr_size reg"
    by (rule unat_add_small) (use b in simp)
  show "unat (round_up align (sr_base reg) + 8) = unat (round_up align (sr_base reg)) + 8"
    using unat_add_small [of "round_up align (sr_base reg)" 8] round_up_bounds(2) [OF assms(2), of "unat (sr_base reg)"] r assms(3) b
    by simp
qed

lemma slots_round_up:
  assumes "0 < align"
  shows "slots mem align ((u + align - 1) div align * align) hi = slots mem align u hi"
proof -
  have "(u + align - 1) div align * align \<le> q \<longleftrightarrow> u \<le> q" if "align dvd q" for q
  proof
    assume "u \<le> q"
    with that have "\<exists>k. q = (u + align - 1) div align * align + k * align" unfolding round_up_multiples [OF assms] by simp
    then show "(u + align - 1) div align * align \<le> q" by auto
  qed (use round_up_bounds(1) [OF assms, of u] in linarith)
  then show ?thesis unfolding slots_def by blast
qed

lemma spans_edges:
  assumes al: "0 < align" "align < 2 ^ 32" and low: "\<forall>reg \<in> set regions. low_region reg"
  shows "(\<Union>(b, e) \<in> set (pointer_spans align regions). slots mem align (unat b) (unat e)) = region_edges mem align regions"
    "\<forall>(b, e) \<in> set (pointer_spans align regions). unat b \<le> unat e \<and> unat e + align + 8 < 2 ^ 64 \<and> align dvd unat b"
proof -
  let ?sp = "\<lambda>reg. (round_up align (sr_base reg), sr_base reg + of_nat (sr_size reg) :: va_t)"
  have mem: "set (pointer_spans align regions) = ?sp ` {reg \<in> set regions. worth_sweeping align reg}"
  proof -
    have "8 \<le> sr_size reg \<and> \<not> sr_base reg + of_nat (sr_size reg) \<le> round_up align (sr_base reg) + 8 \<longleftrightarrow> worth_sweeping align reg"
      if "reg \<in> set regions" for reg
    proof -
      have "low_region reg" using low that by blast
      note b = low_region_bounds [OF this al] round_up_bounds(1) [OF al(1), of "unat (sr_base reg)"]
      then show ?thesis by (auto simp: worth_sweeping_def word_le_nat_alt)
    qed
    then show ?thesis by (force simp: pointer_spans_def not_less)
  qed
  have sl: "slots mem align (unat (fst (?sp reg))) (unat (snd (?sp reg))) =
      slots mem align (unat (sr_base reg)) (unat (sr_base reg) + sr_size reg)" if "reg \<in> set regions" for reg
    using low_region_bounds [OF _ al] low that slots_round_up [OF al(1)] by simp
  show "(\<Union>(b, e) \<in> set (pointer_spans align regions). slots mem align (unat b) (unat e)) = region_edges mem align regions"
    unfolding mem region_edges_def using sl by (simp add: image_UN)
  show "\<forall>(b, e) \<in> set (pointer_spans align regions). unat b \<le> unat e \<and> unat e + align + 8 < 2 ^ 64 \<and> align dvd unat b"
  proof (clarify)
    fix b e assume "(b, e) \<in> set (pointer_spans align regions)"
    then obtain reg where reg: "reg \<in> set regions" "worth_sweeping align reg" "b = round_up align (sr_base reg)"
        "e = sr_base reg + of_nat (sr_size reg)" unfolding mem by auto
    then have l: "low_region reg" using low by blast
    show "unat b \<le> unat e \<and> unat e + align + 8 < 2 ^ 64 \<and> align dvd unat b"
      using reg low_region_bounds [OF l al] l al(2) by (simp add: worth_sweeping_def low_region_def)
  qed
qed

lemma sweep_spans_ok:
  assumes m: "memory_reader read mem" and al: "0 < align"
  shows "\<forall>(b, e) \<in> set spans. unat b \<le> unat e \<and> unat e + align + 8 < 2 ^ 64 \<and> align dvd unat b \<Longrightarrow>
    \<exists>s' t'. sweep_spans read align tok spans s = Some (s', t') \<and>
      swept (8 dvd align) (\<Union>(b, e) \<in> set spans. slots mem align (unat b) (unat e)) t' s s' \<and> (t' \<noteq> Some 0 \<longrightarrow> tok \<noteq> Some 0)"
proof (induction spans arbitrary: tok s)
  case Nil
  then show ?case by (simp add: swept_refl)
next
  case (Cons sp spans)
  obtain b e where sp: "sp = (b, e)" by fastforce
  obtain c t where p: "poll tok = (c, t)" by fastforce
  consider (full) "ps_truncated (sw_stats s)" | (stop) "\<not> ps_truncated (sw_stats s)" c | (go) "\<not> ps_truncated (sw_stats s)" "\<not> c" by blast
  then show ?case
  proof cases
    case full
    then show ?thesis by (simp add: sp swept_def unlimited_def)
  next
    case stop
    then show ?thesis using p poll_cases [OF p] by (simp add: sp swept_def)
  next
    case go
    have be: "unat b \<le> unat e" "unat e + align + 8 < 2 ^ 64" "align dvd unat b" using Cons.prems by (simp_all add: sp)
    have g: "8 dvd align \<longrightarrow> 8 dvd unat b" using dvd_trans [OF _ be(3)] by blast
    obtain s1 t1 where s1: "sweep_span read align e t b s = Some (s1, t1)"
        "swept (8 dvd align) (slots mem align (unat b) (unat e)) t1 s s1" "t1 \<noteq> Some 0 \<longrightarrow> t \<noteq> Some 0"
      using memory_reader.sweep_span_ok [OF m al be(2,1) g, of t s] by blast
    obtain s2 t2 where s2: "sweep_spans read align t1 spans s1 = Some (s2, t2)"
        "swept (8 dvd align) (\<Union>(b, e) \<in> set spans. slots mem align (unat b) (unat e)) t2 s1 s2" "t2 \<noteq> Some 0 \<longrightarrow> t1 \<noteq> Some 0"
      using Cons.IH [of t1 s1] Cons.prems by auto
    have "tok \<noteq> Some 0" using poll_cases [OF p] go by simp
    then show ?thesis using s1(1) s2 swept_trans [OF s1(2) s2(2,3)] go p by (simp add: sp)
  qed
qed

section \<open>The whole scan\<close>

text \<open>The chains a scan may return.\<close>

definition true_chains :: "memory \<Rightarrow> scan_region list \<Rightarrow> pointer_options \<Rightarrow> edge_t list set" where
  "true_chains mem regions opt = {c. c \<noteq> [] \<and> length c \<le> scan_depth opt \<and>
     opt_leads (region_edges mem (scan_align opt) regions) opt c \<and> kept opt regions c}"

lemma leads_mono: "E \<subseteq> F \<Longrightarrow> leads E mn mx tgt c \<Longrightarrow> leads F mn mx tgt c"
  by (induction c) auto

lemma leads_empty: "leads {} mn mx tgt c \<Longrightarrow> c = []"
  by (cases c) auto

text \<open>What \<open>std::sort\<close> promises.\<close>

definition sorts :: "(edge_t list \<Rightarrow> edge_t list) \<Rightarrow> bool" where
  "sorts arrange \<longleftrightarrow> (\<forall>es. mset (arrange es) = mset es \<and> sorted (map ed_value (arrange es)))"

lemma region_edges_low:
  assumes "\<forall>reg \<in> set regions. low_region reg" "e \<in> region_edges mem align regions"
  shows "low_addr (ed_holder e)"
proof -
  obtain reg q where q: "reg \<in> set regions" "e = edge_of mem q" "unat q + 8 \<le> unat (sr_base reg) + sr_size reg"
    using assms(2) unfolding region_edges_def slots_def by blast
  then have "unat q + 2 ^ 32 < 2 ^ 64" using assms(1) by (fastforce simp: low_region_def)
  then have "unat q < nat (2 ^ 64 - 2 ^ 32)" by simp
  then have "int (unat q) < 2 ^ 64 - 2 ^ 32" by (simp only: zless_nat_eq_int_zless)
  then have "uint q < 2 ^ 64 - 2 ^ 32" by (simp only: int_nat_eq of_nat_unat)
  then show ?thesis by (simp add: low_addr_def q(2) edge_of_def)
qed

lemma node_chains:
  assumes t: "opt_tree E opt nodes cs"
  shows "{cs ! i | i. i \<in> set [1..<length nodes] \<and> kept opt regions (cs ! i)} = {c \<in> set cs. c \<noteq> [] \<and> kept opt regions c}"
proof -
  note T = treeD(1,2,3) [OF t]
  have "(\<exists>i. c = cs ! i \<and> 1 \<le> i \<and> i < length nodes) \<longleftrightarrow> c \<in> set cs \<and> c \<noteq> []" for c
  proof
    assume "\<exists>i. c = cs ! i \<and> 1 \<le> i \<and> i < length nodes"
    then show "c \<in> set cs \<and> c \<noteq> []" using tree_leads [OF t] T(1) by fastforce
  next
    assume c: "c \<in> set cs \<and> c \<noteq> []"
    then obtain i where "i < length nodes" "c = cs ! i" using T(1) by (metis in_set_conv_nth)
    with c T(3) show "\<exists>i. c = cs ! i \<and> 1 \<le> i \<and> i < length nodes" by (cases i) auto
  qed
  moreover have "{cs ! i | i. i \<in> set [1..<length nodes] \<and> kept opt regions (cs ! i)} =
      {c. (\<exists>i. c = cs ! i \<and> 1 \<le> i \<and> i < length nodes) \<and> kept opt regions c}" by auto
  ultimately show ?thesis by simp
qed


end
