(* ===== verification/Pointer_Example.thy ===== *)
theory Pointer_Example
  imports Pointer_Scan_Correct
begin

text \<open>
  The pointer scans of \<open>src/src/tests/test_memory.cpp\<close>, the theorem of \<open>Pointer_Scan_Correct\<close> applied to
  them, and what the scan misses.
\<close>

section \<open>The memory of the tests\<close>

definition le8 :: "u64 \<Rightarrow> byte list" where
  "le8 v = map (\<lambda>i. ucast (drop_bit (8 * i) v)) [0..<8]"

text \<open>A reader of a memory, as the contract describes it.\<close>

definition exact_read :: "memory \<Rightarrow> reader" where
  "exact_read mem a n = (let bs = map (\<lambda>i. mem (a + of_nat i)) [0..<n] in
     if list_all (\<lambda>b. b \<noteq> None) bs then Some (map the bs) else None)"

interpretation exact: memory_reader "exact_read mem" mem for mem
  by unfold_locales (simp add: exact_read_def readable_def content_def list_all_iff Let_def)

text \<open>Qwords written at addresses; the first of each list is readable up to the second, and zero elsewhere.\<close>

definition memory_with :: "(va_t \<times> va_t) list \<Rightarrow> (va_t \<times> u64) list \<Rightarrow> memory" where
  "memory_with readables ws a =
     (if list_ex (\<lambda>(b, e). b \<le> a \<and> a < e) readables
      then Some (case find (\<lambda>(q, v). q \<le> a \<and> a < q + 8) ws of Some (q, v) \<Rightarrow> le8 v ! unat (a - q) | None \<Rightarrow> 0)
      else None)"

definition region_of :: "va_t \<Rightarrow> nat \<Rightarrow> u32 \<Rightarrow> scan_region" where
  "region_of b n ty = \<lparr>sr_base = b, sr_size = n, sr_protect = 4, sr_type = ty\<rparr>"

definition test_options :: "u32 \<Rightarrow> u32 \<Rightarrow> bool \<Rightarrow> pointer_options" where
  "test_options depth al static = \<lparr>po_target = 0x90000, po_depth = depth, po_min_offset = -4096, po_max_offset = 4096,
     po_alignment = al, po_frontier_cap = 100000, po_only_module_backed = static\<rparr>"

definition scan_test ::
  "memory \<Rightarrow> scan_region list \<Rightarrow> u32 \<Rightarrow> u32 \<Rightarrow> bool \<Rightarrow> (va_t list \<times> int list) list option" where
  "scan_test mem regions depth al static =
     map_option (\<lambda>(cs, st). map (\<lambda>c. (pc_addresses c, pc_offsets c)) cs)
       (pointer_scan (exact_read mem) (sort_key ed_value) regions (test_options depth al static) None new_stats)"

lemma sort_key_sorts: "sorts (sort_key ed_value)"
  by (simp add: sorts_def)

lemma depth_one:
  "scan_test (memory_with [(0xA0000, 0xA1000)] [(0xA0000, 0x8FFF0)]) [region_of 0xA0000 32 0x20000] 1 8 False = Some [([0xA0000], [16])]"
  by code_simp

definition two_writes :: memory where
  "two_writes = memory_with [(0xA0000, 0xA1000), (0xB0000, 0xB1000)] [(0xA0000, 0x8FFF0), (0xB0000, 0x9FFF8)]"

lemma depth_two_chain:
  "scan_test two_writes [region_of 0xA0000 32 0x20000, region_of 0xB0000 32 0x20000] 2 8 False =
     Some [([0xA0000], [16]), ([0xB0000, 0xA0000], [8, 16])]"
  by code_simp

definition two_regions :: "scan_region list" where
  "two_regions = [region_of 0xA0000 0x10000 0x20000, region_of 0xB0000 0x10000 0x20000]"


section \<open>What the scan misses\<close>


text \<open>A region of exactly eight bytes passes the test of its size and gives no span.\<close>

lemma eight_bytes_skipped:
  assumes "low_region reg" "sr_size reg = 8"
  shows "pointer_spans (scan_align opt) [reg] = []"
proof -
  have "unat (sr_base reg) \<le> (unat (sr_base reg) + scan_align opt - 1) div scan_align opt * scan_align opt"
    by (rule round_up_bounds(1) [OF scan_align_bounds(1)])
  then have "sr_base reg + 8 \<le> round_up (scan_align opt) (sr_base reg) + 8"
    using low_region_bounds [OF assms(1) scan_align_bounds [of opt]] assms(2) by (simp add: word_le_nat_alt)
  then show ?thesis using assms(2) by (simp add: pointer_spans_def)
qed

text \<open>
  With the default alignment of four, a readable pointer that straddles two pieces of a read is missed: the
  page after \<open>0xA0000\<close> is unreadable, the bisection of the 64 bytes at \<open>0xA0FE8\<close> cuts at \<open>0xA0FF8\<close>, and the
  pointer at \<open>0xA0FF4\<close> is in neither piece; a scan of the readable part finds it.
\<close>

lemma straddling_pointer_missed:
  "scan_test (memory_with [(0xA0000, 0xA1000)] [(0xA0FF4, 0x8FFF0)]) [region_of 0xA0FE8 64 0x20000] 1 4 False = Some [] \<and>
   scan_test (memory_with [(0xA0000, 0xA1000)] [(0xA0FF4, 0x8FFF0)]) [region_of 0xA0FE8 24 0x20000] 1 4 False = Some [([0xA0FF4], [16])]"
  by code_simp

end
