(* ===== verification/Snapshot.thy ===== *)
theory Snapshot
  imports Reader "HOL-Library.Sublist"
begin

text \<open>
  Region snapshots and their comparison (\<open>src/src/core/memory/snapshot.cpp\<close>): \<open>snapshot_capture\<close> copies
  a region in chunks of one mebibyte, bisects a chunk that cannot be read down to single bytes and
  leaves zeros for what is unreadable; \<open>snapshot_diff\<close> lists the spans of bytes that differ.
\<close>

section \<open>Capture\<close>

record region_snapshot =
  rs_base :: va_t
  rs_size :: nat
  rs_bytes :: "byte list"
  rs_complete :: bool

definition k_chunk :: nat where "k_chunk = 2 ^ 20"

definition write_at :: "nat \<Rightarrow> byte list \<Rightarrow> byte list \<Rightarrow> byte list" where
  "write_at off bs buf = take off buf @ bs @ drop (off + length bs) buf"

definition piece_weight :: "nat \<times> nat \<Rightarrow> nat" where
  "piece_weight s = (if snd s = 0 then 1 else 2 * snd s - 1)"

lemma piece_weight_pos: "0 < piece_weight s"
  by (auto simp: piece_weight_def)

lemma piece_weight_split: "1 < n \<Longrightarrow> piece_weight (x, n - n div 2) + piece_weight (y, n div 2) < piece_weight (y, n)"
  by (cases "n div 2 = 0") (auto simp: piece_weight_def)

text \<open>
  The bisection of one chunk: whether it was cancelled, the buffer, whether a byte was unreadable.  A
  segment has at least one byte (a chunk has, and so do the halves of two or more).
\<close>

function bisect :: "reader \<Rightarrow> va_t \<Rightarrow> token \<Rightarrow> (nat \<times> nat) list \<Rightarrow> byte list \<Rightarrow> bool \<Rightarrow> bool \<times> byte list \<times> bool \<times> token" where
  "bisect read base tok [] buf holes = (False, buf, holes, tok)"
| "bisect read base tok ((off, n) # stack) buf holes =
     (case poll tok of
        (True, t) \<Rightarrow> (True, buf, holes, t)
      | (False, t) \<Rightarrow> (case read (base + of_nat off) n of
            Some bs \<Rightarrow> bisect read base t stack (write_at off bs buf) holes
          | None \<Rightarrow> if n \<le> 1 then bisect read base t stack buf True
              else (let half = n div 2 in
                bisect read base t ((off + half, n - half) # (off, half) # stack) buf holes)))"
  by pat_completeness auto

termination
  by (relation "measure (\<lambda>(read, base, tok, st, buf, holes). sum_list (map piece_weight st))")
     (use piece_weight_split piece_weight_pos in \<open>auto simp: Let_def not_le\<close>)

declare bisect.simps(2) [simp del]

lemmas bisect_step = bisect.simps(2)

function capture_from :: "reader \<Rightarrow> va_t \<Rightarrow> nat \<Rightarrow> token \<Rightarrow> nat \<Rightarrow> byte list \<Rightarrow> bool \<Rightarrow> bool \<times> byte list \<times> bool" where
  "capture_from read base sz tok cursor buf holes =
     (if cursor < sz then
        (case poll tok of
           (True, t) \<Rightarrow> (True, buf, holes)
         | (False, t) \<Rightarrow> (let want = min k_chunk (sz - cursor) in
             case read (base + of_nat cursor) want of
               Some bs \<Rightarrow> capture_from read base sz t (cursor + want) (write_at cursor bs buf) holes
             | None \<Rightarrow> (case bisect read base t [(cursor, want)] buf holes of
                   (True, buf', holes', t') \<Rightarrow> (True, buf', holes')
                 | (False, buf', holes', t') \<Rightarrow> capture_from read base sz t' (cursor + want) buf' holes')))
      else (False, buf, holes))"
  by pat_completeness auto

termination
  by (relation "measure (\<lambda>(read, base, sz, tok, cursor, buf, holes). sz - cursor)") (auto simp: k_chunk_def)

declare capture_from.simps [simp del]

definition snapshot_capture :: "reader \<Rightarrow> va_t \<Rightarrow> nat \<Rightarrow> token \<Rightarrow> nat \<Rightarrow> region_snapshot" where
  "snapshot_capture read base sz0 tok max_bytes =
     (if sz0 = 0 then \<lparr>rs_base = base, rs_size = 0, rs_bytes = [], rs_complete = True\<rparr>
      else (let clamped = max_bytes < sz0; sz = (if clamped then max_bytes else sz0) in
        case capture_from read base sz tok 0 (replicate sz 0) False of
          (cancelled, buf, holes) \<Rightarrow>
            \<lparr>rs_base = base, rs_size = sz, rs_bytes = buf,
             rs_complete = (if cancelled then False else \<not> holes \<and> \<not> clamped)\<rparr>))"

section \<open>What is captured\<close>

definition covered :: "(nat \<times> nat) list \<Rightarrow> nat \<Rightarrow> bool" where
  "covered segs i \<longleftrightarrow> (\<exists>(off, n) \<in> set segs. off \<le> i \<and> i < off + n)"

lemma covered_simps [simp]:
  "\<not> covered [] i"
  "covered ((off, n) # segs) i \<longleftrightarrow> (off \<le> i \<and> i < off + n) \<or> covered segs i"
  by (auto simp: covered_def)

lemma length_write_at [simp]: "off + length bs \<le> length buf \<Longrightarrow> length (write_at off bs buf) = length buf"
  by (simp add: write_at_def)

lemma nth_write_at:
  assumes "off + length bs \<le> length buf" "i < length buf"
  shows "write_at off bs buf ! i = (if off \<le> i \<and> i < off + length bs then bs ! (i - off) else buf ! i)"
  using assms by (auto simp: write_at_def nth_append)

text \<open>The buffer holds, at the places \<open>P\<close>, what is readable there, and what it held elsewhere.\<close>

definition filled :: "memory \<Rightarrow> va_t \<Rightarrow> (nat \<Rightarrow> bool) \<Rightarrow> byte list \<Rightarrow> byte list \<Rightarrow> bool" where
  "filled mem base P buf buf' \<longleftrightarrow> length buf' = length buf \<and> (\<forall>i<length buf. buf' ! i =
     (if P i then case mem (base + of_nat i) of Some b \<Rightarrow> b | None \<Rightarrow> buf ! i else buf ! i))"

definition hole_in :: "memory \<Rightarrow> va_t \<Rightarrow> (nat \<Rightarrow> bool) \<Rightarrow> bool" where
  "hole_in mem base P \<longleftrightarrow> (\<exists>i. P i \<and> mem (base + of_nat i) = None)"

lemma filled_trans:
  "filled mem base P a b \<Longrightarrow> filled mem base Q b c \<Longrightarrow> filled mem base (\<lambda>i. P i \<or> Q i) a c"
  by (auto simp: filled_def split: option.splits)

lemma filled_write:
  assumes "readable mem (base + of_nat off) n" "off + n \<le> length buf"
  shows "filled mem base (\<lambda>i. off \<le> i \<and> i < off + n) buf (write_at off (content mem (base + of_nat off) n) buf)"
    "\<not> hole_in mem base (\<lambda>i. off \<le> i \<and> i < off + n)"
proof -
  have m: "mem (base + of_nat i) = Some (the (mem (base + of_nat off + of_nat (i - off))))"
    if "off \<le> i" "i < off + n" for i
  proof -
    have "i - off < n" using that by linarith
    with assms(1) have "mem (base + of_nat off + of_nat (i - off)) \<noteq> None" unfolding readable_def by blast
    moreover have "base + of_nat off + of_nat (i - off) = base + of_nat i"
      using that(1) by (simp add: add.assoc flip: of_nat_add)
    ultimately show ?thesis by (metis option.exhaust_sel)
  qed
  show "filled mem base (\<lambda>i. off \<le> i \<and> i < off + n) buf (write_at off (content mem (base + of_nat off) n) buf)"
    unfolding filled_def
  proof (intro conjI allI impI)
    fix i assume i: "i < length buf"
    show "write_at off (content mem (base + of_nat off) n) buf ! i =
        (if off \<le> i \<and> i < off + n then case mem (base + of_nat i) of Some b \<Rightarrow> b | None \<Rightarrow> buf ! i else buf ! i)"
    proof (cases "off \<le> i \<and> i < off + n")
      case True
      then have "i - off < n" by linarith
      with True show ?thesis
        using assms(2) i m [of i] by (cases "mem (base + of_nat i)") (auto simp: nth_write_at)
    qed (use assms(2) i in \<open>auto simp: nth_write_at\<close>)
  qed (use assms(2) in simp)
  show "\<not> hole_in mem base (\<lambda>i. off \<le> i \<and> i < off + n)"
    using m by (auto simp: hole_in_def)
qed

lemma filled_leaf: "mem (base + of_nat off) = None \<Longrightarrow> filled mem base (\<lambda>i. i = off) buf buf"
  by (auto simp: filled_def)

lemma bisect_fills:
  assumes "memory_reader read mem" "tok = None" "\<forall>(off, n) \<in> set st. off + n \<le> length buf"
  shows "\<exists>buf'. bisect read base tok st buf holes =
      (False, buf', holes \<or> hole_in mem base (covered st), None) \<and> filled mem base (covered st) buf buf'"
  using assms
proof (induction read base tok st buf holes rule: bisect.induct)
  case (1 read base tok buf holes)
  then show ?case by (auto simp: filled_def hole_in_def)
next
  case (2 read base tok off n stack buf holes)
  note rd = memory_reader.read_contract [OF 2(4)]
  have tok: "poll tok = (False, None)" using 2(5) by simp
  have off: "off + n \<le> length buf" and st: "\<forall>(off, n) \<in> set stack. off + n \<le> length buf" using 2(6) by auto
  let ?P = "\<lambda>i. off \<le> i \<and> i < off + n"
  have cov: "covered ((off, n) # stack) = (\<lambda>i. ?P i \<or> covered stack i)" by (simp add: fun_eq_iff)
  have hole: "hole_in mem base (\<lambda>i. ?P i \<or> covered stack i) \<longleftrightarrow> hole_in mem base ?P \<or> hole_in mem base (covered stack)"
    by (auto simp: hole_in_def)
  show ?case
  proof (cases "readable mem (base + of_nat off) n")
    case True
    define buf1 where "buf1 = write_at off (content mem (base + of_nat off) n) buf"
    have r: "read (base + of_nat off) n = Some (content mem (base + of_nat off) n)" using True by (simp add: rd)
    have w: "filled mem base ?P buf buf1" "\<not> hole_in mem base ?P"
      unfolding buf1_def using filled_write [OF True off] by blast+
    have "\<forall>(off, n) \<in> set stack. off + n \<le> length buf1" using st w(1) by (simp add: filled_def)
    from 2(3) [OF tok [symmetric] refl r 2(4) refl, folded buf1_def, OF this, of]
    obtain buf' where b: "bisect read base None stack buf1 holes = (False, buf', holes \<or> hole_in mem base (covered stack), None)"
        "filled mem base (covered stack) buf1 buf'" by blast
    from filled_trans [OF w(1) b(2)] b(1) show ?thesis
      using w(2) by (simp add: bisect_step tok r buf1_def [symmetric] cov hole)
  next
    case False
    then have r: "read (base + of_nat off) n = None" by (simp add: rd)
    show ?thesis
    proof (cases "n \<le> 1")
      case True
      have n: "n = 1" using False True by (cases "n = 0") auto
      have none: "mem (base + of_nat off) = None" using False n by (simp add: readable_def)
      have P: "covered ((off, n) # stack) = (\<lambda>i. i = off \<or> covered stack i)" using n by (auto simp: fun_eq_iff)
      from 2(1) [OF tok [symmetric] refl r True 2(4) refl st]
      obtain buf' where b: "bisect read base None stack buf True = (False, buf', True, None)"
          "filled mem base (covered stack) buf buf'" by auto
      have "hole_in mem base (covered ((off, n) # stack))" using none unfolding P by (auto simp: hole_in_def)
      moreover have "bisect read base None ((off, n) # stack) buf holes = (False, buf', True, None)"
        using b(1) True by (simp add: bisect_step tok r del: One_nat_def)
      ultimately show ?thesis
        using filled_trans [OF filled_leaf [of mem base off buf, OF none] b(2)] P 2(5) by auto
    next
      case big: False
      let ?st = "(off + n div 2, n - n div 2) # (off, n div 2) # stack"
      have "\<forall>(off, n) \<in> set ?st. off + n \<le> length buf" using st off by auto
      from 2(2) [OF tok [symmetric] refl r big refl 2(4) refl this]
      have ih: "\<exists>buf'. bisect read base None ?st buf holes = (False, buf', holes \<or> hole_in mem base (covered ?st), None) \<and>
          filled mem base (covered ?st) buf buf'" .
      have cov2: "covered ?st = covered ((off, n) # stack)" by (auto simp: fun_eq_iff)
      have "bisect read base tok ((off, n) # stack) buf holes = bisect read base None ?st buf holes"
        using big by (subst bisect_step) (simp add: tok r Let_def)
      with ih show ?thesis by (simp only: cov2)
    qed
  qed
qed

lemma capture_from_fills:
  assumes "memory_reader read mem" "tok = None" "length buf = sz" "cursor \<le> sz"
  shows "\<exists>buf'. capture_from read base sz tok cursor buf holes =
      (False, buf', holes \<or> hole_in mem base (\<lambda>i. cursor \<le> i \<and> i < sz)) \<and>
      filled mem base (\<lambda>i. cursor \<le> i \<and> i < sz) buf buf'"
  using assms
proof (induction read base sz tok cursor buf holes rule: capture_from.induct)
  case (1 read base sz tok cursor buf holes)
  note rd = memory_reader.read_contract [OF 1(3)]
  have tok: "poll tok = (False, None)" using 1(4) by simp
  show ?case
  proof (cases "cursor < sz")
    case False
    then show ?thesis using 1(5) by (auto simp: capture_from.simps filled_def hole_in_def)
  next
    case True
    define want where "want = min k_chunk (sz - cursor)"
    have want: "0 < want" "cursor + want \<le> sz" using True by (auto simp: want_def k_chunk_def)
    let ?P = "\<lambda>i. cursor \<le> i \<and> i < cursor + want" and ?Q = "\<lambda>i. cursor + want \<le> i \<and> i < sz"
    have PQ: "(\<lambda>i. cursor \<le> i \<and> i < sz) = (\<lambda>i. ?P i \<or> ?Q i)" using want by (auto simp: fun_eq_iff)
    have hole: "hole_in mem base (\<lambda>i. ?P i \<or> ?Q i) \<longleftrightarrow> hole_in mem base ?P \<or> hole_in mem base ?Q"
      by (auto simp: hole_in_def)
    show ?thesis
    proof (cases "readable mem (base + of_nat cursor) want")
      case r: True
      define buf1 where "buf1 = write_at cursor (content mem (base + of_nat cursor) want) buf"
      have rr: "read (base + of_nat cursor) want = Some (content mem (base + of_nat cursor) want)"
        using r by (simp add: rd)
      have w: "filled mem base ?P buf buf1" "\<not> hole_in mem base ?P"
        unfolding buf1_def using filled_write [OF r] want 1(5) by auto
      have len: "length buf1 = sz" using w(1) 1(5) by (simp add: filled_def)
      from 1(2) [OF True tok [symmetric] refl want_def rr 1(3) refl, folded buf1_def, OF len want(2)]
      obtain buf' where b: "capture_from read base sz None (cursor + want) buf1 holes =
          (False, buf', holes \<or> hole_in mem base ?Q)" "filled mem base ?Q buf1 buf'" by blast
      have "capture_from read base sz tok cursor buf holes = (False, buf', holes \<or> hole_in mem base ?Q)"
        using b(1) True by (subst capture_from.simps) (simp add: tok Let_def want_def [symmetric] rr buf1_def [symmetric])
      with filled_trans [OF w(1) b(2)] w(2) show ?thesis by (auto simp only: PQ hole)
    next
      case r: False
      then have rr: "read (base + of_nat cursor) want = None" by (simp add: rd)
      have one: "covered [(cursor, want)] = ?P" by (simp add: fun_eq_iff)
      have "\<forall>(off, n) \<in> set [(cursor, want)]. off + n \<le> length buf" using want 1(5) by simp
      from bisect_fills [OF 1(3) refl this, where base = base and holes = holes] obtain buf1 where b1: "bisect read base None [(cursor, want)] buf holes =
          (False, buf1, holes \<or> hole_in mem base ?P, None)" "filled mem base ?P buf buf1"
        by (auto simp: one)
      have len: "length buf1 = sz" using b1(2) 1(5) by (simp add: filled_def)
      from 1(1) [OF True tok [symmetric] refl want_def rr b1(1) [symmetric] refl refl refl 1(3) refl len want(2)]
      obtain buf' where b: "capture_from read base sz None (cursor + want) buf1 (holes \<or> hole_in mem base ?P) =
          (False, buf', (holes \<or> hole_in mem base ?P) \<or> hole_in mem base ?Q)" "filled mem base ?Q buf1 buf'" by blast
      have "capture_from read base sz tok cursor buf holes =
          (False, buf', (holes \<or> hole_in mem base ?P) \<or> hole_in mem base ?Q)"
        using b(1) b1(1) True by (subst capture_from.simps) (simp add: tok Let_def want_def [symmetric] rr)
      with filled_trans [OF b1(2) b(2)] show ?thesis by (auto simp only: PQ hole)
    qed
  qed
qed

definition captured :: "memory \<Rightarrow> va_t \<Rightarrow> nat \<Rightarrow> byte list" where
  "captured mem base n = map (\<lambda>i. case mem (base + of_nat i) of Some b \<Rightarrow> b | None \<Rightarrow> 0) [0..<n]"

text \<open>
  C30.  A snapshot that is not cancelled has the memory's bytes: each readable byte of the region, up to
  the cap, with zeros for the unreadable ones, however the chunks and the bisection fall; and it is
  marked complete exactly when nothing was cut off and every byte was readable.
\<close>

theorem snapshot_capture_exact:
  assumes "memory_reader read mem"
  shows "let s = snapshot_capture read base n None max_bytes; k = min n max_bytes in
    rs_base s = base \<and> rs_size s = k \<and> rs_bytes s = captured mem base k \<and>
    (rs_complete s \<longleftrightarrow> n \<le> max_bytes \<and> readable mem base n)"
proof (cases "n = 0")
  case True
  then show ?thesis by (simp add: snapshot_capture_def captured_def)
next
  case False
  define k where "k = (if max_bytes < n then max_bytes else n)"
  obtain buf where b: "capture_from read base k None 0 (replicate k 0) False =
      (False, buf, hole_in mem base (\<lambda>i. i < k))" "filled mem base (\<lambda>i. i < k) (replicate k 0) buf"
    using capture_from_fills [OF assms refl, of "replicate k 0" k 0 base False] by auto
  have "buf = captured mem base k"
    by (rule nth_equalityI) (use b(2) in \<open>auto simp: filled_def captured_def split: option.splits\<close>)
  moreover have "hole_in mem base (\<lambda>i. i < k) \<longleftrightarrow> \<not> readable mem base k"
    by (auto simp: hole_in_def readable_def)
  ultimately show ?thesis
    using False b(1) by (auto simp: snapshot_capture_def k_def [symmetric] Let_def) (auto simp: k_def min_def)
qed


section \<open>Difference\<close>

definition max_diff_ranges :: nat where "max_diff_ranges = 250000"

text \<open>The end of the run of differing bytes that contains \<open>i\<close>.\<close>

function diff_end :: "byte list \<Rightarrow> byte list \<Rightarrow> nat \<Rightarrow> nat" where
  "diff_end xs ys i = (if i < length xs \<and> xs ! i \<noteq> ys ! i then diff_end xs ys (i + 1) else i)"
  by pat_completeness auto

termination
  by (relation "measure (\<lambda>(xs, ys, i). length xs - i)") auto

declare diff_end.simps [simp del]

lemma diff_end_ge: "i \<le> diff_end xs ys i"
  by (induction xs ys i rule: diff_end.induct) (metis Suc_eq_plus1 Suc_leD diff_end.simps order_refl)

lemma diff_end_gt: "i < length xs \<Longrightarrow> xs ! i \<noteq> ys ! i \<Longrightarrow> i < diff_end xs ys i"
  by (metis Suc_eq_plus1 Suc_le_eq diff_end.simps diff_end_ge)

function diff_from :: "byte list \<Rightarrow> byte list \<Rightarrow> nat \<Rightarrow> (nat \<times> nat) list \<Rightarrow> (nat \<times> nat) list" where
  "diff_from xs ys i changed =
     (if i < length xs then
        (if xs ! i = ys ! i then diff_from xs ys (i + 1) changed
         else (let stop = diff_end xs ys i; changed' = changed @ [(i, stop - i)] in
           if max_diff_ranges \<le> length changed' then changed' else diff_from xs ys stop changed'))
      else changed)"
  by pat_completeness auto

termination
  by (relation "measure (\<lambda>(xs, ys, i, changed). length xs - i)")
     (use diff_end_gt in \<open>auto intro: diff_less_mono2 less_le_trans\<close>)

declare diff_from.simps [simp del]

text \<open>\<open>None\<close> is \<open>valid == false\<close>.\<close>

definition snapshot_diff :: "region_snapshot \<Rightarrow> region_snapshot \<Rightarrow> (nat \<times> nat) list option" where
  "snapshot_diff a b =
     (if rs_base a \<noteq> rs_base b \<or> rs_size a \<noteq> rs_size b \<or> length (rs_bytes a) \<noteq> length (rs_bytes b) then None
      else Some (diff_from (rs_bytes a) (rs_bytes b) 0 []))"

section \<open>What the difference lists\<close>

definition span_offsets :: "(nat \<times> nat) list \<Rightarrow> nat list" where
  "span_offsets spans = concat (map (\<lambda>(off, n). [off..<off + n]) spans)"

lemma span_offsets_simps [simp]:
  "span_offsets [] = []"
  "span_offsets ((off, n) # s) = [off..<off + n] @ span_offsets s"
  "span_offsets (s @ t) = span_offsets s @ span_offsets t"
  by (simp_all add: span_offsets_def)

text \<open>No span is empty and between two spans there is a byte.\<close>

fun separated :: "(nat \<times> nat) list \<Rightarrow> bool" where
  "separated [] \<longleftrightarrow> True"
| "separated [(off, n)] \<longleftrightarrow> 0 < n"
| "separated ((off, n) # (off', n') # spans) \<longleftrightarrow> 0 < n \<and> off + n < off' \<and> separated ((off', n') # spans)"

definition differing :: "byte list \<Rightarrow> byte list \<Rightarrow> nat \<Rightarrow> nat \<Rightarrow> nat list" where
  "differing xs ys i j = filter (\<lambda>k. xs ! k \<noteq> ys ! k) [i..<j]"

lemma differing_split: "i \<le> j \<Longrightarrow> j \<le> k \<Longrightarrow> differing xs ys i k = differing xs ys i j @ differing xs ys j k"
  using upt_add_eq_append [of i j "k - j"] by (simp add: differing_def)

lemma diff_end_run:
  assumes "i \<le> length xs"
  shows "diff_end xs ys i \<le> length xs" "differing xs ys i (diff_end xs ys i) = [i..<diff_end xs ys i]"
    "diff_end xs ys i < length xs \<Longrightarrow> xs ! diff_end xs ys i = ys ! diff_end xs ys i"
proof -
  have "diff_end xs ys i \<le> length xs \<and> (\<forall>k. i \<le> k \<and> k < diff_end xs ys i \<longrightarrow> xs ! k \<noteq> ys ! k) \<and>
      (diff_end xs ys i < length xs \<longrightarrow> xs ! diff_end xs ys i = ys ! diff_end xs ys i)"
    using assms
  proof (induction xs ys i rule: diff_end.induct)
    case (1 xs ys i)
    show ?case
    proof (cases "i < length xs \<and> xs ! i \<noteq> ys ! i")
      case True
      then have e: "diff_end xs ys i = diff_end xs ys (i + 1)" by (subst diff_end.simps) simp
      from 1(1) [OF True] True have ih: "diff_end xs ys (i + 1) \<le> length xs"
          "\<And>k. i + 1 \<le> k \<Longrightarrow> k < diff_end xs ys (i + 1) \<Longrightarrow> xs ! k \<noteq> ys ! k"
          "diff_end xs ys (i + 1) < length xs \<Longrightarrow> xs ! diff_end xs ys (i + 1) = ys ! diff_end xs ys (i + 1)"
        by auto
      have "xs ! k \<noteq> ys ! k" if "i \<le> k" "k < diff_end xs ys (i + 1)" for k
        using ih(2) [of k] that True by (cases "k = i") auto
      with ih show ?thesis unfolding e by blast
    next
      case False
      then have e: "diff_end xs ys i = i" by (subst diff_end.simps) auto
      from False 1(2) show ?thesis unfolding e by auto
    qed
  qed
  then show "diff_end xs ys i \<le> length xs" "differing xs ys i (diff_end xs ys i) = [i..<diff_end xs ys i]"
      "diff_end xs ys i < length xs \<Longrightarrow> xs ! diff_end xs ys i = ys ! diff_end xs ys i"
    by (auto simp: differing_def filter_id_conv)
qed

lemma separated_snoc:
  assumes "separated spans" "spans = [] \<or> fst (last spans) + snd (last spans) < off" "0 < n"
  shows "separated (spans @ [(off, n)])"
  using assms by (induction spans rule: separated.induct) auto

text \<open>The state of the loop: the spans so far are exactly the differing offsets before \<open>i\<close>.\<close>

definition diff_state :: "byte list \<Rightarrow> byte list \<Rightarrow> nat \<Rightarrow> (nat \<times> nat) list \<Rightarrow> bool" where
  "diff_state xs ys i changed \<longleftrightarrow> i \<le> length xs \<and> separated changed \<and>
     span_offsets changed = differing xs ys 0 i \<and>
     (changed = [] \<or> fst (last changed) + snd (last changed) \<le> i) \<and>
     (changed \<noteq> [] \<and> fst (last changed) + snd (last changed) = i \<and> i < length xs \<longrightarrow> xs ! i = ys ! i)"

lemma diff_state_same:
  assumes "diff_state xs ys i changed" "i < length xs" "xs ! i = ys ! i"
  shows "diff_state xs ys (i + 1) changed"
  using assms differing_split [of 0 i "i + 1" xs ys] by (auto simp: diff_state_def differing_def)

lemma diff_state_span:
  assumes "diff_state xs ys i changed" "i < length xs" "xs ! i \<noteq> ys ! i"
  shows "diff_state xs ys (diff_end xs ys i) (changed @ [(i, diff_end xs ys i - i)])"
proof -
  note e = diff_end_run [of i xs ys, OF less_imp_le [OF assms(2)]]
  have lt: "i < diff_end xs ys i" using assms(2,3) by (rule diff_end_gt)
  have "changed = [] \<or> fst (last changed) + snd (last changed) < i"
    using assms unfolding diff_state_def by (auto simp: order_le_less)
  then have "separated (changed @ [(i, diff_end xs ys i - i)])"
    using assms(1) lt by (intro separated_snoc) (auto simp: diff_state_def)
  moreover have "span_offsets (changed @ [(i, diff_end xs ys i - i)]) = differing xs ys 0 (diff_end xs ys i)"
    using assms(1) lt e(2) differing_split [of 0 i "diff_end xs ys i" xs ys] by (simp add: diff_state_def)
  ultimately show ?thesis using e lt by (auto simp: diff_state_def)
qed

lemma diff_from_exact:
  assumes "diff_state xs ys i changed" "length changed < max_diff_ranges"
  shows "separated (diff_from xs ys i changed) \<and> length (diff_from xs ys i changed) \<le> max_diff_ranges \<and>
    prefix (span_offsets (diff_from xs ys i changed)) (differing xs ys 0 (length xs)) \<and>
    (length (diff_from xs ys i changed) < max_diff_ranges \<longrightarrow>
       span_offsets (diff_from xs ys i changed) = differing xs ys 0 (length xs))"
  using assms
proof (induction xs ys i changed rule: diff_from.induct)
  case (1 xs ys i changed)
  show ?case
  proof (cases "i < length xs")
    case False
    with 1(3) have "i = length xs" by (simp add: diff_state_def)
    moreover have r: "diff_from xs ys i changed = changed" using False by (subst diff_from.simps) simp
    ultimately show ?thesis using 1(3,4) unfolding r by (auto simp: diff_state_def)
  next
    case lt: True
    show ?thesis
    proof (cases "xs ! i = ys ! i")
      case True
      then have r: "diff_from xs ys i changed = diff_from xs ys (i + 1) changed"
        using lt by (subst diff_from.simps) simp
      from 1(1) [OF lt True diff_state_same [OF 1(3) lt True] 1(4)] show ?thesis unfolding r .
    next
      case False
      define changed' where "changed' = changed @ [(i, diff_end xs ys i - i)]"
      note st = diff_state_span [OF 1(3) lt False, folded changed'_def]
      show ?thesis
      proof (cases "max_diff_ranges \<le> length changed'")
        case True
        then have r: "diff_from xs ys i changed = changed'"
          using lt False by (subst diff_from.simps) (simp add: Let_def changed'_def)
        have "length changed' = max_diff_ranges" using True 1(4) by (simp add: changed'_def)
        moreover have "prefix (differing xs ys 0 (diff_end xs ys i)) (differing xs ys 0 (length xs))"
          using differing_split [of 0 "diff_end xs ys i" "length xs" xs ys] st by (auto simp: diff_state_def)
        ultimately show ?thesis using st r by (auto simp: diff_state_def)
      next
        case small: False
        then have r: "diff_from xs ys i changed = diff_from xs ys (diff_end xs ys i) changed'"
          using lt False by (subst diff_from.simps) (simp add: Let_def changed'_def)
        from small have "length changed' < max_diff_ranges" by simp
        from 1(2) [OF lt False refl changed'_def small st this] show ?thesis unfolding r .
      qed
    qed
  qed
qed

text \<open>
  C22.  Comparing two snapshots finds exactly the bytes that changed between them: for two complete
  captures of the same region, of memory contents \<open>mem\<close> and \<open>mem'\<close>, \<open>snapshot_diff\<close> is valid, its spans are
  non-empty, in ascending order and with an unchanged byte between any two (maximal runs), and their
  offsets are the offsets where the memories differ; past 250000 spans it is a prefix of them.
\<close>

theorem snapshot_diff_exact:
  assumes "memory_reader read mem" "memory_reader read' mem'"
    and "n \<le> max_bytes"
  shows "\<exists>spans. snapshot_diff (snapshot_capture read base n None max_bytes)
        (snapshot_capture read' base n None max_bytes) = Some spans \<and>
    separated spans \<and> length spans \<le> max_diff_ranges \<and>
    (let changes = filter (\<lambda>i. captured mem base n ! i \<noteq> captured mem' base n ! i) [0..<n] in
      prefix (span_offsets spans) changes \<and>
      (length spans < max_diff_ranges \<longrightarrow> span_offsets spans = changes))"
proof -
  let ?a = "captured mem base n" and ?b = "captured mem' base n"
  have "snapshot_diff (snapshot_capture read base n None max_bytes) (snapshot_capture read' base n None max_bytes) =
      Some (diff_from ?a ?b 0 [])"
    using snapshot_capture_exact [OF assms(1), of base n max_bytes]
      snapshot_capture_exact [OF assms(2), of base n max_bytes] assms(3)
    by (simp add: snapshot_diff_def Let_def min_absorb1 captured_def)
  moreover have "diff_state ?a ?b 0 []" by (simp add: diff_state_def differing_def)
  from diff_from_exact [OF this] have "separated (diff_from ?a ?b 0 []) \<and> length (diff_from ?a ?b 0 []) \<le> max_diff_ranges \<and>
    prefix (span_offsets (diff_from ?a ?b 0 [])) (differing ?a ?b 0 (length ?a)) \<and>
    (length (diff_from ?a ?b 0 []) < max_diff_ranges \<longrightarrow>
       span_offsets (diff_from ?a ?b 0 []) = differing ?a ?b 0 (length ?a))"
    by (simp add: max_diff_ranges_def)
  ultimately show ?thesis by (simp add: differing_def Let_def captured_def)
qed

text \<open>Two pages of ones, of which the second reader sees one and another byte in it.\<close>

definition ones :: pages where
  "ones p = (if p = 0 \<or> p = 4096 then Some (\<lambda>_. 1) else None)"

definition patched :: pages where
  "patched p = (if p = 0 then Some (\<lambda>i. if i = 4090 then 2 else 1) else None)"

theorem snapshot_capture_exact_witness:
  "rs_bytes (snapshot_capture (fake_read patched) 4089 10 None 100) = [1, 2, 1, 1, 1, 1, 1, 0, 0, 0] \<and>
   \<not> rs_complete (snapshot_capture (fake_read patched) 4089 10 None 100)"
proof -
  have m: "memory_reader (fake_read patched) (fake_memory patched)" by unfold_locales
  have c: "captured (fake_memory patched) 4089 10 = [1, 2, 1, 1, 1, 1, 1, 0, 0, 0]" by code_simp
  have "fake_memory patched (4089 + of_nat 7) = None" by code_simp
  then have "\<not> readable (fake_memory patched) 4089 10" unfolding readable_def by (intro notI) (drule spec [of _ 7], simp)
  with snapshot_capture_exact [OF m, of 4089 10 100] c show ?thesis by (simp add: Let_def)
qed

theorem snapshot_diff_exact_witness:
  "\<exists>spans. snapshot_diff (snapshot_capture (fake_read ones) 4089 10 None 100)
      (snapshot_capture (fake_read patched) 4089 10 None 100) = Some spans \<and>
    prefix (span_offsets spans) [1, 7, 8, 9]"
proof -
  have m: "memory_reader (fake_read ones) (fake_memory ones)" "memory_reader (fake_read patched) (fake_memory patched)"
    by unfold_locales
  have "filter (\<lambda>i. captured (fake_memory ones) 4089 10 ! i \<noteq> captured (fake_memory patched) 4089 10 ! i) [0..<10] =
      [1, 7, 8, 9]" by code_simp
  with snapshot_diff_exact [OF m, of 10 100 4089] show ?thesis by (auto simp: Let_def)
qed

end
