(* ===== verification/Aob_Scan_Correct.thy ===== *)
theory Aob_Scan_Correct
  imports Aob_Scan
begin

text \<open>
  What the scan finds: on readable memory exactly the aligned addresses where the pattern matches,
  whatever the threads do; on any memory only true matches.
\<close>

section \<open>The addresses a loop visits\<close>

definition visited :: "nat \<Rightarrow> nat \<Rightarrow> nat \<Rightarrow> nat list" where
  "visited lo hi al = filter (\<lambda>x. al dvd x - lo) [lo..<Suc hi]"

lemma visited_empty [simp]: "hi < lo \<Longrightarrow> visited lo hi al = []"
  by (simp add: visited_def)

lemma set_visited: "set (visited lo hi al) = {x. lo \<le> x \<and> x \<le> hi \<and> al dvd x - lo}"
  by (auto simp: visited_def)

lemma sorted_distinct_visited: "sorted (visited lo hi al)" "distinct (visited lo hi al)"
  unfolding visited_def by (rule sorted_wrt_filter, rule sorted_upt) simp

lemma visited_step:
  assumes "0 < al" "lo \<le> hi"
  shows "visited lo hi al = lo # visited (lo + al) hi al"
proof (rule sorted_distinct_set_unique)
  show "set (visited lo hi al) = set (lo # visited (lo + al) hi al)"
  proof -
    have "al dvd x - lo \<longleftrightarrow> al dvd x - (lo + al)" if "lo + al \<le> x" for x
    proof -
      have "x - lo = (x - (lo + al)) + al" using that by simp
      then show ?thesis by (metis dvd_add_triv_right_iff)
    qed
    moreover have "x = lo" if "lo \<le> x" "x < lo + al" "al dvd x - lo" for x
    proof -
      have "x - lo < al" using that by simp
      with that(3) have "x - lo = 0" by (meson dvd_imp_le not_gr_zero not_le)
      with that show ?thesis by simp
    qed
    ultimately show ?thesis
      using assms unfolding list.set set_visited by (auto simp: not_le) (metis not_le)+
  qed
qed (use assms in \<open>auto simp: sorted_distinct_visited set_visited\<close>)

lemma visited_split:
  assumes "al dvd k" "lo + k \<le> Suc hi" "0 < k"
  shows "visited lo (lo + k - 1) al @ visited (lo + k) hi al = visited lo hi al"
proof -
  have "[lo..<Suc hi] = [lo..<lo + k] @ [lo + k..<Suc hi]"
    using assms(2) upt_add_eq_append [of lo "lo + k" "Suc hi - (lo + k)"] by simp
  moreover have "al dvd x - lo \<longleftrightarrow> al dvd x - (lo + k)" if "lo + k \<le> x" for x
  proof -
    have "x - lo = (x - (lo + k)) + k" using that by simp
    with assms(1) show ?thesis by (metis dvd_add_left_iff)
  qed
  then have "filter (\<lambda>x. al dvd x - (lo + k)) [lo + k..<Suc hi] = filter (\<lambda>x. al dvd x - lo) [lo + k..<Suc hi]"
    by (intro filter_cong) auto
  ultimately show ?thesis using assms(3) by (simp add: visited_def)
qed

section \<open>Hits\<close>

text \<open>What adding hits does to the state, with the cap; the bytes read are not looked at.\<close>

definition found :: "nat \<Rightarrow> va_t list \<Rightarrow> scan_acc \<Rightarrow> scan_acc \<Rightarrow> bool" where
  "found mx hits s s' \<longleftrightarrow> sa_matches s' = take mx (sa_matches s @ hits) \<and>
     (sa_truncated s' \<longleftrightarrow> sa_truncated s \<or> mx < length (sa_matches s @ hits))"

definition room :: "nat \<Rightarrow> scan_acc \<Rightarrow> bool" where
  "room mx s \<longleftrightarrow> length (sa_matches s) \<le> mx"

lemma found_room: "found mx hits s s' \<Longrightarrow> room mx s'"
  by (simp add: found_def room_def)

lemma found_Nil: "room mx s \<Longrightarrow> found mx [] s (s\<lparr>sa_bytes := n\<rparr>)"
  by (simp add: found_def room_def)

lemma found_refl: "room mx s \<Longrightarrow> found mx [] s s"
  by (simp add: found_def room_def)

lemma found_trans: "found mx h1 s s1 \<Longrightarrow> found mx h2 s1 s2 \<Longrightarrow> found mx (h1 @ h2) s s2"
proof -
  assume a: "found mx h1 s s1" "found mx h2 s1 s2"
  have "take mx (take mx xs @ ys) = take mx (xs @ ys)" "mx < length (take mx xs @ ys) \<or> mx < length xs \<longleftrightarrow> mx < length (xs @ ys)"
    for xs ys :: "va_t list"
    by (cases "length xs \<le> mx"; simp)+
  from this [of "sa_matches s @ h1" h2] a show ?thesis unfolding found_def by auto
qed

lemma found_add: "room mx s \<Longrightarrow> found mx [a] s (add_hit mx a s)"
  by (auto simp: found_def room_def add_hit_def)

section \<open>The loop over addresses\<close>

lemma scan_loop_finds:
  assumes "0 < al" "unat hi + al < 2 ^ 64" "room mx s"
  shows "\<exists>s'. scan_loop p d start al mx hi a s = Some s' \<and>
    found mx (filter (\<lambda>a. aob_match p (drop (unat (a - start)) d)) (map of_nat (visited (unat a) (unat hi) al))) s s'"
  using assms(3)
proof (induction "Suc (unat hi) - unat a" arbitrary: a s rule: less_induct)
  case less
  show ?case
  proof (cases "a \<le> hi")
    case False
    then have "unat hi < unat a" by (simp add: word_le_nat_alt)
    with False less(2) show ?thesis by (subst scan_loop.simps) (auto simp: found_refl)
  next
    case True
    then have le: "unat a \<le> unat hi" by (simp add: word_le_nat_alt)
    then have nx: "unat (a + of_nat al) = unat a + al"
      using assms(2) by (simp add: unat_word_ariths unat_of_nat)
    let ?s = "if aob_match p (drop (unat (a - start)) d) then add_hit mx a s else s"
    have f: "found mx (filter (\<lambda>a. aob_match p (drop (unat (a - start)) d)) [a]) s ?s"
      using less(2) by (auto simp: found_add found_refl)
    have "Suc (unat hi) - unat (a + of_nat al) < Suc (unat hi) - unat a" using nx le assms(1) by simp
    from less(1) [OF this found_room [OF f]] obtain s' where
      s': "scan_loop p d start al mx hi (a + of_nat al) ?s = Some s'"
        "found mx (filter (\<lambda>a. aob_match p (drop (unat (a - start)) d)) (map of_nat (visited (unat a + al) (unat hi) al))) ?s s'"
      by (auto simp only: nx)
    have "scan_loop p d start al mx hi a s = Some s'" using s'(1) True by (subst scan_loop.simps) simp
    moreover have "map of_nat (visited (unat a) (unat hi) al) = [a] @ map of_nat (visited (unat a + al) (unat hi) al)"
      using visited_step [OF assms(1) le] by simp
    ultimately show ?thesis using found_trans [OF f s'(2)] by (simp only: filter_append) blast
  qed
qed

section \<open>Matching in the data read\<close>

lemma match_all_take: "match_all bs ms (take (length bs) d) = match_all bs ms d"
  by (induction bs ms d rule: match_all.induct) auto

lemma aob_match_take: "ap_size p \<le> length d \<Longrightarrow> aob_match p (take (ap_size p) d) = aob_match p d"
  by (simp add: aob_match_def ap_size_def match_all_take)

lemma content_piece:
  assumes "k + m \<le> n"
  shows "take m (drop k (content mem a n)) = content mem (a + of_nat k) m"
  by (rule nth_equalityI) (use assms in \<open>auto simp: add.assoc simp flip: of_nat_add\<close>)

lemma match_content:
  assumes "k + ap_size p \<le> n"
  shows "aob_match p (drop k (content mem a n)) = aob_match p (content mem (a + of_nat k) (ap_size p))"
proof -
  have "ap_size p \<le> length (drop k (content mem a n))" using assms by simp
  from aob_match_take [OF this] content_piece [OF assms] show ?thesis by simp
qed

lemma readable_piece:
  assumes "readable mem a n" "k + m \<le> n"
  shows "readable mem (a + of_nat k) m"
  using assms readable_split [of mem a k "n - k"] readable_split [of mem "a + of_nat k" m "n - k - m"] by auto

text \<open>A true hit between two addresses.\<close>

definition hit :: "memory \<Rightarrow> aob_pattern \<Rightarrow> nat \<Rightarrow> nat \<Rightarrow> va_t \<Rightarrow> bool" where
  "hit mem p lo hi a \<longleftrightarrow> lo \<le> unat a \<and> unat a + ap_size p \<le> hi \<and> readable mem a (ap_size p) \<and>
     aob_match p (content mem a (ap_size p))"

lemma hit_mono: "hit mem p lo hi a \<Longrightarrow> lo' \<le> lo \<Longrightarrow> hi \<le> hi' \<Longrightarrow> hit mem p lo' hi' a"
  by (simp add: hit_def)

definition aligned_hits :: "memory \<Rightarrow> aob_pattern \<Rightarrow> nat \<Rightarrow> nat \<Rightarrow> nat \<Rightarrow> va_t list" where
  "aligned_hits mem p al lo hi =
     filter (\<lambda>a. aob_match p (content mem a (ap_size p))) (map of_nat (visited lo hi al))"

text \<open>The loop over true content.\<close>

lemma scan_content:
  assumes "0 < al" "0 < ap_size p" "ap_size p \<le> n" "unat a + n + al < 2 ^ 64" "room mx s" "readable mem a n"
  shows "\<exists>s'. scan_loop p (content mem a n) a al mx (a + of_nat n - of_nat (ap_size p)) a s = Some s' \<and>
    found mx (aligned_hits mem p al (unat a) (unat a + n - ap_size p)) s s'"
    "list_all (hit mem p (unat a) (unat a + n)) (aligned_hits mem p al (unat a) (unat a + n - ap_size p))"
proof -
  let ?hi = "a + of_nat n - of_nat (ap_size p)"
  have "unat (a + of_nat n) = unat a + n" using assms(4) by (simp add: unat_word_ariths unat_of_nat)
  moreover have "unat (of_nat (ap_size p) :: va_t) = ap_size p" using assms(3,4) by (simp add: unat_of_nat)
  ultimately have hi: "unat ?hi = unat a + n - ap_size p"
    using assms(3) by (subst unat_sub) (simp_all add: word_le_nat_alt)
  have each: "k + ap_size p \<le> n" "x - a = of_nat k" "unat (x - a) = k" "x = a + of_nat k" "unat x = unat a + k"
    if "x = of_nat y" "y \<in> set (visited (unat a) (unat ?hi) al)" "k = y - unat a" for x y k
  proof -
    have y: "unat a \<le> y" "y \<le> unat a + n - ap_size p" using that(2) by (auto simp: set_visited hi)
    then show k: "k + ap_size p \<le> n" using that(3) assms(3) by simp
    have "y = unat a + k" using y(1) that(3) by simp
    then show x: "x = a + of_nat k" using that(1) by simp
    then show "x - a = of_nat k" by simp
    then show "unat (x - a) = k" using k assms(4) by (simp add: unat_of_nat)
    show "unat x = unat a + k" using x k assms(4) by (simp add: unat_word_ariths unat_of_nat)
  qed
  have e: "filter (\<lambda>x. aob_match p (drop (unat (x - a)) (content mem a n))) (map of_nat (visited (unat a) (unat ?hi) al)) =
      aligned_hits mem p al (unat a) (unat a + n - ap_size p)"
    unfolding aligned_hits_def hi [symmetric]
  proof (rule filter_cong [OF refl])
    fix x :: va_t assume "x \<in> set (map of_nat (visited (unat a) (unat ?hi) al))"
    then obtain y where y: "x = of_nat y" "y \<in> set (visited (unat a) (unat ?hi) al)" by auto
    from each [OF y refl] match_content [of "y - unat a" p n mem a]
    show "aob_match p (drop (unat (x - a)) (content mem a n)) = aob_match p (content mem x (ap_size p))" by simp
  qed
  have lt: "unat ?hi + al < 2 ^ 64" using assms(3,4) by (simp only: hi)
  show "\<exists>s'. scan_loop p (content mem a n) a al mx ?hi a s = Some s' \<and>
      found mx (aligned_hits mem p al (unat a) (unat a + n - ap_size p)) s s'"
    using scan_loop_finds [OF assms(1) lt assms(5), of p "content mem a n" a a] by (simp only: e)
  show "list_all (hit mem p (unat a) (unat a + n)) (aligned_hits mem p al (unat a) (unat a + n - ap_size p))"
    unfolding list_all_iff
  proof
    fix x assume x: "x \<in> set (aligned_hits mem p al (unat a) (unat a + n - ap_size p))"
    then obtain y where y: "x = of_nat y" "y \<in> set (visited (unat a) (unat ?hi) al)" and
        m: "aob_match p (content mem x (ap_size p))" by (auto simp: aligned_hits_def hi)
    note k = each [OF y refl]
    show "hit mem p (unat a) (unat a + n) x"
      using m k(1,5) readable_piece [OF assms(6) k(1)] by (simp add: hit_def k(4) [symmetric])
  qed
qed

text \<open>The fallback: only true hits.\<close>

lemma scan_runs_finds:
  assumes "0 < al" "0 < ap_size p" "list_all (run_true mem) runs" "room mx s"
    and "list_all (\<lambda>(a, bs). lo \<le> unat a \<and> unat a + length bs \<le> hi) runs" "hi + al < 2 ^ 64"
  shows "\<exists>hits s'. scan_runs p al mx runs s = Some s' \<and> found mx hits s s' \<and> list_all (hit mem p lo hi) hits"
  using assms(3-5)
proof (induction runs arbitrary: s)
  case Nil
  then show ?case by (auto intro!: exI [of _ "[]"] found_refl)
next
  case (Cons r rs)
  obtain a d where r: "r = (a, d)" by (cases r)
  let ?s = "s\<lparr>sa_bytes := sa_bytes s + length d\<rparr>"
  have d: "readable mem a (length d)" "d = content mem a (length d)" and a: "lo \<le> unat a" "unat a + length d \<le> hi"
    using Cons.prems r by (auto simp: run_true_def)
  have rm: "room mx ?s" using Cons.prems(2) by (simp add: room_def)
  have "\<exists>hits s1. scan_run p al mx r s = Some s1 \<and> found mx hits s s1 \<and> list_all (hit mem p lo hi) hits"
  proof (cases "length d < ap_size p")
    case True
    then show ?thesis using found_Nil [OF Cons.prems(2)] by (auto simp: scan_run_def r Let_def intro!: exI [of _ "[]"])
  next
    case False
    then have le: "ap_size p \<le> length d" by simp
    have lt: "unat a + length d + al < 2 ^ 64" using a(2) assms(6) by simp
    note sc = scan_content [OF assms(1,2) le lt rm d(1)]
    from sc(1) obtain s1 where s1: "scan_loop p d a al mx (a + of_nat (length d) - of_nat (ap_size p)) a ?s = Some s1"
        "found mx (aligned_hits mem p al (unat a) (unat a + length d - ap_size p)) ?s s1"
      by (auto simp: d(2) [symmetric])
    have "scan_run p al mx r s = Some s1" using False s1(1) by (simp add: scan_run_def r Let_def)
    moreover have "found mx (aligned_hits mem p al (unat a) (unat a + length d - ap_size p)) s s1"
      using s1(2) by (simp add: found_def)
    moreover have "list_all (hit mem p lo hi) (aligned_hits mem p al (unat a) (unat a + length d - ap_size p))"
      using sc(2) a hit_mono by (auto simp: list_all_iff)
    ultimately show ?thesis by blast
  qed
  then obtain h1 s1 where s1: "scan_run p al mx r s = Some s1" "found mx h1 s s1" "list_all (hit mem p lo hi) h1" by blast
  from Cons.IH [of s1] Cons.prems found_room [OF s1(2)] obtain h2 s2 where
      "scan_runs p al mx rs s1 = Some s2" "found mx h2 s1 s2" "list_all (hit mem p lo hi) h2" by auto
  then show ?case
    using s1 found_trans [OF s1(2)] by (intro exI [of _ "h1 @ h2"] exI [of _ s2]) auto
qed

section \<open>Spans\<close>

lemma scan_chunk_finds:
  assumes "memory_reader read mem" "0 < al" "0 < ap_size p" "ap_size p \<le> chunk"
    and "unat cursor + ap_size p \<le> unat stop" "unat stop + al < 2 ^ 64" "room mx s"
  shows "\<exists>hits s' t' nxt. scan_chunk read p al mx chunk stop t cursor s = Some (s', t', nxt) \<and>
    found mx hits s s' \<and> list_all (hit mem p (unat cursor) (unat stop)) hits \<and>
    unat cursor < unat nxt \<and> unat nxt \<le> unat stop \<and>
    (readable mem cursor (unat stop - unat cursor) \<longrightarrow> t' = t \<and>
      (let want = min chunk (unat stop - unat cursor) in
        unat nxt = unat cursor + (want + 1 - ap_size p) \<and>
        hits = aligned_hits mem p al (unat cursor) (unat cursor + want - ap_size p)))"
proof -
  define want where "want = min chunk (unat stop - unat cursor)"
  have sub: "unat (stop - cursor) = unat stop - unat cursor"
    using assms(5) by (intro unat_sub) (simp add: word_le_nat_alt)
  have want: "ap_size p \<le> want" "unat cursor + want \<le> unat stop" using assms(4,5) by (auto simp: want_def)
  have next_addr: "unat (cursor + of_nat k) = unat cursor + k" if "k \<le> want" for k
    using that want(2) assms(6) by (simp add: unat_word_ariths unat_of_nat)
  note rd = memory_reader.read_contract [OF assms(1), of cursor want]
  have whole: "readable mem cursor want" if "readable mem cursor (unat stop - unat cursor)"
    using readable_piece [OF that, of 0 want] want(2) by (simp add: want_def)
  show ?thesis
  proof (cases "readable mem cursor want")
    case True
    let ?s = "s\<lparr>sa_bytes := sa_bytes s + want\<rparr>"
    have rm: "room mx ?s" using assms(7) by (simp add: room_def)
    have lt: "unat cursor + want + al < 2 ^ 64" using want(2) assms(6) by simp
    note sc = scan_content [OF assms(2,3) want(1) lt rm True]
    from sc(1) obtain s1 where s1: "scan_loop p (content mem cursor want) cursor al mx
          (cursor + of_nat want - of_nat (ap_size p)) cursor ?s = Some s1"
        "found mx (aligned_hits mem p al (unat cursor) (unat cursor + want - ap_size p)) ?s s1" by blast
    have step: "want - min (ap_size p - 1) (want - 1) = want + 1 - ap_size p" using want(1) assms(3) by auto
    have "scan_chunk read p al mx chunk stop t cursor s = Some (s1, t, cursor + of_nat (want + 1 - ap_size p))"
      using s1(1) True by (simp add: scan_chunk_def sub want_def [symmetric] Let_def rd step [simplified] del: of_nat_diff)
    moreover have "found mx (aligned_hits mem p al (unat cursor) (unat cursor + want - ap_size p)) s s1"
      using s1(2) by (simp add: found_def)
    moreover have "list_all (hit mem p (unat cursor) (unat stop)) (aligned_hits mem p al (unat cursor) (unat cursor + want - ap_size p))"
      using sc(2) want(2) hit_mono by (auto simp: list_all_iff)
    moreover have "unat (cursor + of_nat (want + 1 - ap_size p)) = unat cursor + (want + 1 - ap_size p)"
      by (rule next_addr) (use assms(3) in simp)
    ultimately show ?thesis
      using want assms(3) unfolding want_def [symmetric] Let_def
      by (intro exI [of _ "aligned_hits mem p al (unat cursor) (unat cursor + want - ap_size p)"] exI [of _ s1]
          exI [of _ t] exI [of _ "cursor + of_nat (want + 1 - ap_size p)"]) (simp del: of_nat_diff, linarith)
  next
    case False
    obtain runs t' where runs: "resilient_read read cursor want 4096 t = (runs, t')" by (metis surj_pair)
    then have rs: "runs = fst (resilient read 4096 t [(cursor, want)])" by (simp add: resilient_read_def)
    have "list_all (\<lambda>(a, bs). unat cursor \<le> unat a \<and> unat a + length bs \<le> unat stop) runs"
      unfolding list_all_iff
    proof (clarify)
      fix a bs assume "(a, bs) \<in> set runs"
      with memory_reader.resilient_pieces [OF assms(1), of 4096 t "[(cursor, want)]"] obtain k where
        "a = cursor + of_nat k" "k + length bs \<le> want" unfolding rs by fastforce
      with next_addr [of k] want(2) show "unat cursor \<le> unat a \<and> unat a + length bs \<le> unat stop" by simp
    qed
    with scan_runs_finds [OF assms(2,3) memory_reader.resilient_true [OF assms(1)] assms(7) _ assms(6)]
    obtain hits s1 where h: "scan_runs p al mx runs s = Some s1" "found mx hits s s1"
        "list_all (hit mem p (unat cursor) (unat stop)) hits" unfolding rs by blast
    have "scan_chunk read p al mx chunk stop t cursor s = Some (s1, t', cursor + of_nat want)"
      using False h(1) by (simp add: scan_chunk_def sub want_def [symmetric] Let_def rd runs)
    with h next_addr [of want] want assms(3) whole False show ?thesis
      by (intro exI [of _ hits] exI [of _ s1] exI [of _ t'] exI [of _ "cursor + of_nat want"]) auto
  qed
qed

lemma aligned_hits_split:
  assumes "al dvd k" "lo + k \<le> Suc hi" "0 < k"
  shows "aligned_hits mem p al lo (lo + k - 1) @ aligned_hits mem p al (lo + k) hi = aligned_hits mem p al lo hi"
  using visited_split [OF assms] by (simp add: aligned_hits_def flip: filter_append map_append)

lemma aligned_hits_empty: "hi < lo \<Longrightarrow> aligned_hits mem p al lo hi = []"
  by (simp add: aligned_hits_def)

lemma scan_span_finds:
  assumes "memory_reader read mem" "0 < al" "0 < ap_size p" "ap_size p \<le> chunk"
    and "ap_size p \<le> unat stop" "unat stop + al + ap_size p < 2 ^ 64"
    and "unat cursor \<le> unat stop" "room mx s"
  shows "\<exists>hits s' t'. scan_span read p al mx chunk stop tok cursor s = Some (s', t') \<and>
    found mx hits s s' \<and> list_all (hit mem p (unat cursor) (unat stop)) hits \<and>
    (readable mem cursor (unat stop - unat cursor) \<and> tok = None \<and> al dvd chunk + 1 - ap_size p \<longrightarrow>
      t' = None \<and> hits = aligned_hits mem p al (unat cursor) (unat stop - ap_size p))"
  using assms(7,8)
proof (induction "unat stop - unat cursor" arbitrary: tok cursor s rule: less_induct)
  case less
  let ?c = "unat cursor" and ?e = "unat stop"
  have psz: "unat (cursor + of_nat (ap_size p)) = ?c + ap_size p"
    using less(2) assms(6) by (simp add: unat_word_ariths unat_of_nat)
  show ?case
  proof (cases "?c + ap_size p \<le> ?e")
    case False
    then have "\<not> cursor + of_nat (ap_size p) \<le> stop" by (simp add: word_le_nat_alt psz)
    moreover have "?e - ap_size p < ?c" using False assms(5) by simp
    ultimately show ?thesis
      using less(3) by (subst scan_span.simps) (auto simp: aligned_hits_empty intro!: exI [of _ "[]"] found_refl)
  next
    case True
    then have cond: "cursor + of_nat (ap_size p) \<le> stop" by (simp add: word_le_nat_alt psz)
    obtain cancelled t where poll: "poll tok = (cancelled, t)" by (metis surj_pair)
    show ?thesis
    proof (cases cancelled)
      case True
      then have "tok \<noteq> None" using poll by (cases tok) auto
      with True cond poll less(3) show ?thesis
        by (subst scan_span.simps) (auto intro!: exI [of _ "[]"] found_refl)
    next
      case False
      have lt: "?e + al < 2 ^ 64" using assms(6) by simp
      from scan_chunk_finds [OF assms(1-4) True lt less(3), of t] obtain h1 s1 t1 nx where
        c: "scan_chunk read p al mx chunk stop t cursor s = Some (s1, t1, nx)" "found mx h1 s s1"
          "list_all (hit mem p ?c ?e) h1" "?c < unat nx" "unat nx \<le> ?e" and
        ex: "readable mem cursor (?e - ?c) \<Longrightarrow> t1 = t \<and>
          unat nx = ?c + (min chunk (?e - ?c) + 1 - ap_size p) \<and>
          h1 = aligned_hits mem p al ?c (?c + min chunk (?e - ?c) - ap_size p)"
        unfolding Let_def by blast
      have "?e - unat nx < ?e - ?c" using c(4,5) by simp
      from less(1) [OF this c(5) found_room [OF c(2)], of t1] obtain h2 s2 t2 where
        n: "scan_span read p al mx chunk stop t1 nx s1 = Some (s2, t2)" "found mx h2 s1 s2"
          "list_all (hit mem p (unat nx) ?e) h2" and
        nex: "readable mem nx (?e - unat nx) \<Longrightarrow> t1 = None \<Longrightarrow> al dvd chunk + 1 - ap_size p \<Longrightarrow>
          t2 = None \<and> h2 = aligned_hits mem p al (unat nx) (?e - ap_size p)" by blast
      have run: "scan_span read p al mx chunk stop tok cursor s = Some (s2, t2)"
        using cond False poll c(1) n(1) by (subst scan_span.simps) simp
      have sound: "list_all (hit mem p ?c ?e) (h1 @ h2)"
        using c(3,4) n(3) hit_mono by (fastforce simp: list_all_iff)
      have exact: "t2 = None \<and> h1 @ h2 = aligned_hits mem p al ?c (?e - ap_size p)"
        if rd: "readable mem cursor (?e - ?c)" and tok: "tok = None" and al: "al dvd chunk + 1 - ap_size p"
      proof -
        define k where "k = min chunk (?e - ?c) + 1 - ap_size p"
        have nx: "unat nx = ?c + k" and h1: "h1 = aligned_hits mem p al ?c (?c + k - 1)" and t1: "t1 = None"
          using ex [OF rd] poll tok True assms(4) by (auto simp: k_def)
        have "unat (cursor + of_nat k) = ?c + k"
          using nx c(5) unsigned_less [of stop, where 'a = nat] by (simp add: unat_word_ariths unat_of_nat)
        with nx have "nx = cursor + of_nat k" by (simp add: word_unat_eq_iff)
        then have "readable mem nx (?e - unat nx)"
          using readable_piece [OF rd, of k "?e - ?c - k"] nx c(5) by (simp add: diff_diff_left)
        from nex [OF this t1 al] have h2: "t2 = None" "h2 = aligned_hits mem p al (?c + k) (?e - ap_size p)"
          by (simp_all add: nx)
        have "aligned_hits mem p al ?c (?c + k - 1) @ aligned_hits mem p al (?c + k) (?e - ap_size p) =
            aligned_hits mem p al ?c (?e - ap_size p)"
        proof (cases "chunk \<le> ?e - ?c")
          case True
          then show ?thesis
            using al assms(4) \<open>?c + ap_size p \<le> ?e\<close> by (intro aligned_hits_split) (auto simp: k_def)
        next
          case False
          then have "k = ?e - ?c + 1 - ap_size p" by (simp add: k_def)
          then have "?c + k - 1 = ?e - ap_size p" "?e - ap_size p < ?c + k" using \<open>?c + ap_size p \<le> ?e\<close> by auto
          then show ?thesis by (simp add: aligned_hits_empty)
        qed
        with h1 h2 show ?thesis by simp
      qed
      show ?thesis using run found_trans [OF c(2) n(2)] sound exact by blast
    qed
  qed
qed

section \<open>Workers\<close>

definition good_span :: "aob_pattern \<Rightarrow> nat \<Rightarrow> va_t \<times> va_t \<Rightarrow> bool" where
  "good_span p al s \<longleftrightarrow> ap_size p \<le> unat (snd s) \<and> unat (snd s) + al + ap_size p < 2 ^ 64 \<and> unat (fst s) \<le> unat (snd s)"

definition span_hits :: "memory \<Rightarrow> aob_pattern \<Rightarrow> nat \<Rightarrow> va_t \<times> va_t \<Rightarrow> va_t list" where
  "span_hits mem p al s = aligned_hits mem p al (unat (fst s)) (unat (snd s) - ap_size p)"

definition span_readable :: "memory \<Rightarrow> va_t \<times> va_t \<Rightarrow> bool" where
  "span_readable mem s \<longleftrightarrow> readable mem (fst s) (unat (snd s) - unat (fst s))"

definition in_spans :: "memory \<Rightarrow> aob_pattern \<Rightarrow> (va_t \<times> va_t) list \<Rightarrow> va_t \<Rightarrow> bool" where
  "in_spans mem p spans a \<longleftrightarrow> (\<exists>s \<in> set spans. hit mem p (unat (fst s)) (unat (snd s)) a)"

lemma run_worker_finds:
  assumes "memory_reader read mem" "0 < al" "0 < ap_size p" "ap_size p \<le> chunk"
    and "list_all (good_span p al) spans" "room mx s"
  shows "\<exists>hits s'. run_worker read p al mx chunk tok spans s = Some s' \<and> found mx hits s s' \<and>
    list_all (in_spans mem p spans) hits \<and>
    (tok = None \<and> list_all (span_readable mem) spans \<and> al dvd chunk + 1 - ap_size p \<longrightarrow>
      hits = concat (map (span_hits mem p al) spans))"
  using assms(5,6)
proof (induction spans arbitrary: tok s)
  case Nil
  then show ?case by (auto intro!: exI [of _ "[]"] found_refl)
next
  case (Cons sp spans)
  obtain b e where sp: "sp = (b, e)" by (cases sp)
  obtain cancelled t where poll: "poll tok = (cancelled, t)" by (metis surj_pair)
  show ?case
  proof (cases cancelled)
    case True
    then have "tok \<noteq> None" using poll by (cases tok) auto
    with True poll Cons.prems(2) show ?thesis by (auto simp: sp intro!: exI [of _ "[]"] found_refl)
  next
    case False
    then have t: "tok = None \<Longrightarrow> t = None" using poll by simp
    have g: "ap_size p \<le> unat e" "unat e + al + ap_size p < 2 ^ 64" "unat b \<le> unat e"
      using Cons.prems(1) by (auto simp: good_span_def sp)
    from scan_span_finds [OF assms(1-4) g Cons.prems(2), of t] obtain h1 s1 t1 where
      c: "scan_span read p al mx chunk e t b s = Some (s1, t1)" "found mx h1 s s1"
        "list_all (hit mem p (unat b) (unat e)) h1" and
      ex: "readable mem b (unat e - unat b) \<and> t = None \<and> al dvd chunk + 1 - ap_size p \<longrightarrow>
        t1 = None \<and> h1 = aligned_hits mem p al (unat b) (unat e - ap_size p)" by blast
    from Cons.IH [of s1 t1] Cons.prems(1) found_room [OF c(2)] obtain h2 s2 where
      n: "run_worker read p al mx chunk t1 spans s1 = Some s2" "found mx h2 s1 s2" "list_all (in_spans mem p spans) h2" and
      nex: "t1 = None \<and> list_all (span_readable mem) spans \<and> al dvd chunk + 1 - ap_size p \<longrightarrow>
        h2 = concat (map (span_hits mem p al) spans)" by auto
    have "run_worker read p al mx chunk tok (sp # spans) s = Some s2"
      using c(1) n(1) poll False by (simp add: sp)
    moreover have "list_all (in_spans mem p (sp # spans)) (h1 @ h2)"
      using c(3) n(3) by (auto simp: list_all_iff in_spans_def sp)
    moreover have "h1 @ h2 = concat (map (span_hits mem p al) (sp # spans))"
      if "tok = None" "list_all (span_readable mem) (sp # spans)" "al dvd chunk + 1 - ap_size p"
      using ex nex t that by (simp add: sp span_hits_def span_readable_def)
    ultimately show ?thesis using found_trans [OF c(2) n(2)] by blast
  qed
qed

lemma take_take_append:
  "take n (take n xs @ ys) = take n (xs @ ys)" "n < length (take n xs @ ys) \<or> n < length xs \<longleftrightarrow> n < length (xs @ ys)"
  by (cases "length xs \<le> n"; simp)+

lemma take_append_take: "take n (xs @ take n ys) = take n (xs @ ys)"
  by (cases "length xs \<le> n") (simp_all add: min_absorb2)

lemma merge_hits_take:
  "length ms \<le> mx \<Longrightarrow> merge_hits mx as ms = (take mx (ms @ as), mx < length (ms @ as))"
  by (induction mx as ms rule: merge_hits.induct) auto

lemma run_workers_finds:
  assumes "memory_reader read mem" "0 < al" "0 < ap_size p" "ap_size p \<le> chunk"
    and "list_all (good_span p al) spans"
    and "list_all (\<lambda>w. list_all (\<lambda>i. i < length spans) (snd w)) sched" "length ms \<le> mx"
  shows "\<exists>hits st'. run_workers read p al mx chunk spans sched ms st = Some (take mx (ms @ hits), st') \<and>
    (as_truncated st' \<longleftrightarrow> as_truncated st \<or> mx < length (ms @ hits)) \<and>
    list_all (in_spans mem p spans) hits \<and>
    (list_all (\<lambda>w. fst w = None) sched \<and> list_all (span_readable mem) spans \<and> al dvd chunk + 1 - ap_size p \<longrightarrow>
      hits = concat (map (\<lambda>i. span_hits mem p al (spans ! i)) (concat (map snd sched))))"
  using assms(6,7)
proof (induction sched arbitrary: ms st)
  case Nil
  then show ?case by (auto intro!: exI [of _ "[]"])
next
  case (Cons w sched)
  obtain tok idx where w: "w = (tok, idx)" by (cases w)
  let ?s = "\<lparr>sa_matches = [], sa_truncated = False, sa_bytes = 0\<rparr>" and ?mine = "map ((!) spans) idx"
  have sub: "set ?mine \<subseteq> set spans" using Cons.prems(1) by (auto simp: w list_all_iff)
  then have good: "list_all (good_span p al) ?mine" using assms(5) by (auto simp: list_all_iff)
  have "room mx ?s" by (simp add: room_def)
  from run_worker_finds [OF assms(1-4) good this, of tok] obtain h1 s1 where
    c: "run_worker read p al mx chunk tok ?mine ?s = Some s1" "found mx h1 ?s s1" "list_all (in_spans mem p ?mine) h1" and
    ex: "tok = None \<and> list_all (span_readable mem) ?mine \<and> al dvd chunk + 1 - ap_size p \<longrightarrow>
      h1 = concat (map (span_hits mem p al) ?mine)" by blast
  have s1: "sa_matches s1 = take mx h1" "sa_truncated s1 \<longleftrightarrow> mx < length h1" using c(2) by (simp_all add: found_def)
  define ms1 where "ms1 = take mx (ms @ h1)"
  have mg: "merge_hits mx (sa_matches s1) ms = (ms1, mx < length (ms @ take mx h1))"
    using merge_hits_take [OF Cons.prems(2), of "take mx h1"] by (simp only: s1 ms1_def take_append_take)
  define st1 where "st1 = st\<lparr>as_bytes_scanned := as_bytes_scanned st + sa_bytes s1,
      as_truncated := as_truncated st \<or> sa_truncated s1 \<or> mx < length (ms @ take mx h1)\<rparr>"
  have st1: "as_truncated st1 \<longleftrightarrow> as_truncated st \<or> mx < length (ms @ h1)"
    by (auto simp: st1_def s1)
  have "length ms1 \<le> mx" by (simp add: ms1_def)
  from Cons.IH [of ms1 st1, OF _ this] Cons.prems(1) obtain h2 st2 where
    n: "run_workers read p al mx chunk spans sched ms1 st1 = Some (take mx (ms1 @ h2), st2)"
      "as_truncated st2 \<longleftrightarrow> as_truncated st1 \<or> mx < length (ms1 @ h2)" "list_all (in_spans mem p spans) h2" and
    nex: "list_all (\<lambda>w. fst w = None) sched \<and> list_all (span_readable mem) spans \<and> al dvd chunk + 1 - ap_size p \<longrightarrow>
      h2 = concat (map (\<lambda>i. span_hits mem p al (spans ! i)) (concat (map snd sched)))" by auto
  have cut: "take mx (ms1 @ h2) = take mx (ms @ h1 @ h2)"
    "mx < length (ms1 @ h2) \<or> mx < length (ms @ h1) \<longleftrightarrow> mx < length (ms @ h1 @ h2)"
    using take_take_append [of mx "ms @ h1" h2] by (simp_all only: ms1_def append_assoc)
  have "run_workers read p al mx chunk spans (w # sched) ms st = Some (take mx (ms @ h1 @ h2), st2)"
    using c(1) n(1) [unfolded cut(1)]
    by (simp add: w mg st1_def [symmetric] del: take_append length_append)
  moreover have "as_truncated st2 \<longleftrightarrow> as_truncated st \<or> mx < length (ms @ h1 @ h2)" using n(2) st1 cut(2) by blast
  moreover have "list_all (in_spans mem p spans) (h1 @ h2)"
  proof -
    have "in_spans mem p spans a" if "in_spans mem p ?mine a" for a
      using that sub unfolding in_spans_def by blast
    then show ?thesis using c(3) n(3) unfolding list_all_iff by auto
  qed
  moreover have "h1 @ h2 = concat (map (\<lambda>i. span_hits mem p al (spans ! i)) (concat (map snd (w # sched))))"
    if "list_all (\<lambda>w. fst w = None) (w # sched)" "list_all (span_readable mem) spans" "al dvd chunk + 1 - ap_size p"
  proof -
    have "list_all (span_readable mem) ?mine" using that(2) sub by (auto simp: list_all_iff)
    with ex nex that show ?thesis by (simp add: w comp_def)
  qed
  ultimately show ?case by blast
qed

section \<open>Regions\<close>

text \<open>The reference: all aligned addresses of a region tried one after the other.\<close>

definition region_hits :: "memory \<Rightarrow> aob_pattern \<Rightarrow> nat \<Rightarrow> scan_region \<Rightarrow> va_t list" where
  "region_hits mem p al reg =
     filter (\<lambda>a. aob_match p (content mem a (ap_size p)))
       (map of_nat (filter (\<lambda>x. al dvd x \<and> x + ap_size p \<le> unat (sr_base reg) + sr_size reg)
          [unat (sr_base reg)..<unat (sr_base reg) + sr_size reg]))"

text \<open>The region, with room for a step of the loop behind it, does not wrap around the address space.\<close>

definition fits :: "aob_pattern \<Rightarrow> nat \<Rightarrow> scan_region \<Rightarrow> bool" where
  "fits p al reg \<longleftrightarrow> unat (sr_base reg) + sr_size reg + al + ap_size p < 2 ^ 64"

definition round_up :: "nat \<Rightarrow> nat \<Rightarrow> nat" where
  "round_up al n = (n + al - 1) div al * al"

lemma round_up_facts:
  assumes "0 < al"
  shows "n \<le> round_up al n" "al dvd round_up al n" "round_up al n < n + al"
    "n \<le> x \<Longrightarrow> al dvd x \<Longrightarrow> round_up al n \<le> x"
proof -
  show "al dvd round_up al n" by (simp add: round_up_def)
  have d: "(n + al - 1) div al * al + (n + al - 1) mod al = n + al - 1" by simp
  moreover have "(n + al - 1) mod al < al" using assms by simp
  ultimately show "n \<le> round_up al n" "round_up al n < n + al" using assms unfolding round_up_def by linarith+
  show "round_up al n \<le> x" if x: "n \<le> x" "al dvd x"
  proof -
    from x(2) obtain q where q: "x = al * q" by blast
    have "n + al - 1 < al * Suc q" using x(1) q assms by simp
    then have "(n + al - 1) div al < Suc q" by (simp add: div_less_iff_less_mult assms mult.commute)
    then show ?thesis by (simp add: round_up_def q mult.commute)
  qed
qed

lemma span_of_nat:
  assumes "0 < al" "fits p al reg"
  shows "unat (fst (span_of al reg)) = round_up al (unat (sr_base reg))"
    "unat (snd (span_of al reg)) = unat (sr_base reg) + sr_size reg"
proof -
  have lt: "unat (sr_base reg) + al < 2 ^ 64" "unat (sr_base reg) + sr_size reg < 2 ^ 64" "al < 2 ^ 64"
    using assms(2) by (auto simp: fits_def)
  have al: "unat (of_nat al :: va_t) = al" using lt(3) by (simp add: unat_of_nat)
  have sum: "unat (sr_base reg + of_nat al) = unat (sr_base reg) + al"
    using lt(1) by (simp add: unat_word_ariths unat_of_nat)
  have "unat (sr_base reg + of_nat al - 1) = unat (sr_base reg) + al - 1"
    using sum assms(1) by (subst unat_sub) (simp_all add: word_le_nat_alt)
  then have q: "unat ((sr_base reg + of_nat al - 1) div of_nat al) = (unat (sr_base reg) + al - 1) div al"
    by (simp add: unat_div_distrib al)
  have "round_up al (unat (sr_base reg)) < 2 ^ 64" using round_up_facts(3) [OF assms(1), of "unat (sr_base reg)"] lt(1) by simp
  then have "unat ((sr_base reg + of_nat al - 1) div of_nat al * of_nat al) = round_up al (unat (sr_base reg))"
    by (simp only: unat_word_ariths(2) q al round_up_def) simp
  then show "unat (fst (span_of al reg)) = round_up al (unat (sr_base reg))"
    by (simp add: span_of_def)
  show "unat (snd (span_of al reg)) = unat (sr_base reg) + sr_size reg"
    using lt(2) by (simp add: span_of_def unat_word_ariths unat_of_nat)
qed

lemma region_span_hits:
  assumes "0 < al" "0 < ap_size p" "fits p al reg"
  shows "sr_size reg < ap_size p \<Longrightarrow> region_hits mem p al reg = []"
    "snd (span_of al reg) \<le> fst (span_of al reg) \<Longrightarrow> region_hits mem p al reg = []"
    "\<not> sr_size reg < ap_size p \<Longrightarrow> \<not> snd (span_of al reg) \<le> fst (span_of al reg) \<Longrightarrow>
      span_hits mem p al (span_of al reg) = region_hits mem p al reg \<and> good_span p al (span_of al reg)"
proof -
  note sp = span_of_nat [OF assms(1,3)] and ru = round_up_facts [OF assms(1), of "unat (sr_base reg)"]
  let ?B = "unat (sr_base reg)"
  have none: "region_hits mem p al reg = []"
    if "\<And>x. ?B \<le> x \<Longrightarrow> al dvd x \<Longrightarrow> x + ap_size p \<le> ?B + sr_size reg \<Longrightarrow> False"
  proof -
    have "filter (\<lambda>x. al dvd x \<and> x + ap_size p \<le> ?B + sr_size reg) [?B..<?B + sr_size reg] = []"
      using that by (auto simp: filter_empty_conv)
    then show ?thesis by (simp only: region_hits_def filter.simps list.map)
  qed
  show "region_hits mem p al reg = []" if "sr_size reg < ap_size p" by (rule none) (use that in simp)
  show "region_hits mem p al reg = []" if "snd (span_of al reg) \<le> fst (span_of al reg)"
    by (rule none) (use that ru(4) assms(2) in \<open>fastforce simp: word_le_nat_alt sp\<close>)
  show "span_hits mem p al (span_of al reg) = region_hits mem p al reg \<and> good_span p al (span_of al reg)"
    if size: "\<not> sr_size reg < ap_size p" and lt: "\<not> snd (span_of al reg) \<le> fst (span_of al reg)"
  proof
    have lt2: "round_up al ?B < ?B + sr_size reg" using lt by (simp add: word_le_nat_alt sp)
    show "good_span p al (span_of al reg)" using size lt2 assms(3) by (simp add: good_span_def sp fits_def)
    have "visited (round_up al ?B) (?B + sr_size reg - ap_size p) al =
        filter (\<lambda>x. al dvd x \<and> x + ap_size p \<le> ?B + sr_size reg) [?B..<?B + sr_size reg]"
    proof (rule sorted_distinct_set_unique)
      have "al dvd x - round_up al ?B \<longleftrightarrow> al dvd x" if "round_up al ?B \<le> x" for x
        using that ru(2) by (metis dvd_diff_nat dvd_diffD)
      then show "set (visited (round_up al ?B) (?B + sr_size reg - ap_size p) al) =
          set (filter (\<lambda>x. al dvd x \<and> x + ap_size p \<le> ?B + sr_size reg) [?B..<?B + sr_size reg])"
        using ru(1,4) size assms(2) by (auto simp: set_visited)
    qed (auto simp: sorted_distinct_visited intro!: sorted_wrt_filter)
    then show "span_hits mem p al (span_of al reg) = region_hits mem p al reg"
      by (simp add: span_hits_def aligned_hits_def region_hits_def sp)
  qed
qed

lemma spans_of_hits:
  assumes "0 < al" "0 < ap_size p" "list_all (fits p al) regions"
  shows "concat (map (span_hits mem p al) (spans_of p al regions)) = concat (map (region_hits mem p al) regions)"
    "list_all (good_span p al) (spans_of p al regions)"
proof -
  have "concat (map (span_hits mem p al) (spans_of p al regions)) = concat (map (region_hits mem p al) regions) \<and>
      list_all (good_span p al) (spans_of p al regions)"
    using assms(3)
  proof (induction regions)
    case (Cons reg regions)
    then have fit: "fits p al reg" by simp
    have split: "(\<lambda>(b, e). \<not> e \<le> b) = (\<lambda>s :: va_t \<times> va_t. \<not> snd s \<le> fst s)" by auto
    from region_span_hits [OF assms(1,2) fit, of mem] Cons show ?case
      unfolding spans_of_def split by auto
  qed (simp add: spans_of_def)
  then show "concat (map (span_hits mem p al) (spans_of p al regions)) = concat (map (region_hits mem p al) regions)"
    "list_all (good_span p al) (spans_of p al regions)" by blast+
qed

lemma spans_of_from: "s \<in> set (spans_of p al regions) \<Longrightarrow> \<exists>reg \<in> set regions. s = span_of al reg \<and> ap_size p \<le> sr_size reg"
  by (auto simp: spans_of_def)

lemma schedule_in_range:
  assumes "schedule_ok workers n sched"
  shows "list_all (\<lambda>w. list_all (\<lambda>i. i < n) (snd w)) sched"
proof -
  have "set (concat (map snd sched)) = {0..<n}"
    using assms unfolding schedule_ok_def by (metis atLeastLessThan_upt set_mset_mset)
  then show ?thesis by (fastforce simp: list_all_iff)
qed

lemma distinct_remdups_adj: "sorted xs \<Longrightarrow> distinct (remdups_adj xs)"
  by (induction xs rule: remdups_adj.induct) (auto simp: order_le_less dest!: order_antisym)

lemma remdups_adj_sort: "sorted (remdups_adj (sort xs))" "distinct (remdups_adj (sort xs))"
  "set (remdups_adj (sort xs)) = set xs"
  by (simp_all add: distinct_remdups_adj)

lemma aob_scan_finds:
  assumes "memory_reader read mem" "0 < ap_size p" "ap_size p \<le> opt_chunk opt"
    and "list_all (fits p (opt_align opt)) regions"
    and "schedule_ok workers (length (spans_of p (opt_align opt) regions)) sched"
  shows "\<exists>hits ms st. aob_scan read regions p opt sched c = Some (ms, st) \<and>
    ms = remdups_adj (sort (take (opt_max opt) hits)) \<and> as_matches st = length ms \<and>
    (as_truncated st \<longleftrightarrow> opt_max opt < length hits) \<and>
    list_all (in_spans mem p (spans_of p (opt_align opt) regions)) hits \<and>
    (list_all (\<lambda>w. fst w = None) sched \<and> list_all (span_readable mem) (spans_of p (opt_align opt) regions) \<and>
      opt_align opt dvd opt_chunk opt + 1 - ap_size p \<longrightarrow>
      mset hits = mset (concat (map (region_hits mem p (opt_align opt)) regions)))"
proof -
  let ?al = "opt_align opt" and ?sp = "spans_of p (opt_align opt) regions"
  have al: "0 < ?al" by (simp add: opt_align_def)
  note sp = spans_of_hits [OF al assms(2,4)]
  define st0 where "st0 = \<lparr>as_bytes_scanned = 0, as_matches = 0, as_truncated = False, as_cancelled = False\<rparr>"
  from run_workers_finds [OF assms(1) al assms(2,3) sp(2) schedule_in_range [OF assms(5)], of "[]" "opt_max opt" st0]
  obtain hits st where r: "run_workers read p ?al (opt_max opt) (opt_chunk opt) ?sp sched [] st0 =
        Some (take (opt_max opt) hits, st)" "as_truncated st \<longleftrightarrow> opt_max opt < length hits"
      "list_all (in_spans mem p ?sp) hits" and
    ex: "list_all (\<lambda>w. fst w = None) sched \<and> list_all (span_readable mem) ?sp \<and> ?al dvd opt_chunk opt + 1 - ap_size p \<longrightarrow>
      hits = concat (map (\<lambda>i. span_hits mem p ?al (?sp ! i)) (concat (map snd sched)))"
    by (auto simp: st0_def)
  have perm: "mset (concat (map (\<lambda>i. span_hits mem p ?al (?sp ! i)) (concat (map snd sched)))) =
      mset (concat (map (region_hits mem p ?al) regions))"
  proof -
    have "mset (concat (map f xs)) = mset (concat (map f ys))" if "mset xs = mset ys" for f :: "nat \<Rightarrow> va_t list" and xs ys
    proof -
      have "mset (concat (map f zs)) = sum_mset (image_mset (\<lambda>i. mset (f i)) (mset zs))" for zs
        by (induction zs) simp_all
      with that show ?thesis by simp
    qed
    moreover have "mset (concat (map snd sched)) = mset [0..<length ?sp]" using assms(5) by (simp add: schedule_ok_def)
    ultimately have "mset (concat (map (\<lambda>i. span_hits mem p ?al (?sp ! i)) (concat (map snd sched)))) =
        mset (concat (map (\<lambda>i. span_hits mem p ?al (?sp ! i)) [0..<length ?sp]))" by blast
    also have "map (\<lambda>i. span_hits mem p ?al (?sp ! i)) [0..<length ?sp] = map (span_hits mem p ?al) ?sp"
      by (rule nth_equalityI) simp_all
    finally show ?thesis by (simp only: sp(1))
  qed
  have "aob_scan read regions p opt sched c = Some (remdups_adj (sort (take (opt_max opt) hits)),
      st\<lparr>as_matches := length (remdups_adj (sort (take (opt_max opt) hits))), as_cancelled := c\<rparr>)"
    using r(1) assms(2) by (simp add: aob_scan_def st0_def Let_def)
  then show ?thesis using r(2,3) ex perm
    by (intro exI [of _ hits] exI [of _ "remdups_adj (sort (take (opt_max opt) hits))"]
        exI [of _ "st\<lparr>as_matches := length (remdups_adj (sort (take (opt_max opt) hits))), as_cancelled := c\<rparr>"] conjI)
      simp_all
qed

text \<open>
  C12.  The scan is correct on readable memory whatever the threads do: when every region can be read
  and is not cut short by the end of the address space, the token is never cancelled, the alignment
  divides the chunk less the overlap (always so for alignment 1) and the cap is not exceeded, then for
  every distribution of the spans over the workers and every order in which they finish, \<open>aob_scan\<close>
  returns the sorted list without repetition of exactly the aligned addresses where the pattern lies
  wholly inside a region and matches the memory, matches across chunk borders included, and reports no
  truncation.
\<close>

theorem aob_scan_exact:
  assumes "memory_reader read mem" "0 < ap_size p" "ap_size p \<le> opt_chunk opt"
    and "list_all (fits p (opt_align opt)) regions"
    and "list_all (\<lambda>reg. readable mem (sr_base reg) (sr_size reg)) regions"
    and "opt_align opt dvd opt_chunk opt + 1 - ap_size p"
    and "schedule_ok workers (length (spans_of p (opt_align opt) regions)) sched"
    and "list_all (\<lambda>w. fst w = None) sched"
    and "length (concat (map (region_hits mem p (opt_align opt)) regions)) \<le> opt_max opt"
  shows "\<exists>ms st. aob_scan read regions p opt sched False = Some (ms, st) \<and>
    sorted ms \<and> distinct ms \<and> as_matches st = length ms \<and> \<not> as_truncated st \<and>
    set ms = {a. \<exists>reg \<in> set regions. unat (sr_base reg) \<le> unat a \<and>
      unat a + ap_size p \<le> unat (sr_base reg) + sr_size reg \<and> opt_align opt dvd unat a \<and>
      aob_match p (content mem a (ap_size p))}"
proof -
  let ?al = "opt_align opt"
  have al: "0 < ?al" by (simp add: opt_align_def)
  have rd: "list_all (span_readable mem) (spans_of p ?al regions)"
    unfolding list_all_iff
  proof
    fix s assume "s \<in> set (spans_of p ?al regions)"
    then obtain reg where reg: "reg \<in> set regions" "s = span_of ?al reg" using spans_of_from by blast
    then have fit: "fits p ?al reg" and r: "readable mem (sr_base reg) (sr_size reg)"
      using assms(4,5) by (auto simp: list_all_iff)
    note sp = span_of_nat [OF al fit] and up = round_up_facts(1) [OF al, of "unat (sr_base reg)"]
    show "span_readable mem s"
    proof (cases "round_up ?al (unat (sr_base reg)) \<le> unat (sr_base reg) + sr_size reg")
      case True
      define k where "k = round_up ?al (unat (sr_base reg)) - unat (sr_base reg)"
      have k: "round_up ?al (unat (sr_base reg)) = unat (sr_base reg) + k" "k \<le> sr_size reg"
        using up True by (auto simp: k_def)
      then have u: "unat (sr_base reg + of_nat k) = unat (sr_base reg) + k"
        using fit by (simp add: fits_def unat_word_ariths unat_of_nat)
      with k(1) sp(1) have "fst (span_of ?al reg) = sr_base reg + of_nat k" by (simp add: word_unat_eq_iff)
      with readable_piece [OF r, of k "sr_size reg - k"] k show ?thesis
        by (simp add: span_readable_def reg(2) sp(2) u)
    next
      case False
      then show ?thesis by (simp add: span_readable_def reg sp)
    qed
  qed
  from aob_scan_finds [OF assms(1-4,7), of False] rd assms(6,8) obtain hits ms st where
    r: "aob_scan read regions p opt sched False = Some (ms, st)" "ms = remdups_adj (sort (take (opt_max opt) hits))"
      "as_matches st = length ms" "as_truncated st \<longleftrightarrow> opt_max opt < length hits"
      "mset hits = mset (concat (map (region_hits mem p ?al) regions))" by blast
  have len: "length hits \<le> opt_max opt" using assms(9) r(5) by (metis size_mset)
  then have ms: "ms = remdups_adj (sort hits)" using r(2) by simp
  have "set hits = (\<Union>reg \<in> set regions. set (region_hits mem p ?al reg))"
    using mset_eq_setD [OF r(5)] by simp
  moreover have "set (region_hits mem p ?al reg) = {a. unat (sr_base reg) \<le> unat a \<and>
      unat a + ap_size p \<le> unat (sr_base reg) + sr_size reg \<and> ?al dvd unat a \<and> aob_match p (content mem a (ap_size p))}"
    (is "_ = ?S") if reg: "reg \<in> set regions" for reg
  proof -
    have "fits p ?al reg" using assms(4) reg by (simp add: list_all_iff)
    then have u: "unat (of_nat x :: va_t) = x" if "x < unat (sr_base reg) + sr_size reg" for x
      using that by (simp add: fits_def unat_of_nat)
    show ?thesis
    proof (intro set_eqI iffI)
      fix a assume "a \<in> set (region_hits mem p ?al reg)"
      then show "a \<in> ?S" using u by (auto simp: region_hits_def)
    next
      fix a assume a: "a \<in> ?S"
      then have "a \<in> of_nat ` set (filter (\<lambda>x. ?al dvd x \<and> x + ap_size p \<le> unat (sr_base reg) + sr_size reg)
          [unat (sr_base reg)..<unat (sr_base reg) + sr_size reg])"
        using assms(2) by (intro image_eqI [of _ _ "unat a"]) auto
      with a show "a \<in> set (region_hits mem p ?al reg)" by (simp add: region_hits_def)
    qed
  qed
  ultimately have "set ms = {a. \<exists>reg \<in> set regions. unat (sr_base reg) \<le> unat a \<and>
      unat a + ap_size p \<le> unat (sr_base reg) + sr_size reg \<and> ?al dvd unat a \<and> aob_match p (content mem a (ap_size p))}"
    unfolding ms remdups_adj_sort(3) by auto
  with r(1,3,4) len ms remdups_adj_sort(1,2) [of hits] show ?thesis by auto
qed

text \<open>
   The scan never reports a false match: on any memory, whatever part of it is unreadable, however
  the spans are distributed, whenever the token is cancelled and at any alignment, \<open>aob_scan\<close> returns,
  and every address it reports has the whole pattern inside one region, readable and matching; the
  result is sorted, without repetition, and no longer than the cap.
\<close>

theorem aob_scan_sound:
  assumes "memory_reader read mem" "0 < ap_size p" "ap_size p \<le> opt_chunk opt"
    and "list_all (fits p (opt_align opt)) regions"
    and "schedule_ok workers (length (spans_of p (opt_align opt) regions)) sched"
  shows "\<exists>ms st. aob_scan read regions p opt sched cancelled = Some (ms, st) \<and>
    sorted ms \<and> distinct ms \<and> length ms \<le> opt_max opt \<and> as_matches st = length ms \<and>
    set ms \<subseteq> {a. \<exists>reg \<in> set regions. unat (sr_base reg) \<le> unat a \<and>
      unat a + ap_size p \<le> unat (sr_base reg) + sr_size reg \<and> readable mem a (ap_size p) \<and>
      aob_match p (content mem a (ap_size p))}"
proof -
  let ?al = "opt_align opt"
  have al: "0 < ?al" by (simp add: opt_align_def)
  from aob_scan_finds [OF assms, of cancelled] obtain hits ms st where
    r: "aob_scan read regions p opt sched cancelled = Some (ms, st)" "ms = remdups_adj (sort (take (opt_max opt) hits))"
      "as_matches st = length ms" "list_all (in_spans mem p (spans_of p ?al regions)) hits" by blast
  have "length ms \<le> opt_max opt"
    unfolding r(2) by (rule order_trans [OF remdups_adj_length]) simp
  moreover have "set ms \<subseteq> set hits" unfolding r(2) remdups_adj_sort(3) by (rule set_take_subset)
  moreover have "\<exists>reg \<in> set regions. unat (sr_base reg) \<le> unat a \<and>
      unat a + ap_size p \<le> unat (sr_base reg) + sr_size reg \<and> readable mem a (ap_size p) \<and>
      aob_match p (content mem a (ap_size p))" if "a \<in> set hits" for a
  proof -
    from that r(4) obtain s where s: "s \<in> set (spans_of p ?al regions)" "hit mem p (unat (fst s)) (unat (snd s)) a"
      by (auto simp: list_all_iff in_spans_def)
    from spans_of_from [OF s(1)] obtain reg where reg: "reg \<in> set regions" "s = span_of ?al reg" by blast
    then have "fits p ?al reg" using assms(4) by (simp add: list_all_iff)
    note sp = span_of_nat [OF al this] and up = round_up_facts(1) [OF al, of "unat (sr_base reg)"]
    from s(2) reg(1) up show ?thesis unfolding hit_def reg(2) sp by (intro bexI [of _ reg]) auto
  qed
  ultimately show ?thesis using r(1-3) remdups_adj_sort(1,2) by blast
qed

section \<open>Scans of a small region\<close>

text \<open>Memory that is one everywhere, eight bytes of it, and the pattern \<open>01 01\<close>.\<close>

definition all_ones :: pages where
  "all_ones p = Some (\<lambda>_. 1)"

definition small_region :: scan_region where
  "small_region = \<lparr>sr_base = 8, sr_size = 8, sr_protect = 4, sr_type = 0\<rparr>"

definition one_one :: aob_pattern where
  "one_one = \<lparr>ap_bytes = [1, 1], ap_mask = [0xFF, 0xFF]\<rparr>"

definition chunks_of :: "nat \<Rightarrow> nat \<Rightarrow> aob_options" where
  "chunks_of align n = \<lparr>ao_alignment = align, ao_max_results = 9, ao_chunk_bytes = n, ao_threads = 1\<rparr>"

lemma all_ones_reader: "memory_reader (fake_read all_ones) (fake_memory all_ones)"
  by unfold_locales

lemma all_ones_readable: "readable (fake_memory all_ones) a n"
  by (simp add: readable_def fake_memory_def all_ones_def)

lemma small_facts:
  "0 < ap_size one_one" "ap_size one_one = 2" "opt_chunk (chunks_of k 4) = 4" "opt_align (chunks_of (Suc k) 4) = Suc k"
  "opt_max (chunks_of k 4) = 9" "k < 1000 \<Longrightarrow> fits one_one k small_region"
  by (simp_all add: one_one_def ap_size_def chunks_of_def opt_chunk_def opt_align_def opt_max_def
      fits_def small_region_def)

lemma small_spans: "spans_of one_one 1 [small_region] = [(8, 16)]" "spans_of one_one 2 [small_region] = [(8, 16)]"
  by code_simp+

lemma small_hits:
  "region_hits (fake_memory all_ones) one_one 1 small_region = [8, 9, 10, 11, 12, 13, 14]"
  "region_hits (fake_memory all_ones) one_one 2 small_region = [8, 10, 12, 14]"
  by code_simp+

lemma small_schedule: "schedule_ok 1 1 [(tok, [0])]"
  by (simp add: schedule_ok_def)

theorem aob_scan_exact_witness:
  "\<exists>ms st. aob_scan (fake_read all_ones) [small_region] one_one (chunks_of 1 4) [(None, [0])] False = Some (ms, st) \<and>
    11 \<in> set ms \<and> \<not> as_truncated st"
proof -
  have al: "opt_align (chunks_of 1 4) = 1" "opt_max (chunks_of 1 4) = 9" "opt_chunk (chunks_of 1 4) = 4"
    using small_facts(4) [of 0] small_facts(3,5) by simp_all
  have "list_all (\<lambda>reg. readable (fake_memory all_ones) (sr_base reg) (sr_size reg)) [small_region]"
    by (simp add: all_ones_readable)
  from aob_scan_exact [OF all_ones_reader small_facts(1), of "chunks_of 1 4" "[small_region]" 1 "[(None, [0])]", OF _ _ this]
  obtain ms st where
    m: "aob_scan (fake_read all_ones) [small_region] one_one (chunks_of 1 4) [(None, [0])] False = Some (ms, st)"
      "\<not> as_truncated st" and
    s: "set ms = {a. \<exists>reg \<in> set [small_region]. unat (sr_base reg) \<le> unat a \<and>
      unat a + ap_size one_one \<le> unat (sr_base reg) + sr_size reg \<and> opt_align (chunks_of 1 4) dvd unat a \<and>
      aob_match one_one (content (fake_memory all_ones) a (ap_size one_one))}"
    unfolding al using small_spans(1) small_schedule [of None] small_facts(2,6) small_hits(1) by auto
  have "aob_match one_one (content (fake_memory all_ones) 11 2)" by code_simp
  then have "11 \<in> set ms" unfolding s al small_facts(2) by (simp add: small_region_def)
  with m show ?thesis by blast
qed

theorem aob_scan_sound_witness:
  "\<exists>ms st. aob_scan (fake_read all_ones) [small_region] one_one (chunks_of 2 4) [(Some 3, [0])] True = Some (ms, st) \<and>
    length ms \<le> 9 \<and> sorted ms"
proof -
  have al: "opt_align (chunks_of 2 4) = 2" "opt_max (chunks_of 2 4) = 9" "opt_chunk (chunks_of 2 4) = 4"
    using small_facts(4) [of 1] small_facts(3,5) by (simp_all add: numeral_2_eq_2)
  have "schedule_ok 1 (length (spans_of one_one 2 [small_region])) [(Some 3, [0])]"
    using small_spans(2) small_schedule by simp
  from aob_scan_sound [OF all_ones_reader small_facts(1), of "chunks_of 2 4" "[small_region]" 1 "[(Some 3, [0])]" True,
      unfolded al, OF _ _ this]
  show ?thesis using small_facts(2) small_facts(6) [of 2] by auto
qed

lemma all_ones_read: "fake_read all_ones = (\<lambda>a n. Some (replicate n 1))"
  using memory_reader.read_contract [OF all_ones_reader] all_ones_readable
  by (auto simp: fun_eq_iff content_def fake_memory_def all_ones_def map_replicate_trivial)

text \<open>
   With an alignment the scan misses matches: the step back at the end of a chunk is the pattern's
  length less one, so the next chunk starts at an address that need not be aligned.  On eight bytes of
  ones, read four at a time with alignment 2, the pattern \<open>01 01\<close> matches at the aligned addresses
  8, 10, 12 and 14; the scan loses 12 and reports 11 and 13.
\<close>

theorem aob_alignment_lost:
  "map_option fst (aob_scan (fake_read all_ones) [small_region] one_one (chunks_of 2 4) [(None, [0])] False) =
     Some [8, 10, 11, 13, 14] \<and>
   region_hits (fake_memory all_ones) one_one 2 small_region = [8, 10, 12, 14]"
  unfolding all_ones_read small_hits(2) by code_simp

text \<open>
  A token of one digit matches the wrong byte: \<open>5\<close> compiles to the byte 0x50 with the mask 0x0F, so
  the pattern matches exactly the bytes whose low digit is 0 and not those whose low digit is 5.
\<close>

theorem single_digit_token:
  "aob_compile ''5'' = Inr \<lparr>ap_bytes = [0x50], ap_mask = [0x0F]\<rparr> \<and>
   aob_match \<lparr>ap_bytes = [0x50], ap_mask = [0x0F]\<rparr> [b] = (b AND 0x0F = 0)"
proof -
  have "aob_compile ''5'' = Inr \<lparr>ap_bytes = [0x50], ap_mask = [0x0F]\<rparr>" by code_simp
  then show ?thesis by (simp add: aob_match_def ap_size_def)
qed

end
