(* ===== verification/Lifter.thy ===== *)
theory Lifter
  imports Pcode_IR Analysis_Db "HOL-Library.State_Monad"
begin

text \<open>
  The x86 lifter (\<open>src/src/hyperion/core/decompiler/lifter.cpp\<close>): decoded instructions to p-code.
  Zydis is not part of the repository: its register and mnemonic numbers are the functions
  \<open>zy_reg\<close> and \<open>zy_mnem\<close> of the record \<open>zydis\<close>, from the name of the constant to its number, and the
  re-rendered text of an instruction is \<open>zy_text\<close>.  Everything else is the source's: operand reads
  and writes, flags, conditions, one case per instruction type, block and predecessor lists.  The
  lifter's members and the block under construction are the state of a state monad.
\<close>

record zydis =
  zy_reg :: "string \<Rightarrow> u16"
  zy_mnem :: "string \<Rightarrow> u16"
  zy_text :: "insn \<Rightarrow> arch \<Rightarrow> string"

section \<open>Registers\<close>

definition reg_rax :: int where "reg_rax = 0"
definition reg_rcx :: int where "reg_rcx = 1"
definition reg_rdx :: int where "reg_rdx = 2"
definition reg_rsp :: int where "reg_rsp = 4"
definition reg_rbp :: int where "reg_rbp = 5"
definition reg_zf :: int where "reg_zf = 100"
definition reg_cf :: int where "reg_cf = 101"
definition reg_sf :: int where "reg_sf = 102"
definition reg_of :: int where "reg_of = 103"

lemmas reg_ids = reg_rax_def reg_rcx_def reg_rdx_def reg_rsp_def reg_rbp_def
  reg_zf_def reg_cf_def reg_sf_def reg_of_def

text \<open>\<open>kRegTable\<close>: the name of the register, its number and its size.\<close>

definition reg_table :: "(string \<times> int \<times> int) list" where
  "reg_table = [
     (''rax'', 0, 8), (''eax'', 0, 4), (''ax'', 0, 2), (''al'', 0, 1),
     (''rcx'', 1, 8), (''ecx'', 1, 4), (''cx'', 1, 2), (''cl'', 1, 1),
     (''rdx'', 2, 8), (''edx'', 2, 4), (''dx'', 2, 2), (''dl'', 2, 1),
     (''rbx'', 3, 8), (''ebx'', 3, 4), (''bx'', 3, 2), (''bl'', 3, 1),
     (''rsp'', 4, 8), (''esp'', 4, 4),
     (''rbp'', 5, 8), (''ebp'', 5, 4),
     (''rsi'', 6, 8), (''esi'', 6, 4), (''sil'', 6, 1),
     (''rdi'', 7, 8), (''edi'', 7, 4), (''dil'', 7, 1),
     (''r8'', 8, 8), (''r8d'', 8, 4), (''r8w'', 8, 2), (''r8b'', 8, 1),
     (''r9'', 9, 8), (''r9d'', 9, 4), (''r9w'', 9, 2), (''r9b'', 9, 1),
     (''r10'', 10, 8), (''r10d'', 10, 4),
     (''r11'', 11, 8), (''r11d'', 11, 4),
     (''r12'', 12, 8), (''r12d'', 12, 4),
     (''r13'', 13, 8), (''r13d'', 13, 4),
     (''r14'', 14, 8), (''r14d'', 14, 4),
     (''r15'', 15, 8), (''r15d'', 15, 4)]"

definition full_names :: "string list" where
  "full_names = [''rax'', ''rcx'', ''rdx'', ''rbx'', ''rsp'', ''rbp'', ''rsi'', ''rdi'',
     ''r8'', ''r9'', ''r10'', ''r11'', ''r12'', ''r13'', ''r14'', ''r15'']"

definition reg_lookup :: "zydis \<Rightarrow> u16 \<Rightarrow> int \<Rightarrow> varnode" where
  "reg_lookup zy zreg bits =
     (case find (\<lambda>(nm, rid, sz). zy_reg zy nm = zreg) reg_table of
        Some (nm, rid, sz) \<Rightarrow> vn_reg rid nm sz
      | None \<Rightarrow> vn_reg (50 + uint zreg mod 50) ''unk'' (bits div 8))"

section \<open>The lifter's state\<close>

record lifter =
  lf_next_temp :: int
  lf_addr :: va_t
  lf_seq :: int
  lf_stack_vars :: "varnode list"
  lf_ops :: "pcode_insn list"
  lf_has_return :: bool

type_synonym 'a lift = "(lifter, 'a) state"

definition alloc_temp :: "int \<Rightarrow> varnode lift" where
  "alloc_temp sz = State (\<lambda>s. (vn_temp (lf_next_temp s) sz, s\<lparr>lf_next_temp := lf_next_temp s + 1\<rparr>))"

definition emit :: "pcode_op \<Rightarrow> varnode \<Rightarrow> varnode list \<Rightarrow> unit lift" where
  "emit opc out ins = State (\<lambda>s. ((), s\<lparr>lf_ops := lf_ops s @
     [\<lparr>pi_op = opc, pi_output = out, pi_inputs = ins, pi_addr = lf_addr s, pi_seq = lf_seq s\<rparr>],
     lf_seq := lf_seq s + 1\<rparr>))"

definition note_stack_var :: "varnode \<Rightarrow> unit lift" where
  "note_stack_var v = State (\<lambda>s. ((), s\<lparr>lf_stack_vars := lf_stack_vars s @ [v]\<rparr>))"

definition set_has_return :: "unit lift" where
  "set_has_return = State (\<lambda>s. ((), s\<lparr>lf_has_return := True\<rparr>))"

text \<open>Emit into a fresh temporary and return it.\<close>

definition emit_temp :: "pcode_op \<Rightarrow> int \<Rightarrow> varnode list \<Rightarrow> varnode lift" where
  "emit_temp opc sz ins = do { t \<leftarrow> alloc_temp sz; emit opc t ins; State_Monad.return t }"

section \<open>Operands\<close>

definition has_reg :: "zydis \<Rightarrow> u16 \<Rightarrow> bool" where
  "has_reg zy r \<longleftrightarrow> r \<noteq> 0 \<and> r \<noteq> zy_reg zy ''none''"

definition is_frame_reg :: "zydis \<Rightarrow> u16 \<Rightarrow> bool" where
  "is_frame_reg zy r \<longleftrightarrow> r = zy_reg zy ''rbp'' \<or> r = zy_reg zy ''ebp'' \<or> r = zy_reg zy ''rsp'' \<or> r = zy_reg zy ''esp''"

text \<open>Base, scaled index and displacement; \<open>None\<close> is \<open>has_address == false\<close>.\<close>

definition add_index :: "zydis \<Rightarrow> operand \<Rightarrow> varnode option \<Rightarrow> varnode option lift" where
  "add_index zy opnd base =
     (if has_reg zy (o_index opnd) then do {
        index \<leftarrow> (if 1 < o_scale opnd
          then emit_temp INT_MULT 8 [reg_lookup zy (o_index opnd) 64, vn_const (ucast (o_scale opnd)) 8]
          else State_Monad.return (reg_lookup zy (o_index opnd) 64));
        (case base of
           Some address \<Rightarrow> do { s \<leftarrow> emit_temp ADD 8 [address, index]; State_Monad.return (Some s) }
         | None \<Rightarrow> State_Monad.return (Some index))
      } else State_Monad.return base)"

definition add_disp :: "int \<Rightarrow> operand \<Rightarrow> varnode option \<Rightarrow> varnode option lift" where
  "add_disp sz opnd base =
     (if o_disp opnd \<noteq> 0 then
        (case base of
           Some address \<Rightarrow> do { s \<leftarrow> emit_temp ADD sz [address, vn_const (o_disp opnd) 8]; State_Monad.return (Some s) }
         | None \<Rightarrow> State_Monad.return (Some (vn_const (o_disp opnd) 8)))
      else State_Monad.return base)"

definition address_parts :: "zydis \<Rightarrow> operand \<Rightarrow> varnode option lift" where
  "address_parts zy opnd = do {
     a \<leftarrow> add_index zy opnd (if has_reg zy (o_base opnd) then Some (reg_lookup zy (o_base opnd) 64) else None);
     add_disp 8 opnd a }"

definition effective_address :: "zydis \<Rightarrow> operand \<Rightarrow> int \<Rightarrow> varnode lift" where
  "effective_address zy opnd access_size =
     (if is_frame_reg zy (o_base opnd) \<and> \<not> has_reg zy (o_index opnd) then
        (let sz = (if 0 < access_size then access_size div 8 else 8);
             v = vn_stack (if o_base opnd = zy_reg zy ''rbp'' \<or> o_base opnd = zy_reg zy ''ebp''
                           then reg_rbp else reg_rsp) (o_disp opnd) (if sz < 1 then 1 else sz)
         in do { note_stack_var v; State_Monad.return v })
      else if o_val opnd \<noteq> 0 \<and> (o_base opnd = zy_reg zy ''rip'' \<or> o_base opnd = zy_reg zy ''eip'') then
        State_Monad.return (vn_const (o_val opnd) 8)
      else do {
        a \<leftarrow> address_parts zy opnd;
        State_Monad.return (case a of Some v \<Rightarrow> v | None \<Rightarrow> vn_const (o_val opnd) 8) })"

definition operand_read :: "zydis \<Rightarrow> insn \<Rightarrow> nat \<Rightarrow> varnode lift" where
  "operand_read zy i idx =
     (if in_op_count i \<le> idx then State_Monad.return (vn_const 0 8)
      else (let opnd = in_ops i ! idx in
        case o_type opnd of
          OReg \<Rightarrow> State_Monad.return (reg_lookup zy (o_reg opnd) (o_size opnd))
        | OImm \<Rightarrow> State_Monad.return (vn_const (o_val opnd) (if o_size opnd div 8 \<noteq> 0 then o_size opnd div 8 else 8))
        | OMem \<Rightarrow> do {
            addr \<leftarrow> effective_address zy opnd (o_size opnd);
            emit_temp LOAD (if o_size opnd div 8 < 1 then 8 else o_size opnd div 8) [addr] }
        | ONone \<Rightarrow> State_Monad.return (vn_const 0 8)))"

text \<open>A register write; a narrow write on x64 also updates the full register.\<close>

definition reg_write :: "zydis \<Rightarrow> arch \<Rightarrow> operand \<Rightarrow> varnode \<Rightarrow> unit lift" where
  "reg_write zy ar opnd val =
     (let dst = reg_lookup zy (o_reg opnd) (o_size opnd) in
      if ar = X64 \<and> 0 < o_size opnd \<and> o_size opnd < 64 \<and> 0 \<le> vn_id dst \<and> vn_id dst < 16 then
        (let full = vn_reg (vn_id dst) (full_names ! nat (vn_id dst)) 8 in
         if o_size opnd = 32 then do {
           emit COPY dst [val];
           extended \<leftarrow> emit_temp INT_ZEXT 8 [val];
           emit COPY full [extended]
         } else do {
           upper \<leftarrow> emit_temp SUBPIECE (8 - vn_size val) [full, vn_const (word_of_int (vn_size val)) 8];
           emit COPY dst [val];
           combined \<leftarrow> emit_temp PIECE 8 [upper, val];
           emit COPY full [combined]
         })
      else emit COPY dst [val])"

definition operand_write :: "zydis \<Rightarrow> arch \<Rightarrow> insn \<Rightarrow> nat \<Rightarrow> varnode \<Rightarrow> unit lift" where
  "operand_write zy ar i idx val =
     (if in_op_count i \<le> idx then State_Monad.return ()
      else (let opnd = in_ops i ! idx in
        case o_type opnd of
          OReg \<Rightarrow> reg_write zy ar opnd val
        | OMem \<Rightarrow> do { addr \<leftarrow> effective_address zy opnd (o_size opnd); emit STORE default_vn [addr, val] }
        | _ \<Rightarrow> State_Monad.return ()))"

section \<open>Flags and conditions\<close>

definition flag_vn :: "int \<Rightarrow> string \<Rightarrow> varnode" where
  "flag_vn r nm = vn_reg r nm 1"

definition emit_flags :: "varnode \<Rightarrow> varnode \<Rightarrow> bool \<Rightarrow> unit lift" where
  "emit_flags lhs rhs is_test =
     (let sz = vn_size lhs; zf = flag_vn reg_zf ''ZF''; cf = flag_vn reg_cf ''CF'';
          sf = flag_vn reg_sf ''SF''; ov = flag_vn reg_of ''OF'' in
      if is_test then do {
        tmp \<leftarrow> emit_temp AND_OP sz [lhs, rhs];
        emit INT_EQUAL zf [tmp, vn_const 0 sz];
        emit INT_SLESS sf [tmp, vn_const 0 sz];
        emit COPY cf [vn_const 0 1];
        emit COPY ov [vn_const 0 1]
      } else do {
        diff \<leftarrow> emit_temp SUB sz [lhs, rhs];
        emit INT_EQUAL zf [diff, vn_const 0 sz];
        emit INT_SLESS sf [diff, vn_const 0 sz];
        emit INT_LESS cf [lhs, rhs];
        x1 \<leftarrow> emit_temp XOR_OP sz [lhs, rhs];
        x2 \<leftarrow> emit_temp XOR_OP sz [lhs, diff];
        both \<leftarrow> emit_temp AND_OP sz [x1, x2];
        emit INT_SLESS ov [both, vn_const 0 sz]
      })"

datatype cond_kind = CkZF | CkNZF | CkCF | CkNCF | CkLT | CkGE | CkLE | CkGT | CkBE | CkA
  | CkSF | CkNSF | CkOF | CkNOF | CkUnknown

definition mnem_table :: "(string \<times> string \<times> cond_kind) list" where
  "mnem_table = [
     (''JZ'', ''SETZ'', CkZF), (''JNZ'', ''SETNZ'', CkNZF), (''JB'', ''SETB'', CkCF),
     (''JNB'', ''SETNB'', CkNCF), (''JL'', ''SETL'', CkLT), (''JNL'', ''SETNL'', CkGE),
     (''JLE'', ''SETLE'', CkLE), (''JNLE'', ''SETNLE'', CkGT), (''JBE'', ''SETBE'', CkBE),
     (''JNBE'', ''SETNBE'', CkA), (''JS'', ''SETS'', CkSF), (''JNS'', ''SETNS'', CkNSF),
     (''JO'', ''SETO'', CkOF), (''JNO'', ''SETNO'', CkNOF)]"

definition cond_kind_from_id :: "zydis \<Rightarrow> u16 \<Rightarrow> cond_kind" where
  "cond_kind_from_id zy m =
     (case find (\<lambda>(j, s, k). zy_mnem zy j = m \<or> zy_mnem zy s = m) mnem_table of
        Some (j, s, k) \<Rightarrow> k | None \<Rightarrow> CkUnknown)"

definition suffix_table :: "(string list \<times> cond_kind) list" where
  "suffix_table = [
     ([''e'', ''z''], CkZF), ([''ne'', ''nz''], CkNZF), ([''b'', ''c'', ''nae''], CkCF),
     ([''ae'', ''nb'', ''nc''], CkNCF), ([''l'', ''nge''], CkLT), ([''ge'', ''nl''], CkGE),
     ([''le'', ''ng''], CkLE), ([''g'', ''nle''], CkGT), ([''be'', ''na''], CkBE),
     ([''a'', ''nbe''], CkA), ([''s''], CkSF), ([''ns''], CkNSF), ([''o''], CkOF), ([''no''], CkNOF)]"

definition cond_kind_of :: "string \<Rightarrow> cond_kind" where
  "cond_kind_of mn =
     (case (if take 1 mn = ''j'' \<or> take 1 mn = ''J'' then Some (drop 1 mn)
            else if take 3 mn = ''set'' then Some (drop 3 mn) else None) of
        None \<Rightarrow> CkUnknown
      | Some s \<Rightarrow> (case find (\<lambda>(ss, k). s \<in> set ss) suffix_table of Some (ss, k) \<Rightarrow> k | None \<Rightarrow> CkUnknown))"

definition emit_condition_kind :: "cond_kind \<Rightarrow> varnode lift" where
  "emit_condition_kind k =
     (let zf = flag_vn reg_zf ''ZF''; cf = flag_vn reg_cf ''CF''; sf = flag_vn reg_sf ''SF'';
          ov = flag_vn reg_of ''OF'' in
      case k of
        CkZF \<Rightarrow> State_Monad.return zf
      | CkNZF \<Rightarrow> emit_temp BOOL_NOT 1 [zf]
      | CkCF \<Rightarrow> State_Monad.return cf
      | CkNCF \<Rightarrow> emit_temp BOOL_NOT 1 [cf]
      | CkLT \<Rightarrow> emit_temp INT_NEQUAL 1 [sf, ov]
      | CkGE \<Rightarrow> emit_temp INT_EQUAL 1 [sf, ov]
      | CkLE \<Rightarrow> do { lt \<leftarrow> emit_temp INT_NEQUAL 1 [sf, ov]; emit_temp BOOL_OR 1 [zf, lt] }
      | CkGT \<Rightarrow> do { lt \<leftarrow> emit_temp INT_NEQUAL 1 [sf, ov]; le \<leftarrow> emit_temp BOOL_OR 1 [zf, lt];
                     emit_temp BOOL_NOT 1 [le] }
      | CkBE \<Rightarrow> emit_temp BOOL_OR 1 [cf, zf]
      | CkA \<Rightarrow> do { be \<leftarrow> emit_temp BOOL_OR 1 [cf, zf]; emit_temp BOOL_NOT 1 [be] }
      | CkSF \<Rightarrow> State_Monad.return sf
      | CkNSF \<Rightarrow> emit_temp BOOL_NOT 1 [sf]
      | CkOF \<Rightarrow> State_Monad.return ov
      | CkNOF \<Rightarrow> emit_temp BOOL_NOT 1 [ov]
      | CkUnknown \<Rightarrow> emit_temp BOOL_NOT 1 [zf])"

definition emit_condition :: "zydis \<Rightarrow> insn \<Rightarrow> varnode lift" where
  "emit_condition zy i = emit_condition_kind
     (if in_mnemonic_id i \<noteq> 0 then cond_kind_from_id zy (in_mnemonic_id i) else cond_kind_of (in_mnemonic i))"

section \<open>Instructions\<close>

definition alu_op :: "insn_type \<Rightarrow> pcode_op" where
  "alu_op t = (case t of IAdd \<Rightarrow> ADD | ISub \<Rightarrow> SUB | IAnd \<Rightarrow> AND_OP | IOr \<Rightarrow> OR_OP | IXor \<Rightarrow> XOR_OP
     | IShl \<Rightarrow> SHIFT_LEFT | IShr \<Rightarrow> SHIFT_RIGHT | ISar \<Rightarrow> SHIFT_ARIGHT | IRol \<Rightarrow> ROTATE_LEFT
     | IRor \<Rightarrow> ROTATE_RIGHT | _ \<Rightarrow> ADD)"

definition lift_lea :: "zydis \<Rightarrow> insn \<Rightarrow> unit lift" where
  "lift_lea zy i =
     (let dst = in_ops i ! 0; src = in_ops i ! 1; d = reg_lookup zy (o_reg dst) (o_size dst) in
      if o_type dst = OReg \<and> o_type src = OMem then
        (if o_val src \<noteq> 0 \<and> o_base src \<noteq> zy_reg zy ''none'' \<and>
            (o_base src = zy_reg zy ''rip'' \<or> o_base src = zy_reg zy ''eip'')
         then emit COPY d [vn_const (o_val src) 8]
         else do {
           a \<leftarrow> address_parts zy src;
           emit COPY d [case a of Some v \<Rightarrow> v | None \<Rightarrow> vn_const 0 8] })
      else State_Monad.return ())"

definition lift_alu :: "zydis \<Rightarrow> arch \<Rightarrow> insn \<Rightarrow> unit lift" where
  "lift_alu zy ar i = do {
     lhs \<leftarrow> operand_read zy i 0;
     rhs \<leftarrow> operand_read zy i 1;
     (if in_type i = IXor \<and> 2 \<le> in_op_count i \<and> o_type (in_ops i ! 0) = OReg \<and>
         o_type (in_ops i ! 1) = OReg \<and> o_reg (in_ops i ! 0) = o_reg (in_ops i ! 1)
      then operand_write zy ar i 0 (vn_const 0 (o_size (in_ops i ! 0) div 8))
      else do {
        result \<leftarrow> emit_temp (alu_op (in_type i)) (vn_size lhs) [lhs, rhs];
        operand_write zy ar i 0 result }) }"

definition lift_incdec :: "zydis \<Rightarrow> arch \<Rightarrow> insn \<Rightarrow> unit lift" where
  "lift_incdec zy ar i = do {
     val \<leftarrow> operand_read zy i 0;
     result \<leftarrow> emit_temp (if in_type i = IInc then ADD else SUB) (vn_size val) [val, vn_const 1 (vn_size val)];
     operand_write zy ar i 0 result }"

definition rax_vn :: varnode where
  "rax_vn = vn_reg reg_rax ''rax'' 8"

definition rsp_vn :: varnode where
  "rsp_vn = vn_reg reg_rsp ''rsp'' 8"

definition lift_mul :: "zydis \<Rightarrow> arch \<Rightarrow> insn \<Rightarrow> unit lift" where
  "lift_mul zy ar i = do {
     result \<leftarrow> alloc_temp 8;
     (if in_op_count i = 1 then do {
        src \<leftarrow> operand_read zy i 0;
        emit INT_MULT result [rax_vn, src];
        emit COPY rax_vn [result] }
      else if in_op_count i = 2 then do {
        lhs \<leftarrow> operand_read zy i 0;
        rhs \<leftarrow> operand_read zy i 1;
        emit INT_MULT result [lhs, rhs];
        operand_write zy ar i 0 result }
      else if in_op_count i = 3 then do {
        lhs \<leftarrow> operand_read zy i 1;
        rhs \<leftarrow> operand_read zy i 2;
        emit INT_MULT result [lhs, rhs];
        operand_write zy ar i 0 result }
      else State_Monad.return ()) }"

definition lift_div :: "zydis \<Rightarrow> insn \<Rightarrow> unit lift" where
  "lift_div zy i = do {
     src \<leftarrow> operand_read zy i 0;
     result \<leftarrow> emit_temp (if in_type i = IIdiv then INT_SDIV else INT_DIV) 8 [rax_vn, src];
     emit COPY rax_vn [result] }"

definition lift_movx :: "zydis \<Rightarrow> arch \<Rightarrow> insn \<Rightarrow> unit lift" where
  "lift_movx zy ar i = do {
     src \<leftarrow> operand_read zy i 1;
     result \<leftarrow> emit_temp (if in_type i = IMovsx then INT_SEXT else INT_ZEXT) (o_size (in_ops i ! 0) div 8) [src];
     operand_write zy ar i 0 result }"

definition stack_slot :: "arch \<Rightarrow> int" where
  "stack_slot ar = (if ar = X86 then 4 else 8)"

definition lift_push :: "zydis \<Rightarrow> arch \<Rightarrow> insn \<Rightarrow> unit lift" where
  "lift_push zy ar i = do {
     src \<leftarrow> operand_read zy i 0;
     new_sp \<leftarrow> emit_temp SUB (stack_slot ar) [rsp_vn, vn_const (word_of_int (stack_slot ar)) 8];
     emit COPY rsp_vn [new_sp];
     emit STORE default_vn [rsp_vn, src] }"

definition lift_pop :: "zydis \<Rightarrow> arch \<Rightarrow> insn \<Rightarrow> unit lift" where
  "lift_pop zy ar i = do {
     loaded \<leftarrow> emit_temp LOAD (stack_slot ar) [rsp_vn];
     operand_write zy ar i 0 loaded;
     new_sp \<leftarrow> emit_temp ADD (stack_slot ar) [rsp_vn, vn_const (word_of_int (stack_slot ar)) 8];
     emit COPY rsp_vn [new_sp] }"

definition call_name :: "analysis_db \<Rightarrow> insn \<Rightarrow> string" where
  "call_name db i =
     (let target = branch_target i in
      if target \<noteq> 0 then
        (case db_names db target of
           Some nm \<Rightarrow> nm
         | None \<Rightarrow> ''sub_'' @ hex_upper (if db_image_base db \<noteq> 0 \<and> db_image_base db \<le> target
                                      then target - db_image_base db else target))
      else ''indirect_'' @ hex_upper (in_addr i))"

definition lift_call :: "analysis_db \<Rightarrow> insn \<Rightarrow> unit lift" where
  "lift_call db i =
     (let fn_addr = (vn_const (branch_target i) 8)\<lparr>vn_name := call_name db i\<rparr> in
      if db_arch db = X86 then emit CALL rax_vn [fn_addr]
      else emit CALL rax_vn [fn_addr, vn_reg reg_rcx ''rcx'' 8, vn_reg reg_rdx ''rdx'' 8,
             vn_reg 8 ''r8'' 8, vn_reg 9 ''r9'' 8])"

definition lift_intrinsic :: "zydis \<Rightarrow> arch \<Rightarrow> insn \<Rightarrow> unit lift" where
  "lift_intrinsic zy ar i = do {
     t \<leftarrow> alloc_temp 8;
     result \<leftarrow> alloc_temp 8;
     emit INTRINSIC result [t\<lparr>vn_name := ''__asm { '' @ zy_text zy i ar @ '' }''\<rparr>] }"

definition lift_insn_body :: "zydis \<Rightarrow> analysis_db \<Rightarrow> insn \<Rightarrow> unit lift" where
  "lift_insn_body zy db i =
     (let ar = db_arch db in
      case in_type i of
        IMov \<Rightarrow> do { src \<leftarrow> operand_read zy i 1; operand_write zy ar i 0 src }
      | ILea \<Rightarrow> lift_lea zy i
      | IAdd \<Rightarrow> lift_alu zy ar i | ISub \<Rightarrow> lift_alu zy ar i | IAnd \<Rightarrow> lift_alu zy ar i
      | IOr \<Rightarrow> lift_alu zy ar i | IXor \<Rightarrow> lift_alu zy ar i | IShl \<Rightarrow> lift_alu zy ar i
      | IShr \<Rightarrow> lift_alu zy ar i | ISar \<Rightarrow> lift_alu zy ar i | IRol \<Rightarrow> lift_alu zy ar i
      | IRor \<Rightarrow> lift_alu zy ar i
      | IInc \<Rightarrow> lift_incdec zy ar i | IDec \<Rightarrow> lift_incdec zy ar i
      | IMul \<Rightarrow> lift_mul zy ar i | IImul \<Rightarrow> lift_mul zy ar i
      | IDiv \<Rightarrow> lift_div zy i | IIdiv \<Rightarrow> lift_div zy i
      | IMovsx \<Rightarrow> lift_movx zy ar i | IMovzx \<Rightarrow> lift_movx zy ar i
      | INot \<Rightarrow> do { src \<leftarrow> operand_read zy i 0; result \<leftarrow> emit_temp INT_NEGATE (vn_size src) [src];
                  operand_write zy ar i 0 result }
      | IPush \<Rightarrow> lift_push zy ar i
      | IPop \<Rightarrow> lift_pop zy ar i
      | ICmp \<Rightarrow> do { lhs \<leftarrow> operand_read zy i 0; rhs \<leftarrow> operand_read zy i 1; emit_flags lhs rhs False }
      | ITest \<Rightarrow> do { lhs \<leftarrow> operand_read zy i 0; rhs \<leftarrow> operand_read zy i 1; emit_flags lhs rhs True }
      | ISetcc \<Rightarrow> do { result \<leftarrow> emit_condition zy i; final \<leftarrow> emit_temp INT_ZEXT 1 [result];
                    operand_write zy ar i 0 final }
      | IJcc \<Rightarrow> do { cond_val \<leftarrow> emit_condition zy i;
                  emit CBRANCH default_vn [vn_const (branch_target i) 8, cond_val] }
      | IJmp \<Rightarrow> emit BRANCH default_vn [vn_const (branch_target i) 8]
      | ICall \<Rightarrow> lift_call db i
      | IRet \<Rightarrow> do { set_has_return; emit RETURN default_vn [vn_reg reg_rax ''rax'' 8] }
      | INop \<Rightarrow> State_Monad.return ()
      | _ \<Rightarrow> lift_intrinsic zy ar i)"

definition lift_insn :: "zydis \<Rightarrow> analysis_db \<Rightarrow> insn \<Rightarrow> unit lift" where
  "lift_insn zy db i = do {
     State (\<lambda>s. ((), s\<lparr>lf_addr := in_addr i, lf_seq := 0\<rparr>));
     lift_insn_body zy db i }"

section \<open>Blocks and functions\<close>

text \<open>
  The lifters of the three architectures share this part of their text; \<open>step\<close> is the
  \<open>lift_insn\<close> of the architecture.
\<close>

fun lift_insns :: "(insn \<Rightarrow> unit lift) \<Rightarrow> insn list \<Rightarrow> lifter \<Rightarrow> lifter" where
  "lift_insns step [] s = s"
| "lift_insns step (i # is) s = lift_insns step is (snd (run_state (step i) s))"

text \<open>The lifter between two blocks: only the temporaries and the stack variables carry over.\<close>

definition fresh_block :: "lifter \<Rightarrow> lifter" where
  "fresh_block s = s\<lparr>lf_ops := [], lf_has_return := False\<rparr>"

definition initial_lifter :: lifter where
  "initial_lifter = \<lparr>lf_next_temp = 256, lf_addr = 0, lf_seq = 0, lf_stack_vars = [], lf_ops = [],
     lf_has_return = False\<rparr>"

fun block_index :: "va_t \<Rightarrow> va_t list \<Rightarrow> int option" where
  "block_index a [] = None"
| "block_index a (x # xs) = (if x = a then Some 0 else map_option (\<lambda>i. i + 1) (block_index a xs))"

definition map_succs :: "va_t list \<Rightarrow> va_t list \<Rightarrow> int list" where
  "map_succs order ss = List.map_filter (\<lambda>s. block_index s order) ss"

fun lift_blocks ::
  "(insn \<Rightarrow> unit lift) \<Rightarrow> va_t list \<Rightarrow> int \<Rightarrow> basic_block list \<Rightarrow> lifter \<Rightarrow> pcode_block list \<times> lifter" where
  "lift_blocks step order k [] s = ([], s)"
| "lift_blocks step order k (bb # bbs) s =
     (let s' = lift_insns step (bb_insns bb) (fresh_block s);
          blk = \<lparr>pb_id = k, pb_addr = bb_start bb, pb_ops = lf_ops s', pb_succs = map_succs order (bb_succs bb),
                 pb_preds = [], pb_has_return = lf_has_return s'\<rparr>
      in case lift_blocks step order (k + 1) bbs s' of (blks, s'') \<Rightarrow> (blk # blks, s''))"

text \<open>The predecessor lists: block \<open>i\<close> is appended once per edge.\<close>

definition add_pred :: "int \<Rightarrow> int \<Rightarrow> pcode_block list \<Rightarrow> pcode_block list" where
  "add_pred i s bs =
     (if 0 \<le> s \<and> s < int (length bs)
      then bs[nat s := (bs ! nat s)\<lparr>pb_preds := pb_preds (bs ! nat s) @ [i]\<rparr>] else bs)"

definition build_preds :: "pcode_block list \<Rightarrow> pcode_block list" where
  "build_preds bs = fold (\<lambda>(i, blk) bs'. fold (add_pred (int i)) (pb_succs blk) bs') (enumerate 0 bs) bs"

definition func_name :: "func \<Rightarrow> analysis_db \<Rightarrow> string" where
  "func_name f db =
     (if fn_name f \<noteq> [] then fn_name f
      else ''sub_'' @ hex_upper (if db_image_base db \<noteq> 0 \<and> db_image_base db \<le> fn_entry f
                               then fn_entry f - db_image_base db else fn_entry f))"

definition block_order :: "func \<Rightarrow> va_t list" where
  "block_order f = sort (map fst (fn_blocks f))"

text \<open>The blocks in address order with their predecessors, and the lifter after them.\<close>

definition lifted_blocks :: "(insn \<Rightarrow> unit lift) \<Rightarrow> func \<Rightarrow> pcode_block list \<times> lifter" where
  "lifted_blocks step f =
     (let order = block_order f;
          bbs = List.map_filter (map_of (fn_blocks f)) order;
          (blks, s) = lift_blocks step order 0 bbs initial_lifter
      in (build_preds blks, s))"

definition lift_func :: "zydis \<Rightarrow> analysis_db \<Rightarrow> func \<Rightarrow> pcode_func" where
  "lift_func zy db f =
     (let (blks, s) = lifted_blocks (lift_insn zy db) f
      in \<lparr>pf_entry = fn_entry f, pf_name = func_name f db, pf_blocks = blks,
          pf_next_temp = lf_next_temp s, pf_next_ssa = 0,
          pf_params = [vn_reg reg_rcx ''rcx'' 8, vn_reg reg_rdx ''rdx'' 8, vn_reg 8 ''r8'' 8, vn_reg 9 ''r9'' 8],
          pf_locals = lf_stack_vars s\<rparr>)"

end
