(* ===== verification/Def_Use.thy ===== *)
theory Def_Use
  imports Pcode_IR
begin

text \<open>
  Use counts (\<open>src/src/hyperion/core/decompiler/def_use.h\<close>).  A varnode is identified by
  its full key (kind, id, SSA version, width); \<open>count_uses\<close> counts, for each key, the
  inputs of the operations that are not \<open>NOP\<close>.
\<close>

section \<open>The model\<close>

type_synonym vnkey = "varnode_kind \<times> int \<times> u64 \<times> int"

definition key_of :: "varnode \<Rightarrow> vnkey" where
  "key_of v = (vn_kind v, vn_id v, vn_offset v, vn_size v)"

type_synonym use_count_map = "vnkey \<rightharpoonup> int"

text \<open>\<open>uses[key]++\<close>: a missing key is value-initialised to 0 first.\<close>

definition bump_use :: "vnkey \<Rightarrow> use_count_map \<Rightarrow> use_count_map" where
  "bump_use k m = m(k \<mapsto> (case m k of None \<Rightarrow> 1 | Some c \<Rightarrow> c + 1))"

fun count_ops :: "int \<Rightarrow> int \<Rightarrow> int \<Rightarrow> int \<Rightarrow> pcode_insn list \<Rightarrow> use_count_map \<Rightarrow> use_count_map" where
  "count_ops skip_blk skip_idx bi oi [] m = m"
| "count_ops skip_blk skip_idx bi oi (opn # ops) m =
     count_ops skip_blk skip_idx bi (oi + 1) ops
       (if bi = skip_blk \<and> oi = skip_idx then m
        else if pi_op opn = NOP then m
        else fold (\<lambda>v. bump_use (key_of v)) (pi_inputs opn) m)"

fun count_blocks :: "int \<Rightarrow> int \<Rightarrow> int \<Rightarrow> pcode_block list \<Rightarrow> use_count_map \<Rightarrow> use_count_map" where
  "count_blocks skip_blk skip_idx bi [] m = m"
| "count_blocks skip_blk skip_idx bi (b # bs) m =
     count_blocks skip_blk skip_idx (bi + 1) bs
       (count_ops skip_blk skip_idx bi 0 (pb_ops b) m)"

definition count_uses_skip :: "pcode_func \<Rightarrow> int \<Rightarrow> int \<Rightarrow> use_count_map" where
  "count_uses_skip f skip_blk skip_idx =
     count_blocks skip_blk skip_idx 0 (pf_blocks f) Map.empty"

text \<open>The call with the default arguments, which every caller makes.\<close>

definition count_uses :: "pcode_func \<Rightarrow> use_count_map" where
  "count_uses f = count_uses_skip f (-1) (-1)"

definition has_use :: "use_count_map \<Rightarrow> varnode \<Rightarrow> bool" where
  "has_use uses v = (case uses (key_of v) of None \<Rightarrow> False | Some c \<Rightarrow> 0 < c)"

section \<open>What the counts mean\<close>

text \<open>The keys an operation reads; a \<open>NOP\<close> reads nothing.\<close>

definition read_keys :: "pcode_insn \<Rightarrow> vnkey list" where
  "read_keys i = (if pi_op i = NOP then [] else map key_of (pi_inputs i))"

definition as_count :: "nat \<Rightarrow> int option" where
  "as_count n = (if n = 0 then None else Some (int n))"

lemma vn_eq_key: "vn_eq a b \<longleftrightarrow> key_of a = key_of b"
  by (auto simp: vn_eq_def key_of_def)

lemma fold_bump:
  "fold (\<lambda>v. bump_use (key_of v)) vs (\<lambda>k. as_count (n k)) =
   (\<lambda>k. as_count (n k + count_list (map key_of vs) k))"
proof (induction vs arbitrary: n)
  case Nil
  show ?case by simp
next
  case (Cons v vs)
  have "bump_use (key_of v) (\<lambda>k. as_count (n k)) =
        (\<lambda>k. as_count ((n(key_of v := Suc (n (key_of v)))) k))"
    by (auto simp: bump_use_def as_count_def fun_eq_iff)
  then show ?case
    by (simp add: Cons.IH del: fun_upd_apply) (auto simp: fun_eq_iff)
qed

lemma count_ops_spec:
  "0 \<le> bi \<Longrightarrow> count_ops (-1) (-1) bi oi ops (\<lambda>k. as_count (n k)) =
     (\<lambda>k. as_count (n k + count_list (concat (map read_keys ops)) k))"
proof (induction ops arbitrary: oi n)
  case Nil
  show ?case by simp
next
  case (Cons i ops)
  have "fold (\<lambda>v. bump_use (key_of v)) (pi_inputs i) (\<lambda>k. as_count (n k)) =
      (\<lambda>k. as_count (n k + count_list (read_keys i) k))" if "pi_op i \<noteq> NOP"
    using that by (simp add: fold_bump read_keys_def)
  moreover have "count_list (read_keys i) k = 0" if "pi_op i = NOP" for k
    using that by (simp add: read_keys_def)
  ultimately show ?case
    using Cons.prems by (cases "pi_op i = NOP") (simp_all add: Cons.IH add.assoc)
qed

lemma count_blocks_spec:
  "0 \<le> bi \<Longrightarrow> count_blocks (-1) (-1) bi bs (\<lambda>k. as_count (n k)) =
     (\<lambda>k. as_count (n k + count_list (concat (map read_keys (concat (map pb_ops bs)))) k))"
proof (induction bs arbitrary: bi n)
  case Nil
  show ?case by simp
next
  case (Cons b bs)
  then show ?case by (simp add: count_ops_spec add.assoc)
qed

lemma count_uses_as_count:
  "count_uses f = (\<lambda>k. as_count (count_list (concat (map read_keys (all_ops f))) k))"
proof -
  have "(Map.empty :: use_count_map) = (\<lambda>k. as_count ((\<lambda>_. 0) k))"
    by (simp add: as_count_def fun_eq_iff)
  then show ?thesis
    using count_blocks_spec [of 0 "pf_blocks f" "\<lambda>_. 0"]
    by (simp add: count_uses_def count_uses_skip_def all_ops_def)
qed

definition used_keys :: "pcode_func \<Rightarrow> vnkey set" where
  "used_keys f = (\<Union>i \<in> set (all_ops f). set (read_keys i))"

lemma has_use_iff: "has_use (count_uses f) v \<longleftrightarrow> key_of v \<in> used_keys f"
proof -
  have "has_use (count_uses f) v \<longleftrightarrow>
      count_list (concat (map read_keys (all_ops f))) (key_of v) \<noteq> 0"
    by (simp add: has_use_def count_uses_as_count as_count_def)
  then show ?thesis by (simp add: count_list_0_iff used_keys_def)
qed

lemma used_keysI: "i \<in> set (all_ops f) \<Longrightarrow> k \<in> set (read_keys i) \<Longrightarrow> k \<in> used_keys f"
  by (auto simp: used_keys_def)

text \<open>
  The use counts are exact: \<open>count_uses\<close> maps each varnode key to the number of times
  an operation other than \<open>NOP\<close> reads it, has no entry for a key nobody reads, and
  \<open>has_use\<close> holds exactly for the keys that are read.
\<close>

theorem count_uses_exact:
  "count_uses f k =
     (let n = length (filter (\<lambda>v. key_of v = k)
                (concat (map pi_inputs (filter (\<lambda>i. \<not> is_nop i) (all_ops f)))))
      in if n = 0 then None else Some (int n))
   \<and> (has_use (count_uses f) v \<longleftrightarrow>
       (\<exists>i \<in> set (all_ops f). pi_op i \<noteq> NOP \<and> key_of v \<in> key_of ` set (pi_inputs i)))"
proof -
  have key: "count_list (map key_of vs) k = length (filter (\<lambda>v. key_of v = k) vs)" for vs
    by (induction vs) auto
  have "count_list (concat (map read_keys xs)) k =
      length (filter (\<lambda>v. key_of v = k) (concat (map pi_inputs (filter (\<lambda>i. \<not> is_nop i) xs))))" for xs
    by (induction xs) (auto simp: read_keys_def is_nop_def key)
  then have "count_uses f k = (let n = length (filter (\<lambda>v. key_of v = k)
                (concat (map pi_inputs (filter (\<lambda>i. \<not> is_nop i) (all_ops f)))))
      in if n = 0 then None else Some (int n))"
    by (simp add: count_uses_as_count as_count_def Let_def)
  moreover have "key_of v \<in> used_keys f \<longleftrightarrow>
       (\<exists>i \<in> set (all_ops f). pi_op i \<noteq> NOP \<and> key_of v \<in> key_of ` set (pi_inputs i))"
    by (auto simp: used_keys_def read_keys_def)
  ultimately show ?thesis by (simp add: has_use_iff)
qed

end
