(* ===== verification/Pcode_Sem.thy ===== *)
theory Pcode_Sem
  imports Def_Use
begin

text \<open>
  An abstract semantics of p-code, the specification the optimiser passes are measured
  against; it models no source file.  A state is an environment of SSA values and a
  history of observable events (newest first).  Stores, calls, intrinsics, returns and branches are
  observable: they append an event with the values of their inputs.  What an operation
  computes is a parameter \<open>alu\<close> of everything below: a function of the operation, the
  output width, the input values and the history, so memory and the results of calls are
  functions of the events so far and every instance of \<open>alu\<close> is a possible machine.
  Likewise the choice of the next block is a parameter \<open>ctl\<close> that sees the history, where
  the branch conditions are recorded.  A phi (a \<open>COPY\<close> with sequence number -1) picks the
  input of the predecessor control came from.
\<close>

section \<open>States and steps\<close>

datatype event = Event (ev_op: pcode_op) (ev_addr: va_t) (ev_values: "u64 list")

type_synonym venv = "vnkey \<Rightarrow> u64"
type_synonym alu_fn = "pcode_op \<Rightarrow> int \<Rightarrow> u64 list \<Rightarrow> event list \<Rightarrow> u64"
type_synonym ctl_fn = "nat \<Rightarrow> int list \<Rightarrow> event list \<Rightarrow> nat option"
type_synonym pstate = "venv \<times> event list"

definition effectful :: "pcode_op \<Rightarrow> bool" where
  "effectful opc \<longleftrightarrow> opc \<in> {STORE, CALL, INTRINSIC, RETURN, CBRANCH, BRANCH}"

definition is_phi :: "pcode_insn \<Rightarrow> bool" where
  "is_phi i \<longleftrightarrow> pi_op i = COPY \<and> pi_seq i = -1"

definition operand :: "venv \<Rightarrow> varnode \<Rightarrow> u64" where
  "operand env v = (if vn_kind v = VConst then vn_offset v else env (key_of v))"

definition pick :: "u64 list \<Rightarrow> nat \<Rightarrow> u64" where
  "pick vs p = (case nth_opt vs p of None \<Rightarrow> 0 | Some x \<Rightarrow> x)"

definition insn_value :: "alu_fn \<Rightarrow> nat \<Rightarrow> pcode_insn \<Rightarrow> u64 list \<Rightarrow> event list \<Rightarrow> u64" where
  "insn_value alu p i vs h =
     (if is_phi i then pick vs p
      else if pi_op i = COPY then pick vs 0
      else alu (pi_op i) (vn_size (pi_output i)) vs h)"

definition exec_insn :: "alu_fn \<Rightarrow> nat \<Rightarrow> pcode_insn \<Rightarrow> pstate \<Rightarrow> pstate" where
  "exec_insn alu p i s =
     (if pi_op i = NOP then s
      else let env = fst s; h = snd s; vs = map (operand env) (pi_inputs i);
               h' = (if effectful (pi_op i) then Event (pi_op i) (pi_addr i) vs # h else h)
           in (env(key_of (pi_output i) := insn_value alu p i vs h), h'))"

definition exec_ops :: "alu_fn \<Rightarrow> nat \<Rightarrow> pcode_insn list \<Rightarrow> pstate \<Rightarrow> pstate" where
  "exec_ops alu p ops s = fold (exec_insn alu p) ops s"

fun index_of :: "int \<Rightarrow> int list \<Rightarrow> nat" where
  "index_of x [] = 0"
| "index_of x (y # ys) = (if x = y then 0 else Suc (index_of x ys))"

definition pred_slot :: "pcode_func \<Rightarrow> nat \<Rightarrow> nat \<Rightarrow> nat" where
  "pred_slot f b b' = (case nth_opt (pf_blocks f) b' of None \<Rightarrow> 0
     | Some blk \<Rightarrow> index_of (int b) (pb_preds blk))"

text \<open>\<open>run alu ctl f n b p s\<close>: at most \<open>n\<close> blocks from block \<open>b\<close>, entered by predecessor slot \<open>p\<close>.\<close>

fun run :: "alu_fn \<Rightarrow> ctl_fn \<Rightarrow> pcode_func \<Rightarrow> nat \<Rightarrow> nat \<Rightarrow> nat \<Rightarrow> pstate \<Rightarrow> pstate" where
  "run alu ctl f 0 b p s = s"
| "run alu ctl f (Suc n) b p s =
     (case nth_opt (pf_blocks f) b of
        None \<Rightarrow> s
      | Some blk \<Rightarrow>
          (let s' = exec_ops alu p (pb_ops blk) s
           in case ctl b (pb_succs blk) (snd s') of
                None \<Rightarrow> s'
              | Some b' \<Rightarrow> run alu ctl f n b' (pred_slot f b b') s'))"

definition history :: "alu_fn \<Rightarrow> ctl_fn \<Rightarrow> pcode_func \<Rightarrow> nat \<Rightarrow> nat \<Rightarrow> nat \<Rightarrow> pstate \<Rightarrow> event list" where
  "history alu ctl f n b p s = snd (run alu ctl f n b p s)"

section \<open>Basic facts\<close>

lemma exec_ops_Nil [simp]: "exec_ops alu p [] s = s"
  by (simp add: exec_ops_def)

lemma exec_ops_Cons [simp]:
  "exec_ops alu p (i # ops) s = exec_ops alu p ops (exec_insn alu p i s)"
  by (simp add: exec_ops_def)

lemma exec_ops_append: "exec_ops alu p (xs @ ys) s = exec_ops alu p ys (exec_ops alu p xs s)"
  by (simp add: exec_ops_def)

lemma exec_insn_nop: "pi_op i = NOP \<Longrightarrow> exec_insn alu p i s = s"
  by (simp add: exec_insn_def)

lemma exec_ops_erase_nops [simp]:
  "exec_ops alu p (erase_if is_nop ops) s = exec_ops alu p ops s"
  by (induction ops arbitrary: s) (auto simp: erase_if_Cons is_nop_def exec_insn_nop)

text \<open>
  Two functions with the same control skeleton.
\<close>

definition same_skeleton :: "pcode_func \<Rightarrow> pcode_func \<Rightarrow> bool" where
  "same_skeleton f g \<longleftrightarrow>
     map (\<lambda>b. (pb_succs b, pb_preds b)) (pf_blocks f) = map (\<lambda>b. (pb_succs b, pb_preds b)) (pf_blocks g)"

lemma same_skeleton_length: "same_skeleton f g \<Longrightarrow> length (pf_blocks f) = length (pf_blocks g)"
  unfolding same_skeleton_def by (metis length_map)

lemma same_skeleton_nth:
  assumes "same_skeleton f g" "i < length (pf_blocks f)"
  shows "pb_succs (pf_blocks f ! i) = pb_succs (pf_blocks g ! i)"
    and "pb_preds (pf_blocks f ! i) = pb_preds (pf_blocks g ! i)"
proof -
  have "map (\<lambda>b. (pb_succs b, pb_preds b)) (pf_blocks f) ! i
      = map (\<lambda>b. (pb_succs b, pb_preds b)) (pf_blocks g) ! i"
    using assms(1) by (simp add: same_skeleton_def)
  then show "pb_succs (pf_blocks f ! i) = pb_succs (pf_blocks g ! i)"
    and "pb_preds (pf_blocks f ! i) = pb_preds (pf_blocks g ! i)"
    using assms same_skeleton_length [OF assms(1)] by simp_all
qed

lemma same_skeleton_pred_slot: "same_skeleton f g \<Longrightarrow> pred_slot f b b' = pred_slot g b b'"
  by (auto simp: pred_slot_def nth_opt_def same_skeleton_nth dest: same_skeleton_length)

lemma same_skeleton_on_ops [simp]: "same_skeleton (on_ops g f) f"
  by (simp add: same_skeleton_def comp_def)

section \<open>Simulation along a set of unread keys\<close>

definition agree :: "vnkey set \<Rightarrow> pstate \<Rightarrow> pstate \<Rightarrow> bool" where
  "agree K s t \<longleftrightarrow> (\<forall>k. k \<notin> K \<longrightarrow> fst s k = fst t k) \<and> snd s = snd t"

lemma agree_refl [simp]: "agree K s s"
  by (simp add: agree_def)

lemma agree_trans: "agree K s t \<Longrightarrow> agree K t u \<Longrightarrow> agree K s u"
  by (simp add: agree_def)

lemma agree_history: "agree K s t \<Longrightarrow> snd s = snd t"
  by (simp add: agree_def)

lemma agreeI: "(\<And>k. k \<notin> K \<Longrightarrow> fst s k = fst t k) \<Longrightarrow> snd s = snd t \<Longrightarrow> agree K s t"
  unfolding agree_def by blast

lemma agreeD: "agree K s t \<Longrightarrow> k \<notin> K \<Longrightarrow> fst s k = fst t k"
  unfolding agree_def by blast

lemma agree_upd:
  assumes "agree K s t" "h = h'" "x = x'"
  shows "agree K ((fst s)(k := x), h) ((fst t)(k := x'), h')"
  using assms by (intro agreeI) (simp_all add: agreeD)

text \<open>The keys whose environment value an operation can depend on; constants are read off the varnode.\<close>

definition read_vars :: "pcode_insn \<Rightarrow> vnkey set" where
  "read_vars i = {k \<in> set (read_keys i). fst k \<noteq> VConst}"

lemma fst_key_of [simp]: "fst (key_of v) = vn_kind v"
  by (simp add: key_of_def)

lemma agree_operands:
  assumes "agree K s t" "{key_of v | v. v \<in> set vs \<and> vn_kind v \<noteq> VConst} \<inter> K = {}"
  shows "map (operand (fst s)) vs = map (operand (fst t)) vs"
proof -
  have "operand (fst s) v = operand (fst t) v" if "v \<in> set vs" for v
  proof -
    from that assms(2) have "vn_kind v \<noteq> VConst \<Longrightarrow> key_of v \<notin> K" by auto
    then show ?thesis using agreeD [OF assms(1)] by (simp add: operand_def)
  qed
  then show ?thesis by simp
qed

lemma exec_insn_agree:
  assumes "agree K s t" "read_vars i \<inter> K = {}"
  shows "agree K (exec_insn alu p i s) (exec_insn alu p i t)"
proof (cases "pi_op i = NOP")
  case True
  with assms show ?thesis by (simp add: exec_insn_nop)
next
  case False
  with assms have "map (operand (fst s)) (pi_inputs i) = map (operand (fst t)) (pi_inputs i)"
    by (intro agree_operands) (auto simp: read_vars_def read_keys_def)
  with False assms(1) agree_history [OF assms(1)] show ?thesis
    unfolding exec_insn_def Let_def by (simp only: if_False) (rule agree_upd; simp)
qed

lemma exec_insn_unread_pure:
  assumes "\<not> effectful (pi_op i)" "key_of (pi_output i) \<in> K"
  shows "agree K (exec_insn alu p i s) s"
proof (rule agreeI)
  fix k assume "k \<notin> K"
  with assms(2) have "k \<noteq> key_of (pi_output i)" by auto
  then show "fst (exec_insn alu p i s) k = fst s k"
    by (simp add: exec_insn_def Let_def)
next
  show "snd (exec_insn alu p i s) = snd s"
    using assms(1) by (simp add: exec_insn_def Let_def)
qed

text \<open>
  A list of operations simulates another when it is obtained by turning pure operations
  whose result nobody may read into no-ops.
\<close>

definition kill :: "(pcode_insn \<Rightarrow> bool) \<Rightarrow> pcode_insn \<Rightarrow> pcode_insn" where
  "kill dead i = (if dead i then set_nop i else i)"

lemma exec_ops_kill:
  assumes "agree K s t"
    and "\<And>i. i \<in> set ops \<Longrightarrow> read_vars i \<inter> K = {}"
    and "\<And>i. i \<in> set ops \<Longrightarrow> dead i \<Longrightarrow> \<not> effectful (pi_op i) \<and> key_of (pi_output i) \<in> K"
  shows "agree K (exec_ops alu p (map (kill dead) ops) s) (exec_ops alu p ops t)"
  using assms
proof (induction ops arbitrary: s t)
  case Nil
  then show ?case by simp
next
  case (Cons i ops)
  have "agree K (exec_insn alu p (kill dead i) s) (exec_insn alu p i t)"
  proof (cases "dead i")
    case True
    then have "agree K t (exec_insn alu p i t)"
      using exec_insn_unread_pure [of i K alu p t] Cons.prems(3) [of i] by (simp add: agree_def)
    with True Cons.prems(1) show ?thesis
      by (auto simp: kill_def exec_insn_nop intro: agree_trans)
  next
    case False
    with Cons.prems(1,2) show ?thesis by (auto simp: kill_def intro: exec_insn_agree)
  qed
  then show ?case using Cons.prems(2,3) by (auto intro: Cons.IH)
qed

lemma run_agree:
  assumes skel: "same_skeleton g f"
    and blocks: "\<And>b p s t. b < length (pf_blocks f) \<Longrightarrow> agree K s t \<Longrightarrow>
      agree K (exec_ops alu p (pb_ops (pf_blocks g ! b)) s) (exec_ops alu p (pb_ops (pf_blocks f ! b)) t)"
    and st: "agree K s t"
  shows "agree K (run alu ctl g n b p s) (run alu ctl f n b p t)"
  using st
proof (induction n arbitrary: b p s t)
  case 0
  then show ?case by simp
next
  case (Suc n)
  have len: "length (pf_blocks g) = length (pf_blocks f)"
    using skel by (rule same_skeleton_length)
  show ?case
  proof (cases "b < length (pf_blocks f)")
    case False
    with len Suc.prems show ?thesis by (simp add: nth_opt_def)
  next
    case True
    define s' where "s' = exec_ops alu p (pb_ops (pf_blocks g ! b)) s"
    define t' where "t' = exec_ops alu p (pb_ops (pf_blocks f ! b)) t"
    have a: "agree K s' t'"
      unfolding s'_def t'_def by (rule blocks [OF True Suc.prems])
    have c: "ctl b (pb_succs (pf_blocks g ! b)) (snd s') = ctl b (pb_succs (pf_blocks f ! b)) (snd t')"
      using a True len skel by (simp add: agree_def same_skeleton_nth)
    show ?thesis
      using True len a c Suc.IH
      by (auto simp: nth_opt_def Let_def s'_def [symmetric] t'_def [symmetric]
          same_skeleton_pred_slot [OF skel] split: option.splits)
  qed
qed

text \<open>Observational equivalence of two functions: the same events from every start, on every machine.\<close>

definition obs_equiv :: "pcode_func \<Rightarrow> pcode_func \<Rightarrow> bool" where
  "obs_equiv g f \<longleftrightarrow>
     (\<forall>alu ctl n b p s. history alu ctl g n b p s = history alu ctl f n b p s)"

lemma obs_equivD: "obs_equiv g f \<Longrightarrow> history alu ctl g n b p s = history alu ctl f n b p s"
  unfolding obs_equiv_def by blast

lemma obs_equiv_refl [simp]: "obs_equiv f f"
  by (simp add: obs_equiv_def)

lemma obs_equiv_trans: "obs_equiv a b \<Longrightarrow> obs_equiv b c \<Longrightarrow> obs_equiv a c"
  by (simp add: obs_equiv_def)

lemma obs_equiv_sym: "obs_equiv a b \<Longrightarrow> obs_equiv b a"
  by (simp add: obs_equiv_def)

lemma run_erase_nops: "run alu ctl (erase_nops f) n b p s = run alu ctl f n b p s"
proof (induction n arbitrary: b p s)
  case 0
  show ?case by simp
next
  case (Suc n)
  have "pred_slot (erase_nops f) b b' = pred_slot f b b'" for b'
    by (rule same_skeleton_pred_slot) (simp add: erase_nops_def)
  with Suc show ?case
    by (auto simp: nth_opt_def erase_nops_def Let_def split: option.splits)
qed

lemma obs_equiv_erase_nops [simp]: "obs_equiv (erase_nops f) f"
  by (simp add: obs_equiv_def history_def run_erase_nops)

lemma obs_equiv_kill:
  assumes "\<And>i. i \<in> set (all_ops f) \<Longrightarrow> dead i \<Longrightarrow>
      \<not> effectful (pi_op i) \<and> key_of (pi_output i) \<notin> used_keys f"
  shows "obs_equiv (on_ops (map (kill dead)) f) f"
proof -
  have "agree (- used_keys f) (run alu ctl (on_ops (map (kill dead)) f) n b p s) (run alu ctl f n b p s)"
    for alu ctl n b p s
  proof (rule run_agree)
    fix b p s t
    assume b: "b < length (pf_blocks f)" and a: "agree (- used_keys f) s t"
    have mem: "i \<in> set (all_ops f)" if "i \<in> set (pb_ops (pf_blocks f ! b))" for i
      using that b by (auto simp: in_all_ops)
    have "agree (- used_keys f) (exec_ops alu p (map (kill dead) (pb_ops (pf_blocks f ! b))) s)
        (exec_ops alu p (pb_ops (pf_blocks f ! b)) t)"
      using a
    proof (rule exec_ops_kill)
      fix i assume "i \<in> set (pb_ops (pf_blocks f ! b))"
      then show "read_vars i \<inter> - used_keys f = {}"
        by (auto simp: read_vars_def dest: mem intro: used_keysI)
    next
      fix i assume "i \<in> set (pb_ops (pf_blocks f ! b))" "dead i"
      then show "\<not> effectful (pi_op i) \<and> key_of (pi_output i) \<in> - used_keys f"
        using assms mem by auto
    qed
    then show "agree (- used_keys f) (exec_ops alu p (pb_ops (pf_blocks (on_ops (map (kill dead)) f) ! b)) s)
        (exec_ops alu p (pb_ops (pf_blocks f ! b)) t)"
      using b by simp
  qed simp_all
  then show ?thesis unfolding obs_equiv_def history_def by (blast intro: agree_history)
qed

end
