(* ===== verification/Removal.thy ===== *)
theory Removal
  imports Pcode_Sem
begin

text \<open>
  The contract between the use counts and the passes that delete operations by them.  A
  pass decides from a snapshot of the use counts which operations are dead; the locale
  \<open>pure_removal\<close> states what makes such a decision safe, and its lemmas say that the pass
  and its bounded iteration keep the observable behaviour and every effectful operation.
  Dead-code elimination and dead-copy elimination are its interpretations.
\<close>

section \<open>Sweeping a function by a snapshot of its use counts\<close>

definition sweep :: "(use_count_map \<Rightarrow> pcode_insn \<Rightarrow> bool) \<Rightarrow> pcode_func \<Rightarrow> pcode_func" where
  "sweep dead f = on_ops (map (kill (dead (count_uses f)))) f"

definition sweep_step ::
  "(use_count_map \<Rightarrow> pcode_insn \<Rightarrow> bool) \<Rightarrow> pcode_func \<Rightarrow> pcode_func \<times> bool" where
  "sweep_step dead f = (sweep dead f, list_ex (dead (count_uses f)) (all_ops f))"

text \<open>Walking the blocks and their operations is walking all operations.\<close>

lemma list_ex_all_ops:
  "list_ex (\<lambda>b. list_ex P (pb_ops b)) (pf_blocks f) = list_ex P (all_ops f)"
  unfolding list_ex_iff by (metis in_all_ops)

text \<open>The effectful operations of a function, block by block, in order.\<close>

definition effects :: "pcode_func \<Rightarrow> pcode_insn list list" where
  "effects f = map (\<lambda>b. filter (\<lambda>i. effectful (pi_op i)) (pb_ops b)) (pf_blocks f)"

lemma effects_on_ops:
  assumes "\<And>b. b \<in> set (pf_blocks f) \<Longrightarrow>
     filter (\<lambda>i. effectful (pi_op i)) (g (pb_ops b)) = filter (\<lambda>i. effectful (pi_op i)) (pb_ops b)"
  shows "effects (on_ops g f) = effects f"
  using assms by (simp add: effects_def)

lemma not_effectful_nop [simp]: "\<not> effectful NOP"
  by (simp add: effectful_def)

lemma effects_erase_nops [simp]: "effects (erase_nops f) = effects f"
  unfolding erase_nops_def
proof (rule effects_on_ops)
  fix b
  show "filter (\<lambda>i. effectful (pi_op i)) (erase_if is_nop (pb_ops b)) =
    filter (\<lambda>i. effectful (pi_op i)) (pb_ops b)"
    unfolding erase_if_def filter_filter
    by (rule filter_cong) (auto simp: is_nop_def)
qed

lemma filter_effectful_kill:
  "(\<And>i. i \<in> set ops \<Longrightarrow> dead i \<Longrightarrow> \<not> effectful (pi_op i)) \<Longrightarrow>
   filter (\<lambda>i. effectful (pi_op i)) (map (kill dead) ops) = filter (\<lambda>i. effectful (pi_op i)) ops"
  by (induction ops) (auto simp: kill_def)

text \<open>What a pass guarantees: the same events, the same effectful operations.\<close>

definition safe_rewrite :: "pcode_func \<Rightarrow> pcode_func \<Rightarrow> bool" where
  "safe_rewrite f g \<longleftrightarrow> obs_equiv g f \<and> effects g = effects f"

lemma safe_rewrite_refl [simp]: "safe_rewrite f f"
  by (simp add: safe_rewrite_def)

lemma safe_rewrite_trans: "safe_rewrite f g \<Longrightarrow> safe_rewrite g h \<Longrightarrow> safe_rewrite f h"
  by (auto simp: safe_rewrite_def intro: obs_equiv_trans)

lemma safe_rewrite_erase_nops [simp]: "safe_rewrite f (erase_nops f)"
  by (simp add: safe_rewrite_def)

section \<open>The contract\<close>

locale pure_removal =
  fixes wf_insn :: "pcode_insn \<Rightarrow> bool"
    and dead :: "use_count_map \<Rightarrow> pcode_insn \<Rightarrow> bool"
  assumes dead_pure: "wf_insn i \<Longrightarrow> dead u i \<Longrightarrow> \<not> effectful (pi_op i)"
    and dead_unused: "dead u i \<Longrightarrow> \<not> has_use u (pi_output i)"
    and wf_nop: "wf_insn i \<Longrightarrow> wf_insn (set_nop i)"
begin

definition wf_ops :: "pcode_func \<Rightarrow> bool" where
  "wf_ops f \<longleftrightarrow> (\<forall>i \<in> set (all_ops f). wf_insn i)"

lemma wf_ops_sweep: "wf_ops f \<Longrightarrow> wf_ops (sweep dead f)"
  by (auto simp: wf_ops_def sweep_def all_ops_on_ops_map kill_def wf_nop)

lemma wf_ops_erase: "wf_ops f \<Longrightarrow> wf_ops (erase_nops f)"
  by (auto simp: wf_ops_def all_ops_erase_nops)

lemma sweep_obs: "wf_ops f \<Longrightarrow> obs_equiv (sweep dead f) f"
  unfolding sweep_def
  by (rule obs_equiv_kill) (auto simp: wf_ops_def has_use_iff [symmetric] dest: dead_pure dead_unused)

lemma sweep_effects: "wf_ops f \<Longrightarrow> effects (sweep dead f) = effects f"
  unfolding sweep_def
  by (rule effects_on_ops, rule filter_effectful_kill)
     (auto simp: wf_ops_def in_all_ops dest: dead_pure)

lemma sweep_safe: "wf_ops f \<Longrightarrow> safe_rewrite f (sweep dead f)"
  by (simp add: safe_rewrite_def sweep_obs sweep_effects)

lemma iterate_safe:
  assumes "wf_ops f"
  shows "safe_rewrite f (repeat_while_changed n (sweep_step dead) f) \<and>
    wf_ops (repeat_while_changed n (sweep_step dead) f)"
proof -
  have "(\<lambda>f g. wf_ops f \<longrightarrow> safe_rewrite f g \<and> wf_ops g) f
      (repeat_while_changed n (sweep_step dead) f)"
    by (rule repeat_while_changed_rel)
       (auto simp: sweep_step_def sweep_safe wf_ops_sweep intro: safe_rewrite_trans)
  with assms show ?thesis by simp
qed

end

end
