(* ===== verification/Dce.thy ===== *)
theory Dce
  imports Removal
begin

text \<open>
  Dead-code elimination (\<open>src/src/hyperion/core/decompiler/dce.cpp\<close>): one sweep over the
  flag computations and the reloads of callee-saved registers, up to six sweeps over every
  pure operation, then the erasure of the operations turned into \<open>NOP\<close>.
\<close>

section \<open>The model\<close>

definition is_flag_reg :: "int \<Rightarrow> bool" where
  "is_flag_reg i \<longleftrightarrow> 100 \<le> i \<and> i \<le> 103"

definition is_callee_saved :: "int \<Rightarrow> bool" where
  "is_callee_saved i \<longleftrightarrow> i = 3 \<or> i = 5 \<or> i = 6 \<or> i = 7 \<or> i = 12 \<or> i = 13 \<or> i = 14 \<or> i = 15"

text \<open>Two private predicates of the class that \<open>run\<close> no longer calls.\<close>

definition is_dead_flag :: "pcode_insn \<Rightarrow> pcode_func \<Rightarrow> bool" where
  "is_dead_flag i f =
     (if \<not> vn_valid (pi_output i) then False
      else if \<not> is_flag_reg (vn_id (pi_output i)) then False
      else \<not> list_ex (\<lambda>b. list_ex (\<lambda>j. pi_op j \<noteq> NOP \<and>
             list_ex (\<lambda>v. vn_kind v = vn_kind (pi_output i) \<and> vn_id v = vn_id (pi_output i) \<and>
                          vn_offset v = vn_offset (pi_output i)) (pi_inputs j)) (pb_ops b)) (pf_blocks f))"

definition is_dead_stack_op :: "pcode_insn \<Rightarrow> bool" where
  "is_dead_stack_op i =
     (case pi_inputs i of [] \<Rightarrow> False
      | v # _ \<Rightarrow> pi_op i = STORE \<and> is_reg v \<and> vn_id v = 4)"

text \<open>Pass 1: one operation, against the snapshot of the use counts.\<close>

definition dce_pass1_op :: "use_count_map \<Rightarrow> pcode_insn \<Rightarrow> pcode_insn" where
  "dce_pass1_op uses i =
     (if pi_op i \<in> {NOP, CALL, INTRINSIC, RETURN, CBRANCH, BRANCH} then i
      else if vn_valid (pi_output i) \<and> is_flag_reg (vn_id (pi_output i)) \<and>
              \<not> has_use uses (pi_output i) then set_nop i
      else if pi_op i = LOAD \<and> vn_valid (pi_output i) \<and> is_reg (pi_output i) \<and>
              is_callee_saved (vn_id (pi_output i)) \<and> \<not> has_use uses (pi_output i) then set_nop i
      else i)"

definition dce_pass1 :: "pcode_func \<Rightarrow> pcode_func" where
  "dce_pass1 f = (let uses = count_uses f in on_ops (map (dce_pass1_op uses)) f)"

text \<open>Pass 2: whether an operation is removed.\<close>

definition dce_dead :: "use_count_map \<Rightarrow> pcode_insn \<Rightarrow> bool" where
  "dce_dead uses i \<longleftrightarrow>
     pi_op i \<notin> {NOP, CALL, INTRINSIC, RETURN, CBRANCH, BRANCH, STORE} \<and>
     vn_valid (pi_output i) \<and>
     \<not> (is_reg (pi_output i) \<and> vn_id (pi_output i) = 0) \<and>
     \<not> has_use uses (pi_output i)"

definition dce_pass2 :: "pcode_func \<Rightarrow> pcode_func \<times> bool" where
  "dce_pass2 f =
     (let uses = count_uses f
      in (on_ops (map (\<lambda>i. if dce_dead uses i then set_nop i else i)) f,
          list_ex (\<lambda>b. list_ex (dce_dead uses) (pb_ops b)) (pf_blocks f)))"

definition dce_run :: "pcode_func \<Rightarrow> pcode_func" where
  "dce_run f = erase_nops (repeat_while_changed 6 dce_pass2 (dce_pass1 f))"

section \<open>Correctness\<close>

text \<open>
  A store never writes a flag register: the lifters give it the empty output.  Pass 1 does not
  exempt stores, so this is what keeps it from deleting one.
\<close>

definition store_ok :: "pcode_insn \<Rightarrow> bool" where
  "store_ok i \<longleftrightarrow> \<not> (pi_op i = STORE \<and> is_flag_reg (vn_id (pi_output i)))"

definition dce_dead1 :: "use_count_map \<Rightarrow> pcode_insn \<Rightarrow> bool" where
  "dce_dead1 uses i \<longleftrightarrow> dce_pass1_op uses i \<noteq> i"

lemma dce_pass1_op_kill: "dce_pass1_op uses = kill (dce_dead1 uses)"
  by (auto simp: fun_eq_iff kill_def dce_dead1_def dce_pass1_op_def)

lemma dce_pass1_sweep: "dce_pass1 f = sweep dce_dead1 f"
  by (simp add: dce_pass1_def sweep_def dce_pass1_op_kill)

lemma dce_pass2_sweep: "dce_pass2 = sweep_step dce_dead"
  by (simp add: fun_eq_iff dce_pass2_def sweep_step_def sweep_def kill_def [abs_def]
      list_ex_all_ops Let_def)

interpretation flags: pure_removal store_ok dce_dead1
proof unfold_locales
  fix i u
  assume "store_ok i" "dce_dead1 u i"
  then show "\<not> effectful (pi_op i)"
    by (auto simp: store_ok_def dce_dead1_def dce_pass1_op_def effectful_def split: if_splits)
next
  fix i u
  assume "dce_dead1 u i"
  then show "\<not> has_use u (pi_output i)"
    by (auto simp: dce_dead1_def dce_pass1_op_def split: if_splits)
qed (simp add: store_ok_def)

interpretation pure: pure_removal store_ok dce_dead
  by unfold_locales (auto simp: dce_dead_def effectful_def store_ok_def)

lemma dce_run_safe:
  assumes "\<forall>i \<in> set (all_ops f). store_ok i"
  shows "safe_rewrite f (dce_run f)"
proof -
  have wf: "flags.wf_ops f" using assms by (simp add: flags.wf_ops_def)
  then have "pure.wf_ops (dce_pass1 f)"
    using flags.wf_ops_sweep [of f] by (simp add: dce_pass1_sweep pure.wf_ops_def flags.wf_ops_def)
  then have "safe_rewrite (dce_pass1 f) (repeat_while_changed 6 dce_pass2 (dce_pass1 f))"
    unfolding dce_pass2_sweep using pure.iterate_safe by blast
  moreover have "safe_rewrite f (dce_pass1 f)"
    using wf by (simp add: dce_pass1_sweep flags.sweep_safe)
  ultimately show ?thesis
    unfolding dce_run_def by (meson safe_rewrite_erase_nops safe_rewrite_trans)
qed

text \<open>
  C2.  Dead-code elimination preserves behaviour: on every machine (every meaning of the
  operations, every way control may go) the function after \<open>DCE::run\<close> produces, from every start
  and for any number of blocks, exactly the events of the function before it, provided stores
  have no flag output, which the lifters guarantee.
\<close>

theorem dce_preserves_behaviour:
  assumes "\<forall>i \<in> set (all_ops f). store_ok i"
  shows "history alu ctl (dce_run f) n b p s = history alu ctl f n b p s"
  using dce_run_safe [OF assms] unfolding safe_rewrite_def by (blast intro: obs_equivD)

definition dce_example :: pcode_func where
  "dce_example = \<lparr>pf_entry = 0, pf_name = ''f'', pf_blocks =
     [default_block\<lparr>pb_ops :=
       [make_insn ADD (vn_temp 256 8) [vn_reg 1 ''rcx'' 8, vn_const 1 8] 0,
        make_insn INT_EQUAL (vn_reg 100 ''ZF'' 1) [vn_temp 256 8, vn_const 0 8] 0,
        make_insn STORE default_vn [vn_reg 4 ''rsp'' 8, vn_reg 1 ''rcx'' 8] 0,
        make_insn RETURN default_vn [vn_reg 0 ''rax'' 8] 0]\<rparr>],
     pf_next_temp = 257, pf_next_ssa = 0, pf_params = [], pf_locals = []\<rparr>"

text \<open>On the example the comparison goes first, then the addition that fed it.\<close>

lemma dce_example_run:
  "map pi_op (all_ops dce_example) = [ADD, INT_EQUAL, STORE, RETURN]"
  "map pi_op (all_ops (dce_run dce_example)) = [STORE, RETURN]"
  by code_simp+

theorem dce_preserves_behaviour_witness:
  "list_all store_ok (all_ops dce_example) \<and>
   history (\<lambda>_ _ _ _. 7) (\<lambda>_ _ _. None) (dce_run dce_example) 1 0 0 (\<lambda>_. 0, []) =
     [Event RETURN 0 [0], Event STORE 0 [0, 0]]"
proof -
  have h: "\<forall>i \<in> set (all_ops dce_example). store_ok i" by code_simp
  have "history (\<lambda>_ _ _ _. 7) (\<lambda>_ _ _. None) dce_example 1 0 0 (\<lambda>_. 0, []) =
     [Event RETURN 0 [0], Event STORE 0 [0, 0]]"
    by code_simp
  with h dce_preserves_behaviour [OF h] show ?thesis by (simp add: list_all_iff)
qed

text \<open>
  No effectful operation is lost, duplicated, reordered or altered: in every block the
  stores, calls, intrinsics, returns and branches after \<open>DCE::run\<close> are those before it.
\<close>

theorem dce_keeps_effects:
  assumes "\<forall>i \<in> set (all_ops f). store_ok i"
  shows "map (\<lambda>b. filter (\<lambda>i. effectful (pi_op i)) (pb_ops b)) (pf_blocks (dce_run f)) =
    map (\<lambda>b. filter (\<lambda>i. effectful (pi_op i)) (pb_ops b)) (pf_blocks f)"
  using dce_run_safe [OF assms] by (simp add: safe_rewrite_def effects_def)

theorem dce_keeps_effects_witness:
  "list_all store_ok (all_ops dce_example) \<and>
   map (\<lambda>b. map pi_op (filter (\<lambda>i. effectful (pi_op i)) (pb_ops b))) (pf_blocks (dce_run dce_example)) =
     [[STORE, RETURN]]"
proof -
  have h: "\<forall>i \<in> set (all_ops dce_example). store_ok i" by code_simp
  have "map (\<lambda>b. filter (\<lambda>i. effectful (pi_op i)) (pb_ops b)) (pf_blocks (dce_run dce_example)) =
    map (\<lambda>b. filter (\<lambda>i. effectful (pi_op i)) (pb_ops b)) (pf_blocks dce_example)"
    by (rule dce_keeps_effects [OF h])
  then have "map (map pi_op) (map (\<lambda>b. filter (\<lambda>i. effectful (pi_op i)) (pb_ops b)) (pf_blocks (dce_run dce_example))) =
    map (map pi_op) (map (\<lambda>b. filter (\<lambda>i. effectful (pi_op i)) (pb_ops b)) (pf_blocks dce_example))"
    by (rule arg_cong)
  moreover have "map (map pi_op) (map (\<lambda>b. filter (\<lambda>i. effectful (pi_op i)) (pb_ops b)) (pf_blocks dce_example)) =
    [[STORE, RETURN]]" by code_simp
  ultimately show ?thesis using h by (simp add: comp_def list_all_iff)
qed

end
