(* ===== verification/Propagate.thy ===== *)
theory Propagate
  imports Removal
begin

text \<open>
  The propagation pipeline (\<open>src/src/hyperion/core/decompiler/propagate.cpp\<close>): identity
  elimination, folding of argument set-up into calls, copy propagation, constant folding,
  flag folding and dead-copy elimination, and the order \<open>Propagate::run\<close> applies them in.
\<close>

section \<open>Copy propagation\<close>

definition subst_input :: "varnode \<Rightarrow> varnode \<Rightarrow> varnode \<Rightarrow> varnode" where
  "subst_input old_vn new_vn v =
     (if vn_kind v = vn_kind old_vn \<and> vn_id v = vn_id old_vn \<and>
         vn_offset v = vn_offset old_vn \<and> vn_size v = vn_size old_vn then new_vn else v)"

definition subst_insn :: "varnode \<Rightarrow> varnode \<Rightarrow> pcode_insn \<Rightarrow> pcode_insn" where
  "subst_insn old_vn new_vn i = i\<lparr>pi_inputs := map (subst_input old_vn new_vn) (pi_inputs i)\<rparr>"

text \<open>Apply \<open>g\<close> to every operation, with its block and operation index.\<close>

definition map_ops_at :: "(nat \<Rightarrow> nat \<Rightarrow> pcode_insn \<Rightarrow> pcode_insn) \<Rightarrow> pcode_func \<Rightarrow> pcode_func" where
  "map_ops_at g f = f\<lparr>pf_blocks :=
     map (\<lambda>(bi, b). b\<lparr>pb_ops := map (\<lambda>(oi, i). g bi oi i) (enumerate 0 (pb_ops b))\<rparr>)
       (enumerate 0 (pf_blocks f))\<rparr>"

definition replace_uses :: "pcode_func \<Rightarrow> varnode \<Rightarrow> varnode \<Rightarrow> nat \<Rightarrow> nat \<Rightarrow> pcode_func" where
  "replace_uses f old_vn new_vn def_blk def_idx =
     map_ops_at (\<lambda>bi oi i. if bi = def_blk \<and> oi = def_idx then i
       else subst_insn old_vn new_vn i) f"

definition op_at :: "pcode_func \<Rightarrow> nat \<Rightarrow> nat \<Rightarrow> pcode_insn" where
  "op_at f bi oi = pb_ops (pf_blocks f ! bi) ! oi"

definition nop_at :: "pcode_func \<Rightarrow> nat \<Rightarrow> nat \<Rightarrow> pcode_func" where
  "nop_at f bi oi = map_ops_at (\<lambda>b k i. if b = bi \<and> k = oi then set_nop i else i) f"

text \<open>One turn of the inner loop of \<open>copy_propagation\<close>; the flag is \<open>changed\<close>.\<close>

definition cp_visit ::
  "use_count_map \<Rightarrow> nat \<times> nat \<Rightarrow> pcode_func \<times> bool \<Rightarrow> pcode_func \<times> bool" where
  "cp_visit uses pos s =
     (let bi = fst pos; oi = snd pos; f = fst s; i = op_at f bi oi in
      if pi_op i \<noteq> COPY then s
      else if \<not> vn_valid (pi_output i) then s
      else (case pi_inputs i of
        [] \<Rightarrow> s
      | src # _ \<Rightarrow>
          if pi_seq i = -1 then s
          else if \<not> vn_valid src then s
          else if is_const src \<and> is_reg (pi_output i) \<and> vn_id (pi_output i) = 4 then s
          else
            (let f' = replace_uses f (pi_output i) src bi oi in
             if \<not> has_use uses (pi_output i) then (nop_at f' bi oi, True) else (f', snd s))))"

definition positions :: "pcode_func \<Rightarrow> (nat \<times> nat) list" where
  "positions f = concat (map (\<lambda>(bi, b). map (\<lambda>oi. (bi, oi)) [0..<length (pb_ops b)])
     (enumerate 0 (pf_blocks f)))"

definition cp_pass :: "pcode_func \<Rightarrow> pcode_func \<times> bool" where
  "cp_pass f = (let uses = count_uses f in fold (cp_visit uses) (positions f) (f, False))"

definition copy_propagation :: "pcode_func \<Rightarrow> pcode_func" where
  "copy_propagation f = erase_nops (repeat_while_changed 8 cp_pass f)"

section \<open>Constant folding\<close>

text \<open>The \<open>switch\<close> on two constant operands; \<open>None\<close> is the \<open>default\<close> branch.\<close>

definition fold_value :: "pcode_op \<Rightarrow> u64 \<Rightarrow> u64 \<Rightarrow> u64 option" where
  "fold_value opc l r = (case opc of
     ADD \<Rightarrow> Some (l + r)
   | SUB \<Rightarrow> Some (l - r)
   | AND_OP \<Rightarrow> Some (l AND r)
   | OR_OP \<Rightarrow> Some (l OR r)
   | XOR_OP \<Rightarrow> Some (l XOR r)
   | SHIFT_LEFT \<Rightarrow> Some (if r < 64 then push_bit (unat r) l else 0)
   | SHIFT_RIGHT \<Rightarrow> Some (if r < 64 then drop_bit (unat r) l else 0)
   | SHIFT_ARIGHT \<Rightarrow> Some (if r < 64 then signed_drop_bit (unat r) l
        else if sint l < 0 then NOT 0 else 0)
   | ROTATE_LEFT \<Rightarrow> Some (word_rotl (unat (r AND 63)) l)
   | ROTATE_RIGHT \<Rightarrow> Some (word_rotr (unat (r AND 63)) l)
   | INT_MULT \<Rightarrow> Some (l * r)
   | INT_EQUAL \<Rightarrow> Some (if l = r then 1 else 0)
   | INT_LESS \<Rightarrow> Some (if l < r then 1 else 0)
   | INT_SLESS \<Rightarrow> Some (if sint l < sint r then 1 else 0)
   | _ \<Rightarrow> None)"

definition constant_fold_op :: "pcode_insn \<Rightarrow> pcode_insn" where
  "constant_fold_op i = (case pi_inputs i of
     [a, b] \<Rightarrow>
       if \<not> is_const a \<or> \<not> is_const b then i
       else (case fold_value (pi_op i) (vn_offset a) (vn_offset b) of
               None \<Rightarrow> i
             | Some res \<Rightarrow> i\<lparr>pi_op := COPY, pi_inputs := [vn_const res (vn_size (pi_output i))]\<rparr>)
   | _ \<Rightarrow> i)"

definition constant_fold :: "pcode_func \<Rightarrow> pcode_func" where
  "constant_fold = on_ops (map constant_fold_op)"

section \<open>Dead-copy and identity elimination\<close>

definition dead_copy :: "use_count_map \<Rightarrow> pcode_insn \<Rightarrow> bool" where
  "dead_copy uses i \<longleftrightarrow>
     pi_op i \<noteq> NOP \<and>
     pi_op i \<notin> {CALL, INTRINSIC, RETURN, CBRANCH, BRANCH, STORE} \<and>
     vn_valid (pi_output i) \<and>
     \<not> (is_reg (pi_output i) \<and> vn_id (pi_output i) = 0) \<and>
     \<not> has_use uses (pi_output i)"

definition dead_copy_pass :: "pcode_func \<Rightarrow> pcode_func \<times> bool" where
  "dead_copy_pass f =
     (let uses = count_uses f
      in (on_ops (map (\<lambda>i. if dead_copy uses i then set_nop i else i)) f,
          list_ex (\<lambda>b. list_ex (dead_copy uses) (pb_ops b)) (pf_blocks f)))"

definition dead_copy_elim :: "pcode_func \<Rightarrow> pcode_func" where
  "dead_copy_elim f = erase_nops (repeat_while_changed 12 dead_copy_pass f)"

definition identity_op :: "pcode_insn \<Rightarrow> pcode_insn" where
  "identity_op i =
     (if pi_op i \<noteq> COPY \<or> pi_seq i = -1 then i
      else (case pi_inputs i of
              [] \<Rightarrow> i
            | src # _ \<Rightarrow> if vn_eq (pi_output i) src then set_nop i else i))"

definition eliminate_identity :: "pcode_func \<Rightarrow> pcode_func" where
  "eliminate_identity = on_ops (\<lambda>ops. erase_if is_nop (map identity_op ops))"

section \<open>Flag folding\<close>

definition same_var :: "varnode \<Rightarrow> varnode \<Rightarrow> bool" where
  "same_var a b \<longleftrightarrow> vn_id a = vn_id b \<and> vn_kind a = vn_kind b"

definition cbranch_on :: "varnode \<Rightarrow> pcode_insn \<Rightarrow> bool" where
  "cbranch_on v i \<longleftrightarrow> pi_op i = CBRANCH \<and> 2 \<le> length (pi_inputs i) \<and> same_var (pi_inputs i ! 1) v"

definition neq_insn :: "pcode_insn \<Rightarrow> pcode_insn \<Rightarrow> pcode_insn" where
  "neq_insn eq_op not_op = \<lparr>pi_op = INT_NEQUAL, pi_output = pi_output not_op,
     pi_inputs = pi_inputs eq_op, pi_addr = pi_addr eq_op, pi_seq = pi_seq eq_op\<rparr>"

text \<open>The loop over \<open>j\<close> for the comparison at \<open>i\<close>, with both of its \<open>break\<close>s.\<close>

fun ff_scan :: "nat \<Rightarrow> nat list \<Rightarrow> pcode_insn list \<Rightarrow> pcode_insn list" where
  "ff_scan i [] ops = ops"
| "ff_scan i (j # js) ops =
     (let eq_op = ops ! i; op2 = ops ! j in
      if pi_op op2 = BOOL_NOT \<and> pi_inputs op2 \<noteq> [] \<and>
         same_var (hd (pi_inputs op2)) (pi_output eq_op) then
        (if list_ex (cbranch_on (pi_output op2)) (drop (Suc j) ops)
         then ops[i := neq_insn eq_op op2, j := set_nop op2] else ops)
      else if cbranch_on (pi_output eq_op) op2 then
        ops[j := op2\<lparr>pi_inputs := (pi_inputs op2)[1 := pi_output eq_op]\<rparr>]
      else ff_scan i js ops)"

definition self_and :: "pcode_insn \<Rightarrow> pcode_insn" where
  "self_and i = (case pi_inputs i of
     [a, b] \<Rightarrow>
       if pi_op i = AND_OP \<and> vn_kind a = vn_kind b \<and> vn_id a = vn_id b \<and> vn_offset a = vn_offset b
       then i\<lparr>pi_op := COPY, pi_inputs := [a]\<rparr> else i
   | _ \<Rightarrow> i)"

definition ff_visit :: "nat \<Rightarrow> pcode_insn list \<Rightarrow> pcode_insn list" where
  "ff_visit i ops =
     (let op1 = ops ! i;
          ops1 = (if pi_op op1 = INT_EQUAL \<and> vn_valid (pi_output op1) \<and> 100 \<le> vn_id (pi_output op1)
                  then ff_scan i [Suc i..<length ops] ops else ops)
      in ops1[i := self_and (ops1 ! i)])"

definition fold_flags_ops :: "pcode_insn list \<Rightarrow> pcode_insn list" where
  "fold_flags_ops ops = erase_if is_nop (fold ff_visit [0..<length ops - 1] ops)"

definition fold_flags :: "pcode_func \<Rightarrow> pcode_func" where
  "fold_flags = on_ops fold_flags_ops"

section \<open>Argument set-up\<close>

definition k_arg_regs :: "int list" where
  "k_arg_regs = [1, 2, 8, 9]"

text \<open>The backward scan for the set-up of argument \<open>argi\<close> of the call at \<open>ci\<close>.\<close>

fun fas_scan :: "nat \<Rightarrow> nat \<Rightarrow> nat list \<Rightarrow> pcode_insn list \<Rightarrow> pcode_insn list" where
  "fas_scan ci argi [] ops = ops"
| "fas_scan ci argi (si # sis) ops =
     (let setup = ops ! si; reg = k_arg_regs ! argi; call_op = ops ! ci in
      if pi_op setup = CALL then ops
      else if pi_op setup = NOP then fas_scan ci argi sis ops
      else if pi_op setup = COPY \<and> is_reg (pi_output setup) \<and> vn_id (pi_output setup) = reg \<and>
              pi_inputs setup \<noteq> [] then
        ops[ci := call_op\<lparr>pi_inputs := (pi_inputs call_op)[Suc argi := hd (pi_inputs setup)]\<rparr>,
            si := set_nop setup]
      else if is_reg (pi_output setup) \<and> vn_id (pi_output setup) = reg then ops
      else fas_scan ci argi sis ops)"

text \<open>The four arguments of one call; running out of inputs ends the loop.\<close>

fun fas_args :: "nat \<Rightarrow> nat list \<Rightarrow> pcode_insn list \<Rightarrow> pcode_insn list" where
  "fas_args ci [] ops = ops"
| "fas_args ci (argi # argis) ops =
     (let call_op = ops ! ci in
      if length (pi_inputs call_op) \<le> Suc argi then ops
      else
        (let arg = pi_inputs call_op ! Suc argi in
         if \<not> is_reg arg \<or> vn_id arg \<noteq> k_arg_regs ! argi then fas_args ci argis ops
         else fas_args ci argis (fas_scan ci argi (rev [0..<ci]) ops)))"

definition fas_visit :: "nat \<Rightarrow> pcode_insn list \<Rightarrow> pcode_insn list" where
  "fas_visit ci ops = (if pi_op (ops ! ci) \<noteq> CALL then ops else fas_args ci [0, 1, 2, 3] ops)"

definition fold_args_ops :: "pcode_insn list \<Rightarrow> pcode_insn list" where
  "fold_args_ops ops = erase_if is_nop (fold fas_visit [0..<length ops] ops)"

text \<open>Whether the write at the head of \<open>rest\<close>'s predecessor is clobbered by a call before it is read.\<close>

fun clobbered_before_read :: "int \<Rightarrow> pcode_insn list \<Rightarrow> bool" where
  "clobbered_before_read reg [] = False"
| "clobbered_before_read reg (nx # rest) =
     (if pi_op nx = NOP then clobbered_before_read reg rest
      else if pi_op nx = CALL then True
      else if list_ex (\<lambda>v. is_reg v \<and> vn_id v = reg) (pi_inputs nx) then False
      else if is_reg (pi_output nx) \<and> vn_id (pi_output nx) = reg then False
      else clobbered_before_read reg rest)"

definition stale_visit :: "nat \<Rightarrow> pcode_insn list \<Rightarrow> pcode_insn list" where
  "stale_visit k ops =
     (let i = ops ! k in
      if pi_op i = NOP \<or> pi_op i = CALL then ops
      else if \<not> vn_valid (pi_output i) \<or> \<not> is_reg (pi_output i) then ops
      else if vn_id (pi_output i) \<notin> {10, 11} then ops
      else if clobbered_before_read (vn_id (pi_output i)) (drop (Suc k) ops)
           then ops[k := set_nop i] else ops)"

definition stale_ops :: "pcode_insn list \<Rightarrow> pcode_insn list" where
  "stale_ops ops = erase_if is_nop (fold stale_visit [0..<length ops] ops)"

definition fold_arg_setup :: "pcode_func \<Rightarrow> pcode_func" where
  "fold_arg_setup f = on_ops stale_ops (on_ops fold_args_ops f)"

section \<open>The pipeline\<close>

definition propagate_run :: "pcode_func \<Rightarrow> pcode_func" where
  "propagate_run f =
     (let f = eliminate_identity f;
          f = fold_arg_setup f;
          f = copy_propagation f;
          f = constant_fold f;
          f = copy_propagation f;
          f = fold_flags f;
          f = dead_copy_elim f;
          f = copy_propagation f;
          f = constant_fold f
      in dead_copy_elim f)"

end
