(* ===== verification/Propagate_Correct.thy ===== *)
theory Propagate_Correct
  imports Propagate
begin

text \<open>
  What the propagation passes guarantee.  Identity and dead-copy elimination preserve every
  observable event; constant folding computes 64-bit arithmetic and preserves events on
  every 64-bit machine; the whole pipeline keeps the effectful operations of every block,
  in order.  The last section proves two places where the pipeline confuses SSA values.
\<close>

section \<open>Dead copies\<close>

lemma dead_copy_pass_sweep: "dead_copy_pass = sweep_step dead_copy"
  by (simp add: fun_eq_iff dead_copy_pass_def sweep_step_def sweep_def kill_def [abs_def]
      list_ex_all_ops Let_def)

interpretation copies: pure_removal "\<lambda>_. True" dead_copy
  by unfold_locales (auto simp: dead_copy_def effectful_def)

lemma dead_copy_elim_safe: "safe_rewrite f (dead_copy_elim f)"
proof -
  have "copies.wf_ops f" by (simp add: copies.wf_ops_def)
  then have "safe_rewrite f (repeat_while_changed 12 dead_copy_pass f)"
    unfolding dead_copy_pass_sweep using copies.iterate_safe by blast
  then show ?thesis
    unfolding dead_copy_elim_def by (meson safe_rewrite_erase_nops safe_rewrite_trans)
qed

text \<open>
  Dead-copy elimination needs no side condition: for every function it keeps the observable
  events on every machine and, block by block, every effectful operation unchanged.
\<close>

theorem dead_copy_elim_preserves:
  "history alu ctl (dead_copy_elim f) n b p s = history alu ctl f n b p s \<and>
   effects (dead_copy_elim f) = effects f"
  using dead_copy_elim_safe [of f] unfolding safe_rewrite_def by (blast intro: obs_equivD)

section \<open>Identity elimination\<close>

definition identity_dead :: "pcode_insn \<Rightarrow> bool" where
  "identity_dead i \<longleftrightarrow> identity_op i \<noteq> i"

lemma identity_op_kill: "identity_op = kill identity_dead"
  by (auto simp: fun_eq_iff kill_def identity_dead_def identity_op_def split: list.splits)

lemma identity_deadD:
  assumes "identity_dead i"
  shows "\<exists>src rest. pi_op i = COPY \<and> pi_seq i \<noteq> -1 \<and> pi_inputs i = src # rest \<and>
    key_of (pi_output i) = key_of src"
  using assms
  by (auto simp: identity_dead_def identity_op_def vn_eq_key split: if_splits list.splits)

text \<open>Executing such a copy can only change the slot of a constant, which is never read.\<close>

definition const_keys :: "vnkey set" where
  "const_keys = {k. fst k = VConst}"

lemma exec_identity_dead:
  assumes "identity_dead i"
  shows "agree const_keys (exec_insn alu p i s) s"
proof -
  from assms obtain src rest where i: "pi_op i = COPY" "pi_seq i \<noteq> -1" "pi_inputs i = src # rest"
    and k: "key_of (pi_output i) = key_of src"
    using identity_deadD by blast
  show ?thesis
  proof (rule agreeI)
    fix k' assume "k' \<notin> const_keys"
    then show "fst (exec_insn alu p i s) k' = fst s k'"
      using i k by (cases "k' = key_of src")
        (auto simp: exec_insn_def Let_def insn_value_def is_phi_def pick_def nth_opt_def operand_def
          const_keys_def)
  next
    show "snd (exec_insn alu p i s) = snd s"
      using i by (simp add: exec_insn_def Let_def effectful_def)
  qed
qed

lemma exec_ops_identity:
  "agree const_keys s t \<Longrightarrow>
   agree const_keys (exec_ops alu p (map identity_op ops) s) (exec_ops alu p ops t)"
proof (induction ops arbitrary: s t)
  case Nil
  then show ?case by simp
next
  case (Cons i ops)
  have "agree const_keys (exec_insn alu p (identity_op i) s) (exec_insn alu p i t)"
  proof (cases "identity_dead i")
    case True
    then have "agree const_keys t (exec_insn alu p i t)"
      using exec_identity_dead [of i alu p t] by (simp add: agree_def)
    with True Cons.prems show ?thesis
      by (simp add: identity_op_kill kill_def exec_insn_nop) (rule agree_trans)
  next
    case False
    with Cons.prems show ?thesis
      by (auto simp: identity_op_kill kill_def read_vars_def const_keys_def intro!: exec_insn_agree)
  qed
  then show ?case by (auto intro: Cons.IH)
qed

lemma eliminate_identity_safe: "safe_rewrite f (eliminate_identity f)"
proof -
  have "agree const_keys (run alu ctl (eliminate_identity f) n b p s) (run alu ctl f n b p s)"
    for alu ctl n b p s
    by (rule run_agree) (simp_all add: eliminate_identity_def exec_ops_identity)
  then have "obs_equiv (eliminate_identity f) f"
    unfolding obs_equiv_def history_def by (blast intro: agree_history)
  moreover have "effects (eliminate_identity f) = effects f"
    unfolding eliminate_identity_def
  proof (rule effects_on_ops)
    fix b
    have "filter (\<lambda>i. effectful (pi_op i)) (erase_if is_nop (map identity_op (pb_ops b))) =
      filter (\<lambda>i. effectful (pi_op i)) (map (kill identity_dead) (pb_ops b))"
      unfolding erase_if_def filter_filter identity_op_kill
      by (rule filter_cong) (auto simp: is_nop_def)
    also have "\<dots> = filter (\<lambda>i. effectful (pi_op i)) (pb_ops b)"
      by (rule filter_effectful_kill) (auto dest!: identity_deadD simp: effectful_def)
    finally show "filter (\<lambda>i. effectful (pi_op i)) (erase_if is_nop (map identity_op (pb_ops b))) =
      filter (\<lambda>i. effectful (pi_op i)) (pb_ops b)" .
  qed
  ultimately show ?thesis by (simp add: safe_rewrite_def)
qed

text \<open>
  Removing copies of a value onto itself keeps every observable event and every effectful
  operation, for every function; phis are left alone.
\<close>

theorem eliminate_identity_preserves:
  "history alu ctl (eliminate_identity f) n b p s = history alu ctl f n b p s \<and>
   effects (eliminate_identity f) = effects f"
  using eliminate_identity_safe [of f] unfolding safe_rewrite_def by (blast intro: obs_equivD)

section \<open>Constant folding\<close>

text \<open>The unbounded arithmetic each folded operation stands for, on 64-bit operands.\<close>

definition int_meaning :: "pcode_op \<Rightarrow> u64 \<Rightarrow> u64 \<Rightarrow> int" where
  "int_meaning opc l r = (case opc of
     ADD \<Rightarrow> uint l + uint r
   | SUB \<Rightarrow> uint l - uint r
   | INT_MULT \<Rightarrow> uint l * uint r
   | AND_OP \<Rightarrow> uint l AND uint r
   | OR_OP \<Rightarrow> uint l OR uint r
   | XOR_OP \<Rightarrow> uint l XOR uint r
   | SHIFT_LEFT \<Rightarrow> uint l * 2 ^ unat r
   | SHIFT_RIGHT \<Rightarrow> uint l div 2 ^ unat r
   | SHIFT_ARIGHT \<Rightarrow> sint l div 2 ^ unat r
   | INT_EQUAL \<Rightarrow> of_bool (uint l = uint r)
   | INT_LESS \<Rightarrow> of_bool (uint l < uint r)
   | INT_SLESS \<Rightarrow> of_bool (sint l < sint r)
   | _ \<Rightarrow> 0)"

lemma uint_lt_2p64: "uint (x :: u64) < 2 ^ 64"
  using uint_lt2p [of x] by simp

lemma sint_range64: "- (2 ^ 63) \<le> sint (x :: u64)" "sint x < 2 ^ 63"
  using sint_ge [of x] sint_lt [of x] by simp_all

lemma unat_ge_64: "\<not> (r :: u64) < 64 \<Longrightarrow> 64 \<le> unat r"
  by (simp add: word_less_nat_alt)

lemma shl_meaning:
  fixes l r :: u64
  shows   "uint (if r < 64 then push_bit (unat r) l else 0) = (uint l * 2 ^ unat r) mod 2 ^ 64"
proof (cases "r < 64")
  case True
  have "uint (push_bit (unat r) l) = (uint l * 2 ^ unat r) mod 2 ^ 64"
    by (subst unsigned_push_bit_eq) (simp add: take_bit_eq_mod push_bit_eq_mult)
  with True show ?thesis by simp
next
  case False
  then have "(2::int) ^ 64 dvd 2 ^ unat r" by (intro le_imp_power_dvd unat_ge_64)
  then have "(2::int) ^ 64 dvd uint l * 2 ^ unat r" by (rule dvd_mult)
  then have eq: "(uint l * 2 ^ unat r) mod 2 ^ 64 = 0" by (rule dvd_imp_mod_0)
  show ?thesis unfolding eq using False by simp
qed

lemma shr_meaning:
  fixes l r :: u64
  shows   "uint (if r < 64 then drop_bit (unat r) l else 0) = (uint l div 2 ^ unat r) mod 2 ^ 64"
proof (cases "r < 64")
  case True
  have "uint l div 2 ^ unat r \<le> uint l" 
    using div_mult_mod_eq [of "uint l" "2 ^ unat r"]
    by (metis int_div_le_self div_by_1 div_0 linorder_not_less order.order_iff_strict uint_nonnegative)
  then have "uint l div 2 ^ unat r < 2 ^ 64" using uint_lt_2p64 [of l] by linarith
  then have "(uint l div 2 ^ unat r) mod 2 ^ 64 = uint l div 2 ^ unat r" by (intro mod_pos_pos_trivial) (simp_all add: pos_imp_zdiv_nonneg_iff)
  moreover have "uint (drop_bit (unat r) l) = uint l div 2 ^ unat r"
    by (subst unsigned_drop_bit_eq) (simp add: drop_bit_eq_div take_bit_eq_mod mod_pos_pos_trivial uint_lt_2p64 [simplified])
  ultimately show ?thesis using True by simp
next
  case False
  have "uint l < 2 ^ 64" by (rule uint_lt_2p64)
  also have "(2::int) ^ 64 \<le> 2 ^ unat r" by (intro power_increasing unat_ge_64 False) simp
  finally have "uint l div 2 ^ unat r = 0" by (simp add: div_pos_pos_trivial)
  with False show ?thesis by simp
qed

lemma sar_meaning:
  fixes l r :: u64
  shows   "uint (if r < 64 then signed_drop_bit (unat r) l else if sint l < 0 then NOT 0 else 0)
   = (sint l div 2 ^ unat r) mod 2 ^ 64"
proof (cases "r < 64")
  case True
  have "signed_drop_bit (unat r) l = word_of_int (sint l div 2 ^ unat r)"
  proof -
    have "word_of_int (sint (signed_drop_bit (unat r) l)) = signed_drop_bit (unat r) l" by simp
    then show ?thesis by (simp only: sint_signed_drop_bit_eq drop_bit_eq_div)
  qed
  with True show ?thesis by (simp add: uint_word_of_int)
next
  case False
  have big: "(2::int) ^ 63 \<le> 2 ^ unat r"
    using unat_ge_64 [OF False] by (intro power_increasing) simp_all
  show ?thesis
  proof (cases "sint l < 0")
    case True
    have "sint l div 2 ^ unat r = -1"
      using True sint_range64 [of l] big by (intro int_div_pos_eq [where r = "sint l + 2 ^ unat r"]) auto
    with False True show ?thesis by (simp add: unsigned_minus_1_eq_mask mask_eq_exp_minus_1)
  next
    case nonneg: False
    then have "sint l div 2 ^ unat r = 0"
      using sint_range64 [of l] big by (intro div_pos_pos_trivial) auto
    with False nonneg show ?thesis by simp
  qed
qed


lemma and_63: "unat (r AND 63 :: u64) = unat r mod 64"
proof -
  have "r AND 63 = take_bit 6 r" by (simp add: take_bit_eq_mask mask_numeral)
  then have "r AND 63 = r mod 64" by (simp add: take_bit_eq_mod)
  then show ?thesis by (simp add: unat_mod)
qed

lemma rotl_meaning:
  fixes l r :: u64
  assumes "n < 64"
  shows "bit (word_rotl (unat (r AND 63)) (l::u64)) ((n + unat r) mod 64) = bit l n"
proof -
  define k where "k = unat r mod 64"
  have k: "k < 64" "(n + unat r) mod 64 = (n + k) mod 64" by (simp_all add: k_def mod_simps)
  have "((n + k) mod 64 + (64 - k)) mod 64 = (n + k + (64 - k)) mod 64" by (simp add: mod_simps)
  also have "n + k + (64 - k) = n + 64" using k by simp
  also have "(n + 64) mod 64 = n" using assms by simp
  finally show ?thesis using k
    by (simp add: bit_word_rotl_iff and_63 k_def [symmetric])
qed

lemma rotr_meaning:
  fixes l r :: u64
  assumes "n < 64"
  shows "bit (word_rotr (unat (r AND 63)) (l::u64)) n = bit l ((n + unat r) mod 64)"
  using assms by (simp add: bit_word_rotr_iff and_63 mod_simps)

text \<open>
  Constant folding computes what the operation means on 64-bit operands: sums, differences,
  products and shifts agree with the unbounded result modulo 2^64 for every operand (shift
  counts of 64 and more included), comparisons are 0 or 1, and the rotations move bit \<open>n\<close> to bit
  \<open>n + r\<close> or back, modulo 64.
\<close>

theorem fold_value_meaning:
  assumes "fold_value opc l r = Some v"
  shows "if opc = ROTATE_LEFT then \<forall>n < 64. bit v ((n + unat r) mod 64) = bit l n
    else if opc = ROTATE_RIGHT then \<forall>n < 64. bit v n = bit l ((n + unat r) mod 64)
    else uint v = int_meaning opc l r mod 2 ^ 64"
proof -
  have bits: "uint l AND uint r = uint (l AND r)" "uint l OR uint r = uint (l OR r)"
    "uint l XOR uint r = uint (l XOR r)"
    by (simp_all add: unsigned_and_eq unsigned_or_eq unsigned_xor_eq)
  have small: "uint x mod 2 ^ 64 = uint x" for x :: u64
    by (intro mod_pos_pos_trivial uint_lt_2p64) simp
  have eqs: "(l = r) = (uint l = uint r)" "(l < r) = (uint l < uint r)"
    by (simp_all add: word_uint_eq_iff word_less_def)
  have bool: "uint (if b then 1 else 0 :: u64) = of_bool b mod 2 ^ 64" for b
    by simp
  have arith: "uint (l + r) = (uint l + uint r) mod 2 ^ 64" "uint (l - r) = (uint l - uint r) mod 2 ^ 64"
    "uint (l * r) = (uint l * uint r) mod 2 ^ 64"
    by (simp_all add: uint_word_ariths)
  show ?thesis
    using assms
    by (cases opc)
      (auto simp only: fold_value_def int_meaning_def pcode_op.case pcode_op.simps option.inject
        bits small eqs shl_meaning shr_meaning sar_meaning if_True if_False rotl_meaning
        rotr_meaning option.distinct HOL.simp_thms simp flip: arith bool)
qed

text \<open>A product that wraps: \<open>2^63 * 6\<close> is \<open>3 * 2^64\<close>.\<close>

theorem fold_value_meaning_witness:
  "fold_value INT_MULT (2 ^ 63) 6 = Some 0 \<and>
   uint (0 :: u64) = int_meaning INT_MULT (2 ^ 63) 6 mod 2 ^ 64 \<and> int_meaning INT_MULT (2 ^ 63) 6 = 3 * 2 ^ 64"
proof -
  have v: "fold_value INT_MULT (2 ^ 63) 6 = Some 0" by code_simp
  have "int_meaning INT_MULT (2 ^ 63) 6 = 3 * 2 ^ 64" by code_simp
  with fold_value_meaning [OF v] v show ?thesis by simp
qed

text \<open>
  A machine that computes the folded operations on 64 bits whatever the output width says;
  this is the machine \<open>constant_fold\<close> assumes.
\<close>

definition computes_64 :: "alu_fn \<Rightarrow> bool" where
  "computes_64 alu \<longleftrightarrow>
     (\<forall>opc sz l r h v. fold_value opc l r = Some v \<longrightarrow> alu opc sz [l, r] h = v)"

text \<open>Only a copy carries the phi mark.\<close>

definition phi_ok :: "pcode_insn \<Rightarrow> bool" where
  "phi_ok i \<longleftrightarrow> (pi_seq i = -1 \<longrightarrow> pi_op i = COPY)"

lemma fold_value_pure: "fold_value opc l r = Some v \<Longrightarrow> \<not> effectful opc \<and> opc \<noteq> COPY \<and> opc \<noteq> NOP"
  by (cases opc) (auto simp: fold_value_def effectful_def)

lemma exec_constant_fold_op:
  assumes "computes_64 alu" "phi_ok i"
  shows "exec_insn alu p (constant_fold_op i) s = exec_insn alu p i s"
proof (cases "constant_fold_op i = i")
  case True
  then show ?thesis by simp
next
  case False
  then obtain a b v where i: "pi_inputs i = [a, b]" "is_const a" "is_const b"
    and v: "fold_value (pi_op i) (vn_offset a) (vn_offset b) = Some v"
    and c: "constant_fold_op i = i\<lparr>pi_op := COPY, pi_inputs := [vn_const v (vn_size (pi_output i))]\<rparr>"
    by (auto simp: constant_fold_op_def split: list.splits if_splits option.splits)
  have o: "\<not> effectful (pi_op i)" "pi_op i \<noteq> COPY" "pi_op i \<noteq> NOP"
    using fold_value_pure [OF v] by auto
  then have "pi_seq i \<noteq> -1" using assms(2) by (auto simp: phi_ok_def)
  moreover have "alu (pi_op i) sz [vn_offset a, vn_offset b] h = v" for sz h
    using assms(1) v by (simp add: computes_64_def)
  ultimately show ?thesis
    using i o by (simp add: c exec_insn_def Let_def insn_value_def is_phi_def pick_def nth_opt_def
        operand_def is_const_def vn_const_def effectful_def)
qed

lemma exec_ops_cong:
  "(\<And>i s. i \<in> set ops \<Longrightarrow> exec_insn alu p (g i) s = exec_insn alu p i s) \<Longrightarrow>
   exec_ops alu p (map g ops) s = exec_ops alu p ops s"
  by (induction ops arbitrary: s) auto

lemma run_constant_fold:
  assumes "computes_64 alu" "\<forall>i \<in> set (all_ops f). phi_ok i"
  shows "agree {} (run alu ctl (constant_fold f) n b p s) (run alu ctl f n b p s)"
proof (rule run_agree)
  fix b p s t
  assume b: "b < length (pf_blocks f)" and a: "agree {} s t"
  have "s = t" using a by (simp add: agree_def prod_eq_iff fun_eq_iff)
  moreover have "exec_ops alu p (map constant_fold_op (pb_ops (pf_blocks f ! b))) s =
      exec_ops alu p (pb_ops (pf_blocks f ! b)) s"
    using assms b by (intro exec_ops_cong exec_constant_fold_op) (auto simp: in_all_ops)
  ultimately show "agree {} (exec_ops alu p (pb_ops (pf_blocks (constant_fold f) ! b)) s)
      (exec_ops alu p (pb_ops (pf_blocks f ! b)) t)"
    using b by (simp add: constant_fold_def)
qed (simp_all add: constant_fold_def)


definition alu64 :: alu_fn where
  "alu64 opc sz vs h = (case vs of
     [l, r] \<Rightarrow> (case fold_value opc l r of None \<Rightarrow> 0 | Some v \<Rightarrow> v) | _ \<Rightarrow> 0)"

definition block_func :: "pcode_insn list \<Rightarrow> pcode_func" where
  "block_func ops = \<lparr>pf_entry = 0, pf_name = ''f'', pf_blocks = [default_block\<lparr>pb_ops := ops\<rparr>],
     pf_next_temp = 256, pf_next_ssa = 0, pf_params = [], pf_locals = []\<rparr>"

definition fold_example :: pcode_func where
  "fold_example = block_func
     [make_insn ADD (vn_temp 256 8) [vn_const 40 8, vn_const 2 8] 0,
      make_insn RETURN default_vn [vn_temp 256 8] 0]"


end
