(* ===== verification/Propagate_Effects.thy ===== *)
theory Propagate_Effects
  imports Propagate_Correct
begin

text \<open>
  The effect signature: the effectful operations of every block with their addresses, in order.
  Every pass of \<open>Propagate::run\<close> keeps it, so the pipeline neither loses, duplicates, reorders
  nor moves a store, a call, an intrinsic, a return or a branch.
\<close>

section \<open>The pipeline keeps the effectful operations\<close>

definition op_sig :: "pcode_insn list \<Rightarrow> (pcode_op \<times> va_t) list" where
  "op_sig ops = map (\<lambda>i. (pi_op i, pi_addr i)) (filter (\<lambda>i. effectful (pi_op i)) ops)"

definition effect_sig :: "pcode_func \<Rightarrow> (pcode_op \<times> va_t) list list" where
  "effect_sig f = map (\<lambda>b. op_sig (pb_ops b)) (pf_blocks f)"

definition same_sig :: "pcode_insn \<Rightarrow> pcode_insn \<Rightarrow> bool" where
  "same_sig i j \<longleftrightarrow> (effectful (pi_op i) \<longleftrightarrow> effectful (pi_op j)) \<and>
     (effectful (pi_op i) \<longrightarrow> pi_op i = pi_op j \<and> pi_addr i = pi_addr j)"

lemma same_sig_refl [simp]: "same_sig i i"
  by (simp add: same_sig_def)

lemma same_sig_pure: "\<not> effectful (pi_op i) \<Longrightarrow> \<not> effectful (pi_op j) \<Longrightarrow> same_sig i j"
  by (simp add: same_sig_def)

lemma op_sig_cong: "list_all2 same_sig xs ys \<Longrightarrow> op_sig xs = op_sig ys"
proof (induction rule: list_all2_induct)
  case Nil
  show ?case by simp
next
  case (Cons x xs y ys)
  then show ?case by (cases "effectful (pi_op x)") (simp_all add: op_sig_def same_sig_def)
qed

lemma op_sig_map: "(\<And>i. i \<in> set ops \<Longrightarrow> same_sig (g i) i) \<Longrightarrow> op_sig (map g ops) = op_sig ops"
  by (rule op_sig_cong) (simp add: list_all2_conv_all_nth)

lemma op_sig_update:
  assumes "same_sig x (ops ! k)"
  shows "op_sig (ops[k := x]) = op_sig ops"
proof (rule op_sig_cong)
  have "same_sig (ops[k := x] ! m) (ops ! m)" if "m < length ops" for m
    using assms that by (cases "m = k") simp_all
  then show "list_all2 same_sig (ops[k := x]) ops" by (simp add: list_all2_conv_all_nth)
qed

lemma op_sig_erase [simp]: "op_sig (erase_if is_nop ops) = op_sig ops"
  unfolding op_sig_def erase_if_def filter_filter
  by (rule arg_cong, rule filter_cong) (auto simp: is_nop_def)

lemma effect_sig_on_ops:
  "(\<And>b. b \<in> set (pf_blocks f) \<Longrightarrow> op_sig (g (pb_ops b)) = op_sig (pb_ops b)) \<Longrightarrow>
   effect_sig (on_ops g f) = effect_sig f"
  by (simp add: effect_sig_def)

lemma effect_sig_erase_nops [simp]: "effect_sig (erase_nops f) = effect_sig f"
  unfolding erase_nops_def by (rule effect_sig_on_ops) simp

lemma effect_sig_effects: "effects f = effects g \<Longrightarrow> effect_sig f = effect_sig g"
proof -
  have "effect_sig h = map (map (\<lambda>i. (pi_op i, pi_addr i))) (effects h)" for h
    by (simp add: effect_sig_def effects_def op_sig_def)
  then show "effects f = effects g \<Longrightarrow> effect_sig f = effect_sig g" by simp
qed

text \<open>Copy propagation only rewrites inputs and turns copies into no-ops.\<close>

lemma effect_sig_map_ops_at:
  assumes "\<And>bi oi. bi < length (pf_blocks f) \<Longrightarrow> oi < length (pb_ops (pf_blocks f ! bi)) \<Longrightarrow>
     same_sig (g bi oi (op_at f bi oi)) (op_at f bi oi)"
  shows "effect_sig (map_ops_at g f) = effect_sig f"
proof -
  have "op_sig (pb_ops (pf_blocks (map_ops_at g f) ! bi)) = op_sig (pb_ops (pf_blocks f ! bi))"
    if "bi < length (pf_blocks f)" for bi
    using that assms
    by (auto simp: map_ops_at_def nth_enumerate_eq op_at_def list_all2_conv_all_nth intro!: op_sig_cong)
  then show ?thesis
    unfolding effect_sig_def by (intro nth_equalityI) (simp_all add: map_ops_at_def)
qed

lemma same_sig_subst [simp]: "same_sig (subst_insn a b i) i"
  by (simp add: same_sig_def subst_insn_def)

lemma op_at_replace_uses_self:
  "bi < length (pf_blocks f) \<Longrightarrow> oi < length (pb_ops (pf_blocks f ! bi)) \<Longrightarrow>
   op_at (replace_uses f a b bi oi) bi oi = op_at f bi oi"
  by (simp add: op_at_def replace_uses_def map_ops_at_def nth_enumerate_eq)

lemma map_ops_at_shape [simp]:
  "length (pf_blocks (map_ops_at g f)) = length (pf_blocks f)"
  "bi < length (pf_blocks f) \<Longrightarrow>
     length (pb_ops (pf_blocks (map_ops_at g f) ! bi)) = length (pb_ops (pf_blocks f ! bi))"
  by (simp_all add: map_ops_at_def nth_enumerate_eq)

lemma effect_sig_replace_uses: "effect_sig (replace_uses f a b bi oi) = effect_sig f"
  unfolding replace_uses_def by (rule effect_sig_map_ops_at) simp

lemma effect_sig_nop_at:
  assumes "bi < length (pf_blocks f)" "oi < length (pb_ops (pf_blocks f ! bi))"
    "\<not> effectful (pi_op (op_at f bi oi))"
  shows "effect_sig (nop_at f bi oi) = effect_sig f"
  unfolding nop_at_def using assms by (intro effect_sig_map_ops_at) (auto intro!: same_sig_pure)

text \<open>What every turn of copy propagation keeps: the shape and the effect signature.\<close>

definition cp_inv :: "pcode_func \<Rightarrow> pcode_func \<Rightarrow> bool" where
  "cp_inv f g \<longleftrightarrow> effect_sig g = effect_sig f \<and>
     map (\<lambda>b. length (pb_ops b)) (pf_blocks g) = map (\<lambda>b. length (pb_ops b)) (pf_blocks f)"

lemma cp_inv_shape:
  assumes "cp_inv f g" "(bi, oi) \<in> set (positions f)"
  shows "bi < length (pf_blocks g)" "oi < length (pb_ops (pf_blocks g ! bi))"
proof -
  have len: "length (pf_blocks g) = length (pf_blocks f)"
    using assms(1) unfolding cp_inv_def by (metis length_map)
  have b: "bi < length (pf_blocks f)" "oi < length (pb_ops (pf_blocks f ! bi))"
    using assms(2) by (auto simp: positions_def in_set_enumerate_eq)
  then have "map (\<lambda>b. length (pb_ops b)) (pf_blocks g) ! bi = map (\<lambda>b. length (pb_ops b)) (pf_blocks f) ! bi"
    using assms(1) by (simp add: cp_inv_def)
  with b len show "bi < length (pf_blocks g)" "oi < length (pb_ops (pf_blocks g ! bi))" by simp_all
qed

lemma cp_inv_map_ops_at: "cp_inv f g \<Longrightarrow> effect_sig (map_ops_at h g) = effect_sig g \<Longrightarrow> cp_inv f (map_ops_at h g)"
  by (auto simp: cp_inv_def intro!: nth_equalityI dest: arg_cong [where f = length])
     (metis length_map map_ops_at_shape(2) nth_map)

lemma cp_visit_inv:
  assumes inv: "cp_inv f (fst s)" and pos: "(bi, oi) \<in> set (positions f)"
  shows "cp_inv f (fst (cp_visit uses (bi, oi) s))"
proof -
  let ?g = "fst s"
  have rng: "bi < length (pf_blocks ?g)" "oi < length (pb_ops (pf_blocks ?g ! bi))"
    using cp_inv_shape [OF inv pos] by auto
  have r: "cp_inv f (replace_uses ?g a b bi oi)" for a b
    unfolding replace_uses_def
    by (rule cp_inv_map_ops_at [OF inv]) (simp add: effect_sig_replace_uses [unfolded replace_uses_def])
  have "cp_inv f (nop_at (replace_uses ?g a b bi oi) bi oi)"
    if "pi_op (op_at ?g bi oi) = COPY" for a b
  proof -
    have "effect_sig (nop_at (replace_uses ?g a b bi oi) bi oi) = effect_sig (replace_uses ?g a b bi oi)"
      using rng that by (intro effect_sig_nop_at)
        (simp_all add: op_at_replace_uses_self effectful_def, simp_all add: replace_uses_def)
    then show ?thesis
      unfolding nop_at_def by (intro cp_inv_map_ops_at [OF r]) simp
  qed
  with r inv show ?thesis by (auto simp: cp_visit_def Let_def split: list.splits)
qed

lemma effect_sig_cp_pass: "effect_sig (fst (cp_pass f)) = effect_sig f"
proof -
  have "cp_inv f (fst (fold (cp_visit (count_uses f)) (positions f) (f, False)))"
    by (rule fold_invariant_rule [where I = "\<lambda>s. cp_inv f (fst s)"])
       (auto simp: cp_visit_inv, simp add: cp_inv_def)
  then show ?thesis by (simp add: cp_pass_def cp_inv_def)
qed

lemma effect_sig_copy_propagation: "effect_sig (copy_propagation f) = effect_sig f"
proof -
  have "(\<lambda>f g. effect_sig g = effect_sig f) f (repeat_while_changed 8 cp_pass f)"
    by (rule repeat_while_changed_rel) (auto simp: effect_sig_cp_pass)
  then show ?thesis by (simp add: copy_propagation_def)
qed

text \<open>Constant folding.\<close>

lemma same_sig_constant_fold_op: "same_sig (constant_fold_op i) i"
  by (auto simp: constant_fold_op_def same_sig_def effectful_def dest: fold_value_pure
      split: list.splits if_splits option.splits)

lemma effect_sig_constant_fold: "effect_sig (constant_fold f) = effect_sig f"
  unfolding constant_fold_def
  by (rule effect_sig_on_ops, rule op_sig_map, rule same_sig_constant_fold_op)

text \<open>Flag folding.\<close>

lemma op_sig_ff_scan:
  assumes "\<not> effectful (pi_op (ops ! i))" "\<forall>j \<in> set js. i < j"
  shows "op_sig (ff_scan i js ops) = op_sig ops"
  using assms(2)
proof (induction js)
  case Nil
  show ?case by simp
next
  case (Cons j js)
  let ?eq = "ops ! i" and ?op2 = "ops ! j"
  have ij: "i \<noteq> j" using Cons.prems by auto
  have "op_sig (ops[i := neq_insn ?eq ?op2, j := set_nop ?op2]) = op_sig ops"
    if "pi_op ?op2 = BOOL_NOT"
  proof -
    have "op_sig (ops[i := neq_insn ?eq ?op2, j := set_nop ?op2]) = op_sig (ops[i := neq_insn ?eq ?op2])"
      using ij that by (intro op_sig_update) (simp add: same_sig_def effectful_def)
    also have "\<dots> = op_sig ops"
      using assms(1) by (intro op_sig_update) (simp add: same_sig_def effectful_def neq_insn_def)
    finally show ?thesis .
  qed
  moreover have "op_sig (ops[j := ?op2\<lparr>pi_inputs := x\<rparr>]) = op_sig ops" for x
    by (intro op_sig_update) (simp add: same_sig_def)
  ultimately show ?case using Cons by (simp add: Let_def)
qed

lemma op_sig_ff_visit: "op_sig (ff_visit i ops) = op_sig ops"
proof -
  define ops1 where "ops1 = (if pi_op (ops ! i) = INT_EQUAL \<and> vn_valid (pi_output (ops ! i)) \<and>
    100 \<le> vn_id (pi_output (ops ! i)) then ff_scan i [Suc i..<length ops] ops else ops)"
  have "op_sig ops1 = op_sig ops"
    unfolding ops1_def by (auto intro!: op_sig_ff_scan simp: effectful_def)
  moreover have "same_sig (self_and j) j" for j
    by (auto simp: self_and_def same_sig_def effectful_def split: list.splits)
  ultimately show ?thesis
    by (simp add: ff_visit_def Let_def ops1_def [symmetric] op_sig_update)
qed

lemma effect_sig_fold_flags: "effect_sig (fold_flags f) = effect_sig f"
  unfolding fold_flags_def
proof (rule effect_sig_on_ops)
  fix b
  have "op_sig (fold ff_visit xs ops) = op_sig ops" for xs ops
    by (rule fold_invariant_rule) (simp_all add: op_sig_ff_visit)
  then show "op_sig (fold_flags_ops (pb_ops b)) = op_sig (pb_ops b)"
    by (simp add: fold_flags_ops_def)
qed

text \<open>
  Argument set-up.  The clean-up of stale writes to r10 and r11 looks at every operation but a
  call, so it needs that no other effectful operation outputs one of these registers.
\<close>

definition scratch_ok :: "pcode_insn \<Rightarrow> bool" where
  "scratch_ok i \<longleftrightarrow> (effectful (pi_op i) \<and> pi_op i \<noteq> CALL \<longrightarrow>
     \<not> (is_reg (pi_output i) \<and> vn_id (pi_output i) \<in> {10, 11}))"

lemma scratch_ok_simps [simp]:
  "scratch_ok (set_nop i)" "scratch_ok (i\<lparr>pi_inputs := x\<rparr>) \<longleftrightarrow> scratch_ok i"
  by (simp_all add: scratch_ok_def effectful_def)

lemma list_all_update: "list_all P xs \<Longrightarrow> P x \<Longrightarrow> list_all P (xs[k := x])"
  by (auto simp: list_all_iff dest!: set_update_subset_insert [THEN subsetD])

lemma list_all_erase: "list_all P xs \<Longrightarrow> list_all P (erase_if Q xs)"
  by (auto simp: list_all_iff)

text \<open>What folding arguments keeps of a block: the effects, the length, the clean outputs.\<close>

definition fas_inv :: "pcode_insn list \<Rightarrow> pcode_insn list \<Rightarrow> bool" where
  "fas_inv ops0 ops \<longleftrightarrow> op_sig ops = op_sig ops0 \<and> length ops = length ops0 \<and> list_all scratch_ok ops"

lemma fas_inv_update:
  "fas_inv ops0 ops \<Longrightarrow> same_sig x (ops ! k) \<Longrightarrow> scratch_ok x \<Longrightarrow> fas_inv ops0 (ops[k := x])"
  by (simp add: fas_inv_def op_sig_update list_all_update)

lemma fas_scan_inv:
  assumes "fas_inv ops0 ops" "ci < length ops0" "\<forall>si \<in> set sis. si < ci"
  shows "fas_inv ops0 (fas_scan ci argi sis ops)"
  using assms(3)
proof (induction sis)
  case Nil
  show ?case using assms(1) by simp
next
  case (Cons si sis)
  let ?call = "(ops ! ci)\<lparr>pi_inputs := (pi_inputs (ops ! ci))[Suc argi := hd (pi_inputs (ops ! si))]\<rparr>"
  have "scratch_ok (ops ! ci)" using assms by (auto simp: fas_inv_def list_all_length)
  then have c: "fas_inv ops0 (ops[ci := ?call])"
    using assms(1) by (intro fas_inv_update) (simp_all add: same_sig_def)
  have "fas_inv ops0 (ops[ci := ?call, si := set_nop (ops ! si)])" if "pi_op (ops ! si) = COPY"
    using that Cons.prems by (intro fas_inv_update [OF c]) (simp_all add: same_sig_def effectful_def)
  with Cons assms(1) show ?case by (simp add: Let_def)
qed

lemma fas_args_inv:
  assumes "fas_inv ops0 ops" "ci < length ops0"
  shows "fas_inv ops0 (fas_args ci argis ops)"
  using assms(1)
proof (induction argis arbitrary: ops)
  case Nil
  then show ?case by simp
next
  case (Cons argi argis)
  have "fas_inv ops0 (fas_scan ci argi (rev [0..<ci]) ops)"
    using assms(2) Cons.prems by (intro fas_scan_inv) auto
  with Cons show ?case by (simp add: Let_def)
qed

lemma fold_args_ops_inv:
  assumes "list_all scratch_ok ops"
  shows "op_sig (fold_args_ops ops) = op_sig ops \<and> list_all scratch_ok (fold_args_ops ops)"
proof -
  have "fas_inv ops (fold fas_visit [0..<length ops] ops)"
  proof (rule fold_invariant_rule)
    show "fas_inv ops ops" using assms by (simp add: fas_inv_def)
  next
    fix x s assume "x \<in> set [0..<length ops]" "fas_inv ops s"
    then show "fas_inv ops (fas_visit x s)" by (auto simp: fas_visit_def simp del: fas_args.simps intro: fas_args_inv)
  qed
  then show ?thesis by (simp add: fas_inv_def fold_args_ops_def list_all_erase)
qed

lemma stale_visit_inv:
  assumes "fas_inv ops0 ops" "k < length ops0"
  shows "fas_inv ops0 (stale_visit k ops)"
proof -
  have "scratch_ok (ops ! k)" using assms by (auto simp: fas_inv_def list_all_length)
  then have "fas_inv ops0 (ops[k := set_nop (ops ! k)])"
    if "pi_op (ops ! k) \<noteq> CALL" "is_reg (pi_output (ops ! k))" "vn_id (pi_output (ops ! k)) \<in> {10, 11}"
    using that assms(1) by (intro fas_inv_update) (auto simp: scratch_ok_def same_sig_def)
  with assms(1) show ?thesis by (simp add: stale_visit_def Let_def)
qed

lemma op_sig_stale_ops: "list_all scratch_ok ops \<Longrightarrow> op_sig (stale_ops ops) = op_sig ops"
proof -
  assume "list_all scratch_ok ops"
  then have "fas_inv ops ops" by (simp add: fas_inv_def)
  then have "fas_inv ops (fold stale_visit [0..<length ops] ops)"
    by (rule fold_invariant_rule) (simp add: stale_visit_inv)
  then show ?thesis by (simp add: fas_inv_def stale_ops_def)
qed

lemma effect_sig_fold_arg_setup:
  assumes "\<forall>i \<in> set (all_ops f). scratch_ok i"
  shows "effect_sig (fold_arg_setup f) = effect_sig f"
proof -
  have ok: "list_all scratch_ok (pb_ops b)" if "b \<in> set (pf_blocks f)" for b
    using that assms by (auto simp: list_all_iff in_all_ops)
  have "effect_sig (fold_arg_setup f) = effect_sig (on_ops fold_args_ops f)"
    unfolding fold_arg_setup_def
    by (rule effect_sig_on_ops, rule op_sig_stale_ops) (auto simp: fold_args_ops_inv ok)
  also have "\<dots> = effect_sig f"
    by (rule effect_sig_on_ops) (simp add: fold_args_ops_inv ok)
  finally show ?thesis .
qed

lemma scratch_ok_identity_op: "scratch_ok i \<Longrightarrow> scratch_ok (identity_op i)"
  by (auto simp: identity_op_def split: list.splits)

lemma scratch_ok_eliminate_identity:
  assumes "\<forall>i \<in> set (all_ops f). scratch_ok i"
  shows "\<forall>i \<in> set (all_ops (eliminate_identity f)). scratch_ok i"
  using assms by (fastforce simp: eliminate_identity_def all_ops_on_ops in_all_ops intro: scratch_ok_identity_op)

lemma effect_sig_propagate_run:
  assumes "\<forall>i \<in> set (all_ops f). scratch_ok i"
  shows "effect_sig (propagate_run f) = effect_sig f"
proof -
  have d: "effect_sig (dead_copy_elim g) = effect_sig g" for g
    using dead_copy_elim_safe [of g] by (intro effect_sig_effects) (simp add: safe_rewrite_def)
  have e: "effect_sig (eliminate_identity g) = effect_sig g" for g
    using eliminate_identity_safe [of g] by (intro effect_sig_effects) (simp add: safe_rewrite_def)
  show ?thesis
    unfolding propagate_run_def Let_def d effect_sig_constant_fold effect_sig_copy_propagation
      effect_sig_fold_flags
    using effect_sig_fold_arg_setup [OF scratch_ok_eliminate_identity [OF assms]] e [of f]
    by (rule trans)
qed

text \<open>
   The whole propagation pipeline keeps every effect: block by block, the stores, calls,
  intrinsics, returns and branches are the same operations at the same addresses in the same order
  after \<open>Propagate::run\<close> as before it (their operands may be rewritten), where no effectful
  operation other than a call outputs r10 or r11, which the x86 lifter guarantees.
\<close>

theorem propagate_run_keeps_effects:
  assumes "\<forall>i \<in> set (all_ops f). scratch_ok i"
  shows "map (\<lambda>b. map (\<lambda>i. (pi_op i, pi_addr i)) (filter (\<lambda>i. effectful (pi_op i)) (pb_ops b)))
       (pf_blocks (propagate_run f)) =
     map (\<lambda>b. map (\<lambda>i. (pi_op i, pi_addr i)) (filter (\<lambda>i. effectful (pi_op i)) (pb_ops b))) (pf_blocks f)"
  using effect_sig_propagate_run [OF assms] by (simp add: effect_sig_def op_sig_def)

text \<open>
  The set-up \<open>rcx := 5; store; call f(rcx)\<close>, \<open>return rax\<close>.
\<close>

definition pipeline_example :: pcode_func where
  "pipeline_example = block_func
     [make_insn COPY (vn_reg 1 ''rcx'' 8) [vn_const 5 8] 0,
      make_insn STORE default_vn [vn_reg 4 ''rsp'' 8, vn_reg 3 ''rbx'' 8] 4,
      make_insn CALL (vn_reg 0 ''rax'' 8) [vn_const 64 8, vn_reg 1 ''rcx'' 8] 8,
      make_insn RETURN default_vn [vn_reg 0 ''rax'' 8] 12]"

theorem propagate_run_keeps_effects_witness:
  "list_all scratch_ok (all_ops pipeline_example) \<and>
   map (\<lambda>b. map (\<lambda>i. (pi_op i, pi_addr i)) (filter (\<lambda>i. effectful (pi_op i)) (pb_ops b)))
       (pf_blocks (propagate_run pipeline_example)) = [[(STORE, 4), (CALL, 8), (RETURN, 12)]]"
proof -
  have w: "\<forall>i \<in> set (all_ops pipeline_example). scratch_ok i" by code_simp
  have "map (\<lambda>b. map (\<lambda>i. (pi_op i, pi_addr i)) (filter (\<lambda>i. effectful (pi_op i)) (pb_ops b)))
       (pf_blocks pipeline_example) = [[(STORE, 4), (CALL, 8), (RETURN, 12)]]" by code_simp
  with propagate_run_keeps_effects [OF w] w show ?thesis by (simp add: list_all_iff)
qed

section \<open>Two places where the pipeline confuses values\<close>

text \<open>
  \<open>fold_flags\<close> compares varnodes by kind and number and not by SSA version.  In
  \<open>zf1 := (rcx = rdx); zf2 := (rbx = 0); c := not zf2; if c goto\<close> the branch on \<open>rbx \<noteq> 0\<close>
  becomes a branch on \<open>rcx \<noteq> rdx\<close>.
\<close>

definition zf_version :: "u64 \<Rightarrow> varnode" where
  "zf_version n = (vn_reg 100 ''ZF'' 1)\<lparr>vn_offset := n\<rparr>"

definition two_compares :: pcode_func where
  "two_compares = block_func
     [make_insn INT_EQUAL (zf_version 1) [vn_reg 1 ''rcx'' 8, vn_reg 2 ''rdx'' 8] 0,
      make_insn INT_EQUAL (zf_version 2) [vn_reg 3 ''rbx'' 8, vn_const 0 8] 4,
      make_insn BOOL_NOT (vn_temp 256 1) [zf_version 2] 8,
      make_insn CBRANCH default_vn [vn_const 64 8, vn_temp 256 1] 8]"

definition alu_cmp :: alu_fn where
  "alu_cmp opc sz vs h = (case (opc, vs) of
     (INT_EQUAL, [l, r]) \<Rightarrow> (if l = r then 1 else 0)
   | (INT_NEQUAL, [l, r]) \<Rightarrow> (if l = r then 0 else 1)
   | (BOOL_NOT, [l]) \<Rightarrow> (if l = 0 then 1 else 0)
   | _ \<Rightarrow> 0)"

text \<open>
   Flag folding confuses two comparisons of one block: in the state with rdx = 1 and every
  other register 0, the branch condition of the example is 0 before \<open>fold_flags\<close> and 1 after it.
\<close>

theorem fold_flags_confuses_versions:
  "let env = (\<lambda>k. if k = (VReg, 2, 0, 8) then 1 else 0) in
   history alu_cmp (\<lambda>_ _ _. None) two_compares 1 0 0 (env, []) = [Event CBRANCH 8 [64, 0]] \<and>
   history alu_cmp (\<lambda>_ _ _. None) (fold_flags two_compares) 1 0 0 (env, []) = [Event CBRANCH 8 [64, 1]]"
  by code_simp

text \<open>
  \<open>fold_arg_setup\<close> takes any copy into the argument register, a phi included: the call of a block
  whose rcx is a phi of two predecessors gets the value of the first predecessor whatever block
  control came from.
\<close>

definition rcx_version :: "u64 \<Rightarrow> varnode" where
  "rcx_version n = (vn_reg 1 ''rcx'' 8)\<lparr>vn_offset := n\<rparr>"

definition phi_call :: pcode_func where
  "phi_call = block_func
     [(make_insn COPY (rcx_version 3) [rcx_version 1, rcx_version 2] 0)\<lparr>pi_seq := -1\<rparr>,
      make_insn CALL (vn_reg 0 ''rax'' 8) [vn_const 64 8, rcx_version 3] 8]"

text \<open>
   Argument folding loses a phi: entered from its second predecessor, the block calls with the
  second version of rcx before \<open>fold_arg_setup\<close> and with the first version after it.
\<close>

theorem fold_arg_setup_loses_phi:
  "let env = (\<lambda>k. if k = (VReg, 1, 1, 8) then 10 else if k = (VReg, 1, 2, 8) then 20 else 0) in
   history alu_cmp (\<lambda>_ _ _. None) phi_call 1 0 1 (env, []) = [Event CALL 8 [64, 20]] \<and>
   history alu_cmp (\<lambda>_ _ _. None) (fold_arg_setup phi_call) 1 0 1 (env, []) = [Event CALL 8 [64, 10]]"
  by code_simp

end
