(* ===== verification/Lifter_Correct.thy ===== *)
theory Lifter_Correct
  imports Lifter Ssa_Dom_Exact Dce Propagate_Effects
begin

text \<open>
  What the lifter guarantees to the passes after it: the outputs of effectful operations, no
  phi marks, complete predecessor lists, successors in range and blocks in address order.
\<close>

section \<open>An invariant of the lifting monad\<close>

definition lifted_ok :: "pcode_insn \<Rightarrow> bool" where
  "lifted_ok i \<longleftrightarrow> 0 \<le> pi_seq i \<and> pi_op i \<noteq> NOP \<and>
     (pi_op i \<in> {STORE, RETURN, CBRANCH, BRANCH} \<longrightarrow> pi_output i = default_vn) \<and>
     (pi_op i = INTRINSIC \<longrightarrow> is_temp (pi_output i)) \<and> (pi_op i = CALL \<longrightarrow> \<not> is_temp (pi_output i))"

definition lifter_ok :: "lifter \<Rightarrow> bool" where
  "lifter_ok s \<longleftrightarrow> 0 \<le> lf_seq s \<and> list_all lifted_ok (lf_ops s)"

definition keeps :: "'a lift \<Rightarrow> bool" where
  "keeps m \<longleftrightarrow> (\<forall>s. lifter_ok s \<longrightarrow> lifter_ok (snd (run_state m s)))"

named_theorems keeps_intros \<open>operations that keep the lifter's invariant\<close>

lemma keeps_return [keeps_intros]: "keeps (State_Monad.return x)"
  by (simp add: keeps_def State_Monad.return_def)

lemma keeps_bind [keeps_intros]: "keeps m \<Longrightarrow> (\<And>x. keeps (g x)) \<Longrightarrow> keeps (m \<bind> g)"
  by (auto simp: keeps_def State_Monad.bind_def split: prod.splits)

lemma keeps_if [keeps_intros]: "(b \<Longrightarrow> keeps m) \<Longrightarrow> (\<not> b \<Longrightarrow> keeps m') \<Longrightarrow> keeps (if b then m else m')"
  by simp

lemma keeps_alloc_temp [keeps_intros]: "keeps (alloc_temp sz)"
  by (simp add: keeps_def alloc_temp_def lifter_ok_def)

lemma keeps_note [keeps_intros]: "keeps (note_stack_var v)"
  by (simp add: keeps_def note_stack_var_def lifter_ok_def)

lemma keeps_set_has_return [keeps_intros]: "keeps set_has_return"
  by (simp add: keeps_def set_has_return_def lifter_ok_def)

definition emit_ok :: "pcode_op \<Rightarrow> varnode \<Rightarrow> bool" where
  "emit_ok opc out \<longleftrightarrow> opc \<noteq> NOP \<and> (opc \<in> {STORE, RETURN, CBRANCH, BRANCH} \<longrightarrow> out = default_vn) \<and>
     (opc = INTRINSIC \<longrightarrow> is_temp out) \<and> (opc = CALL \<longrightarrow> \<not> is_temp out)"

lemma keeps_emit: "emit_ok opc out \<Longrightarrow> keeps (emit opc out ins)"
  by (simp add: keeps_def emit_def lifter_ok_def lifted_ok_def emit_ok_def)

lemma keeps_emit_pure [keeps_intros]: "\<not> effectful opc \<Longrightarrow> opc \<noteq> NOP \<Longrightarrow> keeps (emit opc out ins)"
  by (rule keeps_emit) (auto simp: emit_ok_def effectful_def)

lemma keeps_emit_temp [keeps_intros]: "\<not> effectful opc \<Longrightarrow> opc \<noteq> NOP \<Longrightarrow> keeps (emit_temp opc sz ins)"
  unfolding emit_temp_def by (intro keeps_intros)

lemma pure_ops [simp]:
  "\<not> effectful COPY" "\<not> effectful LOAD" "\<not> effectful ADD" "\<not> effectful SUB" "\<not> effectful AND_OP"
  "\<not> effectful OR_OP" "\<not> effectful XOR_OP" "\<not> effectful INT_MULT" "\<not> effectful INT_DIV"
  "\<not> effectful INT_SDIV" "\<not> effectful INT_ZEXT" "\<not> effectful INT_SEXT" "\<not> effectful PIECE"
  "\<not> effectful SUBPIECE" "\<not> effectful INT_EQUAL" "\<not> effectful INT_NEQUAL" "\<not> effectful INT_LESS"
  "\<not> effectful INT_SLESS" "\<not> effectful BOOL_NOT" "\<not> effectful BOOL_OR" "\<not> effectful INT_NEGATE"
  by (simp_all add: effectful_def)

lemma pure_alu [simp]: "\<not> effectful (alu_op t)" "alu_op t \<noteq> NOP"
  by (simp_all add: alu_op_def effectful_def split: insn_type.split)

lemma keeps_option [keeps_intros]:
  "(a = None \<Longrightarrow> keeps m) \<Longrightarrow> (\<And>x. a = Some x \<Longrightarrow> keeps (g x)) \<Longrightarrow> keeps (case a of None \<Rightarrow> m | Some x \<Rightarrow> g x)"
  by (cases a) simp_all

lemma keeps_op_type [keeps_intros]:
  "keeps m1 \<Longrightarrow> keeps m2 \<Longrightarrow> keeps m3 \<Longrightarrow> keeps m4 \<Longrightarrow>
   keeps (case t of ONone \<Rightarrow> m1 | OReg \<Rightarrow> m2 | OImm \<Rightarrow> m3 | OMem \<Rightarrow> m4)"
  by (cases t) simp_all

lemma keeps_address_parts [keeps_intros]: "keeps (address_parts zy opnd)"
  unfolding address_parts_def add_index_def add_disp_def by (intro keeps_intros) simp_all

lemma keeps_effective_address [keeps_intros]: "keeps (effective_address zy opnd sz)"
  unfolding effective_address_def Let_def by (intro keeps_intros)

lemma keeps_operand_read [keeps_intros]: "keeps (operand_read zy i idx)"
  unfolding operand_read_def Let_def by (intro keeps_intros) simp_all

lemma keeps_reg_write [keeps_intros]: "keeps (reg_write zy ar opnd v)"
  unfolding reg_write_def Let_def by (intro keeps_intros) simp_all

lemma keeps_store [keeps_intros]: "keeps (emit STORE default_vn ins)"
  by (rule keeps_emit) (simp add: emit_ok_def)

lemma keeps_operand_write [keeps_intros]: "keeps (operand_write zy ar i idx v)"
  unfolding operand_write_def Let_def by (intro keeps_intros)

lemma keeps_emit_flags [keeps_intros]: "keeps (emit_flags lhs rhs t)"
  unfolding emit_flags_def Let_def by (intro keeps_intros) simp_all

lemma keeps_emit_condition [keeps_intros]: "keeps (emit_condition zy i)"
proof -
  have "keeps (emit_condition_kind k)" for k
    unfolding emit_condition_kind_def Let_def
    by (cases k; simp only: cond_kind.case; intro keeps_intros; simp)
  then show ?thesis by (simp add: emit_condition_def)
qed

lemma keeps_lift_cases:
  "keeps (lift_lea zy i)" "keeps (lift_alu zy ar i)" "keeps (lift_incdec zy ar i)" "keeps (lift_mul zy ar i)"
  "keeps (lift_div zy i)" "keeps (lift_movx zy ar i)" "keeps (lift_push zy ar i)" "keeps (lift_pop zy ar i)"
  unfolding lift_lea_def lift_alu_def lift_incdec_def lift_mul_def lift_div_def lift_movx_def
    lift_push_def lift_pop_def Let_def
  by (intro keeps_intros; simp)+

lemma keeps_lift_call: "keeps (lift_call db i)"
  unfolding lift_call_def Let_def
  by (intro keeps_intros keeps_emit) (simp_all add: emit_ok_def rax_vn_def vn_reg_def is_temp_def)

lemma keeps_lift_intrinsic: "keeps (lift_intrinsic zy ar i)"
proof -
  have "lifter_ok s \<Longrightarrow> lifter_ok (snd (run_state (lift_intrinsic zy ar i) s))" for s
    by (simp add: lift_intrinsic_def alloc_temp_def emit_def State_Monad.bind_def lifter_ok_def
        lifted_ok_def is_temp_def vn_temp_def)
  then show ?thesis by (simp add: keeps_def)
qed

lemma keeps_lift_insn_body: "keeps (lift_insn_body zy db i)"
  unfolding lift_insn_body_def Let_def
  by (cases "in_type i"; simp only: insn_type.case;
      (intro keeps_intros keeps_lift_cases keeps_lift_call keeps_lift_intrinsic keeps_emit; simp add: emit_ok_def))

text \<open>Setting the address and the sequence number of an instruction.\<close>

lemma lift_step_ok:
  assumes "keeps m" "list_all lifted_ok (lf_ops s)"
  shows "list_all lifted_ok (lf_ops (snd (run_state (State (\<lambda>s. ((), s\<lparr>lf_addr := a, lf_seq := 0\<rparr>)) \<bind> (\<lambda>_. m)) s)))"
  using assms(1) [unfolded keeps_def, rule_format, of "s\<lparr>lf_addr := a, lf_seq := 0\<rparr>"] assms(2)
  by (simp add: lifter_ok_def State_Monad.bind_def)

section \<open>Blocks\<close>

lemma block_index_range: "block_index a order = Some i \<Longrightarrow> 0 \<le> i \<and> i < int (length order) \<and> order ! nat i = a"
proof (induction order arbitrary: i)
  case Nil
  then show ?case by simp
next
  case (Cons x xs)
  show ?case
  proof (cases "x = a")
    case True
    with Cons.prems show ?thesis by simp
  next
    case False
    then obtain j where "block_index a xs = Some j" "i = j + 1" using Cons.prems by auto
    with Cons.IH [of j] show ?thesis by (auto simp: nat_add_distrib)
  qed
qed

lemma map_succs_range: "s \<in> set (map_succs order ss) \<Longrightarrow> 0 \<le> s \<and> s < int (length order)"
  by (auto simp: map_succs_def List.map_filter_def dest: block_index_range split: option.splits)

text \<open>Predecessor lists change nothing else.\<close>

definition same_but_preds :: "pcode_block list \<Rightarrow> pcode_block list \<Rightarrow> bool" where
  "same_but_preds bs bs' \<longleftrightarrow> map (\<lambda>b. b\<lparr>pb_preds := []\<rparr>) bs = map (\<lambda>b. b\<lparr>pb_preds := []\<rparr>) bs'"

lemma same_but_preds_length: "same_but_preds bs bs' \<Longrightarrow> length bs = length bs'"
  unfolding same_but_preds_def by (metis length_map)

lemma same_but_preds_nth:
  assumes "same_but_preds bs bs'" "i < length bs'"
  shows "pb_succs (bs ! i) = pb_succs (bs' ! i)" "pb_ops (bs ! i) = pb_ops (bs' ! i)"
    "pb_addr (bs ! i) = pb_addr (bs' ! i)"
proof -
  have "(bs ! i)\<lparr>pb_preds := []\<rparr> = (bs' ! i)\<lparr>pb_preds := []\<rparr>"
    using assms same_but_preds_length [OF assms(1)] unfolding same_but_preds_def by (metis nth_map)
  then show "pb_succs (bs ! i) = pb_succs (bs' ! i)" "pb_ops (bs ! i) = pb_ops (bs' ! i)"
    "pb_addr (bs ! i) = pb_addr (bs' ! i)"
    by (cases "bs ! i", cases "bs' ! i", simp)+
qed

lemma same_but_preds_map:
  assumes "same_but_preds bs bs'" "\<And>b x. g (b\<lparr>pb_preds := x\<rparr>) = g b"
  shows "map g bs = map g bs'"
proof -
  have "map g bs = map g (map (\<lambda>b. b\<lparr>pb_preds := []\<rparr>) bs)" for bs using assms(2) by simp
  then show ?thesis using assms(1) unfolding same_but_preds_def by metis
qed

lemma add_pred_spec:
  "same_but_preds (add_pred i s bs) bs"
  "j < length bs \<Longrightarrow> set (pb_preds (add_pred i s bs ! j)) =
     set (pb_preds (bs ! j)) \<union> (if s = int j then {i} else {})"
  by (auto simp: add_pred_def same_but_preds_def nth_list_update intro!: nth_equalityI)

lemma add_preds_spec:
  "same_but_preds (fold (add_pred i) ss bs) bs \<and> (\<forall>j < length bs.
     set (pb_preds (fold (add_pred i) ss bs ! j)) = set (pb_preds (bs ! j)) \<union> (if int j \<in> set ss then {i} else {}))"
proof (induction ss arbitrary: bs)
  case Nil
  then show ?case by (simp add: same_but_preds_def)
next
  case (Cons s ss)
  let ?bs = "add_pred i s bs"
  have len: "length ?bs = length bs" by (rule same_but_preds_length) (rule add_pred_spec)
  have "same_but_preds (fold (add_pred i) ss ?bs) bs"
    using Cons.IH [of ?bs] add_pred_spec(1) [of i s bs] by (simp add: same_but_preds_def)
  moreover have "set (pb_preds (fold (add_pred i) ss ?bs ! j)) =
      set (pb_preds (bs ! j)) \<union> (if int j \<in> set (s # ss) then {i} else {})" if "j < length bs" for j
    using Cons.IH [of ?bs] add_pred_spec(2) [OF that, of i s] that len by auto
  ultimately show ?case by simp
qed

lemma build_preds_fold:
  "same_but_preds (fold (\<lambda>(i, blk) bs'. fold (add_pred (int i)) (pb_succs blk) bs') (enumerate k blks) bs) bs \<and>
   (\<forall>j < length bs. \<forall>i < length blks. int j \<in> set (pb_succs (blks ! i)) \<longrightarrow>
     int (k + i) \<in>
     set (pb_preds (fold (\<lambda>(i, blk) bs'. fold (add_pred (int i)) (pb_succs blk) bs') (enumerate k blks) bs ! j))) \<and>
   (\<forall>j < length bs. set (pb_preds (bs ! j)) \<subseteq>
     set (pb_preds (fold (\<lambda>(i, blk) bs'. fold (add_pred (int i)) (pb_succs blk) bs') (enumerate k blks) bs ! j))) \<and>
   (\<forall>j < length bs. \<forall>p \<in>
     set (pb_preds (fold (\<lambda>(i, blk) bs'. fold (add_pred (int i)) (pb_succs blk) bs') (enumerate k blks) bs ! j)).
     p \<in> set (pb_preds (bs ! j)) \<or> (\<exists>i < length blks. p = int (k + i) \<and> int j \<in> set (pb_succs (blks ! i))))"
proof (induction blks arbitrary: k bs)
  case Nil
  then show ?case by (simp add: same_but_preds_def)
next
  case (Cons blk blks)
  let ?bs = "fold (add_pred (int k)) (pb_succs blk) bs"
  let ?F = "fold (\<lambda>(i, blk) bs'. fold (add_pred (int i)) (pb_succs blk) bs') (enumerate (Suc k) blks) ?bs"
  have sbp: "same_but_preds ?bs bs" and pr: "\<forall>j < length bs.
     set (pb_preds (?bs ! j)) = set (pb_preds (bs ! j)) \<union> (if int j \<in> set (pb_succs blk) then {int k} else {})"
    using add_preds_spec [of "int k" "pb_succs blk" bs] by auto
  have len: "length ?bs = length bs" by (rule same_but_preds_length [OF sbp])
  have IH: "same_but_preds ?F ?bs" "\<forall>j < length bs. \<forall>i < length blks. int j \<in> set (pb_succs (blks ! i)) \<longrightarrow>
     int (Suc k + i) \<in> set (pb_preds (?F ! j))"
     "\<forall>j < length bs. set (pb_preds (?bs ! j)) \<subseteq> set (pb_preds (?F ! j))"
     "\<forall>j < length bs. \<forall>p \<in> set (pb_preds (?F ! j)). p \<in> set (pb_preds (?bs ! j)) \<or>
        (\<exists>i < length blks. p = int (Suc k + i) \<and> int j \<in> set (pb_succs (blks ! i)))"
    using Cons.IH [of "Suc k" ?bs] len by auto
  have "int (k + i) \<in> set (pb_preds (?F ! j))"
    if "j < length bs" "i < length (blk # blks)" "int j \<in> set (pb_succs ((blk # blks) ! i))" for i j
    using that IH(2,3) pr by (cases i) auto
  moreover have "set (pb_preds (bs ! j)) \<subseteq> set (pb_preds (?F ! j))" if "j < length bs" for j
    using that IH(3) pr by auto
  moreover have "p \<in> set (pb_preds (bs ! j)) \<or>
      (\<exists>i < length (blk # blks). p = int (k + i) \<and> int j \<in> set (pb_succs ((blk # blks) ! i)))"
    if j: "j < length bs" and p: "p \<in> set (pb_preds (?F ! j))" for j p
  proof -
    from IH(4) j p consider "p \<in> set (pb_preds (?bs ! j))"
      | i where "i < length blks" "p = int (Suc k + i)" "int j \<in> set (pb_succs (blks ! i))" by blast
    then show ?thesis
    proof cases
      case 1
      then show ?thesis using pr j by (auto split: if_splits)
    next
      case 2
      then show ?thesis by (intro disjI2 exI [of _ "Suc i"]) simp
    qed
  qed
  moreover have "same_but_preds ?F bs" using IH(1) sbp by (simp add: same_but_preds_def)
  ultimately show ?case by simp
qed

lemma build_preds_spec:
  "same_but_preds (build_preds bs) bs"
  "j < length bs \<Longrightarrow> i < length bs \<Longrightarrow> int j \<in> set (pb_succs (bs ! i)) \<Longrightarrow>
   int i \<in> set (pb_preds (build_preds bs ! j))"
  "j < length bs \<Longrightarrow> p \<in> set (pb_preds (build_preds bs ! j)) \<Longrightarrow> pb_preds (bs ! j) = [] \<Longrightarrow>
   \<exists>i < length bs. p = int i \<and> int j \<in> set (pb_succs (bs ! i))"
  using build_preds_fold [of 0 bs bs] by (auto simp: build_preds_def)

lemma lifted_ok_assumptions:
  assumes "lifted_ok i"
  shows "store_ok i \<and> scratch_ok i \<and> phi_ok i"
proof (intro conjI)
  have d: "\<not> is_reg default_vn" "\<not> is_flag_reg (vn_id default_vn)"
    by (simp_all add: default_vn_def is_reg_def is_flag_reg_def)
  show "store_ok i" using assms d by (auto simp: lifted_ok_def store_ok_def)
  show "phi_ok i" using assms by (simp add: lifted_ok_def phi_ok_def)
  show "scratch_ok i"
    unfolding scratch_ok_def
  proof (rule impI)
    assume e: "effectful (pi_op i) \<and> pi_op i \<noteq> CALL"
    then consider "pi_op i \<in> {STORE, RETURN, CBRANCH, BRANCH}" | "pi_op i = INTRINSIC"
      unfolding effectful_def by blast
    then show "\<not> (is_reg (pi_output i) \<and> vn_id (pi_output i) \<in> {10, 11})"
    proof cases
      case 1
      then have "pi_output i = default_vn" using assms unfolding lifted_ok_def by blast
      then show ?thesis using d by simp
    next
      case 2
      then have "is_temp (pi_output i)" using assms unfolding lifted_ok_def by blast
      then show ?thesis by (simp add: is_temp_def is_reg_def)
    qed
  qed
qed

section \<open>What the passes assume\<close>

definition pass_ready :: "pcode_func \<Rightarrow> bool" where
  "pass_ready pf \<longleftrightarrow> (\<forall>i \<in> set (all_ops pf). store_ok i \<and> scratch_ok i \<and> phi_ok i) \<and>
     preds_complete (pf_blocks pf) \<and> preds_sound (pf_blocks pf) \<and>
     (\<forall>b \<in> set (pf_blocks pf). \<forall>s \<in> set (pb_succs b). in_range (pf_blocks pf) s)"

text \<open>
  A lifter of instructions: what its case analysis over the mnemonics or types must guarantee, and
  what follows for the functions lifted with it.
\<close>

locale insn_lifter =
  fixes step :: "insn \<Rightarrow> unit lift"
  assumes step_ok: "list_all lifted_ok (lf_ops s) \<Longrightarrow> list_all lifted_ok (lf_ops (snd (run_state (step i) s)))"
begin

lemma insns_ok: "list_all lifted_ok (lf_ops s) \<Longrightarrow> list_all lifted_ok (lf_ops (lift_insns step is s))"
  by (induction "is" arbitrary: s) (simp_all add: step_ok)

lemma blocks_spec:
  "lift_blocks step order k bbs s = (blks, s') \<Longrightarrow>
   length blks = length bbs \<and> map pb_addr blks = map bb_start bbs \<and>
   (\<forall>b \<in> set blks. list_all lifted_ok (pb_ops b) \<and> pb_preds b = [] \<and>
      (\<forall>x \<in> set (pb_succs b). 0 \<le> x \<and> x < int (length order)))"
proof (induction bbs arbitrary: k s blks s')
  case Nil
  then show ?case by simp
next
  case (Cons bb bbs)
  define t where "t = lift_insns step (bb_insns bb) (fresh_block s)"
  obtain rest s'' where r: "lift_blocks step order (k + 1) bbs t = (rest, s'')" by (metis surj_pair)
  have "list_all lifted_ok (lf_ops t)"
    unfolding t_def by (rule insns_ok) (simp add: fresh_block_def)
  moreover have "\<forall>x \<in> set (map_succs order (bb_succs bb)). 0 \<le> x \<and> x < int (length order)"
    using map_succs_range by blast
  ultimately show ?case
    using Cons.prems Cons.IH [OF r] by (auto simp: r t_def [symmetric] Let_def)
qed

lemma before_preds:
  obtains blks where "fst (lifted_blocks step f) = build_preds blks"
    "length blks = length (fn_blocks f)"
    "\<forall>b \<in> set blks. list_all lifted_ok (pb_ops b) \<and> pb_preds b = [] \<and>
       (\<forall>x \<in> set (pb_succs b). 0 \<le> x \<and> x < int (length (block_order f)))"
proof -
  let ?order = "block_order f"
  define bbs where "bbs = List.map_filter (map_of (fn_blocks f)) ?order"
  have found: "map_of (fn_blocks f) a \<noteq> None" if "a \<in> set ?order" for a
    using that by (auto simp: block_order_def map_of_eq_None_iff)
  have "length (List.map_filter (map_of (fn_blocks f)) xs) = length xs" if "set xs \<subseteq> set ?order" for xs
    using that
  proof (induction xs)
    case (Cons x xs)
    then obtain bb where "map_of (fn_blocks f) x = Some bb" using found [of x] by auto
    with Cons show ?case by (simp add: List.map_filter_simps)
  qed (simp add: List.map_filter_simps)
  then have bbs: "length bbs = length ?order" by (simp add: bbs_def)
  obtain blks s where r: "lift_blocks step ?order 0 bbs initial_lifter = (blks, s)" by (metis surj_pair)
  show ?thesis
  proof (rule that [of blks])
    show "fst (lifted_blocks step f) = build_preds blks"
      by (simp add: lifted_blocks_def Let_def bbs_def [symmetric] r)
    show "length blks = length (fn_blocks f)"
      using blocks_spec [OF r] by (simp add: bbs block_order_def)
  qed (use blocks_spec [OF r] in auto)
qed

lemma ready:
  assumes "pf_blocks pf = fst (lifted_blocks step f)"
  shows "pass_ready pf" "length (pf_blocks pf) = length (fn_blocks f)"
proof -
  obtain blks where b: "fst (lifted_blocks step f) = build_preds blks"
    "length blks = length (fn_blocks f)"
    "\<forall>b \<in> set blks. list_all lifted_ok (pb_ops b) \<and> pb_preds b = [] \<and>
       (\<forall>x \<in> set (pb_succs b). 0 \<le> x \<and> x < int (length (block_order f)))"
    by (rule before_preds)
  note pf = assms [unfolded b(1)]
  have len: "length (build_preds blks) = length blks" by (rule same_but_preds_length) (rule build_preds_spec)
  show "length (pf_blocks pf) = length (fn_blocks f)" by (simp add: pf len b(2))
  have same: "map pb_ops (build_preds blks) = map pb_ops blks" "map pb_succs (build_preds blks) = map pb_succs blks"
    by (rule same_but_preds_map [OF build_preds_spec(1)], simp)+
  have ops: "store_ok i \<and> scratch_ok i \<and> phi_ok i" if "i \<in> set (all_ops pf)" for i
    by (rule lifted_ok_assumptions) (use that b(3) same(1) in \<open>auto simp: all_ops_def pf list_all_iff\<close>)
  have rng: "in_range (build_preds blks) s" if "b' \<in> set (build_preds blks)" "s \<in> set (pb_succs b')" for b' s
  proof -
    have "pb_succs b' \<in> set (map pb_succs blks)" using that(1) same(2) by (metis image_eqI list.set_map)
    then have "0 \<le> s \<and> s < int (length (block_order f))" using b(3) that(2) by auto
    then show ?thesis using b(2) len by (simp add: in_range_def block_order_def)
  qed
  have pc: "preds_complete (build_preds blks)"
    unfolding preds_complete_def
  proof (intro allI impI ballI)
    fix p s assume p: "p < length (build_preds blks)" "s \<in> set (pb_succs (build_preds blks ! p))"
      and s: "in_range (build_preds blks) s"
    have "s \<in> set (pb_succs (blks ! p))"
      using p len same_but_preds_nth(1) [OF build_preds_spec(1), of p blks] by simp
    then show "int p \<in> set (pb_preds (build_preds blks ! nat s))"
      using p s len build_preds_spec(2) [of "nat s" blks p] by (auto simp: in_range_int_length)
  qed
  have ps: "preds_sound (build_preds blks)"
    unfolding preds_sound_def
  proof (intro allI impI ballI)
    fix j p assume j: "j < length (build_preds blks)" and p: "p \<in> set (pb_preds (build_preds blks ! j))"
    have "pb_preds (blks ! j) = []" using b(3) j len by simp
    then obtain i where i: "i < length blks" "p = int i" "int j \<in> set (pb_succs (blks ! i))"
      using build_preds_spec(3) [of j blks p] j p len by auto
    then show "in_range (build_preds blks) p \<and> int j \<in> set (pb_succs (build_preds blks ! nat p))"
      using len same_but_preds_nth(1) [OF build_preds_spec(1) i(1)] by (simp add: in_range_def)
  qed
  show "pass_ready pf" unfolding pass_ready_def using ops rng pc ps by (auto simp: pf)
qed

end

interpretation x86: insn_lifter "lift_insn zy db" for zy db
  by unfold_locales (unfold lift_insn_def, rule lift_step_ok [OF keeps_lift_insn_body])

lemma lift_func_ready: "pass_ready (lift_func zy db f)" "length (pf_blocks (lift_func zy db f)) = length (fn_blocks f)"
  by (rule x86.ready [where f = f and zy = zy and db = db], simp add: lift_func_def split: prod.split)+

text \<open>A function of two blocks, the first a loop on itself.\<close>

definition tiny_zydis :: zydis where
  "tiny_zydis = \<lparr>zy_reg = (\<lambda>_. 0), zy_mnem = (\<lambda>_. 0), zy_text = (\<lambda>_ _. ''?'')\<rparr>"

definition tiny_insn :: "va_t \<Rightarrow> insn_type \<Rightarrow> insn" where
  "tiny_insn a t = empty_insn\<lparr>in_addr := a, in_mnemonic := ''jz'', in_type := t\<rparr>"

definition tiny_func :: func where
  "tiny_func = (new_func 16 ''f'')\<lparr>fn_blocks :=
     [(32, (empty_block 32)\<lparr>bb_insns := [tiny_insn 32 IRet]\<rparr>),
      (16, (empty_block 16)\<lparr>bb_insns := [tiny_insn 16 IJcc], bb_succs := [16, 32]\<rparr>)]\<rparr>"

definition tiny_db :: analysis_db where
  "tiny_db = db_over no_types X64 0"

end
