(* ===== verification/Lifter_Arm.thy ===== *)
theory Lifter_Arm
  imports Lifter
begin

text \<open>
  The 32-bit ARM lifter (\<open>src/src/hyperion/core/decompiler/lifter_arm.cpp\<close>), and the operand code it
  shares word for word with the 64-bit one.  Capstone is not part of the repository: the numbers of
  its register constants are the functions \<open>cs_arm\<close> (\<open>ARM_REG_\<close>) and \<open>cs_arm64\<close> (\<open>ARM64_REG_\<close>) of
  the record \<open>capstone\<close>, from the rest of the constant's name.  Both lifters go by the text of the
  mnemonic.
\<close>

record capstone =
  cs_arm :: "string \<Rightarrow> int"
  cs_arm64 :: "string \<Rightarrow> int"

section \<open>Operands\<close>

text \<open>
  The address of a memory operand, without a scale; \<open>reg\<close> is the lifter's \<open>reg_vn\<close> and \<open>sz\<close> the size
  of its temporaries.
\<close>

definition mem_address :: "(int \<Rightarrow> varnode) \<Rightarrow> int \<Rightarrow> operand \<Rightarrow> varnode lift" where
  "mem_address reg sz opnd =
     (let base = (if o_base opnd \<noteq> 0 then Some (reg (uint (o_base opnd))) else None) in do {
        a \<leftarrow> (if o_index opnd \<noteq> 0 then
                (case base of
                   Some address \<Rightarrow> do {
                     t \<leftarrow> emit_temp ADD sz [address, reg (uint (o_index opnd))];
                     State_Monad.return (Some t) }
                 | None \<Rightarrow> State_Monad.return (Some (reg (uint (o_index opnd)))))
              else State_Monad.return base);
        b \<leftarrow> add_disp sz opnd a;
        State_Monad.return (case b of Some v \<Rightarrow> v | None \<Rightarrow> vn_const 0 8) })"

definition flat_read :: "(int \<Rightarrow> varnode) \<Rightarrow> int \<Rightarrow> (operand \<Rightarrow> int) \<Rightarrow> insn \<Rightarrow> nat \<Rightarrow> varnode lift" where
  "flat_read reg sz load_size i idx =
     (if in_op_count i \<le> idx then State_Monad.return (vn_const 0 8)
      else (let opnd = operand_at i idx in
        case o_type opnd of
          OReg \<Rightarrow> State_Monad.return (reg (uint (o_reg opnd)))
        | OImm \<Rightarrow> State_Monad.return (vn_const (o_val opnd) 8)
        | OMem \<Rightarrow> do { addr \<leftarrow> mem_address reg sz opnd; emit_temp LOAD (load_size opnd) [addr] }
        | ONone \<Rightarrow> State_Monad.return (vn_const 0 8)))"

definition flat_write :: "(int \<Rightarrow> varnode) \<Rightarrow> int \<Rightarrow> insn \<Rightarrow> nat \<Rightarrow> varnode \<Rightarrow> unit lift" where
  "flat_write reg sz i idx val =
     (if in_op_count i \<le> idx then State_Monad.return ()
      else (let opnd = operand_at i idx in
        case o_type opnd of
          OReg \<Rightarrow> emit COPY (reg (uint (o_reg opnd))) [val]
        | OMem \<Rightarrow> do { addr \<leftarrow> mem_address reg sz opnd; emit STORE default_vn [addr, val] }
        | _ \<Rightarrow> State_Monad.return ()))"

text \<open>
  An operation on the second and third operand into the first, or on the first two of two; the
  operands that are read twice are loaded twice.
\<close>

definition lift_three ::
  "(insn \<Rightarrow> nat \<Rightarrow> varnode lift) \<Rightarrow> (insn \<Rightarrow> nat \<Rightarrow> varnode \<Rightarrow> unit lift) \<Rightarrow> pcode_op \<Rightarrow> insn \<Rightarrow> unit lift" where
  "lift_three rd wr opc i = do {
     l \<leftarrow> rd i 1;
     r \<leftarrow> rd i 2;
     lhs \<leftarrow> (if in_op_count i = 2 then rd i 0 else State_Monad.return l);
     rhs \<leftarrow> (if in_op_count i = 2 then rd i 1 else State_Monad.return r);
     res \<leftarrow> emit_temp opc (vn_size lhs) [lhs, rhs];
     wr i 0 res }"

text \<open>Insert an immediate under a mask: \<open>movt\<close> and \<open>movk\<close>.\<close>

definition lift_insert ::
  "(insn \<Rightarrow> nat \<Rightarrow> varnode lift) \<Rightarrow> (insn \<Rightarrow> nat \<Rightarrow> varnode \<Rightarrow> unit lift) \<Rightarrow> u64 \<Rightarrow> u64 \<Rightarrow> insn \<Rightarrow> unit lift" where
  "lift_insert rd wr keep imm i = do {
     old \<leftarrow> rd i 0;
     cleared \<leftarrow> emit_temp AND_OP (vn_size old) [old, vn_const keep (vn_size old)];
     placed \<leftarrow> emit_temp OR_OP (vn_size old) [cleared, vn_const imm (vn_size old)];
     wr i 0 placed }"

definition imm_of :: "operand \<Rightarrow> u64" where
  "imm_of opnd = (if o_type opnd = OImm then o_val opnd else 0)"

definition lift_asm :: "int \<Rightarrow> insn \<Rightarrow> unit lift" where
  "lift_asm sz i = do {
     t \<leftarrow> alloc_temp sz;
     result \<leftarrow> alloc_temp sz;
     emit INTRINSIC result
       [t\<lparr>vn_name := ''__asm { '' @ in_mnemonic i @ '' '' @ in_op_str i @ '' }''\<rparr>] }"

text \<open>The callee of a \<open>bl\<close>: named only where the database has a name.\<close>

definition callee :: "analysis_db \<Rightarrow> insn \<Rightarrow> varnode" where
  "callee db i =
     (let target = branch_target i; fn_addr = vn_const target 8 in
      if target \<noteq> 0 then
        (case db_names db target of Some nm \<Rightarrow> fn_addr\<lparr>vn_name := nm\<rparr> | None \<Rightarrow> fn_addr)
      else fn_addr)"

section \<open>The 32-bit lifter\<close>

text \<open>\<open>snprintf\<close> into eight bytes keeps seven characters.\<close>

definition arm_reg_vn :: "capstone \<Rightarrow> int \<Rightarrow> varnode" where
  "arm_reg_vn cs r =
     (let c = cs_arm cs in
      if r = c ''INVALID'' then vn_const 0 8
      else vn_reg r
        (if c ''R0'' \<le> r \<and> r \<le> c ''R12'' then take 7 (''r'' @ int_str (r - c ''R0''))
         else if r = c ''SP'' then ''sp''
         else if r = c ''LR'' then ''lr''
         else if r = c ''PC'' then ''pc'' else ''unk'') 4)"

definition arm_read :: "capstone \<Rightarrow> insn \<Rightarrow> nat \<Rightarrow> varnode lift" where
  "arm_read cs = flat_read (arm_reg_vn cs) 4 (\<lambda>_. 4)"

definition arm_write :: "capstone \<Rightarrow> insn \<Rightarrow> nat \<Rightarrow> varnode \<Rightarrow> unit lift" where
  "arm_write cs = flat_write (arm_reg_vn cs) 4"

definition arm_branch :: "capstone \<Rightarrow> analysis_db \<Rightarrow> insn \<Rightarrow> unit lift" where
  "arm_branch cs db i =
     (let mn = in_mnemonic i; r0 = arm_reg_vn cs (cs_arm cs ''R0'') in
      if mn = ''bl'' \<or> mn = ''blx'' then emit CALL r0 [callee db i]
      else if mn = ''bx'' \<and> o_type (operand_at i 0) = OReg \<and> uint (o_reg (operand_at i 0)) = cs_arm cs ''LR'' then
        do { set_has_return; emit RETURN default_vn [r0] }
      else emit BRANCH default_vn [vn_const (branch_target i) 8])"

definition arm_lift_body :: "capstone \<Rightarrow> analysis_db \<Rightarrow> insn \<Rightarrow> unit lift" where
  "arm_lift_body cs db i =
     (let mn = in_mnemonic i; rd = arm_read cs; wr = arm_write cs in
      if mn = ''movt'' then
        (if 2 \<le> in_op_count i
         then lift_insert rd wr 0xFFFF (push_bit 16 (imm_of (operand_at i 1))) i
         else State_Monad.return ())
      else if mn \<in> {''mov'', ''movw''} then do { src \<leftarrow> rd i 1; wr i 0 src }
      else if mn \<in> {''add'', ''adds''} then lift_three rd wr ADD i
      else if mn \<in> {''sub'', ''subs''} then lift_three rd wr SUB i
      else if mn \<in> {''ldr'', ''ldrb'', ''ldrh''} then do { res \<leftarrow> rd i 1; wr i 0 res }
      else if mn \<in> {''str'', ''strb'', ''strh''} then do { val \<leftarrow> rd i 0; wr i 1 val }
      else if mn \<in> {''b'', ''bl'', ''bx'', ''blx''} then arm_branch cs db i
      else lift_asm 4 i)"

definition arm_lift_insn :: "capstone \<Rightarrow> analysis_db \<Rightarrow> insn \<Rightarrow> unit lift" where
  "arm_lift_insn cs db i = do {
     State (\<lambda>s. ((), s\<lparr>lf_addr := in_addr i, lf_seq := 0\<rparr>));
     arm_lift_body cs db i }"

definition lift_arm :: "capstone \<Rightarrow> analysis_db \<Rightarrow> func \<Rightarrow> pcode_func" where
  "lift_arm cs db f =
     (let (blks, s) = lifted_blocks (arm_lift_insn cs db) f
      in \<lparr>pf_entry = fn_entry f,
          pf_name = (if fn_name f = [] then ''sub_'' @ hex_upper (fn_entry f) else fn_name f),
          pf_blocks = blks, pf_next_temp = lf_next_temp s, pf_next_ssa = 0,
          pf_params = map (\<lambda>r. arm_reg_vn cs (cs_arm cs r)) [''R0'', ''R1'', ''R2'', ''R3''],
          pf_locals = []\<rparr>)"

end
