(* ===== verification/Lifter_Arm64.thy ===== *)
theory Lifter_Arm64
  imports Lifter_Arm
begin

text \<open>
  The 64-bit ARM lifter (\<open>src/src/hyperion/core/decompiler/lifter_arm64.cpp\<close>), branch by branch in the
  order of the source's comparisons of the mnemonic.
\<close>

section \<open>Registers and operands\<close>

definition a64_reg_name :: "capstone \<Rightarrow> int \<Rightarrow> string \<times> int" where
  "a64_reg_name cs r =
     (let c = cs_arm64 cs in
      if c ''X0'' \<le> r \<and> r \<le> c ''X28'' then (take 7 (''x'' @ int_str (r - c ''X0'')), 8)
      else if c ''W0'' \<le> r \<and> r \<le> c ''W30'' then (take 7 (''w'' @ int_str (r - c ''W0'')), 4)
      else if r = c ''X29'' then (''x29'', 8)
      else if r = c ''X30'' then (''x30'', 8)
      else if r = c ''SP'' then (''sp'', 8)
      else if r = c ''WSP'' then (''wsp'', 4)
      else if r = c ''NZCV'' then (''nzcv'', 4)
      else (''unk'', 8))"

definition a64_reg_vn :: "capstone \<Rightarrow> int \<Rightarrow> varnode" where
  "a64_reg_vn cs r =
     (let c = cs_arm64 cs in
      if r = c ''INVALID'' then vn_const 0 8
      else if r = c ''XZR'' \<or> r = c ''WZR'' then vn_const 0 (if r = c ''WZR'' then 4 else 8)
      else (case a64_reg_name cs r of (nm, sz) \<Rightarrow> vn_reg r nm sz))"

definition a64_load_size :: "operand \<Rightarrow> int" where
  "a64_load_size opnd = (if o_size opnd div 8 < 1 then 8 else o_size opnd div 8)"

definition a64_read :: "capstone \<Rightarrow> insn \<Rightarrow> nat \<Rightarrow> varnode lift" where
  "a64_read cs = flat_read (a64_reg_vn cs) 8 a64_load_size"

definition a64_write :: "capstone \<Rightarrow> insn \<Rightarrow> nat \<Rightarrow> varnode \<Rightarrow> unit lift" where
  "a64_write cs = flat_write (a64_reg_vn cs) 8"

definition a64_reg :: "capstone \<Rightarrow> string \<Rightarrow> varnode" where
  "a64_reg cs nm = a64_reg_vn cs (cs_arm64 cs nm)"

section \<open>Data processing\<close>

definition a64_movk :: "capstone \<Rightarrow> insn \<Rightarrow> unit lift" where
  "a64_movk cs i =
     (if 2 \<le> in_op_count i then
        (let shift = (if 3 \<le> in_op_count i \<and> o_type (operand_at i 2) = OImm then unat (o_val (operand_at i 2)) else 0)
         in lift_insert (a64_read cs) (a64_write cs) (NOT (push_bit shift 0xFFFF))
              (push_bit shift (imm_of (operand_at i 1))) i)
      else State_Monad.return ())"

definition a64_mul :: "capstone \<Rightarrow> insn \<Rightarrow> unit lift" where
  "a64_mul cs i = do {
     op1 \<leftarrow> a64_read cs i 1;
     op2 \<leftarrow> a64_read cs i 2;
     res \<leftarrow> emit_temp INT_MULT (vn_size op1) [op1, op2];
     res2 \<leftarrow> (if in_mnemonic i = ''madd'' \<and> in_op_count i = 4 then do {
                 op3 \<leftarrow> a64_read cs i 3;
                 emit_temp ADD (vn_size op1) [op3, res] }
               else State_Monad.return res);
     a64_write cs i 0 res2 }"

text \<open>A bitwise operation, with the second operand complemented for the mnemonics in \<open>neg\<close>.\<close>

definition a64_logic :: "capstone \<Rightarrow> pcode_op \<Rightarrow> string list \<Rightarrow> insn \<Rightarrow> unit lift" where
  "a64_logic cs opc neg i = do {
     lhs \<leftarrow> a64_read cs i 1;
     r \<leftarrow> a64_read cs i 2;
     rhs \<leftarrow> (if in_mnemonic i \<in> set neg then emit_temp INT_NEGATE (vn_size r) [r] else State_Monad.return r);
     res \<leftarrow> emit_temp opc (vn_size lhs) [lhs, rhs];
     a64_write cs i 0 res }"

definition a64_shift :: "capstone \<Rightarrow> pcode_op \<Rightarrow> insn \<Rightarrow> unit lift" where
  "a64_shift cs opc i = do {
     lhs \<leftarrow> a64_read cs i 1;
     rhs \<leftarrow> a64_read cs i 2;
     res \<leftarrow> emit_temp opc (vn_size lhs) [lhs, rhs];
     a64_write cs i 0 res }"

definition a64_shift_op :: "string \<Rightarrow> pcode_op" where
  "a64_shift_op mn = (if mn = ''lsr'' then SHIFT_RIGHT else if mn = ''asr'' then SHIFT_RIGHT else SHIFT_LEFT)"

section \<open>Loads and stores\<close>

definition a64_load :: "capstone \<Rightarrow> insn \<Rightarrow> unit lift" where
  "a64_load cs i = do {
     res \<leftarrow> a64_read cs i 1;
     ext \<leftarrow> (if in_mnemonic i \<in> {''ldrsw'', ''ldrsh'', ''ldrsb''}
              then emit_temp INT_SEXT (o_size (operand_at i 0)) [res] else State_Monad.return res);
     a64_write cs i 0 ext }"

definition pair_address :: "capstone \<Rightarrow> insn \<Rightarrow> varnode lift" where
  "pair_address cs i =
     (let m = operand_at i 2; base = a64_reg_vn cs (uint (o_base m)) in
      if o_type m = OMem then
        (if o_disp m \<noteq> 0 then emit_temp ADD 8 [base, vn_const (o_disp m) 8] else State_Monad.return base)
      else State_Monad.return (vn_const 0 8))"

definition pair_size :: "insn \<Rightarrow> int" where
  "pair_size i = (let sz = o_size (operand_at i 0) div 8 in if sz < 4 then 8 else sz)"

definition a64_ldp :: "capstone \<Rightarrow> insn \<Rightarrow> unit lift" where
  "a64_ldp cs i =
     (let sz = pair_size i in do {
        addr \<leftarrow> pair_address cs i;
        l1 \<leftarrow> emit_temp LOAD sz [addr];
        a64_write cs i 0 l1;
        addr2 \<leftarrow> emit_temp ADD 8 [addr, vn_const (word_of_int sz) 8];
        l2 \<leftarrow> emit_temp LOAD sz [addr2];
        a64_write cs i 1 l2 })"

definition a64_stp :: "capstone \<Rightarrow> insn \<Rightarrow> unit lift" where
  "a64_stp cs i = do {
     addr \<leftarrow> pair_address cs i;
     s1 \<leftarrow> a64_read cs i 0;
     emit STORE default_vn [addr, s1];
     addr2 \<leftarrow> emit_temp ADD 8 [addr, vn_const (word_of_int (pair_size i)) 8];
     s2 \<leftarrow> a64_read cs i 1;
     emit STORE default_vn [addr2, s2] }"

section \<open>Flags and conditions\<close>

definition a64_flags :: "capstone \<Rightarrow> insn \<Rightarrow> unit lift" where
  "a64_flags cs i =
     (let mn = in_mnemonic i; adding = (mn = ''cmn'' \<or> mn = ''adds'') in do {
        lhs \<leftarrow> a64_read cs i 0;
        rhs \<leftarrow> a64_read cs i 1;
        result \<leftarrow> emit_temp (if adding then ADD else SUB) (vn_size lhs) [lhs, rhs];
        emit INT_EQUAL (vn_reg 100 ''ZF'' 1) [result, vn_const 0 (vn_size lhs)];
        emit INT_SLESS (vn_reg 102 ''NF'' 1) [result, vn_const 0 (vn_size lhs)];
        x1 \<leftarrow> emit_temp XOR_OP (vn_size lhs) [lhs, rhs];
        x2 \<leftarrow> emit_temp XOR_OP (vn_size lhs) [lhs, result];
        both \<leftarrow> emit_temp AND_OP (vn_size lhs) [x1, x2];
        emit INT_SLESS (vn_reg 103 ''VF'' 1) [both, vn_const 0 (vn_size lhs)];
        (if adding then emit INT_LESS (vn_reg 101 ''CF'' 1) [result, lhs]
         else do {
           ncarry \<leftarrow> emit_temp INT_LESS 1 [lhs, rhs];
           emit BOOL_NOT (vn_reg 101 ''CF'' 1) [ncarry] });
        (if mn = ''subs'' \<or> mn = ''adds'' then a64_write cs i 0 result else State_Monad.return ()) })"

definition a64_condition :: "string \<Rightarrow> varnode lift" where
  "a64_condition c =
     (let zf = vn_reg 100 ''ZF'' 1; nf = vn_reg 102 ''NF'' 1; vf = vn_reg 103 ''VF'' 1; cf = vn_reg 101 ''CF'' 1 in
      if c = ''eq'' then State_Monad.return zf
      else if c = ''ne'' then emit_temp BOOL_NOT 1 [zf]
      else if c = ''lt'' then emit_temp INT_NEQUAL 1 [nf, vf]
      else if c = ''ge'' then emit_temp INT_EQUAL 1 [nf, vf]
      else if c = ''le'' then do { lt \<leftarrow> emit_temp INT_NEQUAL 1 [nf, vf]; emit_temp BOOL_OR 1 [zf, lt] }
      else if c = ''gt'' then do {
        lt \<leftarrow> emit_temp INT_NEQUAL 1 [nf, vf]; le \<leftarrow> emit_temp BOOL_OR 1 [zf, lt]; emit_temp BOOL_NOT 1 [le] }
      else if c = ''mi'' then State_Monad.return nf
      else if c = ''pl'' then emit_temp BOOL_NOT 1 [nf]
      else if c = ''vs'' then State_Monad.return vf
      else if c = ''vc'' then emit_temp BOOL_NOT 1 [vf]
      else if c = ''hs'' \<or> c = ''cs'' then State_Monad.return cf
      else if c = ''lo'' \<or> c = ''cc'' then emit_temp BOOL_NOT 1 [cf]
      else if c = ''hi'' then do { ls \<leftarrow> emit_temp BOOL_OR 1 [cf, zf]; emit_temp BOOL_NOT 1 [ls] }
      else if c = ''ls'' then emit_temp BOOL_OR 1 [cf, zf]
      else State_Monad.return zf)"

definition a64_cond_branch :: "insn \<Rightarrow> unit lift" where
  "a64_cond_branch i = do {
     cond \<leftarrow> a64_condition (drop 2 (in_mnemonic i));
     emit CBRANCH default_vn [vn_const (branch_target i) 8, cond] }"

definition a64_zero_branch :: "capstone \<Rightarrow> insn \<Rightarrow> unit lift" where
  "a64_zero_branch cs i = do {
     cond \<leftarrow> alloc_temp 1;
     reg \<leftarrow> a64_read cs i 0;
     emit (if in_mnemonic i = ''cbz'' then INT_EQUAL else INT_NEQUAL) cond [reg, vn_const 0 (vn_size reg)];
     emit CBRANCH default_vn [vn_const (branch_target i) 8, cond] }"

section \<open>Instructions and functions\<close>

definition a64_arg_regs :: "string list" where
  "a64_arg_regs = [''X0'', ''X1'', ''X2'', ''X3'', ''X4'', ''X5'', ''X6'', ''X7'']"

definition a64_lift_body :: "capstone \<Rightarrow> analysis_db \<Rightarrow> insn \<Rightarrow> unit lift" where
  "a64_lift_body cs db i =
     (let mn = in_mnemonic i; rd = a64_read cs; wr = a64_write cs in
      if mn = ''movk'' then a64_movk cs i
      else if mn \<in> {''mov'', ''movz'', ''movn''} then do { src \<leftarrow> rd i 1; wr i 0 src }
      else if mn \<in> {''add'', ''adds''} then lift_three rd wr ADD i
      else if mn \<in> {''sub'', ''subs''} then lift_three rd wr SUB i
      else if mn \<in> {''mul'', ''madd''} then a64_mul cs i
      else if mn \<in> {''and'', ''ands'', ''bic'', ''bics''} then a64_logic cs AND_OP [''bic'', ''bics''] i
      else if mn \<in> {''orr'', ''orn''} then a64_logic cs OR_OP [''orn''] i
      else if mn \<in> {''eor'', ''eon''} then a64_logic cs XOR_OP [''eon''] i
      else if mn \<in> {''lsl'', ''lsr'', ''asr'', ''ror''} then a64_shift cs (a64_shift_op mn) i
      else if mn \<in> {''ldr'', ''ldrb'', ''ldrh'', ''ldrsw'', ''ldrsh'', ''ldrsb''} then a64_load cs i
      else if mn \<in> {''str'', ''strb'', ''strh''} then do { val \<leftarrow> rd i 0; wr i 1 val }
      else if mn = ''ldp'' then a64_ldp cs i
      else if mn = ''stp'' then a64_stp cs i
      else if mn \<in> {''cmp'', ''cmn'', ''tst'', ''subs'', ''adds''} then a64_flags cs i
      else if mn \<in> {''cbz'', ''cbnz''} then a64_zero_branch cs i
      else if mn = ''b'' then emit BRANCH default_vn [vn_const (branch_target i) 8]
      else if take 2 mn = ''b.'' then a64_cond_branch i
      else if mn \<in> {''bl'', ''blr''} then
        emit CALL (a64_reg cs ''X0'') (callee db i # map (a64_reg cs) a64_arg_regs)
      else if mn = ''ret'' then do { set_has_return; emit RETURN default_vn [a64_reg cs ''X0''] }
      else if mn \<in> {''adr'', ''adrp''} then wr i 0 (vn_const (o_val (operand_at i 1)) 8)
      else if mn = ''asr'' then a64_shift cs SHIFT_ARIGHT i
      else if mn = ''nop'' then State_Monad.return ()
      else lift_asm 8 i)"

definition a64_lift_insn :: "capstone \<Rightarrow> analysis_db \<Rightarrow> insn \<Rightarrow> unit lift" where
  "a64_lift_insn cs db i = do {
     State (\<lambda>s. ((), s\<lparr>lf_addr := in_addr i, lf_seq := 0\<rparr>));
     a64_lift_body cs db i }"

definition lift_arm64 :: "capstone \<Rightarrow> analysis_db \<Rightarrow> func \<Rightarrow> pcode_func" where
  "lift_arm64 cs db f =
     (let (blks, s) = lifted_blocks (a64_lift_insn cs db) f
      in \<lparr>pf_entry = fn_entry f, pf_name = func_name f db, pf_blocks = blks,
          pf_next_temp = lf_next_temp s, pf_next_ssa = 0,
          pf_params = map (a64_reg cs) a64_arg_regs, pf_locals = []\<rparr>)"

end
