(* ===== verification/Lifter_Arm_Correct.thy ===== *)
theory Lifter_Arm_Correct
  imports Lifter_Correct Lifter_Arm64
begin

text \<open>
  The ARM lifters keep the invariant of the lifting monad and are interpretations of the locale
  \<open>insn_lifter\<close>, so what they produce is ready for the passes after them.
\<close>

section \<open>Operands\<close>

lemma pure_shifts [simp]: "\<not> effectful SHIFT_LEFT" "\<not> effectful SHIFT_RIGHT" "\<not> effectful SHIFT_ARIGHT"
  by (simp_all add: effectful_def)

lemma keeps_add_disp [keeps_intros]: "keeps (add_disp sz opnd a)"
  unfolding add_disp_def by (intro keeps_intros) simp_all

lemma keeps_mem_address [keeps_intros]: "keeps (mem_address reg sz opnd)"
  unfolding mem_address_def Let_def by (intro keeps_intros) simp_all

lemma keeps_flat_read: "keeps (flat_read reg sz ls i idx)"
  unfolding flat_read_def Let_def by (intro keeps_intros) simp_all

lemma keeps_flat_write: "keeps (flat_write reg sz i idx v)"
  unfolding flat_write_def Let_def by (intro keeps_intros) simp_all

lemma keeps_reads [keeps_intros]: "keeps (arm_read cs i k)" "keeps (a64_read cs i k)"
  by (simp_all add: arm_read_def a64_read_def keeps_flat_read)

lemma keeps_writes [keeps_intros]: "keeps (arm_write cs i k v)" "keeps (a64_write cs i k v)"
  by (simp_all add: arm_write_def a64_write_def keeps_flat_write)

lemma keeps_control [keeps_intros]:
  "keeps (emit BRANCH default_vn ins)" "keeps (emit CBRANCH default_vn ins)" "keeps (emit RETURN default_vn ins)"
  by (rule keeps_emit, simp add: emit_ok_def)+

lemma reg_not_temp [simp]: "\<not> is_temp (arm_reg_vn cs r)" "\<not> is_temp (a64_reg_vn cs r)" "\<not> is_temp (a64_reg cs nm)"
  by (auto simp: arm_reg_vn_def a64_reg_vn_def a64_reg_def Let_def is_temp_def vn_const_def vn_reg_def split: prod.split)

lemma keeps_call [keeps_intros]: "\<not> is_temp out \<Longrightarrow> keeps (emit CALL out ins)"
  by (rule keeps_emit) (simp add: emit_ok_def)

lemma keeps_lift_asm [keeps_intros]: "keeps (lift_asm sz i)"
proof -
  have "lifter_ok s \<Longrightarrow> lifter_ok (snd (run_state (lift_asm sz i) s))" for s
    by (simp add: lift_asm_def alloc_temp_def emit_def State_Monad.bind_def lifter_ok_def
        lifted_ok_def is_temp_def vn_temp_def)
  then show ?thesis by (simp add: keeps_def)
qed

section \<open>Instructions\<close>

lemma keeps_lift_three:
  assumes "\<And>i k. keeps (rd i k)" "\<And>i k v. keeps (wr i k v)" "\<not> effectful opc" "opc \<noteq> NOP"
  shows "keeps (lift_three rd wr opc i)"
  unfolding lift_three_def by (intro keeps_intros assms)

lemma keeps_lift_insert:
  assumes "\<And>i k. keeps (rd i k)" "\<And>i k v. keeps (wr i k v)"
  shows "keeps (lift_insert rd wr m v i)"
  unfolding lift_insert_def by (intro keeps_intros assms) simp_all

lemma keeps_arm_lift_body: "keeps (arm_lift_body cs db i)"
  unfolding arm_lift_body_def arm_branch_def Let_def
  by (intro keeps_intros keeps_lift_three keeps_lift_insert) simp_all

lemma keeps_a64_parts:
  "keeps (a64_movk cs i)" "keeps (a64_mul cs i)" "keeps (a64_load cs i)" "keeps (pair_address cs i)"
  unfolding a64_movk_def a64_mul_def a64_load_def pair_address_def Let_def
  by (intro keeps_intros keeps_lift_insert; simp)+

lemma keeps_a64_alu:
  assumes "\<not> effectful opc" "opc \<noteq> NOP"
  shows "keeps (a64_logic cs opc neg i)" "keeps (a64_shift cs opc i)"
  unfolding a64_logic_def a64_shift_def by (intro keeps_intros assms; simp)+

lemma keeps_a64_pairs: "keeps (a64_ldp cs i)" "keeps (a64_stp cs i)"
  unfolding a64_ldp_def a64_stp_def Let_def by (intro keeps_intros keeps_a64_parts; simp)+

lemma keeps_a64_flags: "keeps (a64_flags cs i)"
  unfolding a64_flags_def Let_def by (intro keeps_intros; simp)

lemma keeps_a64_condition: "keeps (a64_condition c)"
  unfolding a64_condition_def Let_def by (intro keeps_intros; simp)

lemma keeps_a64_branches: "keeps (a64_cond_branch i)" "keeps (a64_zero_branch cs i)"
  unfolding a64_cond_branch_def a64_zero_branch_def
  by (intro keeps_intros keeps_a64_condition; simp)+

lemmas keeps_a64 = keeps_a64_parts keeps_a64_alu keeps_a64_pairs keeps_a64_flags keeps_a64_branches

lemma pure_a64_shift [simp]: "\<not> effectful (a64_shift_op mn)" "a64_shift_op mn \<noteq> NOP"
  by (simp_all add: a64_shift_op_def)

lemma keeps_a64_lift_body: "keeps (a64_lift_body cs db i)"
  unfolding a64_lift_body_def Let_def
  by (intro keeps_if keeps_a64 keeps_intros keeps_lift_three) simp_all

section \<open>The functions are ready\<close>

interpretation arm: insn_lifter "arm_lift_insn cs db" for cs db
  by unfold_locales (unfold arm_lift_insn_def, rule lift_step_ok [OF keeps_arm_lift_body])

interpretation arm64: insn_lifter "a64_lift_insn cs db" for cs db
  by unfold_locales (unfold a64_lift_insn_def, rule lift_step_ok [OF keeps_a64_lift_body])

lemma lift_arm_ready: "pass_ready (lift_arm cs db f)" "length (pf_blocks (lift_arm cs db f)) = length (fn_blocks f)"
  by (rule arm.ready [where f = f and cs = cs and db = db], simp add: lift_arm_def split: prod.split)+

lemma lift_arm64_ready:
  "pass_ready (lift_arm64 cs db f)" "length (pf_blocks (lift_arm64 cs db f)) = length (fn_blocks f)"
  by (rule arm64.ready [where f = f and cs = cs and db = db], simp add: lift_arm64_def split: prod.split)+

end
