(* ===== verification/Ssa_Rename.thy ===== *)
theory Ssa_Rename
  imports Ssa_Dom_Exact
begin

text \<open>
  Phi insertion computes the iterated dominance frontier of the defining blocks, and renaming
  gives every definition in a reachable block a version of its own.
\<close>

section \<open>Iterated dominance frontiers\<close>

inductive iterated_df :: "int list list \<Rightarrow> int set \<Rightarrow> int \<Rightarrow> bool" for df :: "int list list" and D :: "int set" where
  df_base: "d \<in> D \<Longrightarrow> b \<in> set (df ! nat d) \<Longrightarrow> iterated_df df D b"
| df_step: "iterated_df df D d \<Longrightarrow> b \<in> set (df ! nat d) \<Longrightarrow> iterated_df df D b"

lemma new_phis_fold:
  "distinct acc \<Longrightarrow> set acc \<inter> set has_phi = {} \<Longrightarrow>
   set (fold (\<lambda>b acc. if b \<in> set has_phi \<or> b \<in> set acc then acc else acc @ [b]) df acc) =
     set acc \<union> (set df - set has_phi) \<and>
   distinct (fold (\<lambda>b acc. if b \<in> set has_phi \<or> b \<in> set acc then acc else acc @ [b]) df acc)"
  by (induction df arbitrary: acc) auto

lemma new_phis_spec: "set (new_phis has_phi df) = set df - set has_phi" "distinct (new_phis has_phi df)"
  using new_phis_fold [of "[]" has_phi df] by (simp_all add: new_phis_def)

definition phi_inv :: "int list list \<Rightarrow> nat \<Rightarrow> int set \<Rightarrow> int list \<Rightarrow> int list \<Rightarrow> int list \<Rightarrow> bool" where
  "phi_inv df N D processed has work \<longleftrightarrow> distinct has \<and> D \<union> set has \<subseteq> {0..<int N} \<and>
     set processed \<union> set work = D \<union> set has \<and>
     (\<forall>d \<in> set processed. set (df ! nat d) \<subseteq> set has) \<and> (\<forall>b \<in> set has. iterated_df df D b)"

lemma phi_inv_done:
  assumes "phi_inv df N D processed has []"
  shows "distinct has \<and> set has = {b. iterated_df df D b}"
proof -
  have closed: "set (df ! nat d) \<subseteq> set has" if "d \<in> D \<union> set has" for d
    using assms that unfolding phi_inv_def by auto
  have "b \<in> set has" if "iterated_df df D b" for b
    using that by induction (use closed in blast)+
  with assms show ?thesis by (auto simp: phi_inv_def)
qed

lemma phi_inv_skip:
  "phi_inv df N D processed has (d # work) \<Longrightarrow> d \<in> set processed \<Longrightarrow> phi_inv df N D processed has work"
  by (simp add: phi_inv_def insert_absorb)

lemma phi_inv_step:
  assumes inv: "phi_inv df N D processed has (d # work)"
    and rng: "\<And>d b. d \<in> {0..<int N} \<Longrightarrow> b \<in> set (df ! nat d) \<Longrightarrow> b \<in> {0..<int N}"
  shows "phi_inv df N D (d # processed) (has @ new_phis has (df ! nat d)) (work @ new_phis has (df ! nat d))"
proof -
  have d: "d \<in> D \<union> set has" using inv unfolding phi_inv_def by auto
  have "iterated_df df D b" if "b \<in> set (df ! nat d)" for b
    using d that inv unfolding phi_inv_def by (auto intro: iterated_df.intros)
  moreover have "set (df ! nat d) \<subseteq> {0..<int N}"
    using inv d rng [of d] unfolding phi_inv_def by blast
  ultimately show ?thesis
    using inv unfolding phi_inv_def by (auto simp: new_phis_spec)
qed

lemma phi_inv_length:
  assumes "phi_inv df N D processed has work"
  shows "length has \<le> N"
proof -
  have "length has = card (set has)" using assms by (simp add: phi_inv_def distinct_card)
  also have "\<dots> \<le> card {0..<int N}" using assms by (intro card_mono) (auto simp: phi_inv_def)
  finally show ?thesis by simp
qed

lemma phi_blocks_spec:
  assumes rng: "\<And>d b. d \<in> {0..<int N} \<Longrightarrow> b \<in> set (df ! nat d) \<Longrightarrow> b \<in> {0..<int N}"
  shows "phi_inv df N D processed has work \<Longrightarrow> length work + (N - length has) \<le> n \<Longrightarrow>
    distinct (phi_blocks n df processed has work) \<and>
    set (phi_blocks n df processed has work) = {b. iterated_df df D b}"
proof (induction n arbitrary: processed has work)
  case 0
  then show ?case by (simp add: phi_inv_done)
next
  case (Suc n)
  show ?case
  proof (cases work)
    case Nil
    then show ?thesis using Suc.prems by (simp add: phi_inv_done)
  next
    case (Cons d rest)
    let ?new = "new_phis has (df ! nat d)"
    have step: "phi_inv df N D (d # processed) (has @ ?new) (rest @ ?new)"
      using Suc.prems(1) rng unfolding Cons by (rule phi_inv_step)
    have "length (rest @ ?new) + (N - length (has @ ?new)) \<le> n"
      using phi_inv_length [OF step] Suc.prems(2) Cons by simp
    with step have "d \<notin> set processed \<Longrightarrow> ?thesis"
      using Suc.IH by (simp add: Cons Let_def)
    moreover have "d \<in> set processed \<Longrightarrow> ?thesis"
      using Suc.IH [OF phi_inv_skip] Suc.prems by (simp add: Cons)
    ultimately show ?thesis by blast
  qed
qed

text \<open>
  C17.  The worklist of phi insertion ends within the bound the model gives it and yields exactly
  the iterated dominance frontier of the blocks that define the variable, each block once, when
  the frontiers name existing blocks.
\<close>

theorem phi_blocks_iterated:
  assumes "\<forall>df \<in> set frontiers. \<forall>b \<in> set df. 0 \<le> b \<and> b < int n"
    and "\<forall>d \<in> set defs. 0 \<le> d \<and> d < int n" and "length frontiers = n"
  shows "distinct (phi_blocks (n + length defs) frontiers [] [] defs) \<and>
    set (phi_blocks (n + length defs) frontiers [] [] defs) = {b. iterated_df frontiers (set defs) b}"
proof -
  have inv: "phi_inv frontiers n (set defs) [] [] defs"
    using assms(2) by (simp add: phi_inv_def subset_eq)
  have rng: "b \<in> {0..<int n}" if "d \<in> {0..<int n}" "b \<in> set (frontiers ! nat d)" for d b
  proof -
    have "frontiers ! nat d \<in> set frontiers" using that(1) assms(3) by (auto intro: nth_mem)
    with assms(1) that(2) show ?thesis by simp
  qed
  show ?thesis by (rule phi_blocks_spec [OF rng inv]) simp_all
qed

text \<open>The two arms of a diamond define a variable; the join gets its phi.\<close>

theorem phi_blocks_iterated_witness:
  "set (phi_blocks 6 [[], [3], [3], []] [] [] [1, 2]) = {b. iterated_df [[], [3], [3], []] (set [1, 2]) b} \<and>
   phi_blocks 6 [[], [3], [3], []] [] [] [1, 2] = [3]"
proof -
  have "phi_blocks 6 [[], [3], [3], []] [] [] [1, 2] = [3]" by code_simp
  moreover have "set (phi_blocks (4 + length [1, 2 :: int]) [[], [3], [3], []] [] [] [1, 2]) =
      {b. iterated_df [[], [3], [3], []] (set [1, 2]) b}"
    using phi_blocks_iterated [of "[[], [3], [3], []]" 4 "[1, 2]"] by simp
  ultimately show ?thesis by simp
qed

section \<open>Versions\<close>

text \<open>The outputs that renaming gives a version.\<close>

definition is_var :: "varnode \<Rightarrow> bool" where
  "is_var v \<longleftrightarrow> is_reg v \<and> 0 \<le> vn_id v \<or> is_temp v \<and> -1000 \<le> vn_id v \<or> is_stack v"

definition out_versions :: "pcode_insn list \<Rightarrow> u64 list" where
  "out_versions ops = map (\<lambda>i. vn_offset (pi_output i)) (filter (\<lambda>i. is_var (pi_output i)) ops)"

definition slots_ok :: "ssa_vars \<Rightarrow> bool" where
  "slots_ok sv \<longleftrightarrow> (\<forall>(s, k) \<in> set (sv_slots sv). 0 \<le> k)"

lemma var_key_spec:
  assumes "slots_ok sv" "var_key v sv = (k, sv')"
  shows "slots_ok sv'" "0 \<le> k \<longleftrightarrow> is_var v"
  using assms
  by (auto simp: var_key_def slots_ok_def is_var_def vn_pred_defs Let_def
      split: if_splits option.splits dest!: map_of_SomeD)

lemma rename_input_spec: "slots_ok sv \<Longrightarrow> rename_input st v sv = (v', sv') \<Longrightarrow> slots_ok sv'"
  by (auto simp: rename_input_def split: prod.splits dest: var_key_spec(1))

lemma rename_inputs_spec: "slots_ok sv \<Longrightarrow> rename_inputs st vs sv = (vs', sv') \<Longrightarrow> slots_ok sv'"
  by (induction vs arbitrary: sv vs') (auto split: prod.splits dest: rename_input_spec)

lemma is_var_offset [simp]: "is_var (v\<lparr>vn_offset := x\<rparr>) = is_var v"
  by (simp add: is_var_def vn_pred_defs)

lemma rename_op_spec:
  assumes "slots_ok (rc_vars c)" "rename_op i c = (i', c')"
  shows "slots_ok (rc_vars c') \<and> is_var (pi_output i') = is_var (pi_output i) \<and>
    (if is_var (pi_output i)
     then rc_counter c' = rc_counter c + 1 \<and> vn_offset (pi_output i') = word_of_int (rc_counter c')
     else rc_counter c' = rc_counter c)"
proof -
  obtain ins sv where a: "(if pi_seq i \<noteq> -1 then rename_inputs (rc_stacks c) (pi_inputs i) (rc_vars c)
            else (pi_inputs i, rc_vars c)) = (ins, sv)" by (metis surj_pair)
  then have "slots_ok sv"
    using assms(1) by (auto split: if_splits dest: rename_inputs_spec)
  moreover obtain k sv' where k: "var_key (pi_output i) sv = (k, sv')" by (metis surj_pair)
  ultimately have "slots_ok sv'" "0 \<le> k \<longleftrightarrow> is_var (pi_output i)" by (rule var_key_spec)+
  then show ?thesis
    using assms(2) by (auto simp: rename_op_def a k Let_def split: if_splits)
qed

lemma rename_ops_spec:
  "slots_ok (rc_vars c) \<Longrightarrow> rename_ops ops c = (ops', c') \<Longrightarrow>
   slots_ok (rc_vars c') \<and> rc_counter c \<le> rc_counter c' \<and>
   out_versions ops' = map word_of_int [rc_counter c + 1..rc_counter c']"
proof (induction ops arbitrary: c ops' c')
  case Nil
  then show ?case by (simp add: out_versions_def)
next
  case (Cons i ops)
  obtain i' c1 where i': "rename_op i c = (i', c1)" by (metis surj_pair)
  obtain ops1 c2 where r: "rename_ops ops c1 = (ops1, c2)" by (metis surj_pair)
  have res: "ops' = i' # ops1" "c' = c2" using Cons.prems(2) i' r by auto
  note op = rename_op_spec [OF Cons.prems(1) i']
  have tl: "slots_ok (rc_vars c2)" "rc_counter c1 \<le> rc_counter c2"
    "out_versions ops1 = map word_of_int [rc_counter c1 + 1..rc_counter c2]"
    using Cons.IH [OF _ r] op by auto
  show ?case
  proof (cases "is_var (pi_output i)")
    case True
    then have c1: "rc_counter c1 = rc_counter c + 1" "vn_offset (pi_output i') = word_of_int (rc_counter c1)"
        "is_var (pi_output i')" using op by auto
    have "[rc_counter c + 1..rc_counter c2] = rc_counter c1 # [rc_counter c1 + 1..rc_counter c2]"
      using tl(2) c1(1) by (simp add: upto_rec1)
    then show ?thesis using res tl c1 by (simp add: out_versions_def)
  next
    case False
    then show ?thesis using res tl op by (simp add: out_versions_def)
  qed
qed


section \<open>Renaming along the dominator tree\<close>

text \<open>The blocks a call of \<open>rename_block\<close> visits.\<close>

fun visits :: "nat \<Rightarrow> nat \<Rightarrow> int list list \<Rightarrow> int \<Rightarrow> int set" where
  "visits n 0 ch b = {}"
| "visits n (Suc d) ch b =
     (if 0 \<le> b \<and> b < int n then insert b (\<Union>c \<in> set (ch ! nat b). visits n d ch c) else {})"

text \<open>Blocks in \<open>V\<close> have been renamed: their versions are distinct and at most the counter.\<close>

definition versions_ok :: "int set \<Rightarrow> renamer \<Rightarrow> bool" where
  "versions_ok V r \<longleftrightarrow> slots_ok (rn_vars r) \<and> 0 \<le> rn_counter r \<and> (\<exists>W.
     (\<forall>b \<in> V. out_versions (pb_ops (rn_blocks r ! nat b)) = map word_of_int (W b) \<and> distinct (W b) \<and>
        set (W b) \<subseteq> {1..rn_counter r}) \<and>
     (\<forall>b \<in> V. \<forall>b' \<in> V. b \<noteq> b' \<longrightarrow> set (W b) \<inter> set (W b') = {}))"

lemma versions_okE:
  assumes "versions_ok V r" "U \<subseteq> V"
  obtains W where
    "\<forall>b \<in> U. out_versions (pb_ops (rn_blocks r ! nat b)) = map word_of_int (W b) \<and> distinct (W b) \<and>
        set (W b) \<subseteq> {1..rn_counter r}"
    "\<forall>b \<in> U. \<forall>b' \<in> U. b \<noteq> b' \<longrightarrow> set (W b) \<inter> set (W b') = {}"
proof -
  from assms(1) obtain W where W: "\<forall>b \<in> V. out_versions (pb_ops (rn_blocks r ! nat b)) = map word_of_int (W b) \<and>
        distinct (W b) \<and> set (W b) \<subseteq> {1..rn_counter r}"
     "\<forall>b \<in> V. \<forall>b' \<in> V. b \<noteq> b' \<longrightarrow> set (W b) \<inter> set (W b') = {}"
    unfolding versions_ok_def by (elim conjE exE)
  show ?thesis by (rule that [of W]) (use W assms(2) in blast)+
qed

lemma rename_own_spec:
  assumes ok: "versions_ok V r" and b: "in_range (rn_blocks r) b" and V: "\<forall>c \<in> V. 0 \<le> c"
    and res: "rename_own b r = (r1, pushed)"
  shows "versions_ok (insert b V) r1 \<and> length (rn_blocks r1) = length (rn_blocks r)"
proof -
  obtain ops c where o: "rename_ops (pb_ops (rn_blocks r ! nat b))
      \<lparr>rc_vars = rn_vars r, rc_stacks = rn_stacks r, rc_counter = rn_counter r, rc_pushed = []\<rparr> = (ops, c)"
    by (metis surj_pair)
  have r1: "r1 = \<lparr>rn_blocks = (rn_blocks r)[nat b := (rn_blocks r ! nat b)\<lparr>pb_ops := ops\<rparr>],
      rn_vars = rc_vars c, rn_stacks = rc_stacks c, rn_counter = rc_counter c\<rparr>"
    using res o by (simp add: rename_own_def)
  have new: "slots_ok (rc_vars c)" "rn_counter r \<le> rc_counter c"
      "out_versions ops = map word_of_int [rn_counter r + 1..rc_counter c]"
    using rename_ops_spec [OF _ o] ok by (auto simp: versions_ok_def)
  obtain W where W: "\<forall>b \<in> V. out_versions (pb_ops (rn_blocks r ! nat b)) = map word_of_int (W b) \<and>
        distinct (W b) \<and> set (W b) \<subseteq> {1..rn_counter r}"
      "\<forall>b \<in> V. \<forall>b' \<in> V. b \<noteq> b' \<longrightarrow> set (W b) \<inter> set (W b') = {}"
    using ok unfolding versions_ok_def by blast
  define W' where "W' = W(b := [rn_counter r + 1..rc_counter c])"
  have cnt: "0 \<le> rn_counter r" using ok by (simp add: versions_ok_def)
  have blk: "rn_blocks r1 ! nat c = (if c = b then (rn_blocks r ! nat b)\<lparr>pb_ops := ops\<rparr> else rn_blocks r ! nat c)"
    if "0 \<le> c" for c
    using that b by (auto simp: r1 in_range_def nth_list_update eq_nat_nat_iff)
  have W1: "out_versions (pb_ops (rn_blocks r1 ! nat c)) = map word_of_int (W' c) \<and> distinct (W' c) \<and>
      set (W' c) \<subseteq> {1..rn_counter r1}" if "c \<in> insert b V" for c
  proof (cases "c = b")
    case True
    then show ?thesis using blk [of b] b new(3) cnt by (auto simp: W'_def r1 in_range_def)
  next
    case False
    then have "c \<in> V" using that by simp
    then show ?thesis using False W(1) V blk [of c] new(2) by (fastforce simp: W'_def r1)
  qed
  have disj: "set (W c) \<inter> {rn_counter r + 1..rc_counter c'} = {}" if "c \<in> V" for c c'
    using W(1) that by fastforce
  have W2: "set (W' c) \<inter> set (W' c') = {}" if in_V: "c \<in> insert b V" "c' \<in> insert b V" "c \<noteq> c'" for c c'
  proof -
    consider "c = b" "c' \<in> V" "c' \<noteq> b" | "c' = b" "c \<in> V" "c \<noteq> b" | "c \<in> V" "c' \<in> V" "c \<noteq> b" "c' \<noteq> b"
      using in_V by auto
    then show ?thesis
    proof cases
      case 1
      then show ?thesis using disj [of c'] by (auto simp: W'_def)
    next
      case 2
      then show ?thesis using disj [of c] by (auto simp: W'_def)
    next
      case 3
      then show ?thesis using W(2) in_V(3) by (simp add: W'_def)
    qed
  qed
  have "versions_ok (insert b V) r1"
    unfolding versions_ok_def
  proof (intro conjI exI [of _ W'] ballI impI)
    show "slots_ok (rn_vars r1)" "0 \<le> rn_counter r1" using new cnt by (simp_all add: r1)
  qed (use W1 W2 in blast)+
  then show ?thesis by (simp add: r1)
qed

lemma rename_phis_spec:
  "slots_ok sv \<Longrightarrow> rename_phis st p ops sv = (ops', sv') \<Longrightarrow> slots_ok sv' \<and> out_versions ops' = out_versions ops"
  by (induction st p ops sv arbitrary: ops' sv' rule: rename_phis.induct)
     (auto simp: out_versions_def split: prod.splits if_splits dest: rename_input_spec)

lemma rename_succ_spec:
  assumes "versions_ok V r" "\<forall>c \<in> V. 0 \<le> c"
  shows "versions_ok V (rename_succ b s r) \<and> length (rn_blocks (rename_succ b s r)) = length (rn_blocks r)"
proof (cases "rename_succ b s r = r")
  case True
  with assms(1) show ?thesis by simp
next
  case False
  then obtain p ops sv where rng: "in_range (rn_blocks r) s"
      and o: "rename_phis (rn_stacks r) p (pb_ops (rn_blocks r ! nat s)) (rn_vars r) = (ops, sv)"
      and res: "rename_succ b s r = r\<lparr>rn_blocks := (rn_blocks r)[nat s := (rn_blocks r ! nat s)\<lparr>pb_ops := ops\<rparr>], rn_vars := sv\<rparr>"
    by (auto simp: rename_succ_def split: if_splits option.splits prod.splits)
  have "slots_ok sv" "out_versions ops = out_versions (pb_ops (rn_blocks r ! nat s))"
    using rename_phis_spec [OF _ o] assms(1) by (auto simp: versions_ok_def)
  then have "out_versions (pb_ops (rn_blocks (rename_succ b s r) ! nat c)) = out_versions (pb_ops (rn_blocks r ! nat c))"
    if "0 \<le> c" for c
    using that rng by (cases "c = s") (auto simp: res in_range_def nth_list_update eq_nat_nat_iff)
  then show ?thesis
    using assms \<open>slots_ok sv\<close> by (simp add: versions_ok_def res)
qed

lemma versions_ok_stacks [simp]: "versions_ok V (r\<lparr>rn_stacks := x\<rparr>) = versions_ok V r"
  by (simp add: versions_ok_def)

lemma visits_nonneg: "c \<in> visits n d ch b \<Longrightarrow> 0 \<le> c"
  by (induction n d ch b rule: visits.induct) (auto split: if_splits)

lemma rename_block_spec:
  "versions_ok V r \<Longrightarrow> \<forall>c \<in> V. 0 \<le> c \<Longrightarrow> length (rn_blocks r) = n \<Longrightarrow>
   versions_ok (V \<union> visits n d ch b) (rename_block d ch b r) \<and> length (rn_blocks (rename_block d ch b r)) = n"
proof (induction d arbitrary: b r V)
  case 0
  then show ?case by simp
next
  case (Suc d)
  show ?case
  proof (cases "in_range (rn_blocks r) b")
    case False
    then show ?thesis using Suc.prems by (auto simp: in_range_def)
  next
    case True
    obtain r1 pushed where r1: "rename_own b r = (r1, pushed)" by (metis surj_pair)
    define V1 where "V1 = insert b V"
    have V1: "\<forall>c \<in> V1. 0 \<le> c" using Suc.prems(2) True by (simp add: V1_def in_range_def)
    have o1: "versions_ok V1 r1" "length (rn_blocks r1) = n"
      using rename_own_spec [OF Suc.prems(1) True Suc.prems(2) r1] Suc.prems(3) by (auto simp: V1_def)
    define r2 where "r2 = fold (rename_succ b) (pb_succs (rn_blocks r1 ! nat b)) r1"
    have "versions_ok V1 r2 \<and> length (rn_blocks r2) = n"
      unfolding r2_def
      by (rule fold_invariant_rule) (use o1 V1 rename_succ_spec in auto)
    then have o2: "versions_ok V1 r2" "length (rn_blocks r2) = n" by auto
    have kids: "versions_ok (V1 \<union> (\<Union>c \<in> set cs. visits n d ch c)) (fold (rename_block d ch) cs r2) \<and>
        length (rn_blocks (fold (rename_block d ch) cs r2)) = n" for cs
    proof (induction cs rule: rev_induct)
      case Nil
      then show ?case using o2 by simp
    next
      case (snoc c cs)
      have "\<forall>x \<in> V1 \<union> (\<Union>c \<in> set cs. visits n d ch c). 0 \<le> x" using V1 visits_nonneg by blast
      from Suc.IH [OF _ this, of "fold (rename_block d ch) cs r2" c] snoc
      show ?case by (simp add: Un_ac)
    qed
    have "rename_block (Suc d) ch b r = (let r3 = fold (rename_block d ch) (ch ! nat b) r2
        in r3\<lparr>rn_stacks := fold pop_key pushed (rn_stacks r3)\<rparr>)"
      using True r1 by (simp add: r2_def Let_def)
    moreover have "V \<union> visits n (Suc d) ch b = V1 \<union> (\<Union>c \<in> set (ch ! nat b). visits n d ch c)"
      using True Suc.prems(3) by (auto simp: V1_def in_range_def)
    ultimately show ?thesis using kids [of "ch ! nat b"] by (simp add: Let_def)
  qed
qed

section \<open>Every reachable block is visited\<close>

lemma dom_children_fold:
  "length (fold (\<lambda>b ch. if b \<noteq> e \<and> 0 \<le> idom ! nat b
            then ch[nat (idom ! nat b) := ch ! nat (idom ! nat b) @ [b]] else ch) rpo ch0) = length ch0 \<and>
   (\<forall>a < length ch0. set (ch0 ! a) \<subseteq> set (fold (\<lambda>b ch. if b \<noteq> e \<and> 0 \<le> idom ! nat b
            then ch[nat (idom ! nat b) := ch ! nat (idom ! nat b) @ [b]] else ch) rpo ch0 ! a)) \<and>
   (\<forall>b \<in> set rpo. b \<noteq> e \<longrightarrow> 0 \<le> idom ! nat b \<longrightarrow> nat (idom ! nat b) < length ch0 \<longrightarrow>
      b \<in> set (fold (\<lambda>b ch. if b \<noteq> e \<and> 0 \<le> idom ! nat b
            then ch[nat (idom ! nat b) := ch ! nat (idom ! nat b) @ [b]] else ch) rpo ch0 ! nat (idom ! nat b)))"
proof (induction rpo arbitrary: ch0)
  case Nil
  then show ?case by simp
next
  case (Cons x rpo)
  let ?ch1 = "if x \<noteq> e \<and> 0 \<le> idom ! nat x then ch0[nat (idom ! nat x) := ch0 ! nat (idom ! nat x) @ [x]] else ch0"
  have mono: "set (ch0 ! a) \<subseteq> set (?ch1 ! a)" if "a < length ch0" for a
    using that by (cases "a = nat (idom ! nat x)") auto
  have x: "x \<in> set (?ch1 ! nat (idom ! nat x))" if "x \<noteq> e" "0 \<le> idom ! nat x" "nat (idom ! nat x) < length ch0"
    using that by simp
  have len: "length ?ch1 = length ch0" by simp
  note IH = Cons.IH [of ?ch1, unfolded len]
  show ?case
    unfolding fold_Cons comp_def
    using IH mono x by (intro conjI allI impI ballI) (simp, blast, auto)
qed

lemma visits_child:
  "a \<in> visits n d ch b \<Longrightarrow> c \<in> set (ch ! nat a) \<Longrightarrow> 0 \<le> c \<Longrightarrow> c < int n \<Longrightarrow> c \<in> visits n (Suc d) ch b"
proof (induction n d ch b rule: visits.induct)
  case (2 n d ch b)
  have b: "0 \<le> b \<and> b < int n" using "2.prems"(1) by (simp split: if_splits)
  show ?case
  proof (cases "a = b")
    case True
    with "2.prems" b show ?thesis by auto
  next
    case False
    then obtain x where x: "x \<in> set (ch ! nat b)" "a \<in> visits n d ch x"
      using "2.prems"(1) b by auto
    then have "c \<in> visits n (Suc d) ch x" using "2.IH" [OF b x(1) x(2)] "2.prems" by blast
    moreover have "visits n (Suc (Suc d)) ch b = insert b (\<Union>y \<in> set (ch ! nat b). visits n (Suc d) ch y)"
      using b by (subst visits.simps(2)) simp
    ultimately show ?thesis using x(1) by blast
  qed
qed simp

lemma visits_placed:
  assumes inv: "dom_inv ri e idom" and len: "length idom = n"
    and ch: "\<And>b. placed idom b \<Longrightarrow> b \<noteq> e \<Longrightarrow> b \<in> set (ch ! nat (idom ! nat b))"
  shows "placed idom b \<Longrightarrow> ri ! nat b \<le> int d \<Longrightarrow> b \<in> visits n (Suc d) ch e"
proof (induction d arbitrary: b)
  case 0
  have e: "0 \<le> e" "e < int n" using inv len by (auto simp: dom_inv_def in_range_def)
  have "b = e"
  proof (rule ccontr)
    assume "b \<noteq> e"
    then have "ri ! nat (idom ! nat b) < 0" using dom_invD(3) [OF inv 0(1)] 0(2) by simp
    moreover have "0 \<le> ri ! nat (idom ! nat b)"
      using dom_invD(1) [OF inv dom_invD(2) [OF inv 0(1)]] .
    ultimately show False by simp
  qed
  with e show ?case by simp
next
  case (Suc d)
  have rng: "0 \<le> b" "b < int n" using Suc.prems(1) len by (auto simp: placed_def in_range_def)
  show ?case
  proof (cases "b = e")
    case True
    with rng show ?thesis by simp
  next
    case False
    have "ri ! nat (idom ! nat b) \<le> int d" using dom_invD(3) [OF inv Suc.prems(1) False] Suc.prems(2) by simp
    with dom_invD(2) [OF inv Suc.prems(1)] have "idom ! nat b \<in> visits n (Suc d) ch e" by (rule Suc.IH)
    then show ?thesis using ch [OF Suc.prems(1) False] rng by (rule visits_child)
  qed
qed

lemma length_push_phi_fold: "length (fold (push_phi sv v) bs blks) = length blks"
  by (rule fold_invariant_rule) (simp_all add: push_phi_def)

lemma length_insert_phis: "insert_phis ord df bs = (bs', vars, sv) \<Longrightarrow> length bs' = length bs"
proof -
  assume r: "insert_phis ord df bs = (bs', vars, sv)"
  obtain defs sv0 where c: "collect_defs bs = (defs, sv0)" by (metis surj_pair)
  have "length (fold (\<lambda>v bs'. fold (push_phi sv0 v) (g v) bs') vs blks) = length blks" for g vs blks
    by (rule fold_invariant_rule) (simp_all add: length_push_phi_fold)
  with r c show ?thesis by (auto simp: insert_phis_def)
qed

lemma slots_collect_op: "slots_ok (snd s) \<Longrightarrow> slots_ok (snd (collect_op b i s))"
  by (auto simp: collect_op_def split: prod.splits dest: var_key_spec(1))

lemma slots_insert_phis:
  assumes "insert_phis ord df bs = (bs', vars, sv)"
  shows "slots_ok sv"
proof -
  have "slots_ok (snd (collect_defs bs))"
    unfolding collect_defs_def
  proof (rule fold_invariant_rule)
    fix x s assume "slots_ok (snd (s :: (int \<times> int list) list \<times> ssa_vars))"
    then have "slots_ok (snd (fold (collect_op (int b)) ops s))" for b ops
      by (rule fold_invariant_rule) (rule slots_collect_op)
    then show "slots_ok (snd ((\<lambda>(b, blk) s. fold (collect_op (int b)) (pb_ops blk) s) x s))"
      by (cases x) simp
  qed (simp add: slots_ok_def no_vars_def)
  with assms show ?thesis by (auto simp: insert_phis_def split: prod.splits)
qed


text \<open>
  A diamond whose arms both define rcx; the join calls with it.
\<close>

definition diamond_block :: "int \<Rightarrow> pcode_insn list \<Rightarrow> int list \<Rightarrow> int list \<Rightarrow> pcode_block" where
  "diamond_block i ops ss ps = \<lparr>pb_id = i, pb_addr = word_of_int i, pb_ops = ops, pb_succs = ss,
     pb_preds = ps, pb_has_return = False\<rparr>"

definition diamond :: pcode_func where
  "diamond = \<lparr>pf_entry = 0, pf_name = ''f'', pf_blocks =
     [diamond_block 0 [make_insn COPY (vn_reg 1 ''rcx'' 8) [vn_const 1 8] 0] [1, 2] [],
      diamond_block 1 [make_insn COPY (vn_reg 1 ''rcx'' 8) [vn_const 2 8] 0] [3] [0],
      diamond_block 2 [] [3] [0],
      diamond_block 3 [make_insn CALL (vn_reg 0 ''rax'' 8) [vn_const 9 8, vn_reg 1 ''rcx'' 8] 0] [] [1, 2]],
     pf_next_temp = 256, pf_next_ssa = 0, pf_params = [], pf_locals = []\<rparr>"

definition diamond_versions :: "u64 list list" where
  "diamond_versions = (case ssa_build (\<lambda>ks. ks) diamond of None \<Rightarrow> []
     | Some g \<Rightarrow> map (\<lambda>b. out_versions (pb_ops (pf_blocks g ! nat b))) (compute_rpo diamond))"

lemma diamond_facts:
  "pf_blocks diamond \<noteq> []" "preds_complete (pf_blocks diamond)" "compute_rpo diamond = [0, 2, 1, 3]"
  "compute_idom diamond = Some [0, 0, 0, 0]" "diamond_versions = [[1], [], [2], [3, 4]]"
  "map_option pf_next_ssa (ssa_build (\<lambda>ks. ks) diamond) = Some 4"
  by code_simp+


theorem rpo_exact_witness:
  "pf_blocks diamond \<noteq> [] \<and> hd (compute_rpo diamond) = entry_block diamond \<and> compute_rpo diamond = [0, 2, 1, 3]"
  using rpo_exact [OF diamond_facts(1)] diamond_facts by blast

lemma diamond_reach: "reach (pf_blocks diamond) (entry_block diamond) 3"
  using rpo_facts(2) [OF diamond_facts(1)] diamond_facts(3) by auto

lemma diamond_preds_sound: "preds_sound (pf_blocks diamond)"
  by code_simp

theorem compute_dominators_exact_witness:
  "compute_idom diamond = Some [0, 0, 0, 0] \<and> dominates (pf_blocks diamond) (entry_block diamond) 0 3"
proof -
  have e: "entry_block diamond = 0" by code_simp
  from compute_dominators_exact [OF diamond_facts(1,2) diamond_preds_sound] diamond_reach diamond_facts(4) e
  show ?thesis by auto
qed

end
