(* ===== verification/Cf_Struct.thy ===== *)
theory Cf_Struct
  imports Pcode_IR
begin

text \<open>
  The structured form of a function (\<open>src/src/hyperion/core/decompiler/cf_struct.h\<close> and
  \<open>cf_struct.cpp\<close>): expressions, statements, the statements of one block, the listing of labels
  and gotos that \<open>CFStructure::structure\<close> produces, and the region structurer that recognises
  loops and conditionals.
\<close>

section \<open>Expressions and statements\<close>

datatype stmt_kind = SExpr | SAssign | SIf | SIfElse | SWhile | SDoWhile | SFor | SLabel | SGoto
  | SReturn | SBlock | SSwitch

datatype cexpr = CExpr (ce_op: pcode_op) (ce_vn: varnode) (ce_call_name: string)
  (ce_args: "cexpr list") (ce_negated: bool)

definition default_cexpr :: cexpr where
  "default_cexpr = CExpr NOP default_vn '''' [] False"

definition ce_var :: "varnode \<Rightarrow> cexpr" where
  "ce_var v = CExpr COPY v '''' [] False"

definition ce_imm :: "u64 \<Rightarrow> int \<Rightarrow> cexpr" where
  "ce_imm val sz = CExpr COPY (vn_const val sz) '''' [] False"

definition ce_binop :: "pcode_op \<Rightarrow> cexpr \<Rightarrow> cexpr \<Rightarrow> cexpr" where
  "ce_binop p l r = CExpr p default_vn '''' [l, r] False"

definition ce_call :: "string \<Rightarrow> cexpr list \<Rightarrow> cexpr" where
  "ce_call nm a = CExpr CALL default_vn nm a False"

definition ce_deref :: "cexpr \<Rightarrow> cexpr" where
  "ce_deref a = CExpr LOAD default_vn '''' [a] False"

definition ce_is_var :: "cexpr \<Rightarrow> bool" where
  "ce_is_var e \<longleftrightarrow> ce_op e = COPY \<and> \<not> is_const (ce_vn e) \<and> ce_args e = []"

definition ce_is_const :: "cexpr \<Rightarrow> bool" where
  "ce_is_const e \<longleftrightarrow> ce_op e = COPY \<and> is_const (ce_vn e) \<and> ce_args e = []"

datatype cstmt = CStmt (st_kind: stmt_kind) (st_expr: cexpr) (st_cond: cexpr) (st_dst: varnode)
  (st_body: "cstmt list") (st_else_body: "cstmt list") (st_addr: va_t) (st_goto_target: va_t)
  (st_for_init: cexpr) (st_for_incr: cexpr) (st_for_var: varnode)

text \<open>The statements the structurer makes, over the default member initialisers of \<open>CStmt\<close>.\<close>

definition plain_stmt :: "stmt_kind \<Rightarrow> va_t \<Rightarrow> cstmt" where
  "plain_stmt k a = CStmt k default_cexpr default_cexpr default_vn [] [] a 0 default_cexpr default_cexpr default_vn"

definition assign_stmt :: "va_t \<Rightarrow> varnode \<Rightarrow> cexpr \<Rightarrow> cstmt" where
  "assign_stmt a d e = CStmt SAssign e default_cexpr d [] [] a 0 default_cexpr default_cexpr default_vn"

definition store_stmt :: "va_t \<Rightarrow> cexpr \<Rightarrow> cexpr \<Rightarrow> cstmt" where
  "store_stmt a e c = CStmt SExpr e c default_vn [] [] a 0 default_cexpr default_cexpr default_vn"

definition return_stmt :: "va_t \<Rightarrow> cexpr \<Rightarrow> cstmt" where
  "return_stmt a e = CStmt SReturn e default_cexpr default_vn [] [] a 0 default_cexpr default_cexpr default_vn"

definition jump_stmt :: "stmt_kind \<Rightarrow> va_t \<Rightarrow> va_t \<Rightarrow> cstmt" where
  "jump_stmt k a t = CStmt k default_cexpr default_cexpr default_vn [] [] a t default_cexpr default_cexpr default_vn"

definition cond_stmt :: "stmt_kind \<Rightarrow> va_t \<Rightarrow> cexpr \<Rightarrow> cstmt list \<Rightarrow> cstmt list \<Rightarrow> va_t \<Rightarrow> cstmt" where
  "cond_stmt k a c b e t = CStmt k default_cexpr c default_vn b e a t default_cexpr default_cexpr default_vn"

definition for_stmt :: "va_t \<Rightarrow> cexpr \<Rightarrow> cexpr \<Rightarrow> cexpr \<Rightarrow> varnode \<Rightarrow> cstmt" where
  "for_stmt a c init incr v = CStmt SFor default_cexpr c default_vn [] [] a 0 init incr v"

definition append_body :: "cstmt list \<Rightarrow> cstmt \<Rightarrow> cstmt" where
  "append_body b s = CStmt (st_kind s) (st_expr s) (st_cond s) (st_dst s) (st_body s @ b)
     (st_else_body s) (st_addr s) (st_goto_target s) (st_for_init s) (st_for_incr s) (st_for_var s)"

lemmas stmt_defs = plain_stmt_def assign_stmt_def store_stmt_def return_stmt_def jump_stmt_def
  cond_stmt_def for_stmt_def

record cfunc =
  cf_name :: string
  cf_entry :: va_t
  cf_params :: "varnode list"
  cf_locals :: "varnode list"
  cf_body :: "cstmt list"

section \<open>One operation, one block\<close>

definition varnode_expr :: "varnode \<Rightarrow> cexpr" where
  "varnode_expr v = ce_var v"

definition is_binary :: "pcode_op \<Rightarrow> bool" where
  "is_binary opc \<longleftrightarrow> opc \<in> {ADD, SUB, AND_OP, OR_OP, XOR_OP, SHIFT_LEFT, SHIFT_RIGHT, SHIFT_ARIGHT,
     ROTATE_LEFT, ROTATE_RIGHT, INT_MULT, INT_DIV, INT_SDIV, INT_EQUAL, INT_NEQUAL, INT_LESS,
     INT_SLESS, BOOL_AND, BOOL_OR}"

definition build_expr :: "pcode_insn \<Rightarrow> cexpr" where
  "build_expr i =
     (let ins = pi_inputs i; opc = pi_op i in
      if opc \<in> {CALL, INTRINSIC} then
        (case ins of
           [] \<Rightarrow> ce_call '''' []
         | f # args \<Rightarrow> ce_call (if vn_name f = '''' then ''func'' else vn_name f) (map varnode_expr args))
      else if opc = LOAD then
        (if ins \<noteq> [] then ce_deref (varnode_expr (ins ! 0)) else ce_imm 0 8)
      else if is_binary opc then
        (if 2 \<le> length ins then ce_binop opc (varnode_expr (ins ! 0)) (varnode_expr (ins ! 1)) else ce_imm 0 8)
      else if opc = PIECE then
        (if 2 \<le> length ins then
           ce_binop OR_OP
             (ce_binop SHIFT_LEFT (varnode_expr (ins ! 0))
               (ce_imm (word_of_int (vn_size (ins ! 1)) * 8) (vn_size (ins ! 0))))
             (varnode_expr (ins ! 1))
         else ce_imm 0 8)
      else if opc = SUBPIECE then
        (if ins \<noteq> [] then
           (let bytes = (if 2 \<le> length ins \<and> is_const (ins ! 1) then vn_offset (ins ! 1) else 0)
            in ce_binop SHIFT_RIGHT (varnode_expr (ins ! 0)) (ce_imm (bytes * 8) (vn_size (ins ! 0))))
         else ce_imm 0 8)
      else if opc \<in> {INT_ZEXT, INT_SEXT} then
        (if ins \<noteq> [] then CExpr opc (pi_output i) '''' [varnode_expr (ins ! 0)] False else ce_imm 0 8)
      else if opc = COPY then
        (if ins \<noteq> [] then varnode_expr (ins ! 0) else ce_imm 0 8)
      else if opc \<in> {INT_NEGATE, INT_NOT, BOOL_NOT} then
        (if ins \<noteq> [] then CExpr opc default_vn '''' [varnode_expr (ins ! 0)] False else ce_imm 0 8)
      else (if ins \<noteq> [] then varnode_expr (ins ! 0) else ce_imm 0 8))"

definition find_branch_target :: "pcode_block \<Rightarrow> int" where
  "find_branch_target blk =
     (case find (\<lambda>i. (pi_op i = CBRANCH \<or> pi_op i = BRANCH) \<and> pi_inputs i \<noteq> []) (rev (pb_ops blk)) of
        Some i \<Rightarrow> sint (ucast (vn_offset (pi_inputs i ! 0)) :: u32)
      | None \<Rightarrow> -1)"

definition is_back_edge :: "int \<Rightarrow> int \<Rightarrow> bool" where
  "is_back_edge frm to \<longleftrightarrow> to \<le> frm"

fun emit_ops :: "pcode_insn list \<Rightarrow> cstmt list" where
  "emit_ops [] = []"
| "emit_ops (i # ops) =
     (if pi_op i = NOP then emit_ops ops
      else if pi_op i = CBRANCH \<or> pi_op i = BRANCH then emit_ops ops
      else if pi_op i = STORE then
        (if 2 \<le> length (pi_inputs i) then
           store_stmt (pi_addr i)
             (CExpr STORE default_vn '''' [varnode_expr (pi_inputs i ! 0), varnode_expr (pi_inputs i ! 1)] False)
             (varnode_expr (pi_inputs i ! 1))
         else plain_stmt SAssign (pi_addr i)) # emit_ops ops
      else if pi_op i = RETURN then
        [return_stmt (pi_addr i) (if pi_inputs i \<noteq> [] then varnode_expr (pi_inputs i ! 0) else default_cexpr)]
      else if pi_op i = CALL \<or> pi_op i = INTRINSIC then
        assign_stmt (pi_addr i) (pi_output i) (build_expr i) # emit_ops ops
      else if vn_valid (pi_output i) then
        assign_stmt (pi_addr i) (pi_output i) (build_expr i) # emit_ops ops
      else emit_ops ops)"

definition emit_block_stmts :: "pcode_block \<Rightarrow> cstmt list" where
  "emit_block_stmts blk = emit_ops (pb_ops blk)"

section \<open>The listing of labels and gotos\<close>

text \<open>The last control transfer of the block: a conditional one, or an unconditional one.\<close>

fun last_control :: "pcode_insn list \<Rightarrow> pcode_insn option \<times> pcode_insn option" where
  "last_control [] = (None, None)"
| "last_control (i # rops) =
     (if pi_op i = CBRANCH then (Some i, None)
      else if pi_op i = BRANCH then (None, Some i)
      else last_control rops)"

definition succ_addrs :: "pcode_func \<Rightarrow> pcode_block \<Rightarrow> va_t list" where
  "succ_addrs f blk = map (\<lambda>s. pb_addr (pf_blocks f ! nat s))
     (filter (\<lambda>s. 0 \<le> s \<and> s < int (length (pf_blocks f))) (pb_succs blk))"

text \<open>A conditional transfer needs its target and its condition, an unconditional one its target.\<close>

definition cond_branch :: "pcode_block \<Rightarrow> pcode_insn option" where
  "cond_branch blk = (case fst (last_control (rev (pb_ops blk))) of
     Some i \<Rightarrow> if 2 \<le> length (pi_inputs i) then Some i else None | None \<Rightarrow> None)"

definition jump_branch :: "pcode_block \<Rightarrow> pcode_insn option" where
  "jump_branch blk = (case snd (last_control (rev (pb_ops blk))) of
     Some i \<Rightarrow> if pi_inputs i \<noteq> [] then Some i else None | None \<Rightarrow> None)"

definition control_stmts :: "pcode_func \<Rightarrow> pcode_block \<Rightarrow> cstmt list" where
  "control_stmts f blk =
     (case cond_branch blk of
        Some i \<Rightarrow>
          (let true_target = vn_offset (pi_inputs i ! 0) in
           cond_stmt SIf (pi_addr i) (varnode_expr (pi_inputs i ! 1)) [jump_stmt SGoto (pi_addr i) true_target] [] 0 #
           map (jump_stmt SGoto (pi_addr i)) (filter (\<lambda>t. t \<noteq> true_target) (succ_addrs f blk)))
      | None \<Rightarrow>
          (case jump_branch blk of
             Some i \<Rightarrow> [jump_stmt SGoto (pi_addr i) (vn_offset (pi_inputs i ! 0))]
           | None \<Rightarrow>
               (if pb_has_return blk then []
                else map (jump_stmt SGoto (pb_addr blk)) (succ_addrs f blk))))"

definition block_listing :: "pcode_func \<Rightarrow> pcode_block \<Rightarrow> cstmt list" where
  "block_listing f blk = jump_stmt SLabel (pb_addr blk) (pb_addr blk) # emit_block_stmts blk @ control_stmts f blk"

definition structure_func :: "pcode_func \<Rightarrow> cfunc" where
  "structure_func f = \<lparr>cf_name = pf_name f, cf_entry = pf_entry f, cf_params = pf_params f,
     cf_locals = pf_locals f, cf_body = concat (map (block_listing f) (pf_blocks f))\<rparr>"

section \<open>Region structuring\<close>

definition increments :: "varnode \<Rightarrow> pcode_insn \<Rightarrow> bool" where
  "increments v i \<longleftrightarrow> (pi_op i = ADD \<or> pi_op i = SUB) \<and> vn_valid (pi_output i) \<and> vn_eq (pi_output i) v \<and>
     2 \<le> length (pi_inputs i)"

definition increment_expr :: "varnode \<Rightarrow> pcode_insn \<Rightarrow> cexpr" where
  "increment_expr v i =
     (if pi_op i = ADD \<and> vn_eq (pi_inputs i ! 0) v \<and> is_const (pi_inputs i ! 1) \<and> vn_offset (pi_inputs i ! 1) = 1
      then ce_binop ADD (ce_var v) (ce_imm 1 8) else build_expr i)"

text \<open>\<open>try_for_loop\<close>: the loop statement, when the pattern is there.\<close>

definition try_for_loop :: "pcode_func \<Rightarrow> int \<Rightarrow> int \<Rightarrow> cstmt list \<Rightarrow> cstmt option" where
  "try_for_loop f header_idx back_idx pre =
     (let n = int (length (pf_blocks f)) in
      if pre = [] then None
      else if header_idx < 0 \<or> n \<le> header_idx then None
      else if back_idx < 0 \<or> n \<le> back_idx then None
      else
        (let last_pre = last pre; v = st_dst last_pre in
         if st_kind last_pre \<noteq> SAssign then None
         else if \<not> vn_valid v then None
         else if \<not> ce_is_const (st_expr last_pre) then None
         else (case find (increments v) (pb_ops (pf_blocks f ! nat back_idx)) of
             None \<Rightarrow> None
           | Some i \<Rightarrow>
               (let header = pf_blocks f ! nat header_idx;
                    cond = (case find (\<lambda>j. pi_op j = CBRANCH \<and> 2 \<le> length (pi_inputs j)) (rev (pb_ops header)) of
                        Some j \<Rightarrow> varnode_expr (pi_inputs j ! 1)
                      | None \<Rightarrow> ce_imm 1 8)
                in Some (for_stmt (pb_addr header) cond (st_expr last_pre) (increment_expr v i) v)))))"

text \<open>The blocks of a loop body: those not yet visited, in order.\<close>

definition absorb :: "pcode_func \<Rightarrow> int \<Rightarrow> int \<Rightarrow> int list \<Rightarrow> int list \<times> cstmt list" where
  "absorb f frm to visited =
     (let blks = filter (\<lambda>li. li \<notin> set visited) [frm..to - 1]
      in (blks @ visited, concat (map (\<lambda>li. emit_block_stmts (pf_blocks f ! nat li)) blks)))"

text \<open>The successor the branch names, and the other one.\<close>

definition split_succs :: "pcode_func \<Rightarrow> va_t \<Rightarrow> int list \<Rightarrow> int \<times> int" where
  "split_succs f target succs =
     (case fold (\<lambda>s (t, e). if s < int (length (pf_blocks f)) \<and> pb_addr (pf_blocks f ! nat s) = target
                  then (s, e) else (t, s)) succs (-1, -1) of
        (t, e) \<Rightarrow> (if t < 0 \<and> 1 \<le> length succs then succs ! 0 else t,
                   if e < 0 \<and> 2 \<le> length succs then succs ! 1 else e))"

definition region_branch ::
  "pcode_func \<Rightarrow> int \<Rightarrow> int \<Rightarrow> pcode_insn \<Rightarrow> int list \<Rightarrow> cstmt list \<Rightarrow> int list \<times> cstmt list" where
  "region_branch f end_idx i cbranch visited out =
     (let blk = pf_blocks f ! nat i; target = vn_offset (pi_inputs cbranch ! 0);
          (t, e) = split_succs f target (pb_succs blk);
          cond = (if 2 \<le> length (pi_inputs cbranch) then varnode_expr (pi_inputs cbranch ! 1) else ce_imm 1 8) in
      if 0 \<le> t \<and> is_back_edge i t then
        (let (visited', body) = absorb f t i visited in
         case try_for_loop f t i out of
           Some fs \<Rightarrow> (visited', out @ [append_body body fs])
         | None \<Rightarrow> (visited', out @ [cond_stmt SWhile (pb_addr blk) cond body [] 0]))
      else if 0 \<le> e \<and> is_back_edge i e then
        (visited, out @ [cond_stmt SDoWhile (pb_addr blk) cond [] [] 0])
      else if 0 \<le> t \<and> t < end_idx \<and> 0 \<le> e \<and> e < end_idx then
        (let tb = emit_block_stmts (pf_blocks f ! nat t); eb = emit_block_stmts (pf_blocks f ! nat e) in
         if list_ex (\<lambda>ts. ts = e \<or> max t e < ts) (pb_succs (pf_blocks f ! nat t))
         then (e # t # visited, out @ [cond_stmt SIfElse (pb_addr blk) cond tb eb 0])
         else (t # visited, out @ [cond_stmt SIf (pb_addr blk) cond tb [] 0]))
      else if 0 \<le> t \<and> t < end_idx then
        (t # visited, out @ [cond_stmt SIf (pb_addr blk) cond (emit_block_stmts (pf_blocks f ! nat t)) [] 0])
      else (visited, out @ [cond_stmt SGoto (pb_addr blk) cond [] [] target]))"

text \<open>The back edge of a block with one successor.\<close>

definition region_goto :: "pcode_func \<Rightarrow> int \<Rightarrow> pcode_block \<Rightarrow> cstmt list" where
  "region_goto f i blk =
     (case pb_succs blk of
        [s] \<Rightarrow> if \<not> pb_has_return blk \<and> is_back_edge i s
          then [jump_stmt SGoto (pb_addr blk)
                 (if s < int (length (pf_blocks f)) then pb_addr (pf_blocks f ! nat s) else 0)]
          else []
      | _ \<Rightarrow> [])"

definition region_block :: "pcode_func \<Rightarrow> int \<Rightarrow> int \<Rightarrow> int list \<times> cstmt list \<Rightarrow> int list \<times> cstmt list" where
  "region_block f end_idx i s =
     (if i \<in> set (fst s) then s
      else
        (let visited = i # fst s; blk = pf_blocks f ! nat i; out = snd s @ emit_block_stmts blk in
         case find (\<lambda>j. pi_op j = CBRANCH) (rev (pb_ops blk)) of
           Some cbranch \<Rightarrow>
             if 2 \<le> length (pb_succs blk) then region_branch f end_idx i cbranch visited out
             else (visited, out @ region_goto f i blk)
         | None \<Rightarrow> (visited, out @ region_goto f i blk)))"

definition structure_region :: "pcode_func \<Rightarrow> int \<Rightarrow> int \<Rightarrow> cstmt list \<Rightarrow> cstmt list" where
  "structure_region f start end_idx out =
     snd (fold (region_block f end_idx) [start..end_idx - 1] ([], out))"

end
