(* ===== verification/Cf_Struct_Correct.thy ===== *)
theory Cf_Struct_Correct
  imports Cf_Struct
begin

text \<open>
  The listing of labels and gotos that \<open>CFStructure::structure\<close> makes is a program with the control
  flow of the graph.  Both are given a small-step semantics in which a statement is an opaque
  event and a condition is decided by a function that sees the statements executed so far; every
  path of the graph is then a run of the listing with the same statements.
\<close>

section \<open>The two semantics\<close>

type_synonym decider = "cexpr \<Rightarrow> cstmt list \<Rightarrow> bool"

text \<open>The listing: a state is the rest of the statement list and the trace, newest first.\<close>

fun after_label :: "va_t \<Rightarrow> cstmt list \<Rightarrow> cstmt list option" where
  "after_label t [] = None"
| "after_label t (s # k) =
     (if st_kind s = SLabel \<and> st_goto_target s = t then Some (s # k) else after_label t k)"

inductive goto_step :: "cstmt list \<Rightarrow> decider \<Rightarrow> cstmt list \<times> cstmt list \<Rightarrow> cstmt list \<times> cstmt list \<Rightarrow> bool"
  for body :: "cstmt list" and cnd :: decider where
  go_label: "st_kind s = SLabel \<Longrightarrow> goto_step body cnd (s # k, tr) (k, tr)"
| go_goto: "st_kind s = SGoto \<Longrightarrow> after_label (st_goto_target s) body = Some k' \<Longrightarrow>
    goto_step body cnd (s # k, tr) (k', tr)"
| go_then: "st_kind s = SIf \<Longrightarrow> cnd (st_cond s) tr \<Longrightarrow> goto_step body cnd (s # k, tr) (st_body s @ k, tr)"
| go_else: "st_kind s = SIf \<Longrightarrow> \<not> cnd (st_cond s) tr \<Longrightarrow> goto_step body cnd (s # k, tr) (k, tr)"
| go_stmt: "st_kind s = SExpr \<or> st_kind s = SAssign \<Longrightarrow> goto_step body cnd (s # k, tr) (k, s # tr)"

inductive_simps goto_step_Cons: "goto_step body cnd (s # k, tr) st"

text \<open>The graph: a state is a block and the trace.\<close>

definition returns :: "pcode_block \<Rightarrow> bool" where
  "returns blk \<longleftrightarrow> list_ex (\<lambda>i. pi_op i = RETURN) (pb_ops blk)"

inductive next_addr :: "pcode_func \<Rightarrow> decider \<Rightarrow> pcode_block \<Rightarrow> cstmt list \<Rightarrow> va_t \<Rightarrow> bool"
  for f :: pcode_func and cnd :: decider where
  next_taken: "cond_branch blk = Some i \<Longrightarrow> cnd (varnode_expr (pi_inputs i ! 1)) tr \<Longrightarrow>
    next_addr f cnd blk tr (vn_offset (pi_inputs i ! 0))"
| next_not_taken: "cond_branch blk = Some i \<Longrightarrow> \<not> cnd (varnode_expr (pi_inputs i ! 1)) tr \<Longrightarrow>
    filter (\<lambda>t. t \<noteq> vn_offset (pi_inputs i ! 0)) (succ_addrs f blk) = a # as \<Longrightarrow> next_addr f cnd blk tr a"
| next_jump: "cond_branch blk = None \<Longrightarrow> jump_branch blk = Some i \<Longrightarrow>
    next_addr f cnd blk tr (vn_offset (pi_inputs i ! 0))"
| next_fall: "cond_branch blk = None \<Longrightarrow> jump_branch blk = None \<Longrightarrow> \<not> pb_has_return blk \<Longrightarrow>
    succ_addrs f blk = a # as \<Longrightarrow> next_addr f cnd blk tr a"

inductive cfg_step :: "pcode_func \<Rightarrow> decider \<Rightarrow> nat \<times> cstmt list \<Rightarrow> nat \<times> cstmt list \<Rightarrow> bool"
  for f :: pcode_func and cnd :: decider where
  "b < length (pf_blocks f) \<Longrightarrow> \<not> returns (pf_blocks f ! b) \<Longrightarrow>
   tr' = rev (emit_block_stmts (pf_blocks f ! b)) @ tr \<Longrightarrow> next_addr f cnd (pf_blocks f ! b) tr' a \<Longrightarrow>
   b' < length (pf_blocks f) \<Longrightarrow> pb_addr (pf_blocks f ! b') = a \<Longrightarrow> cfg_step f cnd (b, tr) (b', tr')"

section \<open>The shape of the listing\<close>

definition plain_list :: "cstmt list \<Rightarrow> bool" where
  "plain_list ss \<longleftrightarrow> (\<forall>s \<in> set ss. st_kind s = SExpr \<or> st_kind s = SAssign)"

lemma emit_ops_kinds: "s \<in> set (emit_ops ops) \<Longrightarrow> st_kind s \<in> {SExpr, SAssign, SReturn}"
  by (induction ops) (auto simp: stmt_defs split: if_splits)

lemma emit_ops_plain: "\<not> list_ex (\<lambda>i. pi_op i = RETURN) ops \<Longrightarrow> plain_list (emit_ops ops)"
  by (induction ops) (auto simp: plain_list_def stmt_defs)

lemma emit_ops_Cons:
  assumes "pi_op i \<noteq> RETURN"
  shows "\<exists>pre. emit_ops (i # ops) = pre @ emit_ops ops \<and> plain_list pre"
proof (cases "emit_ops (i # ops) = emit_ops ops")
  case True
  then show ?thesis by (intro exI [of _ "[]"]) (simp add: plain_list_def)
next
  case False
  then obtain s where "emit_ops (i # ops) = [s] @ emit_ops ops" "st_kind s = SExpr \<or> st_kind s = SAssign"
    using assms by (auto simp: stmt_defs split: if_splits)
  then show ?thesis by (intro exI [of _ "[s]"]) (simp add: plain_list_def)
qed

lemma emit_ops_return:
  "list_ex (\<lambda>i. pi_op i = RETURN) ops \<Longrightarrow>
   \<exists>ss r. emit_ops ops = ss @ [r] \<and> plain_list ss \<and> st_kind r = SReturn"
proof (induction ops)
  case Nil
  then show ?case by simp
next
  case (Cons i ops)
  show ?case
  proof (cases "pi_op i = RETURN")
    case True
    then show ?thesis by (intro exI [of _ "[]"]) (simp add: plain_list_def stmt_defs)
  next
    case False
    then obtain ss r where ss: "emit_ops ops = ss @ [r]" "plain_list ss" "st_kind r = SReturn"
      using Cons by auto
    obtain pre where pre: "emit_ops (i # ops) = pre @ emit_ops ops" "plain_list pre"
      using emit_ops_Cons [OF False] by blast
    show ?thesis by (rule exI [of _ "pre @ ss"], rule exI [of _ r]) (use ss pre in \<open>auto simp: plain_list_def\<close>)
  qed
qed

lemma control_stmts_kinds: "s \<in> set (control_stmts f blk) \<Longrightarrow> st_kind s \<in> {SIf, SGoto}"
  by (auto simp: control_stmts_def stmt_defs Let_def split: option.splits if_splits)

text \<open>The rest of the listing from block \<open>b\<close> on.\<close>

definition segment :: "pcode_func \<Rightarrow> nat \<Rightarrow> cstmt list" where
  "segment f b = concat (map (block_listing f) (drop b (pf_blocks f)))"

lemma segment_step:
  "b < length (pf_blocks f) \<Longrightarrow> segment f b = block_listing f (pf_blocks f ! b) @ segment f (Suc b)"
  by (simp add: segment_def Cons_nth_drop_Suc [symmetric])

lemma after_label_skip:
  "\<forall>s \<in> set ss. st_kind s \<noteq> SLabel \<Longrightarrow> after_label t (ss @ k) = after_label t k"
  by (induction ss) auto

lemma no_label_inside: "\<forall>s \<in> set (emit_block_stmts blk @ control_stmts f blk). st_kind s \<noteq> SLabel"
  using emit_ops_kinds control_stmts_kinds by (fastforce simp: emit_block_stmts_def)

lemma after_label_segment:
  assumes "distinct (map pb_addr (pf_blocks f))" "b < length (pf_blocks f)"
  shows "k \<le> b \<Longrightarrow> after_label (pb_addr (pf_blocks f ! b)) (segment f k) = Some (segment f b)"
proof (induction "b - k" arbitrary: k)
  case 0
  then have "k = b" by simp
  then show ?case using assms(2) by (simp add: segment_step block_listing_def stmt_defs)
next
  case (Suc d)
  then have k: "k < b" "k < length (pf_blocks f)" using assms(2) by auto
  have "pb_addr (pf_blocks f ! k) \<noteq> pb_addr (pf_blocks f ! b)"
    using assms k by (auto simp: distinct_conv_nth)
  moreover have "after_label (pb_addr (pf_blocks f ! b)) (segment f (Suc k)) = Some (segment f b)"
    using Suc k by auto
  ultimately show ?case
    using after_label_skip [OF no_label_inside, of _ "pf_blocks f ! k" f "segment f (Suc k)"] k
    by (simp add: segment_step block_listing_def stmt_defs)
qed

section \<open>The simulation\<close>

abbreviation goto_steps where "goto_steps body cnd \<equiv> (goto_step body cnd)\<^sup>*\<^sup>*"

lemma run_plain: "plain_list ss \<Longrightarrow> goto_steps body cnd (ss @ k, tr) (k, rev ss @ tr)"
proof (induction ss arbitrary: tr)
  case Nil
  show ?case by simp
next
  case (Cons s ss)
  then have "goto_step body cnd ((s # ss) @ k, tr) (ss @ k, s # tr)"
    by (auto simp: plain_list_def intro: go_stmt)
  moreover have "goto_steps body cnd (ss @ k, s # tr) (k, rev ss @ s # tr)"
    using Cons by (simp add: plain_list_def)
  ultimately show ?case by (simp add: converse_rtranclp_into_rtranclp)
qed

lemma enter_block:
  assumes "b < length (pf_blocks f)"
  shows "goto_steps body cnd (segment f b, tr)
    (emit_block_stmts (pf_blocks f ! b) @ control_stmts f (pf_blocks f ! b) @ segment f (Suc b), tr)"
  using assms
  by (intro r_into_rtranclp) (auto simp: segment_step block_listing_def stmt_defs intro: go_label)

lemma goto_block:
  assumes "distinct (map pb_addr (pf_blocks f))" "b < length (pf_blocks f)" "t = pb_addr (pf_blocks f ! b)"
  shows "goto_step (segment f 0) cnd (jump_stmt SGoto a t # k, tr) (segment f b, tr)"
  using after_label_segment [OF assms(1,2), of 0] assms(3) by (auto simp: stmt_defs intro: go_goto)

lemma control_simulates:
  assumes d: "distinct (map pb_addr (pf_blocks f))" and nx: "next_addr f cnd blk tr a"
    and b': "b' < length (pf_blocks f)" "pb_addr (pf_blocks f ! b') = a"
  shows "goto_steps (segment f 0) cnd (control_stmts f blk @ k, tr) (segment f b', tr)"
  using nx
proof cases
  case (next_taken i)
  let ?g = "jump_stmt SGoto (pi_addr i) (vn_offset (pi_inputs i ! 0))"
  obtain rest where c: "control_stmts f blk =
      cond_stmt SIf (pi_addr i) (varnode_expr (pi_inputs i ! 1)) [?g] [] 0 # rest"
    using next_taken by (simp add: control_stmts_def Let_def)
  have "goto_step (segment f 0) cnd (control_stmts f blk @ k, tr) (?g # rest @ k, tr)"
    using go_then [of "cond_stmt SIf (pi_addr i) (varnode_expr (pi_inputs i ! 1)) [?g] [] 0" cnd tr] next_taken
    by (auto simp: c cond_stmt_def)
  moreover have "goto_step (segment f 0) cnd (?g # rest @ k, tr) (segment f b', tr)"
    using next_taken b' by (intro goto_block [OF d]) auto
  ultimately show ?thesis by (meson converse_rtranclp_into_rtranclp r_into_rtranclp)
next
  case (next_not_taken i as)
  let ?g = "jump_stmt SGoto (pi_addr i) a"
  obtain s rest where c: "control_stmts f blk = s # ?g # rest" "st_kind s = SIf"
      "st_cond s = varnode_expr (pi_inputs i ! 1)"
    using next_not_taken by (simp add: control_stmts_def Let_def cond_stmt_def)
  have "goto_step (segment f 0) cnd (control_stmts f blk @ k, tr) (?g # rest @ k, tr)"
    using go_else [of s cnd tr] c next_not_taken by auto
  moreover have "goto_step (segment f 0) cnd (?g # rest @ k, tr) (segment f b', tr)"
    using b' by (intro goto_block [OF d]) auto
  ultimately show ?thesis by (meson converse_rtranclp_into_rtranclp r_into_rtranclp)
next
  case (next_jump i)
  then show ?thesis
    using goto_block [OF d b'(1), of a] b' by (auto simp: control_stmts_def Let_def intro!: r_into_rtranclp)
next
  case (next_fall as)
  then show ?thesis
    using goto_block [OF d b'(1), of a] b' by (auto simp: control_stmts_def Let_def intro!: r_into_rtranclp)
qed

lemma cfg_step_simulates:
  assumes d: "distinct (map pb_addr (pf_blocks f))" and st: "cfg_step f cnd (b, tr) (b', tr')"
  shows "goto_steps (segment f 0) cnd (segment f b, tr) (segment f b', tr')"
  using st
proof cases
  case (1 a)
  have "plain_list (emit_block_stmts (pf_blocks f ! b))"
    using 1 by (auto simp: emit_block_stmts_def returns_def intro: emit_ops_plain)
  then have "goto_steps (segment f 0) cnd (segment f b, tr)
      (control_stmts f (pf_blocks f ! b) @ segment f (Suc b), tr')"
    using enter_block [of b f "segment f 0" cnd tr] run_plain 1 by (meson rtranclp_trans)
  moreover have "goto_steps (segment f 0) cnd
      (control_stmts f (pf_blocks f ! b) @ segment f (Suc b), tr') (segment f b', tr')"
    using 1 by (intro control_simulates [OF d]) auto
  ultimately show ?thesis by (rule rtranclp_trans)
qed


text \<open>
  A returning block returns: a block with a \<open>RETURN\<close> operation runs, from its label, through
  the statements of the operations before it and stops at the return statement, whose value is the
  first input of the operation; no control statement after it is reached.
\<close>

theorem structure_returns:
  assumes "b < length (pf_blocks f)" and "returns (pf_blocks f ! b)"
  shows "\<exists>ss r k. emit_block_stmts (pf_blocks f ! b) = ss @ [r] \<and> st_kind r = SReturn \<and>
    (goto_step (cf_body (structure_func f)) cnd)\<^sup>*\<^sup>* (segment f b, tr) (r # k, rev ss @ tr) \<and>
    (\<forall>st. \<not> goto_step (cf_body (structure_func f)) cnd (r # k, rev ss @ tr) st)"
proof -
  obtain ss r where ss: "emit_block_stmts (pf_blocks f ! b) = ss @ [r]" "plain_list ss" "st_kind r = SReturn"
    using emit_ops_return [of "pb_ops (pf_blocks f ! b)"] assms(2)
    unfolding emit_block_stmts_def returns_def by blast
  let ?k = "control_stmts f (pf_blocks f ! b) @ segment f (Suc b)"
  have "goto_steps (cf_body (structure_func f)) cnd (segment f b, tr) (ss @ r # ?k, tr)"
    using enter_block [OF assms(1), of "cf_body (structure_func f)" cnd tr] ss(1) by simp
  then have "goto_steps (cf_body (structure_func f)) cnd (segment f b, tr) (r # ?k, rev ss @ tr)"
    using run_plain [OF ss(2)] by (meson rtranclp_trans)
  with ss show ?thesis by (auto simp: goto_step_Cons)
qed

section \<open>An example: a branch over two returning blocks\<close>

definition branch_block :: pcode_block where
  "branch_block = default_block\<lparr>pb_id := 0,
     pb_ops := [make_insn LOAD (vn_temp 0 8) [vn_const 64 8] 0,
                make_insn CBRANCH default_vn [vn_const 8 8, vn_temp 0 8] 0],
     pb_succs := [1, 2]\<rparr>"

definition return_block :: "int \<Rightarrow> va_t \<Rightarrow> pcode_block" where
  "return_block i a = default_block\<lparr>pb_id := i, pb_addr := a, pb_has_return := True,
     pb_ops := [make_insn COPY (vn_temp 1 8) [vn_const 7 8] a, make_insn RETURN default_vn [vn_temp 1 8] a]\<rparr>"

definition branch_example :: pcode_func where
  "branch_example = \<lparr>pf_entry = 0, pf_name = ''f'',
     pf_blocks = [branch_block, return_block 1 4, return_block 2 8],
     pf_next_temp = 2, pf_next_ssa = 0, pf_params = [], pf_locals = []\<rparr>"

lemma branch_example_blocks: "pf_blocks branch_example = [branch_block, return_block 1 4, return_block 2 8]"
  by (simp add: branch_example_def)

lemma branch_example_addrs: "distinct (map pb_addr (pf_blocks branch_example))"
  by (simp add: branch_example_def branch_block_def return_block_def default_block_def)

lemma branch_example_step:
  "cfg_step branch_example (\<lambda>c tr. length tr = 1) (0, []) (2, rev (emit_block_stmts branch_block))"
proof (rule cfg_step.intros)
  have "next_addr branch_example (\<lambda>c tr. length tr = 1) branch_block (rev (emit_block_stmts branch_block))
      (vn_offset (pi_inputs (make_insn CBRANCH default_vn [vn_const 8 8, vn_temp 0 8] 0) ! 0))"
    by (rule next_taken)
       (simp_all add: cond_branch_def branch_block_def make_insn_def emit_block_stmts_def vn_valid_def
          vn_temp_def default_vn_def)
  then show "next_addr branch_example (\<lambda>c tr. length tr = 1) (pf_blocks branch_example ! 0)
      (rev (emit_block_stmts branch_block)) 8"
    by (simp add: branch_example_blocks make_insn_def vn_const_def)
qed (simp_all add: branch_example_blocks returns_def branch_block_def make_insn_def return_block_def)


theorem structure_returns_witness:
  "\<exists>ss r k. emit_block_stmts (return_block 2 8) = ss @ [r] \<and> st_kind r = SReturn \<and>
    (goto_step (cf_body (structure_func branch_example)) (\<lambda>c tr. True))\<^sup>*\<^sup>*
      (segment branch_example 2, []) (r # k, rev ss)"
proof -
  have "2 < length (pf_blocks branch_example)" "returns (pf_blocks branch_example ! 2)"
    by (simp_all add: branch_example_blocks returns_def return_block_def make_insn_def)
  from structure_returns [OF this, of "\<lambda>c tr. True" "[]"] show ?thesis
    by (auto simp: branch_example_blocks)
qed

end
