(* ===== verification/Type_Infer.thy ===== *)
theory Type_Infer
  imports Lifter
begin

text \<open>
  Type inference (\<open>src/src/hyperion/core/decompiler/type_infer.h\<close> and \<open>type_infer.cpp\<close>): the
  decompiler's types and their text, the table of known functions, the cache of recovered
  signatures, the constraints a function's operations put on its variables, and the container
  heuristic.
\<close>

section \<open>Types\<close>

datatype dtype_kind = DVoid | DBool | DChar | DWChar | DInt8 | DInt16 | DInt32 | DInt64
  | DUInt8 | DUInt16 | DUInt32 | DUInt64 | DFloat | DDouble | DPointer | DArray | DFuncPtr
  | DStruct | DSizeT

datatype dtype = DType (dt_kind: dtype_kind) (dt_inner: "dtype option") (dt_array_count: int)
  (dt_struct_name: string) (dt_is_const: bool)

definition make_kind :: "dtype_kind \<Rightarrow> dtype" where
  "make_kind k = DType k None 0 '''' False"

definition make_void :: dtype where "make_void = make_kind DVoid"
definition make_bool :: dtype where "make_bool = make_kind DBool"
definition make_char :: dtype where "make_char = make_kind DChar"
definition make_sizet :: dtype where "make_sizet = make_kind DSizeT"

definition make_int :: "int \<Rightarrow> bool \<Rightarrow> dtype" where
  "make_int bits sign = make_kind
     (if bits = 8 then (if sign then DInt8 else DUInt8)
      else if bits = 16 then (if sign then DInt16 else DUInt16)
      else if bits = 32 then (if sign then DInt32 else DUInt32)
      else (if sign then DInt64 else DUInt64))"

definition make_ptr :: "dtype \<Rightarrow> bool \<Rightarrow> dtype" where
  "make_ptr pointee c = DType DPointer (Some pointee) 0 '''' c"

definition make_array :: "dtype \<Rightarrow> u32 \<Rightarrow> dtype" where
  "make_array elem n = DType DArray (Some elem) (sint n) '''' False"

definition make_struct :: "string \<Rightarrow> dtype" where
  "make_struct nm = DType DStruct None 0 nm False"

definition is_pointer :: "dtype \<Rightarrow> bool" where
  "is_pointer t \<longleftrightarrow> dt_kind t = DPointer"

definition is_integer :: "dtype \<Rightarrow> bool" where
  "is_integer t \<longleftrightarrow> dt_kind t \<in> {DInt8, DInt16, DInt32, DInt64, DUInt8, DUInt16, DUInt32, DUInt64}"

definition bit_width :: "dtype \<Rightarrow> int" where
  "bit_width t =
     (if dt_kind t \<in> {DBool, DInt8, DUInt8, DChar} then 8
      else if dt_kind t \<in> {DInt16, DUInt16, DWChar} then 16
      else if dt_kind t \<in> {DInt32, DUInt32, DFloat} then 32
      else 64)"

text \<open>\<open>to_string\<close>; a struct falls out of the switch.\<close>

fun dtype_str :: "dtype \<Rightarrow> string" where
  "dtype_str (DType k inner n s c) = (case k of
     DVoid \<Rightarrow> ''void'' | DBool \<Rightarrow> ''bool'' | DChar \<Rightarrow> ''char'' | DWChar \<Rightarrow> ''wchar_t''
   | DInt8 \<Rightarrow> ''int8_t'' | DInt16 \<Rightarrow> ''int16_t'' | DInt32 \<Rightarrow> ''int32_t'' | DInt64 \<Rightarrow> ''int64_t''
   | DUInt8 \<Rightarrow> ''uint8_t'' | DUInt16 \<Rightarrow> ''uint16_t'' | DUInt32 \<Rightarrow> ''uint32_t'' | DUInt64 \<Rightarrow> ''uint64_t''
   | DFloat \<Rightarrow> ''float'' | DDouble \<Rightarrow> ''double'' | DSizeT \<Rightarrow> ''size_t'' | DFuncPtr \<Rightarrow> ''void(*)()''
   | DPointer \<Rightarrow> (case inner of None \<Rightarrow> ''void*''
       | Some t \<Rightarrow> (if c then ''const '' else '''') @ dtype_str t @ ''*'')
   | DArray \<Rightarrow> (case inner of None \<Rightarrow> ''void[]''
       | Some t \<Rightarrow> dtype_str t @ ''['' @ int_str n @ '']'')
   | DStruct \<Rightarrow> ''int64_t'')"

section \<open>Known functions\<close>

record known_func =
  kf_name :: string
  kf_ret :: dtype
  kf_params :: "dtype list"
  kf_param_names :: "string list"

definition known :: "string \<Rightarrow> dtype \<Rightarrow> dtype list \<Rightarrow> string list \<Rightarrow> known_func" where
  "known nm r ps ns = \<lparr>kf_name = nm, kf_ret = r, kf_params = ps, kf_param_names = ns\<rparr>"

definition char_ptr :: dtype where "char_ptr = make_ptr make_char False"
definition const_char_ptr :: dtype where "const_char_ptr = make_ptr make_char True"
definition void_ptr :: dtype where "void_ptr = make_ptr make_void False"
definition int32_t :: dtype where "int32_t = make_int 32 True"
definition int64_t :: dtype where "int64_t = make_int 64 True"
definition uint32_t :: dtype where "uint32_t = make_int 32 False"

definition create_file_names :: "string list" where
  "create_file_names = [''lpFileName'', ''dwDesiredAccess'', ''dwShareMode'', ''lpSecurityAttributes'',
     ''dwCreationDisposition'', ''dwFlagsAndAttributes'', ''hTemplateFile'']"

definition known_funcs :: "known_func list" where
  "known_funcs = [
     known ''strlen'' make_sizet [const_char_ptr] [''str''],
     known ''wcslen'' make_sizet [make_ptr make_char False] [''str''],
     known ''strcmp'' int32_t [const_char_ptr, const_char_ptr] [''s1'', ''s2''],
     known ''strncmp'' int32_t [const_char_ptr, const_char_ptr, make_sizet] [''s1'', ''s2'', ''n''],
     known ''strcpy'' char_ptr [char_ptr, const_char_ptr] [''dst'', ''src''],
     known ''strcat'' char_ptr [char_ptr, const_char_ptr] [''dst'', ''src''],
     known ''memcpy'' void_ptr [void_ptr, void_ptr, make_sizet] [''dst'', ''src'', ''size''],
     known ''memset'' void_ptr [void_ptr, int32_t, make_sizet] [''dst'', ''val'', ''size''],
     known ''malloc'' void_ptr [make_sizet] [''size''],
     known ''calloc'' void_ptr [make_sizet, make_sizet] [''count'', ''size''],
     known ''realloc'' void_ptr [void_ptr, make_sizet] [''ptr'', ''size''],
     known ''free'' make_void [void_ptr] [''ptr''],
     known ''_stricmp'' int32_t [const_char_ptr, const_char_ptr] [''s1'', ''s2''],
     known ''_strnicmp'' int32_t [const_char_ptr, const_char_ptr, make_sizet] [''s1'', ''s2'', ''n''],
     known ''strstr'' char_ptr [const_char_ptr, const_char_ptr] [''haystack'', ''needle''],
     known ''strchr'' char_ptr [const_char_ptr, int32_t] [''str'', ''c''],
     known ''printf'' int32_t [const_char_ptr] [''fmt''],
     known ''sprintf'' int32_t [char_ptr, const_char_ptr] [''buf'', ''fmt''],
     known ''puts'' int32_t [const_char_ptr] [''str''],
     known ''atoi'' int32_t [const_char_ptr] [''str''],
     known ''atol'' int64_t [const_char_ptr] [''str''],
     known ''CreateFileA'' void_ptr [const_char_ptr, uint32_t, uint32_t, void_ptr, uint32_t, uint32_t, void_ptr]
       create_file_names,
     known ''CreateFileW'' void_ptr
       [make_ptr (make_kind DWChar) False, uint32_t, uint32_t, void_ptr, uint32_t, uint32_t, void_ptr]
       create_file_names,
     known ''CloseHandle'' int32_t [void_ptr] [''hObject''],
     known ''ReadFile'' int32_t [void_ptr, void_ptr, uint32_t, make_ptr uint32_t False, void_ptr]
       [''hFile'', ''lpBuffer'', ''nNumberOfBytesToRead'', ''lpNumberOfBytesRead'', ''lpOverlapped''],
     known ''WriteFile'' int32_t [void_ptr, void_ptr, uint32_t, make_ptr uint32_t False, void_ptr]
       [''hFile'', ''lpBuffer'', ''nNumberOfBytesToWrite'', ''lpNumberOfBytesWritten'', ''lpOverlapped''],
     known ''VirtualAlloc'' void_ptr [void_ptr, make_sizet, uint32_t, uint32_t]
       [''lpAddress'', ''dwSize'', ''flAllocationType'', ''flProtect''],
     known ''VirtualFree'' int32_t [void_ptr, make_sizet, uint32_t] [''lpAddress'', ''dwSize'', ''dwFreeType''],
     known ''GetLastError'' uint32_t [] [],
     known ''GetProcAddress'' void_ptr [void_ptr, const_char_ptr] [''hModule'', ''lpProcName''],
     known ''LoadLibraryA'' void_ptr [const_char_ptr] [''lpLibFileName''],
     known ''_initterm'' make_void [void_ptr, void_ptr] [''first'', ''last''],
     known ''_initterm_e'' int32_t [void_ptr, void_ptr] [''first'', ''last''],
     known ''__p___argv'' (make_ptr (make_ptr char_ptr False) False) [] [],
     known ''__p___argc'' (make_ptr int32_t False) [] [],
     known ''exit'' make_void [int32_t] [''status''],
     known ''_exit'' make_void [int32_t] [''status''],
     known ''__acrt_iob_func'' void_ptr [uint32_t] [''index''],
     known ''_set_app_type'' make_void [int32_t] [''app_type''],
     known ''__setusermatherr'' make_void [void_ptr] [''handler''],
     known ''_configure_narrow_argv'' int32_t [int32_t] [''mode''],
     known ''_initialize_narrow_environment'' int32_t [] [],
     known ''_get_initial_narrow_environment'' (make_ptr char_ptr False) [] [],
     known ''_cexit'' make_void [] [],
     known ''_c_exit'' make_void [] [],
     known ''_register_onexit_function'' int32_t [void_ptr, void_ptr] [''table'', ''func'']]"

section \<open>Recovered signatures\<close>

type_synonym sig_names = "string \<Rightarrow> func_signature option"

record sig_map =
  sm_by_name :: sig_names
  sm_db :: nat
  sm_signature_count :: nat
  sm_image_base :: va_t
  sm_function_count :: nat
  sm_instruction_count :: nat

record type_infer =
  ti_types :: "int \<Rightarrow> dtype option"
  ti_names :: "int \<Rightarrow> string option"
  ti_sigs :: "sig_names option"
  ti_entry :: va_t
  ti_ret :: dtype

definition display_name :: "analysis_db \<Rightarrow> va_t \<Rightarrow> string option" where
  "display_name db a =
     (case db_names db a of
        Some (c # cs) \<Rightarrow> Some (c # cs)
      | _ \<Rightarrow> (case map_of (db_funcs db) a of
            Some f \<Rightarrow> if fn_name f \<noteq> [] then Some (fn_name f) else None
          | None \<Rightarrow> None))"

definition build_sigs :: "analysis_db \<Rightarrow> sig_names" where
  "build_sigs db = fold (\<lambda>(a, sg) m. case display_name db a of Some nm \<Rightarrow> m(nm \<mapsto> sg) | None \<Rightarrow> m)
     (db_signatures db) Map.empty"

text \<open>\<open>self\<close> stands for the address of the database object, part of the cache's key.\<close>

definition sig_stale :: "nat \<Rightarrow> analysis_db \<Rightarrow> sig_map option \<Rightarrow> bool" where
  "sig_stale self db cache = (case cache of None \<Rightarrow> True
     | Some c \<Rightarrow> sm_db c \<noteq> self \<or> sm_signature_count c \<noteq> length (db_signatures db) \<or>
         sm_image_base c \<noteq> db_image_base db \<or> sm_function_count c \<noteq> length (db_funcs db) \<or>
         sm_instruction_count c \<noteq> length (db_insns db))"

definition fresh_sig_map :: "nat \<Rightarrow> analysis_db \<Rightarrow> sig_map" where
  "fresh_sig_map self db = \<lparr>sm_by_name = build_sigs db, sm_db = self,
     sm_signature_count = length (db_signatures db), sm_image_base = db_image_base db,
     sm_function_count = length (db_funcs db), sm_instruction_count = length (db_insns db)\<rparr>"

definition seed_from_db ::
  "nat \<Rightarrow> analysis_db \<Rightarrow> va_t \<Rightarrow> sig_map option \<Rightarrow> type_infer \<Rightarrow> sig_map option \<times> type_infer" where
  "seed_from_db self db entry cache ti =
     (let c = (if sig_stale self db cache then fresh_sig_map self db else the cache)
      in (Some c, ti\<lparr>ti_sigs := Some (sm_by_name c), ti_entry := entry\<rparr>))"

definition sig_known :: "string \<Rightarrow> func_signature \<Rightarrow> known_func" where
  "sig_known nm sg = known nm (if fs_return_type sg = ''void'' then make_void else make_int 64 True)
     (map (\<lambda>_. make_int 64 True) (fs_param_types sg))
     (map (\<lambda>i. if i < length (fs_param_names sg) then fs_param_names sg ! i else ''a'' @ dec_str i)
       [0..<length (fs_param_types sg)])"

definition find_known :: "sig_names option \<Rightarrow> string \<Rightarrow> known_func option" where
  "find_known sigs nm =
     (case (case sigs of Some m \<Rightarrow> m nm | None \<Rightarrow> None) of
        Some sg \<Rightarrow> Some (sig_known nm sg)
      | None \<Rightarrow> find (\<lambda>kf. kf_name kf = nm) known_funcs)"

section \<open>Constraints\<close>

type_synonym typing = "int \<Rightarrow> dtype option"

definition set_type :: "int \<Rightarrow> dtype \<Rightarrow> typing \<Rightarrow> typing" where
  "set_type v t types =
     (case types v of
        None \<Rightarrow> types(v \<mapsto> t)
      | Some t0 \<Rightarrow>
          if dt_kind t0 = DInt64 \<and> dt_kind t \<noteq> DInt64 then types(v \<mapsto> t)
          else if is_pointer t \<and> \<not> is_pointer t0 then types(v \<mapsto> t)
          else types)"

definition get_type :: "typing \<Rightarrow> int \<Rightarrow> dtype" where
  "get_type types v = (case types v of Some t \<Rightarrow> t | None \<Rightarrow> make_kind DInt64)"

definition get_var_name :: "(int \<Rightarrow> string option) \<Rightarrow> int \<Rightarrow> string" where
  "get_var_name names v = (case names v of Some n \<Rightarrow> n | None \<Rightarrow> '''')"

definition infer_size :: "pcode_insn \<Rightarrow> typing \<Rightarrow> typing" where
  "infer_size i types =
     (let v = vn_id (pi_output i); sz = vn_size (pi_output i) in
      if sz = 4 then set_type v (make_int 32 True) types
      else if sz = 2 then set_type v (make_int 16 True) types
      else if sz = 1 then set_type v (make_int 8 True) types
      else types)"

definition infer_op :: "pcode_insn \<Rightarrow> typing \<Rightarrow> typing" where
  "infer_op i types =
     (if \<not> vn_valid (pi_output i) then types
      else (let types' = infer_size i types in
        if pi_op i = LOAD \<and> pi_inputs i \<noteq> [] \<and> is_reg (pi_inputs i ! 0)
        then set_type (vn_id (pi_inputs i ! 0)) (make_ptr (get_type types' (vn_id (pi_output i))) False) types'
        else types'))"

definition infer_from_ops :: "pcode_func \<Rightarrow> typing \<Rightarrow> typing" where
  "infer_from_ops f types = fold infer_op (all_ops f) types"

definition infer_arg :: "varnode \<times> dtype \<Rightarrow> typing \<Rightarrow> typing" where
  "infer_arg ap types = (if is_reg (fst ap) then set_type (vn_id (fst ap)) (snd ap) types else types)"

definition infer_call :: "sig_names option \<Rightarrow> pcode_insn \<Rightarrow> typing \<Rightarrow> typing" where
  "infer_call sigs i types =
     (if pi_op i \<noteq> CALL \<or> pi_inputs i = [] \<or> vn_name (pi_inputs i ! 0) = [] then types
      else (case find_known sigs (vn_name (pi_inputs i ! 0)) of
          None \<Rightarrow> types
        | Some kf \<Rightarrow>
            (let types' = (if vn_valid (pi_output i) then set_type (vn_id (pi_output i)) (kf_ret kf) types else types)
             in fold infer_arg (zip (tl (pi_inputs i)) (kf_params kf)) types')))"

definition infer_from_calls :: "sig_names option \<Rightarrow> pcode_func \<Rightarrow> typing \<Rightarrow> typing" where
  "infer_from_calls sigs f types = fold (infer_call sigs) (all_ops f) types"

definition infer_return :: "typing \<Rightarrow> pcode_insn \<Rightarrow> dtype \<Rightarrow> dtype" where
  "infer_return types i r =
     (if pi_op i = RETURN \<and> pi_inputs i \<noteq> [] \<and> is_reg (pi_inputs i ! 0)
      then get_type types (vn_id (pi_inputs i ! 0)) else r)"

definition infer_params :: "pcode_func \<Rightarrow> typing \<Rightarrow> dtype \<Rightarrow> typing \<times> dtype" where
  "infer_params f types r =
     (let types' = fold (\<lambda>p. set_type (vn_id p) (make_kind DInt64)) (pf_params f) types
      in (types', fold (infer_return types') (all_ops f) r))"

definition result_names :: "(string list \<times> string) list" where
  "result_names = [
     ([''strlen'', ''wcslen''], ''len''), ([''malloc'', ''calloc'', ''VirtualAlloc''], ''buf''),
     ([''GetProcAddress''], ''proc''), ([''LoadLibraryA'', ''LoadLibraryW''], ''hModule''),
     ([''CreateFileA'', ''CreateFileW''], ''hFile''), ([''GetLastError''], ''err''),
     ([''__p___argv''], ''argv''), ([''__p___argc''], ''argc''), ([''strstr'', ''strchr''], ''found''),
     ([''strcmp'', ''strncmp'', ''_stricmp'', ''_strnicmp''], ''cmp'')]"

definition name_call :: "pcode_insn \<Rightarrow> (int \<Rightarrow> string option) \<Rightarrow> (int \<Rightarrow> string option)" where
  "name_call i names =
     (if pi_op i \<noteq> CALL \<or> pi_inputs i = [] \<or> \<not> vn_valid (pi_output i) then names
      else (case find (\<lambda>(fs, r). vn_name (pi_inputs i ! 0) \<in> set fs) result_names of
          Some (fs, r) \<Rightarrow> names(vn_id (pi_output i) \<mapsto> r)
        | None \<Rightarrow> names))"

definition name_variables :: "pcode_func \<Rightarrow> (int \<Rightarrow> string option) \<Rightarrow> (int \<Rightarrow> string option)" where
  "name_variables f names = fold name_call (all_ops f) names"

definition ti_run :: "pcode_func \<Rightarrow> type_infer \<Rightarrow> type_infer" where
  "ti_run f ti =
     (let (types0, r) = infer_params f Map.empty (make_kind DInt64);
          types = infer_from_calls (ti_sigs ti) f (infer_from_ops f types0)
      in ti\<lparr>ti_types := types, ti_names := name_variables f Map.empty,
          ti_ret := (case ti_sigs ti of
              Some m \<Rightarrow> (case m (pf_name f) of
                  Some sg \<Rightarrow> if fs_return_type sg = ''void'' then make_void else make_int 64 True
                | None \<Rightarrow> r)
            | None \<Rightarrow> r)\<rparr>)"

section \<open>The container heuristic\<close>

datatype stl_kind = Stl_None | Stl_String | Stl_Vector | Stl_Shared_Ptr | Stl_Unique_Ptr

definition detect_stl_container :: "u32 \<Rightarrow> (int \<times> u32) list \<Rightarrow> stl_kind" where
  "detect_stl_container struct_size accesses =
     (if struct_size = 8 \<and> (0, 8) \<in> set accesses then Stl_Unique_Ptr
      else if struct_size = 16 \<and> (0, 8) \<in> set accesses \<and> (8, 8) \<in> set accesses then Stl_Shared_Ptr
      else if (struct_size = 24 \<or> 20 \<le> struct_size \<and> struct_size \<le> 24) \<and>
        (0, 8) \<in> set accesses \<and> (8, 8) \<in> set accesses \<and> (16, 8) \<in> set accesses then Stl_Vector
      else if (struct_size = 32 \<or> 28 \<le> struct_size \<and> struct_size \<le> 40) \<and>
        list_ex (\<lambda>a. fst a = 0) accesses \<and> (16, 8) \<in> set accesses \<and> (24, 8) \<in> set accesses then Stl_String
      else Stl_None)"

section \<open>Which variables become pointers\<close>

text \<open>A pointer is never replaced, and a pointer constraint always succeeds.\<close>

lemma is_pointer_set_type [simp]:
  "is_pointer (get_type (set_type v t types) w) \<longleftrightarrow>
   is_pointer (get_type types w) \<or> w = v \<and> is_pointer t"
  by (auto simp: set_type_def get_type_def is_pointer_def make_kind_def split: option.splits)

lemma get_type_set_pointer:
  "is_pointer (get_type types w) \<Longrightarrow> get_type (set_type v t types) w = get_type types w"
  by (auto simp: set_type_def get_type_def is_pointer_def make_kind_def split: option.splits)

lemma is_pointer_make [simp]:
  "is_pointer (make_ptr t c)" "\<not> is_pointer (make_int b s)" "\<not> is_pointer (make_kind DInt64)"
  by (simp_all add: is_pointer_def make_ptr_def make_int_def make_kind_def)

lemma get_type_empty [simp]: "get_type Map.empty v = make_kind DInt64"
  by (simp add: get_type_def)

definition dereferences :: "int \<Rightarrow> pcode_insn \<Rightarrow> bool" where
  "dereferences v i \<longleftrightarrow> vn_valid (pi_output i) \<and> pi_op i = LOAD \<and> pi_inputs i \<noteq> [] \<and>
     is_reg (pi_inputs i ! 0) \<and> vn_id (pi_inputs i ! 0) = v"

definition pointer_call :: "sig_names option \<Rightarrow> int \<Rightarrow> pcode_insn \<Rightarrow> bool" where
  "pointer_call sigs v i \<longleftrightarrow> pi_op i = CALL \<and> pi_inputs i \<noteq> [] \<and> vn_name (pi_inputs i ! 0) \<noteq> [] \<and>
     (case find_known sigs (vn_name (pi_inputs i ! 0)) of
        None \<Rightarrow> False
      | Some kf \<Rightarrow> vn_valid (pi_output i) \<and> vn_id (pi_output i) = v \<and> is_pointer (kf_ret kf) \<or>
          (\<exists>ap \<in> set (zip (tl (pi_inputs i)) (kf_params kf)). is_reg (fst ap) \<and> vn_id (fst ap) = v \<and> is_pointer (snd ap)))"

lemma is_pointer_infer_op:
  "is_pointer (get_type (infer_op i types) v) \<longleftrightarrow> is_pointer (get_type types v) \<or> dereferences v i"
  by (auto simp: infer_op_def infer_size_def dereferences_def Let_def)

lemma is_pointer_fold:
  assumes "\<And>x types. is_pointer (get_type (f x types) v) \<longleftrightarrow> is_pointer (get_type types v) \<or> P x"
  shows "is_pointer (get_type (fold f xs types) v) \<longleftrightarrow> is_pointer (get_type types v) \<or> (\<exists>x \<in> set xs. P x)"
  by (induction xs arbitrary: types) (auto simp: assms)

lemma is_pointer_infer_arg:
  "is_pointer (get_type (infer_arg ap types) v) \<longleftrightarrow>
   is_pointer (get_type types v) \<or> is_reg (fst ap) \<and> vn_id (fst ap) = v \<and> is_pointer (snd ap)"
  by (auto simp: infer_arg_def)

lemma is_pointer_infer_call:
  "is_pointer (get_type (infer_call sigs i types) v) \<longleftrightarrow> is_pointer (get_type types v) \<or> pointer_call sigs v i"
  by (auto simp: infer_call_def pointer_call_def Let_def is_pointer_fold [OF is_pointer_infer_arg] split: option.split)

lemma is_pointer_params:
  "\<not> is_pointer (get_type (fold (\<lambda>p. set_type (vn_id p) (make_kind DInt64)) ps Map.empty) v)"
  using is_pointer_fold [of "\<lambda>p. set_type (vn_id p) (make_kind DInt64)" v "\<lambda>_. False" ps Map.empty] by simp

text \<open>
  C35.  What becomes a pointer: after inference a variable has a pointer type exactly if some operation
  loads through it as a register, or some call of a known function (recovered signatures first, then
  the table) returns a pointer into it or takes it as a register argument at a pointer parameter.
\<close>

theorem pointer_inference_exact:
  "is_pointer (get_type (ti_types (ti_run f ti)) v) \<longleftrightarrow>
   (\<exists>i \<in> set (all_ops f). dereferences v i \<or> pointer_call (ti_sigs ti) v i)"
  by (auto simp: ti_run_def Let_def infer_params_def infer_from_calls_def infer_from_ops_def is_pointer_params
      is_pointer_fold [OF is_pointer_infer_call] is_pointer_fold [OF is_pointer_infer_op])

section \<open>The return type\<close>

lemma params_int64:
  "get_type (fold (\<lambda>p. set_type (vn_id p) (make_kind DInt64)) ps types) v = make_kind DInt64"
  if "get_type types v = make_kind DInt64"
  using that
proof (induction ps arbitrary: types)
  case (Cons p ps)
  have "get_type (set_type (vn_id p) (make_kind DInt64) types) v = make_kind DInt64"
    using Cons.prems by (auto simp: set_type_def get_type_def is_pointer_def make_kind_def split: option.splits if_splits)
  with Cons.IH show ?case by simp
qed simp

lemma infer_return_int64:
  "fold (infer_return (fold (\<lambda>p. set_type (vn_id p) (make_kind DInt64)) ps Map.empty)) ops (make_kind DInt64) = make_kind DInt64"
  by (induction ops) (simp_all add: infer_return_def params_int64)

text \<open>
   The inferred return type never depends on the body: the return statements are looked at before
  any constraint is collected, so the result is the 64-bit integer type unless a recovered signature
  with the function's name says \<open>void\<close>.
\<close>

theorem return_type_not_inferred:
  "ti_ret (ti_run f ti) =
   (if \<exists>m sg. ti_sigs ti = Some m \<and> m (pf_name f) = Some sg \<and> fs_return_type sg = ''void''
    then make_void else make_int 64 True)"
  by (auto simp: ti_run_def Let_def infer_params_def infer_return_int64 make_int_def split: option.splits)

section \<open>The signature cache\<close>

definition rename_in :: "va_t \<Rightarrow> string \<Rightarrow> analysis_db \<Rightarrow> analysis_db" where
  "rename_in a nm db = db\<lparr>db_names := (db_names db)(a \<mapsto> nm)\<rparr>"

text \<open>
  Seeding uses the database's signatures under their current names whenever the cache is rebuilt; but
  the key of the cache has no names in it, so renaming a function leaves the old name in force and
  the new one unknown.
\<close>

lemma seed_cache_ignores_names:
  "(sig_stale self db cache \<longrightarrow> ti_sigs (snd (seed_from_db self db entry cache ti)) = Some (build_sigs db)) \<and>
   \<not> sig_stale self (rename_in a nm db) (Some (fresh_sig_map self db)) \<and>
   ti_sigs (snd (seed_from_db self (rename_in a nm db) entry (Some (fresh_sig_map self db)) ti)) = Some (build_sigs db)"
  by (simp add: seed_from_db_def sig_stale_def fresh_sig_map_def rename_in_def Let_def)

end
