(* ===== verification/Emitter.thy ===== *)
theory Emitter
  imports Cf_Struct_Correct Type_Infer
begin

text \<open>
  The C text of a structured function (\<open>src/src/hyperion/core/decompiler/emitter.h\<close> and
  \<open>emitter.cpp\<close>): which temporaries are printed at their single use, expressions, conditions,
  statements, and the function around them.  Printing an inlined temporary prints its definition, so
  the printer recurses through the definitions; \<open>None\<close> is a recursion that has gone through more
  definitions than the function has statements.
\<close>

section \<open>The emitter's state\<close>

record pseudo_line =
  pl_indent :: int
  pl_text :: string
  pl_addr :: va_t

definition line :: "int \<Rightarrow> string \<Rightarrow> va_t \<Rightarrow> pseudo_line" where
  "line n t a = \<lparr>pl_indent = n, pl_text = t, pl_addr = a\<rparr>"

text \<open>The class names are those of the RTTI parser's classes.\<close>

record emit_env =
  ev_ti :: "type_infer option"
  ev_db :: "analysis_db option"
  ev_rtti :: "string list option"
  ev_defs :: "int \<Rightarrow> cstmt option"
  ev_uses :: "int \<Rightarrow> nat"
  ev_depth :: nat
  ev_void :: bool

section \<open>Definitions and uses of temporaries\<close>

text \<open>The statements in the order in which the nested scans meet them.\<close>

fun flat_stmt :: "cstmt \<Rightarrow> cstmt list" where
  "flat_stmt (CStmt k e c d body els a t fi fc fv) =
     CStmt k e c d body els a t fi fc fv # concat (map flat_stmt body) @ concat (map flat_stmt els)"

definition flat_stmts :: "cstmt list \<Rightarrow> cstmt list" where
  "flat_stmts ss = concat (map flat_stmt ss)"

fun expr_temps :: "cexpr \<Rightarrow> int list" where
  "expr_temps (CExpr opc vn nm args neg) =
     (if opc = COPY \<and> \<not> is_const vn \<and> args = [] \<and> is_temp vn then [vn_id vn] else []) @
     concat (map expr_temps args)"

definition stmt_temps :: "cstmt \<Rightarrow> int list" where
  "stmt_temps s = expr_temps (st_expr s) @ expr_temps (st_cond s)"

definition temp_uses :: "cstmt list \<Rightarrow> int list" where
  "temp_uses body = concat (map stmt_temps (flat_stmts body))"

text \<open>\<open>scan_defs\<close>: calls, intrinsics and loads never move.\<close>

definition is_temp_def :: "cstmt \<Rightarrow> bool" where
  "is_temp_def s \<longleftrightarrow> st_kind s = SAssign \<and> is_temp (st_dst s) \<and> ce_op (st_expr s) \<noteq> CALL \<and>
     ce_op (st_expr s) \<noteq> INTRINSIC \<and> ce_op (st_expr s) \<noteq> LOAD"

definition scan_defs :: "cstmt list \<Rightarrow> int \<Rightarrow> cstmt option" where
  "scan_defs body = fold (\<lambda>s m. if is_temp_def s then m(vn_id (st_dst s) \<mapsto> s) else m) (flat_stmts body) Map.empty"

definition inlined :: "emit_env \<Rightarrow> int \<Rightarrow> bool" where
  "inlined ev v \<longleftrightarrow> ev_defs ev v \<noteq> None \<and> ev_uses ev v = 1"

definition call_result_vars :: "cstmt list \<Rightarrow> int list" where
  "call_result_vars body = map (\<lambda>s. vn_id (st_dst s))
     (filter (\<lambda>s. st_kind s = SAssign \<and> ce_op (st_expr s) = CALL \<and> is_reg (st_dst s) \<and> vn_id (st_dst s) = 0)
       (flat_stmts body))"

definition has_meaningful_return :: "cstmt list \<Rightarrow> bool" where
  "has_meaningful_return body \<longleftrightarrow> list_ex (\<lambda>s. st_kind s = SReturn) (flat_stmts body)"

section \<open>Leaves\<close>

definition image_address :: "emit_env \<Rightarrow> u64 \<Rightarrow> bool" where
  "image_address ev val = (case ev_db ev of None \<Rightarrow> False | Some db \<Rightarrow> db_image_base db \<noteq> 0 \<and> db_image_base db < val)"

definition format_imm :: "emit_env \<Rightarrow> u64 \<Rightarrow> bool \<Rightarrow> string" where
  "format_imm ev val addr_ctx =
     (if addr_ctx \<and> image_address ev val then
        (case ev_db ev of
           Some db \<Rightarrow> (case db_names db val of Some nm \<Rightarrow> nm
             | None \<Rightarrow> ''data_'' @ hex_upper (val - db_image_base db))
         | None \<Rightarrow> '''')
      else if val = 0 then ''0''
      else if val \<le> 9 then dec_str (unat val)
      else if val = - 1 then ''-1''
      else if sint val < 0 \<and> - 256 < sint val then ''-'' @ int_str (- sint val)
      else ''0x'' @ hex_upper val)"

definition type_str :: "emit_env \<Rightarrow> int \<Rightarrow> string" where
  "type_str ev v = (case ev_ti ev of None \<Rightarrow> ''int64_t'' | Some ti \<Rightarrow> dtype_str (get_type (ti_types ti) v))"

definition names32 :: "string list" where
  "names32 = [''eax'', ''ecx'', ''edx'', ''ebx'', ''esp'', ''ebp'', ''esi'', ''edi'',
     ''r8d'', ''r9d'', ''r10d'', ''r11d'', ''r12d'', ''r13d'', ''r14d'', ''r15d'']"

definition varnode_str :: "emit_env \<Rightarrow> varnode \<Rightarrow> string" where
  "varnode_str ev v =
     (let n = (case ev_ti ev of None \<Rightarrow> '''' | Some ti \<Rightarrow> get_var_name (ti_names ti) (vn_id v)) in
      if is_const v then format_imm ev (vn_offset v) False
      else if n \<noteq> '''' then n
      else if vn_name v \<noteq> '''' then vn_name v
      else if is_reg v \<and> 0 \<le> vn_id v \<and> vn_id v < 16 then
        (if vn_size v = 4 then names32 ! nat (vn_id v) else full_names ! nat (vn_id v))
      else if is_temp v then ''t'' @ int_str (vn_id v)
      else if is_stack v then ''var_'' @ hex_upper (vn_offset v AND 0xFFFF)
      else ''?'')"

section \<open>Expressions\<close>

definition expression_precedence :: "pcode_op \<Rightarrow> nat" where
  "expression_precedence opc = (case opc of
     BOOL_OR \<Rightarrow> 1 | BOOL_AND \<Rightarrow> 2 | OR_OP \<Rightarrow> 3 | XOR_OP \<Rightarrow> 4 | AND_OP \<Rightarrow> 5
   | INT_EQUAL \<Rightarrow> 6 | INT_NEQUAL \<Rightarrow> 6 | INT_LESS \<Rightarrow> 7 | INT_SLESS \<Rightarrow> 7
   | SHIFT_LEFT \<Rightarrow> 8 | SHIFT_RIGHT \<Rightarrow> 8 | ADD \<Rightarrow> 9 | SUB \<Rightarrow> 9 | INT_MULT \<Rightarrow> 10 | INT_DIV \<Rightarrow> 10
   | _ \<Rightarrow> 11)"

definition is_binary_expression :: "cexpr \<Rightarrow> bool" where
  "is_binary_expression e \<longleftrightarrow> length (ce_args e) = 2 \<and> expression_precedence (ce_op e) < 11"

definition operator_infix :: "string \<Rightarrow> string option" where
  "operator_infix nm =
     (let has = (\<lambda>p. contains (''operator'' @ p) nm) in
      if has ''+'' \<and> \<not> has ''++'' then Some ''+''
      else if has ''-'' \<and> \<not> has ''--'' then Some ''-''
      else if has ''*'' then Some ''*''
      else if has ''/'' then Some ''/''
      else if has ''%'' then Some ''%''
      else if has ''=='' then Some ''==''
      else if has ''!='' then Some ''!=''
      else if has ''<'' \<and> \<not> has ''<<'' then Some ''<''
      else if has ''>'' \<and> \<not> has ''>>'' then Some ''>''
      else if has ''<='' then Some ''<=''
      else if has ''>='' then Some ''>=''
      else if has ''<<'' then Some ''<<''
      else if has ''>>'' then Some ''>>''
      else if has ''&'' \<and> \<not> has ''&&'' then Some ''&''
      else if has ''|'' \<and> \<not> has ''||'' then Some ''|''
      else if has ''^'' then Some ''^''
      else None)"

definition mangled_infix :: "string \<Rightarrow> string option" where
  "mangled_infix nm =
     (case nm of
        c0 # c1 # code # _ \<Rightarrow>
          if c0 = CHR ''?'' \<and> c1 = CHR ''?''
          then map_of [(CHR ''H'', ''+''), (CHR ''G'', ''-''), (CHR ''D'', ''*''), (CHR ''K'', ''/''),
                 (CHR ''L'', ''%''), (CHR ''8'', ''==''), (CHR ''9'', ''!='')] code
          else None
      | _ \<Rightarrow> None)"

text \<open>The infix operator of a call, by its number of arguments.\<close>

definition call_infix :: "string \<Rightarrow> nat \<Rightarrow> string option" where
  "call_infix nm n =
     (let by_name = (if contains ''operator'' nm then operator_infix nm else None) in
      if 2 \<le> n then (case by_name of Some s \<Rightarrow> Some s | None \<Rightarrow> mangled_infix nm)
      else if n = 1 then by_name else None)"

definition rtti_call :: "emit_env \<Rightarrow> string \<Rightarrow> bool" where
  "rtti_call ev nm = (case ev_rtti ev of None \<Rightarrow> False
     | Some classes \<Rightarrow> list_ex (\<lambda>c. contains (c @ ''::'') nm) classes)"

definition binary_symbol :: "pcode_op \<Rightarrow> string" where
  "binary_symbol opc = (case opc of
     ADD \<Rightarrow> ''+'' | SUB \<Rightarrow> ''-'' | AND_OP \<Rightarrow> ''&'' | OR_OP \<Rightarrow> ''|'' | XOR_OP \<Rightarrow> ''^''
   | SHIFT_LEFT \<Rightarrow> ''<<'' | SHIFT_RIGHT \<Rightarrow> ''>>'' | SHIFT_ARIGHT \<Rightarrow> ''>>''
   | ROTATE_LEFT \<Rightarrow> ''rol'' | ROTATE_RIGHT \<Rightarrow> ''ror'' | INT_MULT \<Rightarrow> ''*''
   | INT_DIV \<Rightarrow> ''/'' | INT_SDIV \<Rightarrow> ''/'' | INT_EQUAL \<Rightarrow> ''=='' | INT_NEQUAL \<Rightarrow> ''!=''
   | INT_LESS \<Rightarrow> ''<'' | INT_SLESS \<Rightarrow> ''<'' | BOOL_AND \<Rightarrow> ''&&'' | BOOL_OR \<Rightarrow> ''||'' | _ \<Rightarrow> ''?'')"

definition paren :: "string \<Rightarrow> string" where
  "paren s = ''('' @ s @ '')''"

definition paren_if :: "bool \<Rightarrow> string \<Rightarrow> string" where
  "paren_if b s = (if b then paren s else s)"

text \<open>\<open>l op r\<close> with the parentheses the precedences ask for.\<close>

definition binary_str :: "pcode_op \<Rightarrow> cexpr \<Rightarrow> string \<Rightarrow> cexpr \<Rightarrow> string \<Rightarrow> string" where
  "binary_str opc a l b r =
     (let p = expression_precedence opc in
      paren_if (is_binary_expression a \<and> expression_precedence (ce_op a) < p) l @ '' '' @ binary_symbol opc @ '' '' @
      paren_if (is_binary_expression b \<and> expression_precedence (ce_op b) \<le> p) r)"

text \<open>The definition an inlined temporary is replaced by.\<close>

definition inline_def :: "emit_env \<Rightarrow> varnode \<Rightarrow> cexpr option" where
  "inline_def ev v = (if is_temp v \<and> inlined ev (vn_id v) then map_option st_expr (ev_defs ev (vn_id v)) else None)"

fun expr_str :: "emit_env \<Rightarrow> nat \<Rightarrow> cexpr \<Rightarrow> string option"
  and args_str :: "emit_env \<Rightarrow> nat \<Rightarrow> cexpr list \<Rightarrow> string list option" where
  "expr_str ev n (CExpr opc vn nm args neg) =
     (case args of
        [] \<Rightarrow>
          if opc = COPY \<and> \<not> is_const vn then
            (case inline_def ev vn of
               Some e \<Rightarrow> (case n of 0 \<Rightarrow> None | Suc m \<Rightarrow> map_option paren (expr_str ev m e))
             | None \<Rightarrow> Some (varnode_str ev vn))
          else if opc = COPY then Some (format_imm ev (vn_offset vn) False)
          else if opc = CALL \<or> opc = INTRINSIC then Some (nm @ ''()'')
          else Some (varnode_str ev vn)
      | a # as \<Rightarrow>
          if opc = CALL \<or> opc = INTRINSIC then
            (case call_infix nm (length args) of
               Some s \<Rightarrow>
                 (case as of
                    [] \<Rightarrow> map_option (\<lambda>t. s @ paren t) (expr_str ev n a)
                  | b # _ \<Rightarrow> Option.bind (expr_str ev n a) (\<lambda>l.
                      map_option (\<lambda>r. l @ '' '' @ s @ '' '' @ r) (expr_str ev n b)))
             | None \<Rightarrow>
                 Option.bind (expr_str ev n a) (\<lambda>t. map_option (\<lambda>ts.
                   if rtti_call ev nm then t @ ''->'' @ nm @ paren (join '', '' ts)
                   else nm @ paren (join '', '' (t # ts))) (args_str ev n as)))
          else if opc = LOAD then
            (if ce_is_const a \<and> image_address ev (vn_offset (ce_vn a))
             then Some (''*'' @ paren (format_imm ev (vn_offset (ce_vn a)) True))
             else map_option (\<lambda>t. ''*'' @ paren t) (expr_str ev n a))
          else if opc = STORE \<and> as \<noteq> [] then map_option (\<lambda>t. ''*'' @ paren t) (expr_str ev n a)
          else if opc = BOOL_NOT \<or> opc = INT_NEGATE \<or> opc = INT_NOT then
            map_option (\<lambda>t. (if opc = BOOL_NOT then ''!'' else ''~'') @ paren_if (is_binary_expression a) t)
              (expr_str ev n a)
          else if opc = INT_ZEXT then
            map_option (\<lambda>t. ''(uint'' @ int_str (vn_size vn * 8) @ ''_t)'' @ t) (expr_str ev n a)
          else if opc = INT_SEXT then
            map_option (\<lambda>t. ''(int'' @ int_str (vn_size vn * 8) @ ''_t)'' @ t) (expr_str ev n a)
          else
            (case as of
               [] \<Rightarrow> expr_str ev n a
             | b # cs \<Rightarrow>
                 if cs = [] then
                   Option.bind (expr_str ev n a) (\<lambda>l. map_option (\<lambda>r. binary_str opc a l b r) (expr_str ev n b))
                 else Some (varnode_str ev vn)))"
| "args_str ev n [] = Some []"
| "args_str ev n (a # as) = Option.bind (expr_str ev n a) (\<lambda>t. map_option (\<lambda>ts. t # ts) (args_str ev n as))"

section \<open>Conditions\<close>

definition cond_pair :: "emit_env \<Rightarrow> nat \<Rightarrow> string \<Rightarrow> cexpr \<Rightarrow> cexpr \<Rightarrow> string option" where
  "cond_pair ev n ops a b = Option.bind (expr_str ev n a) (\<lambda>l. map_option (\<lambda>r. l @ '' '' @ ops @ '' '' @ r) (expr_str ev n b))"

definition is_zero :: "cexpr \<Rightarrow> bool" where
  "is_zero e \<longleftrightarrow> ce_is_const e \<and> vn_offset (ce_vn e) = 0"

definition cond_str :: "emit_env \<Rightarrow> nat \<Rightarrow> cexpr \<Rightarrow> string option" where
  "cond_str ev n e =
     (if ce_is_var e then
        (case inline_def ev (ce_vn e) of
           Some d \<Rightarrow> (case n of 0 \<Rightarrow> None | Suc m \<Rightarrow> expr_str ev m d)
         | None \<Rightarrow> Some (varnode_str ev (ce_vn e)))
      else
        (case (ce_op e, ce_args e) of
           (LOAD, a # _) \<Rightarrow> map_option (\<lambda>t. ''*'' @ paren t) (expr_str ev n a)
         | (BOOL_NOT, a # _) \<Rightarrow>
             if ce_op a = LOAD \<and> ce_args a \<noteq> [] then map_option (\<lambda>t. ''!*'' @ paren t) (expr_str ev n (hd (ce_args a)))
             else if ce_is_var a \<and> is_reg (ce_vn a) \<and> 100 \<le> vn_id (ce_vn a) then Some (''!'' @ varnode_str ev (ce_vn a))
             else map_option (\<lambda>t. ''!'' @ paren t) (expr_str ev n a)
         | (INT_EQUAL, [a, b]) \<Rightarrow>
             if is_zero b then map_option (\<lambda>t. ''!'' @ t) (expr_str ev n a) else cond_pair ev n ''=='' a b
         | (INT_NEQUAL, [a, b]) \<Rightarrow> if is_zero b then expr_str ev n a else cond_pair ev n ''!='' a b
         | (INT_LESS, [a, b]) \<Rightarrow> cond_pair ev n ''<'' a b
         | (INT_SLESS, [a, b]) \<Rightarrow> cond_pair ev n ''<'' a b
         | (BOOL_OR, [a, b]) \<Rightarrow> cond_pair ev n ''||'' a b
         | (BOOL_AND, [a, b]) \<Rightarrow> cond_pair ev n ''&&'' a b
         | _ \<Rightarrow> expr_str ev n e))"

section \<open>Statements\<close>

fun is_dead_stmt :: "emit_env \<Rightarrow> cstmt \<Rightarrow> bool" where
  "is_dead_stmt ev (CStmt k e c d body els a t fi fc fv) = (case k of
     SReturn \<Rightarrow> False | SLabel \<Rightarrow> False | SGoto \<Rightarrow> False
   | SExpr \<Rightarrow> \<not> (ce_op e = CALL \<or> ce_op e = INTRINSIC \<or> ce_op e = STORE)
   | SAssign \<Rightarrow> \<not> (ce_op e = CALL \<or> ce_op e = INTRINSIC) \<and> is_temp d \<and> inlined ev (vn_id d)
   | SIf \<Rightarrow> list_all (is_dead_stmt ev) body \<and> list_all (is_dead_stmt ev) els
   | SIfElse \<Rightarrow> list_all (is_dead_stmt ev) body \<and> list_all (is_dead_stmt ev) els
   | SWhile \<Rightarrow> list_all (is_dead_stmt ev) body
   | SDoWhile \<Rightarrow> list_all (is_dead_stmt ev) body
   | SFor \<Rightarrow> list_all (is_dead_stmt ev) body
   | SBlock \<Rightarrow> list_all (is_dead_stmt ev) body
   | SSwitch \<Rightarrow> False)"

abbreviation is_dead_body :: "emit_env \<Rightarrow> cstmt list \<Rightarrow> bool" where
  "is_dead_body ev \<equiv> list_all (is_dead_stmt ev)"

definition assign_lines :: "emit_env \<Rightarrow> int \<Rightarrow> varnode \<Rightarrow> cexpr \<Rightarrow> va_t \<Rightarrow> pseudo_line list option" where
  "assign_lines ev ind d e a =
     (if is_temp d \<and> inlined ev (vn_id d) then Some []
      else if ce_op e = INTRINSIC then Some [line ind (ce_call_name e @ '';'') a]
      else map_option (\<lambda>rhs.
        if ce_op e = CALL then
          (if is_reg d \<and> vn_id d = 0 then [line ind (varnode_str ev d @ '' = '' @ rhs @ '';'') a]
           else if vn_valid d then
             (let nm = (case ev_ti ev of None \<Rightarrow> '''' | Some ti \<Rightarrow> get_var_name (ti_names ti) (vn_id d))
              in [line ind ((if nm \<noteq> '''' then nm else ''result'') @ '' = '' @ rhs @ '';'') a])
           else [line ind (rhs @ '';'') a])
        else if vn_valid d then [line ind (varnode_str ev d @ '' = '' @ rhs @ '';'') a]
        else [line ind (rhs @ '';'') a]) (expr_str ev (ev_depth ev) e))"

definition expr_lines :: "emit_env \<Rightarrow> int \<Rightarrow> cexpr \<Rightarrow> va_t \<Rightarrow> pseudo_line list option" where
  "expr_lines ev ind e a =
     (case (ce_op e, ce_args e) of
        (STORE, x # v # _) \<Rightarrow>
          Option.bind
            (if ce_is_const x \<and> image_address ev (vn_offset (ce_vn x)) then Some (format_imm ev (vn_offset (ce_vn x)) True)
             else expr_str ev (ev_depth ev) x)
            (\<lambda>addr_s. map_option (\<lambda>val_s. [line ind (''*'' @ paren addr_s @ '' = '' @ val_s @ '';'') a])
              (expr_str ev (ev_depth ev) v))
      | _ \<Rightarrow> map_option (\<lambda>t. [line ind (t @ '';'') a]) (expr_str ev (ev_depth ev) e))"

definition return_lines :: "emit_env \<Rightarrow> int \<Rightarrow> cexpr \<Rightarrow> va_t \<Rightarrow> pseudo_line list option" where
  "return_lines ev ind e a =
     (if ev_void ev then Some [line ind ''return;'' a]
      else map_option (\<lambda>rv. [line ind (if rv = '''' then ''return;'' else ''return '' @ rv @ '';'') a])
        (expr_str ev (ev_depth ev) e))"

text \<open>The negated condition of a conditional whose first branch prints nothing.\<close>

definition negated :: "cexpr \<Rightarrow> cexpr" where
  "negated c = CExpr BOOL_NOT default_vn '''' [c] False"

text \<open>A block opened by \<open>head\<close> and closed by \<open>foot\<close>.\<close>

definition braced :: "int \<Rightarrow> string option \<Rightarrow> va_t \<Rightarrow> pseudo_line list option \<Rightarrow> string option \<Rightarrow> pseudo_line list option" where
  "braced ind head a inner foot = Option.bind head (\<lambda>h. Option.bind inner (\<lambda>ls.
     map_option (\<lambda>ft. line ind h a # ls @ [line ind ft 0]) foot))"

definition if_head :: "emit_env \<Rightarrow> cexpr \<Rightarrow> string option" where
  "if_head ev c = map_option (\<lambda>t. ''if '' @ paren t @ '' {'') (cond_str ev (ev_depth ev) c)"

definition for_head :: "emit_env \<Rightarrow> varnode \<Rightarrow> cexpr \<Rightarrow> cexpr \<Rightarrow> cexpr \<Rightarrow> string option" where
  "for_head ev v init c incr =
     (if vn_valid v then
        Option.bind (expr_str ev (ev_depth ev) init) (\<lambda>i. Option.bind (cond_str ev (ev_depth ev) c) (\<lambda>t.
          map_option (\<lambda>u. ''for ('' @ varnode_str ev v @ '' = '' @ i @ ''; '' @ t @ ''; '' @ u @ '') {'')
            (expr_str ev (ev_depth ev) incr)))
      else Some ''for (; ; ) {'')"

text \<open>The \<open>returned\<close> flag the source threads through is never read and left out.\<close>

fun emit_stmt :: "emit_env \<Rightarrow> int \<Rightarrow> cstmt \<Rightarrow> pseudo_line list option"
  and emit_stmts :: "emit_env \<Rightarrow> int \<Rightarrow> cstmt list \<Rightarrow> pseudo_line list option" where
  "emit_stmt ev ind (CStmt k e c d body els a t fi fc fv) =
     (if is_dead_stmt ev (CStmt k e c d body els a t fi fc fv) then Some []
      else case k of
        SAssign \<Rightarrow> assign_lines ev ind d e a
      | SExpr \<Rightarrow> expr_lines ev ind e a
      | SReturn \<Rightarrow> return_lines ev ind e a
      | SIf \<Rightarrow> braced ind (if_head ev c) a (emit_stmts ev (ind + 1) body) (Some ''}'')
      | SIfElse \<Rightarrow>
          if is_dead_body ev body \<and> is_dead_body ev els then Some []
          else if is_dead_body ev body then
            braced ind (if_head ev (negated c)) a (emit_stmts ev (ind + 1) els) (Some ''}'')
          else if is_dead_body ev els then
            braced ind (if_head ev c) a (emit_stmts ev (ind + 1) body) (Some ''}'')
          else
            Option.bind (braced ind (if_head ev c) a (emit_stmts ev (ind + 1) body) (Some ''} else {'')) (\<lambda>ls.
              map_option (\<lambda>ms. ls @ ms @ [line ind ''}'' 0]) (emit_stmts ev (ind + 1) els))
      | SWhile \<Rightarrow> braced ind (map_option (\<lambda>t. ''while '' @ paren t @ '' {'') (cond_str ev (ev_depth ev) c)) a
          (emit_stmts ev (ind + 1) body) (Some ''}'')
      | SDoWhile \<Rightarrow> braced ind (Some ''do {'') a (emit_stmts ev (ind + 1) body)
          (map_option (\<lambda>t. ''} while '' @ paren t @ '';'') (cond_str ev (ev_depth ev) c))
      | SFor \<Rightarrow> braced ind (for_head ev fv fi c fc) a (emit_stmts ev (ind + 1) body) (Some ''}'')
      | SLabel \<Rightarrow> Some [line (max 0 (ind - 1)) (''loc_'' @ hex_upper t @ '':'') a]
      | SGoto \<Rightarrow> Some [line ind (''goto loc_'' @ hex_upper t @ '';'') a]
      | SBlock \<Rightarrow> emit_stmts ev ind body
      | SSwitch \<Rightarrow> Some [line ind ''switch (...) { ... }'' a])"
| "emit_stmts ev ind [] = Some []"
| "emit_stmts ev ind (s # ss) = Option.bind (emit_stmt ev ind s) (\<lambda>ls. map_option (\<lambda>ms. ls @ ms) (emit_stmts ev ind ss))"

section \<open>The function\<close>

fun expr_uses_reg :: "int \<Rightarrow> cexpr \<Rightarrow> bool" where
  "expr_uses_reg r (CExpr opc vn nm args neg) \<longleftrightarrow>
     opc = COPY \<and> \<not> is_const vn \<and> args = [] \<and> is_reg vn \<and> vn_id vn = r \<or> list_ex (expr_uses_reg r) args"

definition stmt_uses_reg :: "int \<Rightarrow> cstmt \<Rightarrow> bool" where
  "stmt_uses_reg r s \<longleftrightarrow> list_ex (\<lambda>s'. expr_uses_reg r (st_expr s') \<or> expr_uses_reg r (st_cond s')) (flat_stmt s)"

definition func_uses_param :: "cfunc \<Rightarrow> int \<Rightarrow> bool" where
  "func_uses_param f r \<longleftrightarrow> list_ex (stmt_uses_reg r) (cf_body f)"

text \<open>\<open>is_rax_used_after\<close>, up to the next assigned call.\<close>

fun rax_used :: "cstmt list \<Rightarrow> bool" where
  "rax_used [] = False"
| "rax_used (s # ss) =
     (if st_kind s = SAssign \<and> ce_op (st_expr s) = CALL then False
      else if expr_uses_reg 0 (st_expr s) \<or> expr_uses_reg 0 (st_cond s) then True
      else rax_used ss)"

definition is_rax_used_after :: "nat \<Rightarrow> cstmt list \<Rightarrow> bool" where
  "is_rax_used_after idx ss = rax_used (drop (Suc idx) ss)"

text \<open>Parameters: the first four, those the body uses.\<close>

definition param_list :: "emit_env \<Rightarrow> cfunc \<Rightarrow> string" where
  "param_list ev f =
     (if cf_name f = ''main'' then ''int argc, char** argv, char** envp''
      else if cf_name f = ''WinMain'' then
        ''HINSTANCE hInstance, HINSTANCE hPrevInstance, LPSTR lpCmdLine, int nShowCmd''
      else join '', '' (map (\<lambda>p. type_str ev (vn_id p) @ '' '' @ varnode_str ev p)
             (filter (\<lambda>p. func_uses_param f (vn_id p)) (take 4 (cf_params f)))))"

fun declare_locals :: "emit_env \<Rightarrow> string list \<Rightarrow> varnode list \<Rightarrow> pseudo_line list" where
  "declare_locals ev declared [] = []"
| "declare_locals ev declared (l # ls) =
     (if is_temp l \<and> inlined ev (vn_id l) then declare_locals ev declared ls
      else if is_reg l \<and> vn_id l \<in> {1, 2, 8, 9} then declare_locals ev declared ls
      else (let ln = varnode_str ev l in
        if ln \<in> set declared then declare_locals ev declared ls
        else line 1 (type_str ev (vn_id l) @ '' '' @ ln @ '';'') 0 # declare_locals ev (ln # declared) ls))"

definition emit_env_of ::
  "cfunc \<Rightarrow> type_infer option \<Rightarrow> analysis_db option \<Rightarrow> string list option \<Rightarrow> emit_env" where
  "emit_env_of f ti db rtti = \<lparr>ev_ti = ti, ev_db = db, ev_rtti = rtti, ev_defs = scan_defs (cf_body f),
     ev_uses = count_list (temp_uses (cf_body f)), ev_depth = length (flat_stmts (cf_body f)),
     ev_void = (\<not> has_meaningful_return (cf_body f))\<rparr>"

definition return_str :: "emit_env \<Rightarrow> string" where
  "return_str ev = (if ev_void ev then ''void''
     else case ev_ti ev of Some ti \<Rightarrow> dtype_str (ti_ret ti) | None \<Rightarrow> ''int64_t'')"

definition emit_func ::
  "cfunc \<Rightarrow> type_infer option \<Rightarrow> analysis_db option \<Rightarrow> string list option \<Rightarrow> pseudo_line list option" where
  "emit_func f ti db rtti =
     (let ev = emit_env_of f ti db rtti in
      map_option (\<lambda>ls.
        line 0 (return_str ev @ '' '' @ cf_name f @ paren (param_list ev f) @ '' {'') (cf_entry f) #
        declare_locals ev [] (cf_locals f) @
        (if cf_locals f \<noteq> [] then [line 0 '''' 0] else []) @ ls @ [line 0 ''}'' 0])
        (emit_stmts ev 1 (cf_body f)))"

end
