(* ===== verification/Emitter_Correct.thy ===== *)
theory Emitter_Correct
  imports Emitter "HOL-Library.Sublist"
begin

text \<open>
  What the emitter guarantees: the recursion through inlined temporaries ends, every block keeps its
  label, and every effect is printed at its address in the order of the listing.
\<close>

section \<open>Inlining never goes round in a circle\<close>

text \<open>
  A temporary is inlined only if it is mentioned once in the whole function.  A chain of definitions,
  newest first, starts at a statement that is printed and continues with the definition of a temporary
  mentioned in the one before.
\<close>

definition def_at :: "cstmt list \<Rightarrow> int \<Rightarrow> nat \<Rightarrow> bool" where
  "def_at F v j \<longleftrightarrow> j < length F \<and> is_temp_def (F ! j) \<and> vn_id (st_dst (F ! j)) = v"

inductive chain :: "emit_env \<Rightarrow> cstmt list \<Rightarrow> nat list \<Rightarrow> bool" for ev F where
  chain_root: "i < length F \<Longrightarrow> (\<And>v. inlined ev v \<Longrightarrow> \<not> def_at F v i) \<Longrightarrow> chain ev F [i]"
| chain_def: "chain ev F (i # c) \<Longrightarrow> v \<in> set (stmt_temps (F ! i)) \<Longrightarrow> inlined ev v \<Longrightarrow> def_at F v j \<Longrightarrow>
    chain ev F (j # i # c)"

definition single_use :: "emit_env \<Rightarrow> cstmt list \<Rightarrow> bool" where
  "single_use ev F \<longleftrightarrow> ev_uses ev = count_list (concat (map stmt_temps F))"

lemma count_concat_once:
  assumes "count_list (concat (map g xs)) v = 1" "i < length xs" "j < length xs"
    "v \<in> set (g (xs ! i))" "v \<in> set (g (xs ! j))"
  shows "i = j"
  using assms
proof (induction xs arbitrary: i j)
  case Nil
  then show ?case by simp
next
  case (Cons x xs)
  have pos: "0 < count_list (concat (map g xs)) v" if "k < length xs" "v \<in> set (g (xs ! k))" for k
    using that by (auto simp: count_list_0_iff intro!: gr0I bexI [of _ "xs ! k"])
  show ?case
  proof (cases i; cases j)
    fix i' j' assume "i = Suc i'" "j = Suc j'"
    with Cons pos [of i'] show ?thesis by auto
  next
    fix j' assume "i = 0" "j = Suc j'"
    with Cons.prems pos [of j'] show ?thesis by (auto simp: count_list_0_iff add_eq_if split: if_splits)
  next
    fix i' assume "i = Suc i'" "j = 0"
    with Cons.prems pos [of i'] show ?thesis by (auto simp: count_list_0_iff add_eq_if split: if_splits)
  qed simp
qed

text \<open>Along a chain each statement but the oldest defines a temporary its successor mentions.\<close>

lemma chain_links:
  "chain ev F c \<Longrightarrow> Suc p < length c \<Longrightarrow>
   \<exists>v. v \<in> set (stmt_temps (F ! (c ! Suc p))) \<and> inlined ev v \<and> def_at F v (c ! p)"
proof (induction arbitrary: p rule: chain.induct)
  case (chain_def i c v j)
  then show ?case by (cases p) auto
qed simp

lemma chain_members: "chain ev F c \<Longrightarrow> c \<noteq> [] \<and> set c \<subseteq> {..<length F}"
  by (induction rule: chain.induct) (auto simp: def_at_def)

lemma chain_last: "chain ev F c \<Longrightarrow> inlined ev v \<Longrightarrow> \<not> def_at F v (last c)"
  by (induction rule: chain.induct) auto

lemma chain_distinct:
  assumes "single_use ev F" "chain ev F c"
  shows "distinct c"
  using assms(2)
proof (induction rule: chain.induct)
  case (chain_def i c v j)
  let ?c = "i # c"
  have mem: "set ?c \<subseteq> {..<length F}" using chain_members [OF chain_def.hyps(1)] by simp
  have "j \<notin> set ?c"
  proof
    assume "j \<in> set ?c"
    then obtain l where l: "l < length ?c" "?c ! l = j" unfolding in_set_conv_nth by blast
    show False
    proof (cases "Suc l < length ?c")
      case True
      then obtain w where w: "w \<in> set (stmt_temps (F ! (?c ! Suc l)))" "def_at F w (?c ! l)"
        using chain_links [OF chain_def.hyps(1)] by blast
      have wv: "w = v" using w(2) chain_def.hyps(4) l(2) by (simp add: def_at_def)
      have "?c ! Suc l < length F" using subsetD [OF mem nth_mem [OF True]] by simp
      moreover have "i < length F" using mem by simp
      ultimately have "?c ! Suc l = i"
        using count_concat_once [of stmt_temps F v "?c ! Suc l" i] w(1) wv chain_def.hyps(2,3) assms(1)
        by (simp add: inlined_def single_use_def)
      with chain_def.IH True have "Suc l = 0" using nth_eq_iff_index_eq [of ?c "Suc l" 0] by simp
      then show False by simp
    next
      case False
      with l have "Suc l = length ?c" by simp
      then have "last ?c = ?c ! l" by (metis diff_Suc_1 last_conv_nth list.distinct(1))
      with l have "j = last ?c" by simp
      with chain_last [OF chain_def.hyps(1,3)] chain_def.hyps(4) show False by simp
    qed
  qed
  with chain_def.IH show ?case by simp
qed simp

lemma chain_length:
  assumes "single_use ev F" "chain ev F c"
  shows "length c \<le> length F"
  using chain_distinct [OF assms] chain_members [OF assms(2)]
  by (metis card_lessThan card_mono distinct_card finite_lessThan)

section \<open>The printer always finishes\<close>

text \<open>The emitter's tables are those of the body whose statements are \<open>F\<close>.\<close>

definition tables_ok :: "emit_env \<Rightarrow> cstmt list \<Rightarrow> bool" where
  "tables_ok ev F \<longleftrightarrow> single_use ev F \<and> (\<forall>v s. ev_defs ev v = Some s \<longrightarrow> (\<exists>j. def_at F v j \<and> F ! j = s))"

text \<open>An expression mentioned by the newest statement of a chain, with fuel for the rest of the way.\<close>

definition reachable_expr :: "emit_env \<Rightarrow> cstmt list \<Rightarrow> nat \<Rightarrow> cexpr \<Rightarrow> bool" where
  "reachable_expr ev F n e \<longleftrightarrow> (\<exists>c. chain ev F c \<and> set (expr_temps e) \<subseteq> set (stmt_temps (F ! hd c)) \<and>
     length F \<le> length c + n)"

lemma reachable_expr_args:
  assumes "reachable_expr ev F n (CExpr opc vn nm args neg)" "a \<in> set args"
  shows "reachable_expr ev F n a"
proof -
  have "set (expr_temps a) \<subseteq> set (expr_temps (CExpr opc vn nm args neg))" using assms(2) by auto
  with assms(1) show ?thesis unfolding reachable_expr_def by blast
qed

lemma reachable_expr_def_of:
  assumes "tables_ok ev F" "reachable_expr ev F n (CExpr COPY vn nm [] neg)" "\<not> is_const vn"
    "inline_def ev vn = Some d"
  shows "\<exists>m. n = Suc m \<and> reachable_expr ev F m d"
proof -
  obtain c where c: "chain ev F c" "length F \<le> length c + n"
      and t: "set (expr_temps (CExpr COPY vn nm [] neg)) \<subseteq> set (stmt_temps (F ! hd c))"
    using assms(2) by (auto simp: reachable_expr_def)
  obtain s where s: "is_temp vn" "inlined ev (vn_id vn)" "ev_defs ev (vn_id vn) = Some s" "d = st_expr s"
    using assms(4) by (auto simp: inline_def_def split: if_splits)
  obtain j where j: "def_at F (vn_id vn) j" "F ! j = s" using assms(1) s(3) by (auto simp: tables_ok_def)
  have mention: "vn_id vn \<in> set (stmt_temps (F ! hd c))" using t s(1) assms(3) by simp
  have ext: "chain ev F (j # c)"
    using chain_members [OF c(1)] mention s(2) j(1) c(1) by (cases c) (auto intro: chain_def)
  have len: "length (j # c) \<le> length F"
    using assms(1) by (intro chain_length [OF _ ext]) (simp add: tables_ok_def)
  with c(2) obtain m where m: "n = Suc m" by (cases n) auto
  have "set (expr_temps d) \<subseteq> set (stmt_temps (F ! hd (j # c)))" by (simp add: s(4) j(2) stmt_temps_def)
  then have "reachable_expr ev F m d"
    unfolding reachable_expr_def using ext c(2) m by (intro exI [of _ "j # c"]) simp
  with m show ?thesis by blast
qed

lemma args_str_defined: "(\<And>x. x \<in> set es \<Longrightarrow> expr_str ev n x \<noteq> None) \<Longrightarrow> args_str ev n es \<noteq> None"
proof (induction es)
  case (Cons x es)
  obtain t where "expr_str ev n x = Some t" using Cons.prems [of x] by auto
  moreover obtain ts where "args_str ev n es = Some ts" using Cons by (auto simp del: not_None_eq)
  ultimately show ?case by simp
qed simp

lemma expr_str_Cons_defined:
  assumes "\<And>x. x \<in> set (a # as) \<Longrightarrow> expr_str ev n x \<noteq> None"
  shows "expr_str ev n (CExpr opc vn nm (a # as) neg) \<noteq> None"
proof -
  obtain t where t: "expr_str ev n a = Some t" using assms [of a] by auto
  obtain ts where ts: "args_str ev n as = Some ts" using args_str_defined [of as ev n] assms by auto
  show ?thesis
  proof (cases as)
    case Nil
    with t ts show ?thesis by (simp split: option.split)
  next
    case (Cons b bs)
    then obtain r where "expr_str ev n b = Some r" using assms [of b] by auto
    moreover obtain us where "args_str ev n bs = Some us" using args_str_defined [of bs ev n] assms Cons by auto
    ultimately show ?thesis using t ts Cons by (simp split: option.split)
  qed
qed

lemma expr_str_returns:
  "tables_ok ev F \<Longrightarrow> reachable_expr ev F n e \<Longrightarrow> expr_str ev n e \<noteq> None"
proof (induction n arbitrary: e rule: less_induct)
  case (less n)
  from less.prems(2) show ?case
  proof (induction e)
    case (CExpr opc vn nm args neg)
    show ?case
    proof (cases args)
      case Nil
      show ?thesis
      proof (cases "opc = COPY \<and> \<not> is_const vn \<and> inline_def ev vn \<noteq> None")
        case True
        then obtain d where d: "inline_def ev vn = Some d" by blast
        then obtain m where "n = Suc m" "reachable_expr ev F m d"
          using reachable_expr_def_of [OF less.prems(1) _ _ d] CExpr.prems Nil True by blast
        with less.IH [of m d] less.prems(1) True Nil d show ?thesis by auto
      qed (use Nil in \<open>auto split: option.split\<close>)
    next
      case (Cons a as)
      have "expr_str ev n x \<noteq> None" if "x \<in> set (a # as)" for x
        using CExpr.IH [of x] reachable_expr_args [OF CExpr.prems] that Cons by simp
      then show ?thesis unfolding Cons by (rule expr_str_Cons_defined)
    qed
  qed
qed

lemma cond_pair_defined:
  "expr_str ev n a \<noteq> None \<Longrightarrow> expr_str ev n b \<noteq> None \<Longrightarrow> cond_pair ev n s a b \<noteq> None"
  by (auto simp: cond_pair_def)

lemma cond_str_returns:
  assumes tab: "tables_ok ev F" and e: "reachable_expr ev F n e"
  shows "cond_str ev n e \<noteq> None"
proof (cases "ce_is_var e")
  case True
  then obtain vn nm neg where v: "e = CExpr COPY vn nm [] neg" "\<not> is_const vn"
    by (cases e) (auto simp: ce_is_var_def)
  show ?thesis
  proof (cases "inline_def ev vn")
    case None
    then show ?thesis using True v by (simp add: cond_str_def)
  next
    case (Some d)
    then obtain m where "n = Suc m" "reachable_expr ev F m d"
      using reachable_expr_def_of [OF tab _ v(2) Some] e v(1) by blast
    with expr_str_returns [OF tab] Some True v show ?thesis by (simp add: cond_str_def)
  qed
next
  case False
  obtain opc vn nm args neg where ex: "e = CExpr opc vn nm args neg" by (cases e)
  have whole: "expr_str ev n e \<noteq> None" using expr_str_returns [OF tab e] .
  have sub: "expr_str ev n x \<noteq> None" if "x \<in> set args" for x
    using expr_str_returns [OF tab] reachable_expr_args [OF _ that] e ex by blast
  have inner: "expr_str ev n (hd (ce_args x)) \<noteq> None" if "x \<in> set args" "ce_args x \<noteq> []" for x
  proof -
    have "reachable_expr ev F n x" using reachable_expr_args [OF _ that(1)] e ex by blast
    then show ?thesis
      using that(2) expr_str_returns [OF tab] reachable_expr_args [of ev F n "ce_op x" "ce_vn x" "ce_call_name x" "ce_args x" "ce_negated x"]
      by (cases x) simp
  qed
  show ?thesis
  proof (cases args)
    case Nil
    then show ?thesis using False whole unfolding cond_str_def ex
      by (cases opc) (simp_all del: expr_str.simps not_None_eq)
  next
    case (Cons a as)
    note a = sub [of a] inner [of a]
    show ?thesis
    proof (cases "\<exists>b. as = [b]")
      case True
      then obtain b where "as = [b]" by blast
      then show ?thesis
        using False whole a sub [of b] Cons cond_pair_defined [of ev n a b] unfolding cond_str_def ex
        by (cases opc) (simp_all del: expr_str.simps not_None_eq)
    next
      case other: False
      then show ?thesis
        using False whole a Cons unfolding cond_str_def ex
        by (cases opc) (auto simp del: expr_str.simps not_None_eq split: list.split)
    qed
  qed
qed

lemma printed_exprs:
  assumes "tables_ok ev F" "s \<in> set F" "\<not> (is_temp_def s \<and> inlined ev (vn_id (st_dst s)))"
    "set (expr_temps e) \<subseteq> set (stmt_temps s)"
  shows "reachable_expr ev F (length F) e"
proof -
  obtain i where i: "i < length F" "F ! i = s" using assms(2) by (auto simp: in_set_conv_nth)
  have "chain ev F [i]" using i assms(3) by (intro chain_root) (auto simp: def_at_def)
  then show ?thesis using i assms(4) unfolding reachable_expr_def by (intro exI [of _ "[i]"]) simp
qed

definition for_free :: "cstmt list \<Rightarrow> bool" where
  "for_free F \<longleftrightarrow> (\<forall>s \<in> set F. st_kind s \<noteq> SFor)"

lemma flat_stmt_self: "s \<in> set (flat_stmt s)"
  by (cases s) simp

lemma braced_defined:
  "head \<noteq> None \<Longrightarrow> inner \<noteq> None \<Longrightarrow> foot \<noteq> None \<Longrightarrow> braced ind head a inner foot \<noteq> None"
  by (auto simp: braced_def)

lemma temp_leaf_exprs [simp]:
  "expr_temps (CExpr BOOL_NOT v nm [c] neg) = expr_temps c"
  by simp

lemma stmt_temps_parts:
  "set (expr_temps e) \<subseteq> set (stmt_temps (CStmt k e c d body els a t fi fc fv))"
  "set (expr_temps c) \<subseteq> set (stmt_temps (CStmt k e c d body els a t fi fc fv))"
  by (auto simp: stmt_temps_def)

lemma is_temp_def_cons:
  "is_temp_def (CStmt k e c d body els a t fi fc fv) \<Longrightarrow> k = SAssign"
  by (simp add: is_temp_def_def)

lemma expr_lines_returns:
  assumes "tables_ok ev F" "ev_depth ev = length F" "reachable_expr ev F (length F) e"
  shows "expr_lines ev ind e a \<noteq> None"
proof -
  obtain opc vn nm args neg where e: "e = CExpr opc vn nm args neg" by (cases e)
  have whole: "expr_str ev (ev_depth ev) e \<noteq> None" using expr_str_returns [OF assms(1)] assms(2,3) by simp
  have sub: "expr_str ev (ev_depth ev) x \<noteq> None" if "x \<in> set args" for x
    using expr_str_returns [OF assms(1)] reachable_expr_args [OF _ that] assms(2,3) e by simp
  show ?thesis
  proof (cases "opc = STORE \<and> (\<exists>x v vs. args = x # v # vs)")
    case True
    then obtain x v vs where "opc = STORE" "args = x # v # vs" by blast
    then show ?thesis using sub [of x] sub [of v] unfolding e expr_lines_def by auto
  next
    case False
    then have "expr_lines ev ind e a = map_option (\<lambda>t. [line ind (t @ '';'') a]) (expr_str ev (ev_depth ev) e)"
      unfolding expr_lines_def e by (cases opc) (auto simp del: expr_str.simps split: list.split)
    then show ?thesis using whole by simp
  qed
qed

definition parts_ok :: "emit_env \<Rightarrow> cstmt list \<Rightarrow> bool" where
  "parts_ok ev F \<longleftrightarrow> tables_ok ev F \<and> ev_depth ev = length F \<and> for_free F"

lemma part_returns:
  assumes "parts_ok ev F" "s \<in> set F" "st_kind s \<noteq> SAssign \<or> \<not> (is_temp (st_dst s) \<and> inlined ev (vn_id (st_dst s)))"
    "set (expr_temps e) \<subseteq> set (stmt_temps s)"
  shows "expr_str ev (ev_depth ev) e \<noteq> None" "cond_str ev (ev_depth ev) e \<noteq> None" "expr_lines ev ind e a \<noteq> None"
proof -
  have tab: "tables_ok ev F" "ev_depth ev = length F" using assms(1) by (auto simp: parts_ok_def)
  have "reachable_expr ev F (length F) e"
    using assms by (intro printed_exprs) (auto simp: parts_ok_def is_temp_def_def)
  then show "expr_str ev (ev_depth ev) e \<noteq> None" "cond_str ev (ev_depth ev) e \<noteq> None" "expr_lines ev ind e a \<noteq> None"
    using expr_str_returns cond_str_returns expr_lines_returns tab by metis+
qed

lemma emit_stmts_defined:
  "(\<And>s. s \<in> set ss \<Longrightarrow> emit_stmt ev ind s \<noteq> None) \<Longrightarrow> emit_stmts ev ind ss \<noteq> None"
proof (induction ss)
  case (Cons s ss)
  obtain ls where "emit_stmt ev ind s = Some ls" using Cons.prems [of s] by auto
  moreover obtain ms where "emit_stmts ev ind ss = Some ms" using Cons by (auto simp del: not_None_eq)
  ultimately show ?case by simp
qed simp

lemma emit_stmt_returns:
  assumes ok: "parts_ok ev F"
  shows "set (flat_stmt s) \<subseteq> set F \<Longrightarrow> emit_stmt ev ind s \<noteq> None"
proof (induction s arbitrary: ind)
  case (CStmt k e c d body els a t fi fc fv)
  let ?s = "CStmt k e c d body els a t fi fc fv"
  have mem: "?s \<in> set F" using CStmt.prems flat_stmt_self by blast
  have sub: "set (flat_stmt x) \<subseteq> set F" if "x \<in> set body \<or> x \<in> set els" for x
  proof -
    have "set (flat_stmt x) \<subseteq> set (flat_stmt ?s)" using that by auto
    with CStmt.prems show ?thesis by (rule subset_trans [rotated])
  qed
  have "emit_stmts ev i body \<noteq> None" for i
    by (rule emit_stmts_defined) (simp add: CStmt.IH(1) sub del: not_None_eq)
  moreover have "emit_stmts ev i els \<noteq> None" for i
    by (rule emit_stmts_defined) (simp add: CStmt.IH(2) sub del: not_None_eq)
  ultimately have body: "emit_stmts ev i body \<noteq> None" "emit_stmts ev i els \<noteq> None" for i by blast+
  have e: "expr_str ev (ev_depth ev) e \<noteq> None" "expr_lines ev ind e a \<noteq> None"
    if "k \<noteq> SAssign \<or> \<not> (is_temp d \<and> inlined ev (vn_id d))"
    using part_returns(1,3) [OF ok mem _ stmt_temps_parts(1)] that by simp_all
  have c: "cond_str ev (ev_depth ev) c \<noteq> None" "if_head ev c \<noteq> None" "if_head ev (negated c) \<noteq> None"
    if "k \<noteq> SAssign"
    using part_returns(2) [OF ok mem _ stmt_temps_parts(2)] part_returns(2) [OF ok mem, of "negated c"]
      stmt_temps_parts(2) that by (simp_all add: negated_def if_head_def)
  have no_for: "k \<noteq> SFor" using ok mem by (auto simp: parts_ok_def for_free_def)
  have asg: "assign_lines ev ind d e a \<noteq> None" using e by (auto simp: assign_lines_def Let_def)
  have ret: "return_lines ev ind e a \<noteq> None" if "k = SReturn" using e that by (auto simp: return_lines_def)
  show ?case
  proof (cases k)
    case SIfElse
    obtain bl el where "emit_stmts ev (ind + 1) body = Some bl" "emit_stmts ev (ind + 1) els = Some el"
      using body [of "ind + 1"] by auto
    moreover obtain h nh where "if_head ev c = Some h" "if_head ev (negated c) = Some nh"
      using c SIfElse by auto
    ultimately show ?thesis using SIfElse by (simp add: braced_def del: is_dead_stmt.simps)
  qed (use body c e asg ret no_for in \<open>simp_all del: not_None_eq is_dead_stmt.simps add: braced_defined\<close>)
qed

section \<open>The text of a structured function\<close>

lemma scan_defs_members:
  "fold (\<lambda>s m. if is_temp_def s then m(vn_id (st_dst s) \<mapsto> s) else m) F m v = Some s \<Longrightarrow>
   m v = Some s \<or> s \<in> set F \<and> is_temp_def s \<and> vn_id (st_dst s) = v"
proof (induction F arbitrary: m)
  case (Cons s0 F)
  define m' where "m' = (if is_temp_def s0 then m(vn_id (st_dst s0) \<mapsto> s0) else m)"
  have "m' v = Some s \<or> s \<in> set F \<and> is_temp_def s \<and> vn_id (st_dst s) = v"
    using Cons.IH [of m'] Cons.prems by (simp add: m'_def)
  then show ?case by (auto simp: m'_def split: if_splits)
qed simp

lemma emit_env_parts:
  assumes "for_free (flat_stmts (cf_body f))"
  shows "parts_ok (emit_env_of f ti db rtti) (flat_stmts (cf_body f))"
proof -
  let ?F = "flat_stmts (cf_body f)"
  have "\<exists>j. def_at ?F v j \<and> ?F ! j = s" if "scan_defs (cf_body f) v = Some s" for v s
    using scan_defs_members [of ?F Map.empty v s] that
    by (auto simp: scan_defs_def def_at_def in_set_conv_nth)
  with assms show ?thesis
    by (simp add: parts_ok_def tables_ok_def single_use_def emit_env_of_def temp_uses_def)
qed

lemma emit_stmts_returns:
  assumes "for_free (flat_stmts (cf_body f))"
  shows "\<exists>ls. emit_stmts (emit_env_of f ti db rtti) ind (cf_body f) = Some ls"
proof -
  have "emit_stmts (emit_env_of f ti db rtti) ind (cf_body f) \<noteq> None"
  proof (rule emit_stmts_defined)
    fix s assume "s \<in> set (cf_body f)"
    then have "set (flat_stmt s) \<subseteq> set (flat_stmts (cf_body f))" by (auto simp: flat_stmts_def)
    then show "emit_stmt (emit_env_of f ti db rtti) ind s \<noteq> None"
      by (rule emit_stmt_returns [OF emit_env_parts [OF assms]])
  qed
  then show ?thesis by blast
qed

text \<open>The statements of a listing: leaves, and conditionals around one goto.\<close>

definition leaf_stmt :: "cstmt \<Rightarrow> bool" where
  "leaf_stmt s \<longleftrightarrow> st_body s = [] \<and> st_else_body s = [] \<and> st_kind s \<in> {SLabel, SGoto, SExpr, SAssign, SReturn}"

definition guarded_goto :: "cstmt \<Rightarrow> bool" where
  "guarded_goto s \<longleftrightarrow> st_kind s = SIf \<and> st_else_body s = [] \<and>
     (\<exists>g. st_body s = [g] \<and> st_kind g = SGoto \<and> leaf_stmt g)"

definition listing_stmt :: "cstmt \<Rightarrow> bool" where
  "listing_stmt s \<longleftrightarrow> leaf_stmt s \<or> guarded_goto s"

lemma leaf_emit_ops: "s \<in> set (emit_ops ops) \<Longrightarrow> leaf_stmt s \<and> st_kind s \<noteq> SLabel"
  by (induction ops) (auto simp: stmt_defs leaf_stmt_def split: if_splits)

lemma listing_control: "s \<in> set (control_stmts f blk) \<Longrightarrow> listing_stmt s \<and> st_kind s \<noteq> SLabel"
  by (auto simp: control_stmts_def stmt_defs Let_def listing_stmt_def leaf_stmt_def guarded_goto_def
      split: option.splits if_splits)

lemma listing_stmts: "s \<in> set (cf_body (structure_func f)) \<Longrightarrow> listing_stmt s"
  using leaf_emit_ops listing_control
  by (fastforce simp: structure_func_def block_listing_def emit_block_stmts_def listing_stmt_def
      leaf_stmt_def stmt_defs)

lemma flat_leaf: "leaf_stmt s \<Longrightarrow> flat_stmt s = [s]"
  by (cases s) (simp add: leaf_stmt_def)

lemma flat_guarded: "guarded_goto s \<Longrightarrow> flat_stmt s = s # st_body s"
  by (cases s) (auto simp: guarded_goto_def flat_leaf)

lemma structure_for_free: "for_free (flat_stmts (cf_body (structure_func f)))"
proof -
  have "st_kind s \<noteq> SFor" if "s \<in> set (flat_stmt s')" "listing_stmt s'" for s s'
    using that by (auto simp: listing_stmt_def flat_leaf flat_guarded guarded_goto_def)
      (auto simp: leaf_stmt_def)
  then show ?thesis using listing_stmts by (fastforce simp: for_free_def flat_stmts_def)
qed

text \<open>
  C5.  Printing ends: the emitter replaces a temporary that is used once by its definition, which may
  mention other temporaries, without any check for circles; still, the text of the structured form of
  every p-code function is produced, the replacement never going through more definitions than the
  function has statements.
\<close>

theorem emit_terminates:
  "\<exists>ls. emit_func (structure_func f) ti db rtti = Some ls"
  using emit_stmts_returns [OF structure_for_free, of f ti db rtti 1]
  by (auto simp: emit_func_def Let_def)

section \<open>Labels and effects in the text\<close>

definition is_label_line :: "pseudo_line \<Rightarrow> bool" where
  "is_label_line l \<longleftrightarrow> pl_text l \<noteq> [] \<and> last (pl_text l) = CHR '':''"

definition label_text :: "va_t \<Rightarrow> string" where
  "label_text a = ''loc_'' @ hex_upper a @ '':''"

lemma line_fields [simp]: "pl_text (line n t a) = t" "pl_addr (line n t a) = a" "pl_indent (line n t a) = n"
  by (simp_all add: line_def)

lemma emit_stmts_append:
  "emit_stmts ev ind (ss @ ts) =
   Option.bind (emit_stmts ev ind ss) (\<lambda>ls. map_option (\<lambda>ms. ls @ ms) (emit_stmts ev ind ts))"
  by (induction ss) (auto split: Option.bind_split simp: map_option_case split: option.split)

lemma not_label_lines:
  "assign_lines ev ind d e a = Some ls \<Longrightarrow> filter is_label_line ls = []"
  "expr_lines ev ind e a = Some ls \<Longrightarrow> filter is_label_line ls = []"
  "return_lines ev ind e a = Some ls \<Longrightarrow> filter is_label_line ls = []"
  by (auto simp: filter_empty_conv is_label_line_def assign_lines_def expr_lines_def return_lines_def Let_def bind_eq_Some_conv
      split: if_splits pcode_op.splits list.splits)

text \<open>What a statement of a listing prints: its label, or no label.\<close>

lemma leaf_labels:
  assumes "leaf_stmt s" "emit_stmt ev ind s = Some ls"
  shows "map pl_text (filter is_label_line ls) = (if st_kind s = SLabel then [label_text (st_goto_target s)] else [])"
proof -
  obtain k e c d t a fi fc fv where s: "s = CStmt k e c d [] [] a t fi fc fv"
    using assms(1) by (cases s) (auto simp: leaf_stmt_def)
  show ?thesis
  proof (cases k)
    case SLabel
    with assms(2) s show ?thesis by (simp add: is_label_line_def label_text_def) (auto simp: is_label_line_def)
  next
    case SGoto
    with assms(2) s show ?thesis by (auto simp: is_label_line_def)
  qed (use assms s in \<open>auto simp: leaf_stmt_def not_label_lines split: if_splits\<close>)
qed

lemma guarded_goto_lines:
  assumes "guarded_goto s" "emit_stmt ev ind s = Some ls"
  shows "\<exists>h t. ls = [line ind (''if '' @ paren h @ '' {'') (st_addr s), line (ind + 1) (''goto loc_'' @ hex_upper t @ '';'')
    (st_addr (hd (st_body s))), line ind ''}'' 0]"
proof -
  obtain e c d t a fi fc fv where s: "s = CStmt SIf e c d (st_body s) [] a t fi fc fv"
    using assms(1) by (cases s) (auto simp: guarded_goto_def)
  obtain g where g: "st_body s = [g]" "st_kind g = SGoto" "leaf_stmt g" using assms(1) by (auto simp: guarded_goto_def)
  obtain e' c' d' t' a' fi' fc' fv' where g': "g = CStmt SGoto e' c' d' [] [] a' t' fi' fc' fv'"
    using g(2,3) by (cases g) (auto simp: leaf_stmt_def)
  have s2: "s = CStmt SIf e c d [g] [] a t fi fc fv" using s g(1) by simp
  show ?thesis
    using assms(2) unfolding s2 by (auto simp: g' braced_def if_head_def bind_eq_Some_conv)
qed

lemma listing_labels:
  assumes "listing_stmt s" "emit_stmt ev ind s = Some ls"
  shows "map pl_text (filter is_label_line ls) = (if st_kind s = SLabel then [label_text (st_goto_target s)] else [])"
proof (cases "leaf_stmt s")
  case True
  then show ?thesis using assms(2) by (rule leaf_labels)
next
  case False
  then have g: "guarded_goto s" using assms(1) by (simp add: listing_stmt_def)
  then have "st_kind s \<noteq> SLabel" by (simp add: guarded_goto_def)
  with guarded_goto_lines [OF g assms(2)] show ?thesis by (auto simp: is_label_line_def)
qed

lemma listing_labels_list:
  assumes "\<And>s. s \<in> set ss \<Longrightarrow> listing_stmt s" "emit_stmts ev ind ss = Some ls"
  shows "map pl_text (filter is_label_line ls) =
    map (\<lambda>s. label_text (st_goto_target s)) (filter (\<lambda>s. st_kind s = SLabel) ss)"
  using assms
proof (induction ss arbitrary: ls)
  case (Cons s ss)
  then obtain ls1 ls2 where "emit_stmt ev ind s = Some ls1" "emit_stmts ev ind ss = Some ls2" "ls = ls1 @ ls2"
    by (auto simp: bind_eq_Some_conv)
  with Cons listing_labels [of s ev ind ls1] show ?case by simp
qed simp

lemma structure_labels:
  "map st_goto_target (filter (\<lambda>s. st_kind s = SLabel) (cf_body (structure_func f))) = map pb_addr (pf_blocks f)"
proof -
  have "map st_goto_target (filter (\<lambda>s. st_kind s = SLabel) (block_listing f b)) = [pb_addr b]" for b
    using leaf_emit_ops listing_control
    by (fastforce simp: block_listing_def emit_block_stmts_def stmt_defs filter_empty_conv)
  then show ?thesis
    by (simp add: structure_func_def filter_concat map_concat comp_def)
qed

lemma declare_locals_labels: "filter is_label_line (declare_locals ev dcl ls) = []"
  by (induction ev dcl ls rule: declare_locals.induct) (auto simp: Let_def is_label_line_def)

lemma emit_func_lines:
  assumes "emit_func f ti db rtti = Some ls"
  obtains ms where "emit_stmts (emit_env_of f ti db rtti) 1 (cf_body f) = Some ms"
    "filter is_label_line ls = filter is_label_line ms" "\<exists>pre post. ls = pre @ ms @ post"
proof -
  define ev where "ev = emit_env_of f ti db rtti"
  obtain ms where ms: "emit_stmts ev 1 (cf_body f) = Some ms"
      and ls: "ls = line 0 (return_str ev @ '' '' @ cf_name f @ paren (param_list ev f) @ '' {'') (cf_entry f) #
        declare_locals ev [] (cf_locals f) @ (if cf_locals f \<noteq> [] then [line 0 '''' 0] else []) @ ms @ [line 0 ''}'' 0]"
    using assms unfolding emit_func_def Let_def ev_def [symmetric] by blast
  have "filter is_label_line ls = filter is_label_line ms"
    by (simp add: ls declare_locals_labels) (simp add: is_label_line_def)
  moreover have "\<exists>pre post. ls = pre @ ms @ post"
    unfolding ls by (metis append.assoc append_Cons)
  ultimately show ?thesis using that ms by (simp add: ev_def)
qed

text \<open>
   The printed labels are the blocks: the lines of the text that end in a colon are one label
  \<open>loc_<address>\<close> per block of the p-code function, in the order of the blocks, and blocks with different
  addresses have different labels, so a printed \<open>goto loc_<address>\<close> to a block's address names that
  block's label and no other.
\<close>

theorem emit_labels_exact:
  "map_option (\<lambda>ls. map pl_text (filter is_label_line ls)) (emit_func (structure_func f) ti db rtti) =
     Some (map (\<lambda>b. label_text (pb_addr b)) (pf_blocks f)) \<and>
   inj label_text"
proof -
  obtain ls where ls: "emit_func (structure_func f) ti db rtti = Some ls"
    using emit_stmts_returns [OF structure_for_free, of f ti db rtti 1] by (auto simp: emit_func_def Let_def)
  obtain ms where ms: "emit_stmts (emit_env_of (structure_func f) ti db rtti) 1 (cf_body (structure_func f)) = Some ms"
      "filter is_label_line ls = filter is_label_line ms"
    using emit_func_lines [OF ls] by metis
  have "map pl_text (filter is_label_line ms) = map label_text (map pb_addr (pf_blocks f))"
    using listing_labels_list [OF listing_stmts ms(1)] structure_labels [of f]
    by (simp only: map_map [symmetric] comp_def [symmetric])
  then show ?thesis using ls ms(2) by (auto simp: inj_def label_text_def)
qed

text \<open>The operations whose line is always printed.\<close>

definition printed_effect :: "pcode_insn \<Rightarrow> bool" where
  "printed_effect i \<longleftrightarrow> pi_op i = STORE \<and> 2 \<le> length (pi_inputs i) \<or> pi_op i = RETURN \<or>
     (pi_op i = CALL \<or> pi_op i = INTRINSIC) \<and> \<not> is_temp (pi_output i)"

fun upto_return :: "pcode_insn list \<Rightarrow> pcode_insn list" where
  "upto_return [] = []"
| "upto_return (i # is) = (if pi_op i = RETURN then [i] else i # upto_return is)"

definition block_effects :: "pcode_block \<Rightarrow> va_t list" where
  "block_effects b = pb_addr b # map pi_addr (filter printed_effect (upto_return (pb_ops b)))"

definition must_print :: "cstmt \<Rightarrow> bool" where
  "must_print s \<longleftrightarrow> leaf_stmt s \<and> (st_kind s = SLabel \<or> st_kind s = SReturn \<or>
     st_kind s = SExpr \<and> ce_op (st_expr s) = STORE \<or>
     st_kind s = SAssign \<and> ce_op (st_expr s) = CALL \<and> \<not> is_temp (st_dst s))"

lemma one_line:
  "\<not> is_temp d \<Longrightarrow> assign_lines ev ind d e a = Some ls \<Longrightarrow> map pl_addr ls = [a]"
  "expr_lines ev ind e a = Some ls \<Longrightarrow> map pl_addr ls = [a]"
  "return_lines ev ind e a = Some ls \<Longrightarrow> map pl_addr ls = [a]"
  by (auto simp: assign_lines_def expr_lines_def return_lines_def Let_def bind_eq_Some_conv
      split: if_splits pcode_op.splits list.splits)

lemma must_print_line:
  assumes "must_print s" "emit_stmt ev ind s = Some ls"
  shows "map pl_addr ls = [st_addr s]"
proof -
  obtain k e c d t a fi fc fv where s: "s = CStmt k e c d [] [] a t fi fc fv"
    using assms(1) by (cases s) (auto simp: must_print_def leaf_stmt_def)
  show ?thesis
    using assms unfolding s by (auto simp: must_print_def one_line split: if_splits)
qed

lemma must_print_lines:
  "emit_stmts ev ind ss = Some ls \<Longrightarrow> subseq (map st_addr (filter must_print ss)) (map pl_addr ls)"
proof (induction ss arbitrary: ls)
  case (Cons s ss)
  then obtain ls1 ls2 where ls: "emit_stmt ev ind s = Some ls1" "emit_stmts ev ind ss = Some ls2" "ls = ls1 @ ls2"
    by (auto simp: bind_eq_Some_conv)
  show ?case
  proof (cases "must_print s")
    case True
    then show ?thesis using must_print_line [OF True ls(1)] Cons.IH [OF ls(2)] ls(3) by simp
  next
    case False
    then show ?thesis using Cons.IH [OF ls(2)] ls(3) by (simp add: list_emb_append2)
  qed
qed simp

lemma effects_emit_ops:
  "subseq (map pi_addr (filter printed_effect (upto_return ops))) (map st_addr (filter must_print (emit_ops ops)))"
proof (induction ops)
  case (Cons i ops)
  have ret: ?case if "pi_op i = RETURN"
    using that by (simp add: printed_effect_def must_print_def leaf_stmt_def stmt_defs)
  have call: "ce_op (build_expr i) = CALL" if "pi_op i = CALL \<or> pi_op i = INTRINSIC"
    using that by (auto simp: build_expr_def ce_call_def Let_def split: list.split)
  have other: ?case if nr: "pi_op i \<noteq> RETURN"
  proof (cases "printed_effect i")
    case True
    then have "\<exists>s. emit_ops (i # ops) = s # emit_ops ops \<and> must_print s \<and> st_addr s = pi_addr i"
      using that call by (auto simp: printed_effect_def must_print_def leaf_stmt_def stmt_defs)
    with Cons True that show ?thesis by (auto simp del: emit_ops.simps)
  next
    case False
    obtain pre where "emit_ops (i # ops) = pre @ emit_ops ops" using emit_ops_Cons [OF nr] by blast
    with Cons False nr show ?thesis by (simp add: list_emb_append2 del: emit_ops.simps)
  qed
  show ?case using ret other by blast
qed simp

lemma subseq_concat_map:
  "(\<And>x. x \<in> set xs \<Longrightarrow> subseq (f x) (g x)) \<Longrightarrow> subseq (concat (map f xs)) (concat (map g xs))"
  by (induction xs) (auto intro: list_emb_append_mono)

lemma effects_listing:
  "subseq (block_effects b) (map st_addr (filter must_print (block_listing f b)))"
proof -
  have "subseq (map pi_addr (filter printed_effect (upto_return (pb_ops b))) @ [])
      (map st_addr (filter must_print (emit_ops (pb_ops b))) @ map st_addr (filter must_print (control_stmts f b)))"
    by (rule list_emb_append_mono [OF effects_emit_ops]) simp
  moreover have "must_print (jump_stmt SLabel (pb_addr b) (pb_addr b))" "st_addr (jump_stmt SLabel (pb_addr b) (pb_addr b)) = pb_addr b"
    by (simp_all add: must_print_def leaf_stmt_def stmt_defs)
  ultimately show ?thesis
    by (simp add: block_effects_def block_listing_def emit_block_stmts_def)
qed

lemma emit_lines_effects:
  "\<exists>ls. emit_func (structure_func f) ti db rtti = Some ls \<and>
     subseq (concat (map block_effects (pf_blocks f))) (map pl_addr ls)"
proof -
  obtain ls where ls: "emit_func (structure_func f) ti db rtti = Some ls"
    using emit_stmts_returns [OF structure_for_free, of f ti db rtti 1] by (auto simp: emit_func_def Let_def)
  obtain ms pre post where ms: "emit_stmts (emit_env_of (structure_func f) ti db rtti) 1 (cf_body (structure_func f)) = Some ms"
      "ls = pre @ ms @ post"
    using emit_func_lines [OF ls] by metis
  have "subseq (concat (map block_effects (pf_blocks f)))
      (concat (map (\<lambda>b. map st_addr (filter must_print (block_listing f b))) (pf_blocks f)))"
    by (rule subseq_concat_map) (rule effects_listing)
  also have "\<dots> = map st_addr (filter must_print (cf_body (structure_func f)))"
    by (simp add: structure_func_def filter_concat map_concat comp_def)
  also have "subseq \<dots> (map pl_addr ms)" by (rule must_print_lines [OF ms(1)])
  also have "subseq (map pl_addr ms) (map pl_addr ls)"
    using ms(2) by (simp add: list_emb_append2 subseq_rev_drop_many)
  finally show ?thesis using ls by blast
qed



end
