(* ===== verification/Decompile.thy ===== *)
theory Decompile
  imports Lifter_Arm_Correct Ssa_Rename Emitter_Correct
begin

text \<open>
  The decompiler's driver (\<open>src/src/hyperion/core/decompiler/decompiler.cpp\<close>): the guards of
  \<open>Decompiler::decompile\<close>, the choice of the lifter and the chain lift, SSA, dead-code elimination,
  propagation, type inference, structuring, printing; and what the chain keeps of the lifted
  function.
\<close>

section \<open>The driver\<close>

text \<open>
  What the decompiler uses and is not in the repository: the constants of Zydis and Capstone, and
  the order in which the hash map of variables is enumerated.
\<close>

record externals =
  ex_zydis :: zydis
  ex_capstone :: capstone
  ex_order :: "int list \<Rightarrow> int list"

definition insns_of :: "func \<Rightarrow> insn list" where
  "insns_of f = concat (map (\<lambda>(a, bb). bb_insns bb) (fn_blocks f))"

text \<open>A function of more than 5000 blocks: the names it calls, each once, at its first call.\<close>

fun call_lines :: "analysis_db \<Rightarrow> string list \<Rightarrow> insn list \<Rightarrow> pseudo_line list" where
  "call_lines db calls_seen [] = []"
| "call_lines db calls_seen (i # is) =
     (if in_type i \<noteq> ICall \<or> branch_target i = 0 \<or> call_name db i \<in> set calls_seen
      then call_lines db calls_seen is
      else line 1 (call_name db i @ ''();'') (in_addr i) # call_lines db (call_name db i # calls_seen) is)"

definition too_complex :: "analysis_db \<Rightarrow> func \<Rightarrow> pseudo_line list" where
  "too_complex db f =
     line 0 (''// function too complex ('' @ dec_str (length (fn_blocks f)) @ '' blocks)'') (fn_entry f) #
     line 0 (''void '' @ fn_name f @ ''() {'') (fn_entry f) #
     call_lines db [] (insns_of f) @ [line 1 ''// ...'' 0, line 0 ''}'' 0]"

definition unsupported :: "func \<Rightarrow> pseudo_line list" where
  "unsupported f =
     line 0 ''// architecture not supported in decompiler yet'' (fn_entry f) #
     line 0 (''void '' @ fn_name f @ ''() {'') (fn_entry f) #
     map (\<lambda>i. line 1 (''__asm { '' @ in_mnemonic i @ '' '' @ in_op_str i @ '' }'') (in_addr i)) (insns_of f) @
     [line 0 ''}'' 0]"

definition lift_for :: "externals \<Rightarrow> analysis_db \<Rightarrow> func \<Rightarrow> pcode_func option" where
  "lift_for ex db f =
     (case db_arch db of
        ARM64 \<Rightarrow> Some (lift_arm64 (ex_capstone ex) db f)
      | ARM \<Rightarrow> Some (lift_arm (ex_capstone ex) db f)
      | X64 \<Rightarrow> Some (lift_func (ex_zydis ex) db f)
      | X86 \<Rightarrow> Some (lift_func (ex_zydis ex) db f)
      | _ \<Rightarrow> None)"

definition optimise :: "(int list \<Rightarrow> int list) \<Rightarrow> pcode_func \<Rightarrow> pcode_func option" where
  "optimise ord pf = map_option (\<lambda>g. propagate_run (dce_run g)) (ssa_build ord pf)"

text \<open>
  What a decompiler keeps from one call to the next: its \<open>TypeInfer\<close> and the signature cache of the
  thread.  \<open>self\<close> is the address of the database, part of the cache's key; \<open>rtti\<close> the class names of
  the RTTI parser.  \<open>None\<close> is a call that does not return.
\<close>

record decompiler =
  dc_cache :: "sig_map option"
  dc_ti :: type_infer

definition print_optimised ::
  "nat \<Rightarrow> analysis_db \<Rightarrow> func \<Rightarrow> string list option \<Rightarrow> pcode_func \<Rightarrow> decompiler \<Rightarrow> (pseudo_line list \<times> decompiler) option" where
  "print_optimised self db f rtti pf d =
     (let (cache, ti0) = seed_from_db self db (fn_entry f) (dc_cache d) (dc_ti d);
          ti = ti_run pf ti0
      in map_option (\<lambda>ls. (ls, \<lparr>dc_cache = cache, dc_ti = ti\<rparr>))
           (emit_func (structure_func pf) (Some ti) (Some db) rtti))"

definition decompile ::
  "externals \<Rightarrow> nat \<Rightarrow> analysis_db \<Rightarrow> func \<Rightarrow> string list option \<Rightarrow> decompiler \<Rightarrow> (pseudo_line list \<times> decompiler) option" where
  "decompile ex self db f rtti d =
     (if fn_blocks f = [] then Some ([line 0 ''// empty function'' (fn_entry f)], d)
      else if 5000 < length (fn_blocks f) then Some (too_complex db f, d)
      else (case lift_for ex db f of
          None \<Rightarrow> Some (unsupported f, d)
        | Some pf0 \<Rightarrow> (case optimise (ex_order ex) pf0 of
              None \<Rightarrow> None
            | Some pf \<Rightarrow> print_optimised self db f rtti pf d)))"

section \<open>SSA construction keeps the operations\<close>

text \<open>What renaming leaves alone of an operation.\<close>

definition shape :: "pcode_insn \<Rightarrow> pcode_op \<times> va_t \<times> int \<times> varnode_kind \<times> int" where
  "shape i = (pi_op i, pi_addr i, pi_seq i, vn_kind (pi_output i), vn_id (pi_output i))"

definition shapes :: "pcode_block list \<Rightarrow> (pcode_op \<times> va_t \<times> int \<times> varnode_kind \<times> int) list list" where
  "shapes bs = map (\<lambda>b. map shape (pb_ops b)) bs"

lemma shape_rename_op: "rename_op i c = (i', c') \<Longrightarrow> shape i' = shape i"
  by (auto simp: rename_op_def shape_def Let_def split: prod.splits if_splits)

lemma shapes_rename_ops: "rename_ops ops c = (ops', c') \<Longrightarrow> map shape ops' = map shape ops"
  by (induction ops arbitrary: c ops' c') (auto split: prod.splits dest: shape_rename_op)

lemma shapes_rename_phis: "rename_phis st p ops sv = (ops', sv') \<Longrightarrow> map shape ops' = map shape ops"
  by (induction st p ops sv arbitrary: ops' sv' rule: rename_phis.induct)
     (auto simp: shape_def split: prod.splits if_splits)

lemma shapes_update:
  assumes "nat b < length bs" "map shape ops = map shape (pb_ops (bs ! nat b))"
  shows "shapes (bs[nat b := (bs ! nat b)\<lparr>pb_ops := ops\<rparr>]) = shapes bs"
  unfolding shapes_def by (rule nth_equalityI) (use assms in \<open>auto simp: nth_list_update\<close>)

lemma shapes_rename_own:
  assumes "in_range (rn_blocks r) b" "rename_own b r = (r1, pushed)"
  shows "shapes (rn_blocks r1) = shapes (rn_blocks r)"
  using assms by (auto simp: rename_own_def in_range_int_length split: prod.splits
      intro!: shapes_update shapes_rename_ops)

lemma shapes_rename_succ: "shapes (rn_blocks (rename_succ b s r)) = shapes (rn_blocks r)"
  by (auto simp: rename_succ_def in_range_int_length split: option.splits prod.splits
      intro!: shapes_update shapes_rename_phis)

lemma shapes_length: "shapes bs = shapes bs' \<Longrightarrow> length bs = length bs'"
  unfolding shapes_def by (metis length_map)

lemma shapes_nth:
  assumes "shapes bs = shapes bs'" "k < length bs'"
  shows "map shape (pb_ops (bs ! k)) = map shape (pb_ops (bs' ! k))"
proof -
  have "shapes bs ! k = shapes bs' ! k" using assms(1) by simp
  with assms(2) shapes_length [OF assms(1)] show ?thesis by (simp add: shapes_def)
qed

lemma shapes_rename_block: "shapes (rn_blocks (rename_block d ch b r)) = shapes (rn_blocks r)"
proof (induction d arbitrary: b r)
  case 0
  show ?case by simp
next
  case (Suc d)
  show ?case
  proof (cases "in_range (rn_blocks r) b")
    case False
    then show ?thesis by simp
  next
    case True
    obtain r1 pushed where r1: "rename_own b r = (r1, pushed)" by (metis surj_pair)
    have succs: "shapes (rn_blocks (fold (rename_succ b) ss r1)) = shapes (rn_blocks r1)" for ss
      by (rule fold_invariant_rule) (simp_all add: shapes_rename_succ)
    have kids: "shapes (rn_blocks (fold (rename_block d ch) cs r2)) = shapes (rn_blocks r2)" for cs r2
      by (rule fold_invariant_rule) (simp_all add: Suc.IH)
    show ?thesis
      using True r1 shapes_rename_own [OF True r1] by (simp add: Let_def succs kids)
  qed
qed

text \<open>Phi insertion puts copies in front.\<close>

definition phis_added :: "pcode_block \<Rightarrow> pcode_block \<Rightarrow> bool" where
  "phis_added b b' \<longleftrightarrow> (\<exists>phis. pb_ops b' = phis @ pb_ops b \<and> (\<forall>i \<in> set phis. pi_op i = COPY))"

lemma phis_added_refl: "phis_added b b"
  by (simp add: phis_added_def)

lemma phis_added_push:
  "list_all2 phis_added bs bs' \<Longrightarrow> list_all2 phis_added bs (push_phi sv v x bs')"
proof -
  assume a: "list_all2 phis_added bs bs'"
  have "phis_added (bs ! i) (push_phi sv v x bs' ! i)" if "i < length bs'" for i
  proof -
    have "phis_added (bs ! i) (bs' ! i)" using a that by (simp add: list_all2_conv_all_nth)
    then obtain phis where p: "pb_ops (bs' ! i) = phis @ pb_ops (bs ! i)" "\<forall>j \<in> set phis. pi_op j = COPY"
      unfolding phis_added_def by blast
    show ?thesis
    proof (cases "i = nat x")
      case True
      then show ?thesis
        using p that unfolding phis_added_def push_phi_def
        by (intro exI [of _ "make_phi sv v (length (pb_preds (bs' ! nat x))) # phis"]) (simp add: make_phi_def)
    next
      case False
      then show ?thesis using p by (auto simp: phis_added_def push_phi_def)
    qed
  qed
  then show ?thesis using a by (simp add: list_all2_conv_all_nth push_phi_def)
qed

lemma phis_added_insert:
  assumes "insert_phis ord df bs = (bs', vars, sv)"
  shows "list_all2 phis_added bs bs'"
proof -
  obtain defs sv0 where c: "collect_defs bs = (defs, sv0)" by (metis surj_pair)
  have one: "list_all2 phis_added bs (fold (push_phi sv0 v) xs blks)"
    if "list_all2 phis_added bs blks" for v xs blks
    using that by (rule fold_invariant_rule) (rule phis_added_push)
  have "list_all2 phis_added bs (fold (\<lambda>v bs'. fold (push_phi sv0 v) (g v) bs') vs bs)" for g vs
    by (rule fold_invariant_rule) (simp_all add: one list_all2_refl phis_added_refl)
  with assms c show ?thesis by (auto simp: insert_phis_def)
qed

lemma ssa_build_shapes:
  assumes "ssa_build ord f = Some g"
  shows "\<exists>bs'. list_all2 phis_added (pf_blocks f) bs' \<and> shapes (pf_blocks g) = shapes bs'"
proof (cases "pf_blocks f = []")
  case True
  then show ?thesis using assms by (simp add: ssa_build_def)
next
  case False
  then obtain idom where idom: "compute_idom f = Some idom"
    using assms by (auto simp: ssa_build_def Let_def split: Option.bind_splits)
  obtain bs' vars sv where ins:
      "insert_phis ord (compute_dom_frontiers (pf_blocks f) idom) (pf_blocks f) = (bs', vars, sv)"
    by (metis surj_pair)
  have "shapes (pf_blocks g) = shapes bs'"
    using assms idom ins False
    by (auto simp: ssa_build_def Let_def shapes_rename_block simp del: rename_block.simps)
  with phis_added_insert [OF ins] show ?thesis by blast
qed

text \<open>A property of operations that only looks at the shape, and holds for copies.\<close>

lemma ssa_build_all_ops:
  assumes b: "ssa_build ord f = Some g" and P: "\<forall>i \<in> set (all_ops f). P i"
    and shape: "\<And>i j. shape i = shape j \<Longrightarrow> P i = P j" and copy: "\<And>i. pi_op i = COPY \<Longrightarrow> P i"
  shows "\<forall>i \<in> set (all_ops g). P i"
proof -
  obtain bs' where bs': "list_all2 phis_added (pf_blocks f) bs'" "shapes (pf_blocks g) = shapes bs'"
    using ssa_build_shapes [OF b] by blast
  have ok: "P i" if "k < length bs'" "i \<in> set (pb_ops (bs' ! k))" for k i
  proof -
    have k: "phis_added (pf_blocks f ! k) (bs' ! k)" "k < length (pf_blocks f)"
      using bs'(1) that(1) by (auto simp: list_all2_conv_all_nth)
    from k(1) that(2) have "pi_op i = COPY \<or> i \<in> set (pb_ops (pf_blocks f ! k))"
      unfolding phis_added_def by auto
    moreover have "i \<in> set (all_ops f)" if "i \<in> set (pb_ops (pf_blocks f ! k))"
      using that k(2) unfolding in_all_ops by (intro bexI [of _ "pf_blocks f ! k"]) simp_all
    ultimately show ?thesis using P copy by blast
  qed
  have "P i" if ki: "k < length (pf_blocks g)" "i \<in> set (pb_ops (pf_blocks g ! k))" for k i
  proof -
    have k: "k < length bs'" using ki(1) shapes_length [OF bs'(2)] by simp
    have "shape i \<in> set (map shape (pb_ops (pf_blocks g ! k)))" using ki(2) by simp
    then have "shape i \<in> set (map shape (pb_ops (bs' ! k)))" by (simp only: shapes_nth [OF bs'(2) k])
    then obtain j where j: "j \<in> set (pb_ops (bs' ! k))" "shape i = shape j" by auto
    show ?thesis using ok [OF k j(1)] shape [OF j(2)] by simp
  qed
  then have ops: "P i" if "b \<in> set (pf_blocks g)" "i \<in> set (pb_ops b)" for b i
    using that by (auto simp: in_set_conv_nth [of b])
  show ?thesis
  proof (rule ballI)
    fix i assume "i \<in> set (all_ops g)"
    then show "P i" using ops by (auto simp: in_all_ops)
  qed
qed

lemma op_sig_shape: "map shape xs = map shape ys \<Longrightarrow> op_sig xs = op_sig ys"
proof -
  have "op_sig zs = map (\<lambda>s. (fst s, fst (snd s))) (filter (\<lambda>s. effectful (fst s)) (map shape zs))" for zs
    by (induction zs) (simp_all add: op_sig_def shape_def)
  then show "map shape xs = map shape ys \<Longrightarrow> op_sig xs = op_sig ys" by simp
qed

lemma effect_sig_ssa_build:
  assumes "ssa_build ord f = Some g"
  shows "effect_sig g = effect_sig f"
proof -
  obtain bs' where bs': "list_all2 phis_added (pf_blocks f) bs'" "shapes (pf_blocks g) = shapes bs'"
    using ssa_build_shapes [OF assms] by blast
  have len: "length (pf_blocks g) = length bs'" "length bs' = length (pf_blocks f)"
    using shapes_length [OF bs'(2)] bs'(1) by (auto simp: list_all2_conv_all_nth)
  have "op_sig (pb_ops (pf_blocks g ! k)) = op_sig (pb_ops (pf_blocks f ! k))" if "k < length bs'" for k
  proof -
    have "map shape (pb_ops (pf_blocks g ! k)) = map shape (pb_ops (bs' ! k))"
      by (rule shapes_nth [OF bs'(2) that])
    then have "op_sig (pb_ops (pf_blocks g ! k)) = op_sig (pb_ops (bs' ! k))" by (rule op_sig_shape)
    moreover have "phis_added (pf_blocks f ! k) (bs' ! k)"
      using bs'(1) that len by (simp add: list_all2_conv_all_nth)
    then obtain phis where "pb_ops (bs' ! k) = phis @ pb_ops (pf_blocks f ! k)" "\<forall>i \<in> set phis. pi_op i = COPY"
      unfolding phis_added_def by blast
    moreover from this(2) have "filter (\<lambda>i. effectful (pi_op i)) phis = []"
      by (auto simp: filter_empty_conv)
    ultimately show ?thesis by (simp add: op_sig_def)
  qed
  with len show ?thesis unfolding effect_sig_def by (intro nth_equalityI) simp_all
qed

section \<open>The chain\<close>

text \<open>Dead-code elimination only turns operations into no-ops and drops them.\<close>

definition ops_within :: "pcode_func \<Rightarrow> pcode_func \<Rightarrow> bool" where
  "ops_within f g \<longleftrightarrow> (\<forall>j \<in> set (all_ops g). \<exists>i \<in> set (all_ops f). j = i \<or> j = set_nop i)"

lemma set_nop_idem [simp]: "set_nop (set_nop i) = set_nop i"
  by (simp add: set_nop_def)

lemma ops_within_trans: "ops_within f g \<Longrightarrow> ops_within g h \<Longrightarrow> ops_within f h"
  unfolding ops_within_def by (metis set_nop_idem)

lemma ops_within_sweep: "ops_within f (sweep dead f)"
  by (auto simp: ops_within_def sweep_def all_ops_on_ops_map kill_def)

lemma ops_within_dce: "ops_within f (dce_run f)"
proof -
  have r: "ops_within h (repeat_while_changed 6 dce_pass2 h)" for h
    by (rule repeat_while_changed_rel)
       (auto simp: dce_pass2_sweep sweep_step_def ops_within_sweep intro: ops_within_trans,
        auto simp: ops_within_def)
  have "ops_within f (dce_pass1 f)" by (simp add: dce_pass1_sweep ops_within_sweep)
  moreover have "ops_within h (erase_nops h)" for h
    by (auto simp: ops_within_def all_ops_erase_nops)
  ultimately show ?thesis
    unfolding dce_run_def using r ops_within_trans by blast
qed

lemma dce_keeps_scratch_ok:
  assumes "\<forall>i \<in> set (all_ops f). scratch_ok i"
  shows "\<forall>i \<in> set (all_ops (dce_run f)). scratch_ok i"
  using assms ops_within_dce [of f] by (fastforce simp: ops_within_def)

lemma optimise_effect_sig:
  assumes "pass_ready pf" "optimise ord pf = Some g"
  shows "effect_sig g = effect_sig pf"
proof -
  obtain h where h: "ssa_build ord pf = Some h" and g: "g = propagate_run (dce_run h)"
    using assms(2) by (auto simp: optimise_def)
  have st: "\<forall>i \<in> set (all_ops h). store_ok i"
    by (rule ssa_build_all_ops [OF h])
       (use assms(1) in \<open>auto simp: pass_ready_def store_ok_def shape_def\<close>)
  have sc: "\<forall>i \<in> set (all_ops h). scratch_ok i"
    by (rule ssa_build_all_ops [OF h])
       (use assms(1) in \<open>auto simp: pass_ready_def scratch_ok_def shape_def is_reg_def\<close>)
  have "effect_sig g = effect_sig (dce_run h)"
    unfolding g by (rule effect_sig_propagate_run [OF dce_keeps_scratch_ok [OF sc]])
  also have "\<dots> = effect_sig h"
    using dce_run_safe [OF st] by (intro effect_sig_effects) (simp add: safe_rewrite_def)
  also have "\<dots> = effect_sig pf" by (rule effect_sig_ssa_build [OF h])
  finally show ?thesis .
qed

lemma lift_for_ready:
  assumes "lift_for ex db f = Some pf"
  shows "pass_ready pf" "length (pf_blocks pf) = length (fn_blocks f)"
  using assms lift_func_ready lift_arm_ready lift_arm64_ready
  by (auto simp: lift_for_def split: arch.splits)


text \<open>
  C15.  End to end, the optimised function has the effects of the machine code: on every supported
  architecture, when the chain lift, SSA, dead-code elimination, propagation returns, it returns the
  same blocks with, block by block, the same stores, calls, intrinsics, returns and branches at the
  same instruction addresses in the same order as the lifter emitted them.
\<close>

theorem optimise_keeps_effects:
  assumes "lift_for ex db f = Some pf" "optimise (ex_order ex) pf = Some g"
  shows "map (\<lambda>b. map (\<lambda>i. (pi_op i, pi_addr i)) (filter (\<lambda>i. effectful (pi_op i)) (pb_ops b))) (pf_blocks g) =
    map (\<lambda>b. map (\<lambda>i. (pi_op i, pi_addr i)) (filter (\<lambda>i. effectful (pi_op i)) (pb_ops b))) (pf_blocks pf)"
  using optimise_effect_sig [OF lift_for_ready(1) [OF assms(1)] assms(2)]
  by (simp add: effect_sig_def op_sig_def)

section \<open>The decompiler returns\<close>

lemma optimise_total:
  assumes "pass_ready pf"
  shows "\<exists>g. optimise ord pf = Some g"
proof (cases "pf_blocks pf = []")
  case True
  then show ?thesis by (simp add: optimise_def ssa_build_def Let_def)
next
  case False
  have "preds_complete (pf_blocks pf)" using assms by (simp add: pass_ready_def)
  from compute_idom_total [OF False this] obtain idom where "compute_idom pf = Some idom" by metis
  then show ?thesis
    by (auto simp: optimise_def ssa_build_def Let_def simp del: rename_block.simps split: prod.splits)
qed


text \<open>
  A function of two blocks: \<open>push 5; call g; jz 0x20\<close> and \<open>ret\<close>.
\<close>

definition imm_operand :: "u64 \<Rightarrow> operand" where
  "imm_operand v = empty_operand\<lparr>o_val := v, o_size := 64, o_type := OImm\<rparr>"

definition insn_of :: "va_t \<Rightarrow> insn_type \<Rightarrow> operand list \<Rightarrow> insn" where
  "insn_of a t ops = empty_insn\<lparr>in_addr := a, in_ops := ops, in_mnemonic := ''jz'', in_type := t,
     in_op_count := length ops\<rparr>"

definition func_example :: func where
  "func_example = (new_func 16 ''f'')\<lparr>fn_blocks :=
     [(32, (empty_block 32)\<lparr>bb_insns := [insn_of 32 IRet []]\<rparr>),
      (16, (empty_block 16)\<lparr>bb_insns :=
         [insn_of 16 IPush [imm_operand 5], insn_of 20 ICall [imm_operand 64],
          insn_of 28 IJcc [imm_operand 32]],
         bb_succs := [32]\<rparr>)]\<rparr>"

definition named_db :: analysis_db where
  "named_db = (db_over no_types X64 0)\<lparr>db_names := (\<lambda>_. Some ''g'')\<rparr>"

definition sig_of :: "pcode_func \<Rightarrow> (pcode_op \<times> va_t) list list" where
  "sig_of f = map (\<lambda>b. map (\<lambda>i. (pi_op i, pi_addr i)) (filter (\<lambda>i. effectful (pi_op i)) (pb_ops b))) (pf_blocks f)"

definition tiny_ex :: externals where
  "tiny_ex = \<lparr>ex_zydis = tiny_zydis, ex_capstone = \<lparr>cs_arm = (\<lambda>_. 0), cs_arm64 = (\<lambda>_. 0)\<rparr>, ex_order = (\<lambda>ks. ks)\<rparr>"

lemma tiny_ex_order: "ex_order tiny_ex = (\<lambda>ks. ks)"
  by (simp add: tiny_ex_def)

lemma tiny_lift: "lift_for tiny_ex tiny_db tiny_func = Some (lift_func tiny_zydis tiny_db tiny_func)"
  by (simp add: lift_for_def tiny_ex_def tiny_db_def)


lemma example_for: "lift_for tiny_ex named_db func_example = Some (lift_func tiny_zydis named_db func_example)"
  by (simp add: lift_for_def tiny_ex_def named_db_def)

lemma example_lift: "sig_of (lift_func tiny_zydis named_db func_example) =
    [[(STORE, 16), (CALL, 20), (CBRANCH, 28)], [(RETURN, 32)]]"
  by code_simp

theorem optimise_keeps_effects_witness:
  "\<exists>pf g. lift_for tiny_ex named_db func_example = Some pf \<and> optimise (\<lambda>ks. ks) pf = Some g \<and>
     sig_of g = [[(STORE, 16), (CALL, 20), (CBRANCH, 28)], [(RETURN, 32)]]"
proof -
  obtain g where g: "optimise (ex_order tiny_ex) (lift_func tiny_zydis named_db func_example) = Some g"
    using optimise_total [OF lift_func_ready(1)] by blast
  from optimise_keeps_effects [OF example_for g] have "sig_of g = sig_of (lift_func tiny_zydis named_db func_example)"
    by (simp add: sig_of_def)
  with g example_for example_lift show ?thesis by (auto simp: tiny_ex_order)
qed

end
