(* ===== verification/Width_Loss.thy ===== *)
theory Width_Loss
  imports Decompile
begin

text \<open>
  A run of the whole decompiler on the three instructions \<open>mov ecx, 5; mov [rdx], ecx; ret\<close>, step by
  step: the lifter writes ecx and then rcx, \<open>SSABuilder\<close> versions registers by their number alone
  (\<open>var_key\<close>), so the read of ecx gets the version of the write of rcx, while the use counts of
  \<open>def_use.h\<close> tell the two widths apart.
\<close>

section \<open>The function\<close>

definition narrow_zydis :: zydis where
  "narrow_zydis = \<lparr>zy_reg = (\<lambda>nm. if nm = ''ecx'' then 1 else if nm = ''rdx'' then 2 else 0),
     zy_mnem = (\<lambda>_. 0), zy_text = (\<lambda>_ _. ''?'')\<rparr>"

definition ecx_operand :: operand where
  "ecx_operand = empty_operand\<lparr>o_reg := 1, o_size := 32, o_type := OReg\<rparr>"

definition rdx_memory :: operand where
  "rdx_memory = empty_operand\<lparr>o_base := 2, o_size := 32, o_type := OMem\<rparr>"

definition narrow_func :: func where
  "narrow_func = (new_func 16 ''f'')\<lparr>fn_blocks :=
     [(16, (empty_block 16)\<lparr>bb_insns :=
         [insn_of 16 IMov [ecx_operand, imm_operand 5], insn_of 20 IMov [rdx_memory, ecx_operand],
          insn_of 24 IRet []]\<rparr>)]\<rparr>"

definition narrow_ex :: externals where
  "narrow_ex = tiny_ex\<lparr>ex_zydis := narrow_zydis\<rparr>"

text \<open>A decompiler that has not run yet.\<close>

definition fresh_decompiler :: decompiler where
  "fresh_decompiler = \<lparr>dc_cache = None, dc_ti = \<lparr>ti_types = Map.empty, ti_names = Map.empty, ti_sigs = None,
     ti_entry = 0, ti_ret = make_void\<rparr>\<rparr>"

section \<open>The steps\<close>

text \<open>Its operations with the versions of ecx, the temporary and rcx.\<close>

definition ecx :: "u64 \<Rightarrow> varnode" where
  "ecx ver = (vn_reg 1 ''ecx'' 4)\<lparr>vn_offset := ver\<rparr>"

definition narrow_code :: "u64 \<Rightarrow> u64 \<Rightarrow> u64 \<Rightarrow> pcode_insn list" where
  "narrow_code v1 v2 v3 =
    [\<lparr>pi_op = COPY, pi_output = ecx v1, pi_inputs = [vn_const 5 8], pi_addr = 16, pi_seq = 0\<rparr>,
     \<lparr>pi_op = INT_ZEXT, pi_output = (vn_temp 256 8)\<lparr>vn_offset := v2\<rparr>, pi_inputs = [vn_const 5 8], pi_addr = 16, pi_seq = 1\<rparr>,
     \<lparr>pi_op = COPY, pi_output = (vn_reg 1 ''rcx'' 8)\<lparr>vn_offset := v3\<rparr>,
       pi_inputs = [(vn_temp 256 8)\<lparr>vn_offset := v2\<rparr>], pi_addr = 16, pi_seq = 2\<rparr>]"

definition narrow_tail :: "u64 \<Rightarrow> pcode_insn list" where
  "narrow_tail v3 =
    [\<lparr>pi_op = STORE, pi_output = default_vn, pi_inputs = [vn_reg 2 ''rdx'' 8, ecx v3], pi_addr = 20, pi_seq = 0\<rparr>,
     \<lparr>pi_op = RETURN, pi_output = default_vn, pi_inputs = [vn_reg 0 ''rax'' 8], pi_addr = 24, pi_seq = 0\<rparr>]"

definition narrow_pf :: "pcode_insn list \<Rightarrow> int \<Rightarrow> pcode_func" where
  "narrow_pf ops n = \<lparr>pf_entry = 16, pf_name = ''f'', pf_blocks =
     [\<lparr>pb_id = 0, pb_addr = 16, pb_ops = ops, pb_succs = [], pb_preds = [], pb_has_return = True\<rparr>],
     pf_next_temp = 257, pf_next_ssa = n,
     pf_params = [vn_reg 1 ''rcx'' 8, vn_reg 2 ''rdx'' 8, vn_reg 8 ''r8'' 8, vn_reg 9 ''r9'' 8], pf_locals = []\<rparr>"

lemma narrow_lift: "lift_func narrow_zydis named_db narrow_func = narrow_pf (narrow_code 0 0 0 @ narrow_tail 0) 0"
  by code_simp

lemma narrow_ssa: "ssa_build (\<lambda>ks. ks) (narrow_pf (narrow_code 0 0 0 @ narrow_tail 0) 0) =
    Some (narrow_pf (narrow_code 1 2 3 @ narrow_tail 3) 3)"
  by code_simp

lemma narrow_dce: "dce_run (narrow_pf (narrow_code 1 2 3 @ narrow_tail 3) 3) = narrow_pf (narrow_tail 3) 3"
  by code_simp

lemma narrow_propagate: "propagate_run (narrow_pf (narrow_tail 3) 3) = narrow_pf (narrow_tail 3) 3"
  by code_simp

lemma narrow_print: "map_option (\<lambda>(ls, d). map pl_text ls)
    (print_optimised 0 named_db narrow_func None (narrow_pf (narrow_tail 3) 3) fresh_decompiler) =
  Some [''int64_t f(int64_t rcx, int64_t rdx) {'', ''loc_10:'', ''*(rdx) = ecx;'', ''return rax;'', ''}'']"
  by code_simp


end
