(* ===== verification/Lifter_Flags.thy ===== *)
theory Lifter_Flags
  imports Lifter Propagate_Correct
begin

text \<open>
  What the conditional jumps of x86 decide: the p-code the lifter emits for a comparison and a
  condition (\<open>emit_flags\<close> and \<open>emit_condition\<close> of \<open>lifter.cpp\<close>), executed on 64-bit values, yields
  the comparison of the operands that the mnemonic stands for, the overflow flag included.
\<close>

section \<open>The machine\<close>

text \<open>The operations the lifter uses for flags and conditions, on 64-bit values.\<close>

definition flag_alu :: alu_fn where
  "flag_alu opc sz vs h = (case (opc, vs) of
     (BOOL_NOT, [v]) \<Rightarrow> of_bool (v = 0)
   | (BOOL_OR, [v, w]) \<Rightarrow> of_bool (v \<noteq> 0 \<or> w \<noteq> 0)
   | (INT_NEQUAL, [v, w]) \<Rightarrow> of_bool (v \<noteq> w)
   | _ \<Rightarrow> alu64 opc sz vs h)"

text \<open>The result and the operations a lifting step emits.\<close>

definition emitted :: "'a lift \<Rightarrow> lifter \<Rightarrow> 'a \<times> pcode_insn list" where
  "emitted m s = (case run_state m (s\<lparr>lf_ops := []\<rparr>) of (v, s') \<Rightarrow> (v, lf_ops s'))"

text \<open>The operand is not a flag and not a temporary still to be allocated.\<close>

definition settled :: "lifter \<Rightarrow> varnode \<Rightarrow> bool" where
  "settled s v \<longleftrightarrow> (vn_kind v = VReg \<longrightarrow> vn_id v < 100) \<and> (vn_kind v = VTemp \<longrightarrow> vn_id v < lf_next_temp s)"

section \<open>Two's complement\<close>

lemma mod_2p64:
  fixes x :: int
  assumes "- (2 ^ 64) \<le> x" "x < 2 ^ 65"
  shows "x mod 2 ^ 64 = (if x < 0 then x + 2 ^ 64 else if 2 ^ 64 \<le> x then x - 2 ^ 64 else x)"
proof -
  consider "x < 0" | "0 \<le> x" "x < 2 ^ 64" | "2 ^ 64 \<le> x" by linarith
  then show ?thesis
  proof cases
    case 1
    have "(x + 2 ^ 64) mod 2 ^ 64 = x + 2 ^ 64" by (rule mod_pos_pos_trivial) (use 1 assms in simp_all)
    with 1 show ?thesis by (simp only: mod_add_self2 if_True)
  next
    case 2
    then show ?thesis by (simp add: mod_pos_pos_trivial)
  next
    case 3
    have "(x - 2 ^ 64) mod 2 ^ 64 = x - 2 ^ 64" by (rule mod_pos_pos_trivial) (use 3 assms in simp_all)
    moreover have "(x - 2 ^ 64) mod 2 ^ 64 = x mod 2 ^ 64" by (rule minus_mod_self2)
    ultimately show ?thesis using 3 by simp
  qed
qed

lemma sint_diff_cases:
  fixes a b :: u64
  shows "sint (a - b) = (let x = sint a - sint b in
     if x < - (2 ^ 63) then x + 2 ^ 64 else if 2 ^ 63 \<le> x then x - 2 ^ 64 else x)"
proof -
  let ?x = "sint a - sint b"
  have r: "- (2 ^ 64) < ?x" "?x < 2 ^ 64"
    using sint_range64 [of a] sint_range64 [of b] by auto
  have e: "word_of_int ?x = a - b" by simp
  have "sint (a - b) = (?x + 2 ^ 63) mod 2 ^ 64 - 2 ^ 63"
    using int_word_sint [of ?x, where 'a = 64] unfolding e by simp
  moreover have "(?x + 2 ^ 63) mod 2 ^ 64 = (if ?x < - (2 ^ 63) then ?x + 2 ^ 63 + 2 ^ 64
      else if 2 ^ 63 \<le> ?x then ?x + 2 ^ 63 - 2 ^ 64 else ?x + 2 ^ 63)"
    using r by (subst mod_2p64) auto
  ultimately show ?thesis by (simp add: Let_def)
qed

lemma neg_bit: "sint (x :: u64) < 0 \<longleftrightarrow> bit x 63"
  using bit_last_iff [of x] by simp

text \<open>The formula of \<open>emit_flags\<close> for the overflow of a subtraction, and what sign and overflow decide.\<close>

lemma overflow_formula:
  fixes a b :: u64
  shows "sint ((a XOR b) AND (a XOR (a - b))) < 0 \<longleftrightarrow>
    sint a - sint b < - (2 ^ 63) \<or> 2 ^ 63 \<le> sint a - sint b"
proof -
  have "sint ((a XOR b) AND (a XOR (a - b))) < 0 \<longleftrightarrow>
      (sint a < 0) \<noteq> (sint b < 0) \<and> (sint a < 0) \<noteq> (sint (a - b) < 0)"
    unfolding neg_bit by (simp add: bit_simps)
  then show ?thesis
    using sint_range64 [of a] sint_range64 [of b] sint_diff_cases [of a b]
    by (auto simp: Let_def split: if_splits)
qed

lemma sign_not_overflow:
  fixes a b :: u64
  shows "(sint (a - b) < 0) \<noteq> (sint ((a XOR b) AND (a XOR (a - b))) < 0) \<longleftrightarrow> sint a < sint b"
  unfolding overflow_formula
  using sint_range64 [of a] sint_range64 [of b] sint_diff_cases [of a b]
  by (auto simp: Let_def split: if_splits)

section \<open>The comparison a condition stands for\<close>

text \<open>After \<open>cmp a, b\<close>.\<close>

fun cmp_meaning :: "cond_kind \<Rightarrow> u64 \<Rightarrow> u64 \<Rightarrow> bool" where
  "cmp_meaning CkZF a b \<longleftrightarrow> a = b"
| "cmp_meaning CkNZF a b \<longleftrightarrow> a \<noteq> b"
| "cmp_meaning CkCF a b \<longleftrightarrow> a < b"
| "cmp_meaning CkNCF a b \<longleftrightarrow> b \<le> a"
| "cmp_meaning CkLT a b \<longleftrightarrow> sint a < sint b"
| "cmp_meaning CkGE a b \<longleftrightarrow> sint b \<le> sint a"
| "cmp_meaning CkLE a b \<longleftrightarrow> sint a \<le> sint b"
| "cmp_meaning CkGT a b \<longleftrightarrow> sint b < sint a"
| "cmp_meaning CkBE a b \<longleftrightarrow> a \<le> b"
| "cmp_meaning CkA a b \<longleftrightarrow> b < a"
| "cmp_meaning CkSF a b \<longleftrightarrow> sint (a - b) < 0"
| "cmp_meaning CkNSF a b \<longleftrightarrow> 0 \<le> sint (a - b)"
| "cmp_meaning CkOF a b \<longleftrightarrow> sint a - sint b < - (2 ^ 63) \<or> 2 ^ 63 \<le> sint a - sint b"
| "cmp_meaning CkNOF a b \<longleftrightarrow> - (2 ^ 63) \<le> sint a - sint b \<and> sint a - sint b < 2 ^ 63"
| "cmp_meaning CkUnknown a b \<longleftrightarrow> a \<noteq> b"

text \<open>After \<open>test a, b\<close>: the carry and overflow flags are clear.\<close>

fun test_meaning :: "cond_kind \<Rightarrow> u64 \<Rightarrow> bool" where
  "test_meaning CkZF r \<longleftrightarrow> r = 0"
| "test_meaning CkNZF r \<longleftrightarrow> r \<noteq> 0"
| "test_meaning CkCF r \<longleftrightarrow> False"
| "test_meaning CkNCF r \<longleftrightarrow> True"
| "test_meaning CkLT r \<longleftrightarrow> sint r < 0"
| "test_meaning CkGE r \<longleftrightarrow> 0 \<le> sint r"
| "test_meaning CkLE r \<longleftrightarrow> sint r \<le> 0"
| "test_meaning CkGT r \<longleftrightarrow> 0 < sint r"
| "test_meaning CkBE r \<longleftrightarrow> r = 0"
| "test_meaning CkA r \<longleftrightarrow> r \<noteq> 0"
| "test_meaning CkSF r \<longleftrightarrow> sint r < 0"
| "test_meaning CkNSF r \<longleftrightarrow> 0 \<le> sint r"
| "test_meaning CkOF r \<longleftrightarrow> False"
| "test_meaning CkNOF r \<longleftrightarrow> True"
| "test_meaning CkUnknown r \<longleftrightarrow> r \<noteq> 0"

section \<open>Execution\<close>

lemma run_lift [simp]:
  "run_state (m \<bind> g) s = (case run_state m s of (x, s') \<Rightarrow> run_state (g x) s')"
  "run_state (State_Monad.return x) s = (x, s)"
  "run_state (alloc_temp sz) s = (vn_temp (lf_next_temp s) sz, s\<lparr>lf_next_temp := lf_next_temp s + 1\<rparr>)"
  by (simp_all add: State_Monad.bind_def State_Monad.return_def alloc_temp_def)

text \<open>The value of each flag after the operations of \<open>emit_flags\<close>.\<close>

definition flag_value :: "venv \<Rightarrow> int \<Rightarrow> u64" where
  "flag_value env r = env (VReg, r, 0, 1)"

definition flags_set :: "bool \<Rightarrow> bool \<Rightarrow> bool \<Rightarrow> bool \<Rightarrow> venv \<Rightarrow> bool" where
  "flags_set zf cf sf ov env \<longleftrightarrow> flag_value env reg_zf = of_bool zf \<and> flag_value env reg_cf = of_bool cf \<and>
     flag_value env reg_sf = of_bool sf \<and> flag_value env reg_of = of_bool ov"

lemma operand_upd [simp]:
  "settled s v \<Longrightarrow> lf_next_temp s \<le> n \<Longrightarrow> Pcode_Sem.operand (env((VTemp, n, off, sz) := x)) v = Pcode_Sem.operand env v"
  "settled s v \<Longrightarrow> 100 \<le> r \<Longrightarrow> Pcode_Sem.operand (env((VReg, r, off, sz) := x)) v = Pcode_Sem.operand env v"
  by (auto simp: Pcode_Sem.operand_def settled_def key_of_def)

lemma operand_new [simp]:
  "Pcode_Sem.operand env (vn_temp n sz) = env (VTemp, n, 0, sz)"
  "Pcode_Sem.operand env (vn_reg r nm sz) = env (VReg, r, 0, sz)"
  "Pcode_Sem.operand env (vn_const c sz) = c"
  by (simp_all add: Pcode_Sem.operand_def key_of_def vn_temp_def vn_reg_def vn_const_def)

lemma key_new [simp]: "key_of (vn_temp n sz) = (VTemp, n, 0, sz)" "key_of (vn_reg r nm sz) = (VReg, r, 0, sz)"
  by (simp_all add: key_of_def vn_temp_def vn_reg_def)

lemma pick_Nil0 [simp]: "pick (x # xs) 0 = x"
  by (simp add: pick_def nth_opt_def)

lemma flag_alu_simps [simp]:
  "flag_alu BOOL_NOT sz [v] h = of_bool (v = 0)"
  "flag_alu BOOL_OR sz [v, w] h = of_bool (v \<noteq> 0 \<or> w \<noteq> 0)"
  "flag_alu INT_NEQUAL sz [v, w] h = of_bool (v \<noteq> w)"
  "flag_alu INT_EQUAL sz [v, w] h = of_bool (v = w)"
  "flag_alu INT_LESS sz [v, w] h = of_bool (v < w)"
  "flag_alu INT_SLESS sz [v, w] h = of_bool (sint v < sint w)"
  "flag_alu SUB sz [v, w] h = v - w"
  "flag_alu AND_OP sz [v, w] h = v AND w"
  "flag_alu XOR_OP sz [v, w] h = v XOR w"
  by (simp_all add: flag_alu_def alu64_def fold_value_def)

text \<open>One operation whose sequence number does not mark it as a phi.\<close>

lemma exec_plain:
  assumes "0 \<le> pi_seq i" "\<not> effectful (pi_op i)" "pi_op i \<noteq> NOP"
  shows "exec_insn alu p i (env, tr) =
    (env(key_of (pi_output i) := (if pi_op i = COPY then pick (map (Pcode_Sem.operand env) (pi_inputs i)) 0
       else alu (pi_op i) (vn_size (pi_output i)) (map (Pcode_Sem.operand env) (pi_inputs i)) tr)), tr)"
  using assms by (auto simp: exec_insn_def insn_value_def is_phi_def Let_def)

lemmas emit_simps = emit_temp_def emit_def emit_flags_def emit_condition_kind_def Let_def flag_vn_def

lemma exec_emit_flags:
  assumes "settled s lhs" "settled s rhs" "0 \<le> lf_seq s"
    and "run_state (emit_flags lhs rhs is_test) s = ((), s')"
  shows "\<exists>ops. lf_ops s' = lf_ops s @ ops \<and> 0 \<le> lf_seq s' \<and>
    (\<forall>env tr. (case exec_ops flag_alu p ops (env, tr) of (env', tr') \<Rightarrow> tr' = tr \<and>
       (let a = Pcode_Sem.operand env lhs; b = Pcode_Sem.operand env rhs; d = a - b in
        if is_test then flags_set (a AND b = 0) False (sint (a AND b) < 0) False env'
        else flags_set (d = 0) (a < b) (sint d < 0) (sint ((a XOR b) AND (a XOR d)) < 0) env')))"
proof (cases is_test)
  case True
  with assms show ?thesis
    by (auto simp: emit_simps exec_ops_def exec_plain effectful_def flags_set_def flag_value_def reg_ids)
next
  case False
  with assms show ?thesis
    by (auto simp: emit_simps exec_ops_def exec_plain effectful_def flags_set_def flag_value_def reg_ids)
qed

text \<open>The value a condition has when the flags are as given.\<close>

fun flags_decide :: "cond_kind \<Rightarrow> bool \<Rightarrow> bool \<Rightarrow> bool \<Rightarrow> bool \<Rightarrow> bool" where
  "flags_decide CkZF zf cf sf ov \<longleftrightarrow> zf"
| "flags_decide CkNZF zf cf sf ov \<longleftrightarrow> \<not> zf"
| "flags_decide CkCF zf cf sf ov \<longleftrightarrow> cf"
| "flags_decide CkNCF zf cf sf ov \<longleftrightarrow> \<not> cf"
| "flags_decide CkLT zf cf sf ov \<longleftrightarrow> sf \<noteq> ov"
| "flags_decide CkGE zf cf sf ov \<longleftrightarrow> sf = ov"
| "flags_decide CkLE zf cf sf ov \<longleftrightarrow> zf \<or> sf \<noteq> ov"
| "flags_decide CkGT zf cf sf ov \<longleftrightarrow> \<not> (zf \<or> sf \<noteq> ov)"
| "flags_decide CkBE zf cf sf ov \<longleftrightarrow> cf \<or> zf"
| "flags_decide CkA zf cf sf ov \<longleftrightarrow> \<not> (cf \<or> zf)"
| "flags_decide CkSF zf cf sf ov \<longleftrightarrow> sf"
| "flags_decide CkNSF zf cf sf ov \<longleftrightarrow> \<not> sf"
| "flags_decide CkOF zf cf sf ov \<longleftrightarrow> ov"
| "flags_decide CkNOF zf cf sf ov \<longleftrightarrow> \<not> ov"
| "flags_decide CkUnknown zf cf sf ov \<longleftrightarrow> \<not> zf"

lemma exec_emit_condition:
  assumes "0 \<le> lf_seq s" and "run_state (emit_condition_kind k) s = (c, s')"
  shows "\<exists>ops. lf_ops s' = lf_ops s @ ops \<and>
    (\<forall>env tr zf cf sf ov. flags_set zf cf sf ov env \<longrightarrow>
       (case exec_ops flag_alu p ops (env, tr) of (env', tr') \<Rightarrow> tr' = tr \<and>
          Pcode_Sem.operand env' c = of_bool (flags_decide k zf cf sf ov)))"
  using assms
  by (cases k) (auto simp: emit_simps exec_ops_def exec_plain effectful_def flags_set_def flag_value_def reg_ids)

lemma sint_eq: "sint (x :: u64) = sint y \<longleftrightarrow> x = y"
  using signed_word_eqI [of x y] by auto

lemma sint_eq_0: "sint (x :: u64) = 0 \<longleftrightarrow> x = 0"
  using sint_eq [of x 0] by simp

lemma flags_decide_cmp:
  "flags_decide k (a - b = 0) (a < b) (sint (a - b) < 0)
     (sint ((a XOR b) AND (a XOR (a - b))) < 0) \<longleftrightarrow> cmp_meaning k a (b :: u64)"
proof -
  let ?n = "sint (a - b) < 0" and ?v = "sint ((a XOR b) AND (a XOR (a - b))) < 0"
  have lt: "(?n \<noteq> ?v) = (sint a < sint b)" "(?n = ?v) = (sint b \<le> sint a)"
    using sign_not_overflow [of a b] by auto
  have le: "(a = b \<or> sint a < sint b) = (sint a \<le> sint b)" "(a = b \<or> ?n \<noteq> ?v) = (sint a \<le> sint b)"
    using sint_eq [of a b] lt(1) by auto
  have ov: "?v = (sint a - sint b < - (2 ^ 63) \<or> 2 ^ 63 \<le> sint a - sint b)"
    by (rule overflow_formula)
  show ?thesis
  proof (cases "k = CkOF \<or> k = CkNOF")
    case True
    with ov show ?thesis by auto
  next
    case False
    then show ?thesis
      by (cases k) (simp_all only: flags_decide.simps cmp_meaning.simps lt le right_minus_eq,
        use sint_eq [of a b] in \<open>auto simp: word_le_less_eq\<close>)
  qed
qed

lemma flags_decide_test:
  "flags_decide k (r = 0) False (sint r < 0) False \<longleftrightarrow> test_meaning k r"
  by (cases k) (use sint_eq_0 [of r] in auto)



end
