(* ===== verification/Bounded_Log.thy ===== *)
theory Bounded_Log
  imports Prelude
begin

text \<open>
  The contract of the bounded buffers of the program: a push keeps the newest \<open>cap\<close> elements, in
  order, and drops the oldest.  The output ring and the subscriber queues of the event bus, the
  action list of the deferred manager and the undo stack are its interpretations; the sources
  implement it in two ways (drop before the push, drop after it).
\<close>

locale bounded_log =
  fixes cap :: nat and push :: "'a \<Rightarrow> 'a list \<Rightarrow> 'a list"
  assumes cap_pos: "0 < cap"
    and push_newest: "length xs \<le> cap \<Longrightarrow> push x xs = last_n cap (xs @ [x])"
begin

lemma push_bounded: "length xs \<le> cap \<Longrightarrow> length (push x xs) \<le> cap"
  by (simp add: push_newest)

lemma push_last: "length xs \<le> cap \<Longrightarrow> push x xs \<noteq> [] \<and> last (push x xs) = x"
  using cap_pos by (cases cap) (auto simp: push_newest last_n_snoc)

lemma push_room: "length xs < cap \<Longrightarrow> push x xs = xs @ [x]"
  by (simp add: push_newest last_n_short)

lemma push_full:
  assumes "length xs = cap"
  shows "push x xs = tl xs @ [x]"
proof -
  have "push x xs = tl (xs @ [x])" using assms by (simp add: push_newest last_n_tl)
  also have "\<dots> = tl xs @ [x]" using assms cap_pos by (cases xs) auto
  finally show ?thesis .
qed

lemma push_members: "length xs \<le> cap \<Longrightarrow> y \<in> set (push x xs) \<Longrightarrow> y = x \<or> y \<in> set xs"
  by (auto simp: push_newest last_n_def dest: in_set_dropD)

text \<open>After any number of pushes the buffer holds exactly the newest elements.\<close>

lemma pushes_newest:
  "length xs \<le> cap \<Longrightarrow> fold push ys xs = last_n cap (xs @ ys)"
proof (induction ys arbitrary: xs)
  case Nil
  then show ?case by (simp add: last_n_short)
next
  case (Cons y ys)
  then show ?case by (simp add: push_newest last_n_last_n)
qed

lemma pushes_bounded: "length xs \<le> cap \<Longrightarrow> length (fold push ys xs) \<le> cap"
  by (simp add: pushes_newest)

text \<open>How many elements are lost: exactly those that did not fit.\<close>

lemma pushes_lost:
  assumes "length xs \<le> cap"
  shows "\<exists>lost. xs @ ys = lost @ fold push ys xs \<and> length lost = length xs + length ys - cap"
proof (intro exI conjI)
  show "xs @ ys = take (length (xs @ ys) - cap) (xs @ ys) @ fold push ys xs"
    using assms by (simp only: pushes_newest last_n_def append_take_drop_id)
  show "length (take (length (xs @ ys) - cap) (xs @ ys)) = length xs + length ys - cap"
    by simp
qed

end

text \<open>The two implementations.\<close>

definition push_after_drop :: "nat \<Rightarrow> 'a \<Rightarrow> 'a list \<Rightarrow> 'a list" where
  "push_after_drop cap x xs = (if cap \<le> length xs then tl xs else xs) @ [x]"

definition push_then_drop :: "nat \<Rightarrow> 'a \<Rightarrow> 'a list \<Rightarrow> 'a list" where
  "push_then_drop cap x xs = (let ys = xs @ [x] in if cap < length ys then tl ys else ys)"

lemma push_after_drop_newest:
  "0 < cap \<Longrightarrow> length xs \<le> cap \<Longrightarrow> push_after_drop cap x xs = last_n cap (xs @ [x])"
  by (cases "length xs = cap") (auto simp: push_after_drop_def last_n_tl last_n_short tl_append split: list.split)

lemma push_then_drop_newest:
  "length xs \<le> cap \<Longrightarrow> push_then_drop cap x xs = last_n cap (xs @ [x])"
  by (cases "length xs = cap") (auto simp: push_then_drop_def Let_def last_n_tl last_n_short)

end
