(* ===== verification/Undo.thy ===== *)
theory Undo
  imports Bounded_Log
begin

text \<open>
  The undo manager (\<open>src/src/hyperion/core/undo.h\<close>).  An action carries the two functions the
  source keeps as \<open>std::function\<close>s; here they act on a document state of any type.
\<close>

section \<open>The model\<close>

record 's undo_action =
  act_undo :: "'s \<Rightarrow> 's"
  act_redo :: "'s \<Rightarrow> 's"
  act_desc :: string

record 's undo_manager =
  um_undo :: "'s undo_action list"
  um_redo :: "'s undo_action list"

definition undo_limit :: nat where
  "undo_limit = 4096"

definition um_push :: "'s undo_action \<Rightarrow> 's undo_manager \<Rightarrow> 's undo_manager" where
  "um_push act m = \<lparr>um_undo = push_then_drop undo_limit act (um_undo m), um_redo = []\<rparr>"

definition can_undo :: "'s undo_manager \<Rightarrow> bool" where
  "can_undo m \<longleftrightarrow> um_undo m \<noteq> []"

definition can_redo :: "'s undo_manager \<Rightarrow> bool" where
  "can_redo m \<longleftrightarrow> um_redo m \<noteq> []"

text \<open>The vectors' backs are the stacks' tops; an empty stack returns the empty description.\<close>

definition um_do_undo :: "'s undo_manager \<times> 's \<Rightarrow> string \<times> ('s undo_manager \<times> 's)" where
  "um_do_undo ms = (case ms of (m, s) \<Rightarrow>
     if um_undo m = [] then ([], ms)
     else (let act = last (um_undo m)
           in (act_desc act, (\<lparr>um_undo = butlast (um_undo m), um_redo = um_redo m @ [act]\<rparr>, act_undo act s))))"

definition um_do_redo :: "'s undo_manager \<times> 's \<Rightarrow> string \<times> ('s undo_manager \<times> 's)" where
  "um_do_redo ms = (case ms of (m, s) \<Rightarrow>
     if um_redo m = [] then ([], ms)
     else (let act = last (um_redo m)
           in (act_desc act, (\<lparr>um_undo = um_undo m @ [act], um_redo = butlast (um_redo m)\<rparr>, act_redo act s))))"

definition um_clear :: "'s undo_manager \<Rightarrow> 's undo_manager" where
  "um_clear m = \<lparr>um_undo = [], um_redo = []\<rparr>"

definition empty_manager :: "'s undo_manager" where
  "empty_manager = \<lparr>um_undo = [], um_redo = []\<rparr>"

interpretation undo_log: bounded_log undo_limit "push_then_drop undo_limit"
  by unfold_locales (simp_all add: undo_limit_def push_then_drop_newest)

section \<open>Histories\<close>

text \<open>
  A manager and a document fit together when undoing down the stack leads back through the states
  in which the actions were performed, and redoing leads forward again.
\<close>

fun undo_path :: "'s \<Rightarrow> 's undo_action list \<Rightarrow> 's list \<Rightarrow> bool" where
  "undo_path s [] ss \<longleftrightarrow> ss = []"
| "undo_path s (a # as) ss \<longleftrightarrow> (case ss of [] \<Rightarrow> False
     | s' # ss' \<Rightarrow> act_undo a s = s' \<and> act_redo a s' = s \<and> undo_path s' as ss')"

fun redo_path :: "'s \<Rightarrow> 's undo_action list \<Rightarrow> 's list \<Rightarrow> bool" where
  "redo_path s [] ss \<longleftrightarrow> ss = []"
| "redo_path s (a # as) ss \<longleftrightarrow> (case ss of [] \<Rightarrow> False
     | s' # ss' \<Rightarrow> act_redo a s = s' \<and> act_undo a s' = s \<and> redo_path s' as ss')"

text \<open>\<open>past\<close> lists the states undo leads to, \<open>future\<close> those redo leads to, nearest first.\<close>

definition um_inv :: "'s list \<Rightarrow> 's list \<Rightarrow> 's undo_manager \<times> 's \<Rightarrow> bool" where
  "um_inv past future ms \<longleftrightarrow> length (um_undo (fst ms)) \<le> undo_limit \<and>
     undo_path (snd ms) (rev (um_undo (fst ms))) past \<and> redo_path (snd ms) (rev (um_redo (fst ms))) future"

text \<open>The user's operations: perform an action (apply it, then push it), undo, redo, clear.\<close>

datatype 's um_op = Perform "'s undo_action" | Undo | Redo | Clear

definition um_step :: "'s um_op \<Rightarrow> 's undo_manager \<times> 's \<Rightarrow> 's undo_manager \<times> 's" where
  "um_step op ms = (case op of
     Perform a \<Rightarrow> (um_push a (fst ms), act_redo a (snd ms))
   | Undo \<Rightarrow> snd (um_do_undo ms)
   | Redo \<Rightarrow> snd (um_do_redo ms)
   | Clear \<Rightarrow> (um_clear (fst ms), snd ms))"

text \<open>The reference: two lists of states.\<close>

fun ref_step :: "'s um_op \<Rightarrow> 's list \<times> 's \<times> 's list \<Rightarrow> 's list \<times> 's \<times> 's list" where
  "ref_step (Perform a) (past, s, future) = (take undo_limit (s # past), act_redo a s, [])"
| "ref_step Undo (past, s, future) = (case past of [] \<Rightarrow> (past, s, future) | p # ps \<Rightarrow> (ps, p, s # future))"
| "ref_step Redo (past, s, future) = (case future of [] \<Rightarrow> (past, s, future) | p # ps \<Rightarrow> (s # past, p, ps))"
| "ref_step Clear (past, s, future) = ([], s, [])"

text \<open>An action undoes itself where it is performed.\<close>

definition reversible_at :: "'s \<Rightarrow> 's um_op \<Rightarrow> bool" where
  "reversible_at s op = (case op of Perform a \<Rightarrow> act_undo a (act_redo a s) = s | _ \<Rightarrow> True)"

lemma undo_path_take: "undo_path s as ss \<Longrightarrow> undo_path s (take n as) (take n ss)"
proof (induction as arbitrary: s ss n)
  case Nil
  then show ?case by simp
next
  case (Cons a as)
  then show ?case by (cases n; cases ss) auto
qed

lemma undo_path_length: "undo_path s as ss \<Longrightarrow> length ss = length as"
  by (induction as arbitrary: s ss) (auto split: list.splits)

lemma rev_last_n: "rev (last_n n xs) = take n (rev xs)"
  by (cases "n \<le> length xs") (simp_all add: last_n_def rev_drop)

definition um_rel :: "'s undo_manager \<times> 's \<Rightarrow> 's list \<times> 's \<times> 's list \<Rightarrow> bool" where
  "um_rel ms r \<longleftrightarrow> (case r of (past, s, future) \<Rightarrow> snd ms = s \<and> um_inv past future ms \<and>
     length past + length future \<le> undo_limit)"

lemma redo_path_length: "redo_path s as ss \<Longrightarrow> length ss = length as"
  by (induction as arbitrary: s ss) (auto split: list.splits)

lemma um_step_refines:
  assumes rel: "um_rel ms r" and rev: "reversible_at (snd ms) op"
  shows "um_rel (um_step op ms) (ref_step op r)"
proof -
  obtain m s where ms: "ms = (m, s)" by (cases ms)
  obtain past future where r: "r = (past, s, future)" using rel by (cases r) (auto simp: um_rel_def ms)
  have inv: "length (um_undo m) \<le> undo_limit" "undo_path s (rev (um_undo m)) past"
      "redo_path s (rev (um_redo m)) future" "length past + length future \<le> undo_limit"
    using rel by (simp_all add: um_rel_def um_inv_def ms r)
  show ?thesis
  proof (cases op)
    case (Perform a)
    have "undo_path (act_redo a s) (a # rev (um_undo m)) (s # past)"
      using rev inv(2) by (simp add: reversible_at_def Perform ms)
    then have "undo_path (act_redo a s) (take undo_limit (a # rev (um_undo m))) (take undo_limit (s # past))"
      by (rule undo_path_take)
    moreover have "rev (push_then_drop undo_limit a (um_undo m)) = take undo_limit (a # rev (um_undo m))"
      by (simp only: undo_log.push_newest [OF inv(1)] rev_last_n rev_append rev.simps append.simps)
    moreover have "length (push_then_drop undo_limit a (um_undo m)) \<le> undo_limit"
      using inv(1) by (rule undo_log.push_bounded)
    ultimately show ?thesis
      by (simp add: Perform ms r um_step_def um_push_def um_rel_def um_inv_def)
  next
    case Undo
    show ?thesis
    proof (cases "um_undo m = []")
      case True
      then have "past = []" using inv(2) by simp
      then show ?thesis using True rel by (simp add: Undo um_step_def um_do_undo_def ms r)
    next
      case False
      then obtain as a where m: "um_undo m = as @ [a]" by (metis rev_exhaust)
      then obtain p ps where p: "past = p # ps" "act_undo a s = p" "act_redo a p = s" "undo_path p (rev as) ps"
        using inv(2) by (auto split: list.splits)
      then show ?thesis
        using m inv by (simp add: Undo um_step_def um_do_undo_def ms r Let_def um_rel_def um_inv_def)
    qed
  next
    case Redo
    show ?thesis
    proof (cases "um_redo m = []")
      case True
      then have "future = []" using inv(3) by simp
      then show ?thesis using True rel by (simp add: Redo um_step_def um_do_redo_def ms r)
    next
      case False
      then obtain as a where m: "um_redo m = as @ [a]" by (metis rev_exhaust)
      then obtain p ps where p: "future = p # ps" "act_redo a s = p" "act_undo a p = s" "redo_path p (rev as) ps"
        using inv(3) by (auto split: list.splits)
      have "length (um_undo m) = length past" using undo_path_length [OF inv(2)] by simp
      then show ?thesis
        using m p inv by (simp add: Redo um_step_def um_do_redo_def ms r Let_def um_rel_def um_inv_def)
    qed
  next
    case Clear
    then show ?thesis using inv by (simp add: um_step_def um_clear_def ms r um_rel_def um_inv_def)
  qed
qed

text \<open>Every action is performed in a state it can undo.\<close>

fun reversible_run :: "'s um_op list \<Rightarrow> 's undo_manager \<times> 's \<Rightarrow> bool" where
  "reversible_run [] ms = True"
| "reversible_run (op # ops) ms \<longleftrightarrow> reversible_at (snd ms) op \<and> reversible_run ops (um_step op ms)"

lemma um_run_refines:
  "um_rel ms r \<Longrightarrow> reversible_run ops ms \<Longrightarrow> um_rel (fold um_step ops ms) (fold ref_step ops r)"
proof (induction ops arbitrary: ms r)
  case (Cons op ops)
  then have "um_rel (um_step op ms) (ref_step op r)" by (intro um_step_refines) simp_all
  with Cons show ?case by simp
qed simp

text \<open>
  C27.  The undo manager is a history of states: after any sequence of performed actions, undos,
  redos and clears, each action undoing itself in the state it was performed in, the document is the
  state of a reference history (states undone to, current state, states redone to, at most 4096 past
  states, a new action dropping the redoable ones), and undo and redo are possible exactly when the
  reference has a past or a future.
\<close>

theorem undo_refines_history:
  assumes "reversible_run ops (empty_manager, s)"
    and "fold um_step ops (empty_manager, s) = (m, t)" and "fold ref_step ops ([], s, []) = (past, u, future)"
  shows "t = u \<and> (can_undo m \<longleftrightarrow> past \<noteq> []) \<and> (can_redo m \<longleftrightarrow> future \<noteq> []) \<and> length past \<le> 4096"
proof -
  have "um_rel (empty_manager, s) ([], s, [])"
    by (simp add: um_rel_def um_inv_def empty_manager_def)
  from um_run_refines [OF this assms(1)]
  have r: "um_rel (m, t) (past, u, future)" by (simp add: assms(2,3))
  then have "length past = length (um_undo m)" "length future = length (um_redo m)"
    using undo_path_length redo_path_length by (fastforce simp: um_rel_def um_inv_def)+
  with r show ?thesis
    by (auto simp: um_rel_def can_undo_def can_redo_def undo_limit_def)
qed

definition add_action :: "int \<Rightarrow> int undo_action" where
  "add_action n = \<lparr>act_undo = (\<lambda>s. s - n), act_redo = (\<lambda>s. s + n), act_desc = ''add''\<rparr>"

definition undo_script :: "int um_op list" where
  "undo_script = [Perform (add_action 1), Perform (add_action 2), Undo, Perform (add_action 5), Undo, Undo, Redo]"

theorem undo_refines_history_witness:
  "reversible_run undo_script (empty_manager, 10) \<and> snd (fold um_step undo_script (empty_manager, 10)) = 11 \<and>
   fold ref_step undo_script ([], 10, []) = ([10], 11, [16]) \<and>
   can_redo (fst (fold um_step undo_script (empty_manager, 10)))"
proof -
  have r: "reversible_run undo_script (empty_manager, 10)"
    by (simp add: undo_script_def reversible_at_def add_action_def um_step_def um_push_def um_do_undo_def
        um_do_redo_def push_then_drop_def undo_limit_def empty_manager_def Let_def)
  have f: "fold ref_step undo_script ([], 10, []) = ([10], 11, [16])"
    by (simp add: undo_script_def add_action_def undo_limit_def)
  obtain m t where mt: "fold um_step undo_script (empty_manager, 10) = (m, t)" by (metis surj_pair)
  from undo_refines_history [OF r mt f] r f mt show ?thesis by simp
qed

end
