(* ===== verification/Event_Bus.thy ===== *)
theory Event_Bus
  imports Bounded_Log
begin

text \<open>
  The event hub (\<open>src/src/core/infra/event_bus.cpp\<close>): the numbered output ring, the fan-out of
  frames to subscribers, change detection, shutdown and reset.  Subscribers live in a store indexed
  by number; the registry holds the numbers \<open>g_subs\<close> holds weak pointers for, and \<open>sb_alive\<close> says
  whether the pointer still locks.  Serialisation (\<open>nlohmann::json::dump\<close>) is not part of the
  repository: payloads arrive serialised, and the payload of an output line is the argument \<open>enc\<close>.
  Each operation is one locked step.
\<close>

section \<open>The model\<close>

record output_line =
  ol_seq :: nat
  ol_ms :: int
  ol_text :: string

record subscriber =
  sb_queue :: "string list"
  sb_dropped :: nat
  sb_closed :: bool
  sb_alive :: bool

record event_bus =
  eb_out :: "output_line list"
  eb_seq :: nat
  eb_open :: bool
  eb_last :: "string \<Rightarrow> string option"
  eb_store :: "subscriber list"
  eb_reg :: "nat list"

definition k_max_output :: nat where
  "k_max_output = 4096"

definition k_max_queue_frames :: nat where
  "k_max_queue_frames = 512"

definition initial_bus :: event_bus where
  "initial_bus = \<lparr>eb_out = [], eb_seq = 0, eb_open = True, eb_last = Map.empty, eb_store = [], eb_reg = []\<rparr>"

text \<open>\<open>impl_t::push\<close> and \<open>impl_t::close\<close>.\<close>

definition sub_push :: "string \<Rightarrow> subscriber \<Rightarrow> subscriber" where
  "sub_push f s =
     (if sb_closed s then s
      else s\<lparr>sb_queue := push_after_drop k_max_queue_frames f (sb_queue s),
             sb_dropped := (if k_max_queue_frames \<le> length (sb_queue s) then sb_dropped s + 1 else sb_dropped s)\<rparr>)"

definition sub_close :: "subscriber \<Rightarrow> subscriber" where
  "sub_close s = s\<lparr>sb_closed := True\<rparr>"

definition make_frame :: "string \<Rightarrow> string \<Rightarrow> string" where
  "make_frame ty encoded = ''event: '' @ ty @ ''\<newline>data: '' @ encoded @ ''\<newline>\<newline>''"

definition live_subs :: "event_bus \<Rightarrow> nat list" where
  "live_subs b = filter (\<lambda>i. i < length (eb_store b) \<and> sb_alive (eb_store b ! i)) (eb_reg b)"

definition update_sub :: "(subscriber \<Rightarrow> subscriber) \<Rightarrow> nat \<Rightarrow> subscriber list \<Rightarrow> subscriber list" where
  "update_sub g i st = st[i := g (st ! i)]"

definition fan_out :: "string \<Rightarrow> event_bus \<Rightarrow> event_bus" where
  "fan_out f b = b\<lparr>eb_reg := live_subs b,
     eb_store := fold (update_sub (sub_push f)) (live_subs b) (eb_store b)\<rparr>"

definition publish :: "string \<Rightarrow> string \<Rightarrow> event_bus \<Rightarrow> event_bus" where
  "publish ty encoded b =
     (if \<not> eb_open b then b else if eb_reg b = [] then b else fan_out (make_frame ty encoded) b)"

definition publish_changed :: "string \<Rightarrow> string \<Rightarrow> event_bus \<Rightarrow> event_bus" where
  "publish_changed ty encoded b =
     (if \<not> eb_open b then b
      else if eb_last b ty = Some encoded then b
      else (let b' = b\<lparr>eb_last := (eb_last b)(ty \<mapsto> encoded)\<rparr>
            in if eb_reg b' = [] then b' else fan_out (make_frame ty encoded) b'))"

definition bus_output :: "(output_line \<Rightarrow> string) \<Rightarrow> int \<Rightarrow> string \<Rightarrow> event_bus \<Rightarrow> event_bus" where
  "bus_output enc ms line b =
     (let rec = \<lparr>ol_seq = eb_seq b + 1, ol_ms = ms, ol_text = line\<rparr>
      in publish ''output'' (enc rec)
           (b\<lparr>eb_seq := eb_seq b + 1, eb_out := push_after_drop k_max_output rec (eb_out b)\<rparr>))"

text \<open>\<open>std::upper_bound\<close> on the ring, which is sorted by number.\<close>

definition output_since :: "nat \<Rightarrow> event_bus \<Rightarrow> output_line list" where
  "output_since since b = dropWhile (\<lambda>l. \<not> since < ol_seq l) (eb_out b)"

definition output_revision :: "event_bus \<Rightarrow> nat" where
  "output_revision b = eb_seq b"

definition output_clear :: "event_bus \<Rightarrow> event_bus" where
  "output_clear b = publish ''output.cleared'' ''{}'' (b\<lparr>eb_out := []\<rparr>)"

definition subscribe :: "event_bus \<Rightarrow> nat \<times> event_bus" where
  "subscribe b =
     (let i = length (eb_store b)
      in (i, b\<lparr>eb_store := eb_store b @ [\<lparr>sb_queue = [], sb_dropped = 0, sb_closed = \<not> eb_open b, sb_alive = True\<rparr>],
               eb_reg := eb_reg b @ [i]\<rparr>))"

text \<open>The last owner lets go: the destructor closes and the weak pointer expires.\<close>

definition unsubscribe :: "nat \<Rightarrow> event_bus \<Rightarrow> event_bus" where
  "unsubscribe i b = b\<lparr>eb_store := update_sub (\<lambda>s. (sub_close s)\<lparr>sb_alive := False\<rparr>) i (eb_store b)\<rparr>"

text \<open>\<open>wait\<close> at the moment it stops waiting: \<open>None\<close> is the result \<open>false\<close>.\<close>

definition wait :: "nat \<Rightarrow> event_bus \<Rightarrow> string option \<times> event_bus" where
  "wait i b =
     (let s = eb_store b ! i; b' = b\<lparr>eb_store := update_sub (\<lambda>s. s\<lparr>sb_queue := []\<rparr>) i (eb_store b)\<rparr>
      in if sb_queue s = [] \<and> sb_closed s then (None, b') else (Some (concat (sb_queue s)), b'))"

definition subscriber_count :: "event_bus \<Rightarrow> nat" where
  "subscriber_count b = length (live_subs b)"

definition shutdown :: "event_bus \<Rightarrow> event_bus" where
  "shutdown b = b\<lparr>eb_open := False, eb_reg := [],
     eb_store := fold (update_sub sub_close) (live_subs b) (eb_store b)\<rparr>"

definition reset :: "event_bus \<Rightarrow> event_bus" where
  "reset b = (shutdown b)\<lparr>eb_out := [], eb_seq := 0, eb_last := Map.empty, eb_open := True\<rparr>"

section \<open>The output ring\<close>

interpretation ring: bounded_log k_max_output "push_after_drop k_max_output"
  by unfold_locales (simp_all add: k_max_output_def push_after_drop_newest)

interpretation queue: bounded_log k_max_queue_frames "push_after_drop k_max_queue_frames"
  by unfold_locales (simp_all add: k_max_queue_frames_def push_after_drop_newest)

text \<open>The ring holds the newest lines, numbered without gaps up to the revision.\<close>

definition ring_ok :: "event_bus \<Rightarrow> bool" where
  "ring_ok b \<longleftrightarrow> length (eb_out b) \<le> k_max_output \<and> length (eb_out b) \<le> eb_seq b \<and>
     map ol_seq (eb_out b) = [Suc (eb_seq b - length (eb_out b))..<Suc (eb_seq b)]"

lemma publish_frame [simp]:
  "eb_out (publish ty e b) = eb_out b" "eb_seq (publish ty e b) = eb_seq b"
  "eb_open (publish ty e b) = eb_open b" "eb_last (publish ty e b) = eb_last b"
  by (simp_all add: publish_def fan_out_def)

lemma publish_changed_frame [simp]:
  "eb_out (publish_changed ty e b) = eb_out b" "eb_seq (publish_changed ty e b) = eb_seq b"
  by (simp_all add: publish_changed_def fan_out_def Let_def)

lemma ring_ok_initial: "ring_ok initial_bus"
  by (simp add: ring_ok_def initial_bus_def)

lemma last_n_map: "last_n n (map g xs) = map g (last_n n xs)"
  by (simp add: last_n_def drop_map)

lemma ring_ok_output:
  assumes "ring_ok b"
  shows "ring_ok (bus_output enc ms line b)"
proof -
  define r where "r = \<lparr>ol_seq = eb_seq b + 1, ol_ms = ms, ol_text = line\<rparr>"
  have len: "length (eb_out b) \<le> k_max_output" "length (eb_out b) \<le> eb_seq b"
    and seqs: "map ol_seq (eb_out b) = [Suc (eb_seq b - length (eb_out b))..<Suc (eb_seq b)]"
    using assms by (auto simp: ring_ok_def)
  have out: "eb_out (bus_output enc ms line b) = last_n k_max_output (eb_out b @ [r])"
    by (simp add: bus_output_def Let_def r_def ring.push_newest [OF len(1)])
  have "map ol_seq (eb_out b @ [r]) = [Suc (eb_seq b - length (eb_out b))..<Suc (Suc (eb_seq b))]"
    using seqs by (simp add: r_def)
  then have "map ol_seq (last_n k_max_output (eb_out b @ [r])) =
      last_n k_max_output [Suc (eb_seq b - length (eb_out b))..<Suc (Suc (eb_seq b))]"
    by (simp only: last_n_map [symmetric])
  also have "\<dots> = [Suc (Suc (eb_seq b)) - min k_max_output (Suc (length (eb_out b)))..<Suc (Suc (eb_seq b))]"
    using len by (auto simp: last_n_def drop_upt min_def Suc_diff_le simp del: upt_Suc)
  finally have fin: "map ol_seq (last_n k_max_output (eb_out b @ [r])) =
      [Suc (Suc (eb_seq b)) - min k_max_output (Suc (length (eb_out b)))..<Suc (Suc (eb_seq b))]" .
  have seq: "eb_seq (bus_output enc ms line b) = Suc (eb_seq b)" by (simp add: bus_output_def Let_def)
  have "min k_max_output (Suc (length (eb_out b))) \<le> Suc (eb_seq b)" using len by simp
  then show ?thesis
    by (simp add: ring_ok_def out seq fin Suc_diff_le del: upt_Suc)
qed

lemma ring_ok_frame: "ring_ok (publish ty e b) = ring_ok b" "ring_ok (publish_changed ty e b) = ring_ok b"
  by (simp_all add: ring_ok_def)

lemma ring_ok_clear: "ring_ok b \<Longrightarrow> ring_ok (output_clear b)"
  by (simp add: ring_ok_def output_clear_def)

lemma output_since_filter:
  assumes "ring_ok b"
  shows "output_since since b = filter (\<lambda>l. since < ol_seq l) (eb_out b)"
proof -
  have "sorted (map ol_seq (eb_out b))" using assms by (simp add: ring_ok_def del: upt_Suc)
  then show ?thesis
    unfolding output_since_def
  proof (induction "eb_out b" arbitrary: b)
    case Nil
    then show ?case by simp
  next
    case (Cons l ls)
    have "sorted (map ol_seq ls)" "\<forall>l' \<in> set ls. ol_seq l \<le> ol_seq l'"
      using Cons.prems Cons.hyps(2) [symmetric] by auto
    with Cons.hyps(1) [of "b\<lparr>eb_out := ls\<rparr>"] show ?case
      by (auto simp: Cons.hyps(2) [symmetric] intro!: filter_True [symmetric])
  qed
qed

text \<open>A client's catch-up: the lines appended since a revision.\<close>

definition outputs :: "(output_line \<Rightarrow> string) \<Rightarrow> (int \<times> string) list \<Rightarrow> event_bus \<Rightarrow> event_bus" where
  "outputs enc ls b = fold (\<lambda>(ms, line). bus_output enc ms line) ls b"

lemma outputs_spec:
  "ring_ok b \<Longrightarrow> ring_ok (outputs enc ls b) \<and> eb_seq (outputs enc ls b) = eb_seq b + length ls \<and>
   map ol_text (eb_out (outputs enc ls b)) = last_n k_max_output (map ol_text (eb_out b) @ map snd ls)"
proof (induction ls arbitrary: b)
  case Nil
  then show ?case by (simp add: outputs_def ring_ok_def last_n_short)
next
  case (Cons l ls)
  obtain ms line where l: "l = (ms, line)" by (cases l)
  have len: "length (eb_out b) \<le> k_max_output" using Cons.prems by (simp add: ring_ok_def)
  have out: "map ol_text (eb_out (bus_output enc ms line b)) = last_n k_max_output (map ol_text (eb_out b) @ [line])"
    by (simp add: bus_output_def Let_def ring.push_newest [OF len] last_n_map [symmetric])
  have seq: "eb_seq (bus_output enc ms line b) = Suc (eb_seq b)" by (simp add: bus_output_def Let_def)
  have step: "outputs enc ((ms, line) # ls) b = outputs enc ls (bus_output enc ms line b)" by (simp add: outputs_def)
  show ?case
    unfolding l using Cons.IH [OF ring_ok_output [OF Cons.prems, of enc ms line]]
    by (simp add: step out seq last_n_last_n)
qed

lemma filter_seq_last:
  assumes "ring_ok b" "r \<le> eb_seq b"
  shows "filter (\<lambda>l. r < ol_seq l) (eb_out b) = last_n (eb_seq b - r) (eb_out b)"
proof -
  let ?n = "length (eb_out b)"
  have n: "?n \<le> eb_seq b" and seqs: "map ol_seq (eb_out b) = [Suc (eb_seq b - ?n)..<Suc (eb_seq b)]"
    using assms(1) by (auto simp: ring_ok_def)
  have nth: "ol_seq (eb_out b ! i) = Suc (eb_seq b - ?n) + i" if "i < ?n" for i
  proof -
    have "ol_seq (eb_out b ! i) = map ol_seq (eb_out b) ! i" using that by simp
    also have "\<dots> = Suc (eb_seq b - ?n) + i" using that n by (simp only: seqs) (simp del: upt_Suc)
    finally show ?thesis .
  qed
  let ?k = "?n - (eb_seq b - r)"
  have "filter (\<lambda>l. r < ol_seq l) (take ?k (eb_out b)) = []"
    using nth assms(2) n by (auto simp: filter_empty_conv in_set_conv_nth)
  moreover have "filter (\<lambda>l. r < ol_seq l) (drop ?k (eb_out b)) = drop ?k (eb_out b)"
    using nth assms(2) n by (auto simp: filter_id_conv in_set_conv_nth)
  ultimately have "filter (\<lambda>l. r < ol_seq l) (take ?k (eb_out b) @ drop ?k (eb_out b)) = drop ?k (eb_out b)"
    by (simp only: filter_append append_Nil)
  then show ?thesis by (simp add: last_n_def)
qed

text \<open>
  A late client catches up: on a well-numbered ring, after any lines are appended, asking for
  everything after the revision seen before returns exactly the appended lines in order, or the
  newest 4096 of them when more were appended; the revision has grown by their number and the ring
  stays well numbered.
\<close>

theorem output_catch_up:
  assumes "ring_ok b"
  shows "map ol_text (output_since (output_revision b) (outputs enc ls b)) = last_n 4096 (map snd ls) \<and>
    output_revision (outputs enc ls b) = output_revision b + length ls \<and> ring_ok (outputs enc ls b)"
proof -
  note o = outputs_spec [OF assms, of enc ls]
  have "output_since (eb_seq b) (outputs enc ls b) = last_n (length ls) (eb_out (outputs enc ls b))"
    using o filter_seq_last [of "outputs enc ls b" "eb_seq b"] by (simp add: output_since_filter)
  then have "map ol_text (output_since (eb_seq b) (outputs enc ls b)) =
      last_n (length ls) (last_n k_max_output (map ol_text (eb_out b) @ map snd ls))"
    using o by (simp add: last_n_map [symmetric])
  also have "\<dots> = last_n k_max_output (map snd ls)"
    by (cases "length ls \<le> k_max_output") (auto simp: last_n_def)
  finally show ?thesis using o by (simp add: output_revision_def k_max_output_def)
qed

theorem output_catch_up_witness:
  "ring_ok initial_bus \<and>
   map ol_text (output_since 0 (outputs ol_text [(1, ''a''), (2, ''b'')] initial_bus)) = [''a'', ''b'']"
  using output_catch_up [OF ring_ok_initial, of ol_text "[(1, ''a''), (2, ''b'')]"] ring_ok_initial
  by (simp add: output_revision_def initial_bus_def last_n_def)

section \<open>Subscribers\<close>

text \<open>The subscriber is connected: the bus is open, its number is registered, once, its pointer locks.\<close>

definition connected :: "nat \<Rightarrow> event_bus \<Rightarrow> bool" where
  "connected i b \<longleftrightarrow> eb_open b \<and> i < length (eb_store b) \<and> i \<in> set (eb_reg b) \<and> distinct (eb_reg b) \<and>
     sb_alive (eb_store b ! i) \<and> \<not> sb_closed (eb_store b ! i) \<and>
     length (sb_queue (eb_store b ! i)) \<le> k_max_queue_frames"

lemma length_fold_update [simp]: "length (fold (update_sub g) is st) = length st"
  by (induction "is" arbitrary: st) (simp_all add: update_sub_def)

lemma fold_update_nth:
  "distinct is \<Longrightarrow> i < length st \<Longrightarrow>
   fold (update_sub g) is st ! i = (if i \<in> set is then g (st ! i) else st ! i)"
proof (induction "is" arbitrary: st)
  case (Cons a "is")
  then show ?case by (cases "a = i") (auto simp: update_sub_def)
qed simp

lemma fan_out_nth:
  assumes "distinct (eb_reg b)" "i < length (eb_store b)"
  shows "eb_store (fan_out f b) ! i =
    (if i \<in> set (eb_reg b) \<and> sb_alive (eb_store b ! i) then sub_push f (eb_store b ! i) else eb_store b ! i)"
  using assms by (simp add: fan_out_def fold_update_nth live_subs_def)

lemma sub_push_fields [simp]:
  "sb_closed (sub_push f s) = sb_closed s" "sb_alive (sub_push f s) = sb_alive s"
  by (simp_all add: sub_push_def)

lemma sub_push_bounded:
  "length (sb_queue s) \<le> k_max_queue_frames \<Longrightarrow> length (sb_queue (sub_push f s)) \<le> k_max_queue_frames"
  by (simp add: sub_push_def queue.push_bounded)

lemma publish_connected:
  assumes "connected i b"
  shows "eb_store (publish ty e b) ! i = sub_push (make_frame ty e) (eb_store b ! i)"
    and "connected i (publish ty e b)"
proof -
  have ne: "eb_reg b \<noteq> []" "eb_open b" using assms by (auto simp: connected_def)
  then have p: "publish ty e b = fan_out (make_frame ty e) b" by (simp add: publish_def)
  show s: "eb_store (publish ty e b) ! i = sub_push (make_frame ty e) (eb_store b ! i)"
    using assms by (simp add: p fan_out_nth connected_def)
  have "length (eb_store (publish ty e b)) = length (eb_store b)" "eb_reg (publish ty e b) = live_subs b"
    "eb_open (publish ty e b)" using ne by (simp_all add: p fan_out_def)
  then show "connected i (publish ty e b)"
    using assms by (simp add: connected_def s sub_push_bounded live_subs_def)
qed

definition publishes :: "(string \<times> string) list \<Rightarrow> event_bus \<Rightarrow> event_bus" where
  "publishes es b = fold (\<lambda>(ty, e). publish ty e) es b"

definition frames_of :: "(string \<times> string) list \<Rightarrow> string list" where
  "frames_of es = map (\<lambda>(ty, e). make_frame ty e) es"

lemma publishes_spec:
  "connected i b \<Longrightarrow> connected i (publishes es b) \<and>
   sb_queue (eb_store (publishes es b) ! i) = last_n k_max_queue_frames (sb_queue (eb_store b ! i) @ frames_of es) \<and>
   sb_dropped (eb_store (publishes es b) ! i) =
     sb_dropped (eb_store b ! i) + (length (sb_queue (eb_store b ! i)) + length es - k_max_queue_frames)"
proof (induction es arbitrary: b)
  case Nil
  then show ?case by (simp add: publishes_def frames_of_def connected_def last_n_short)
next
  case (Cons x es)
  obtain ty e where x: "x = (ty, e)" by (cases x)
  let ?s = "eb_store b ! i"
  have open_s: "\<not> sb_closed ?s" "length (sb_queue ?s) \<le> k_max_queue_frames"
    using Cons.prems by (auto simp: connected_def)
  note pc = publish_connected [OF Cons.prems, of ty e]
  have q: "sb_queue (sub_push f ?s) = last_n k_max_queue_frames (sb_queue ?s @ [f])" for f
    using open_s by (simp add: sub_push_def queue.push_newest)
  have d: "sb_dropped (sub_push f ?s) = sb_dropped ?s + (Suc (length (sb_queue ?s)) - k_max_queue_frames)" for f
    using open_s by (simp add: sub_push_def)
  have step: "publishes ((ty, e) # es) b = publishes es (publish ty e b)" by (simp add: publishes_def)
  show ?case
    unfolding x using Cons.IH [OF pc(2)] open_s
    by (simp add: step pc(1) q d last_n_last_n frames_of_def min_def)
qed

text \<open>
  C33.  A connected subscriber loses only the oldest frames and counts them: after any events are
  published its queue is the newest 512 of what it held followed by one frame per event, in order;
  the dropped counter grows by exactly the number of frames lost; and one \<open>wait\<close> then returns the
  queued frames joined, leaves the queue empty and the subscriber connected.
\<close>

theorem subscriber_keeps_newest:
  assumes "connected i b" and "c = publishes es b" and "held = sb_queue (eb_store b ! i) @ frames_of es"
  shows "sb_queue (eb_store c ! i) = last_n 512 held \<and>
    sb_dropped (eb_store c ! i) = sb_dropped (eb_store b ! i) + (length held - 512) \<and>
    fst (wait i c) = Some (concat (last_n 512 held)) \<and>
    sb_queue (eb_store (snd (wait i c)) ! i) = [] \<and> connected i (snd (wait i c))"
proof -
  note p = publishes_spec [OF assms(1), of es, folded assms(2)]
  have c: "connected i c" using p by simp
  then have "fst (wait i c) = Some (concat (sb_queue (eb_store c ! i)))"
    "sb_queue (eb_store (snd (wait i c)) ! i) = []" "connected i (snd (wait i c))"
    by (auto simp: wait_def Let_def connected_def update_sub_def)
  then show ?thesis using p by (simp add: assms(3) frames_of_def k_max_queue_frames_def)
qed

definition one_subscriber :: event_bus where
  "one_subscriber = snd (subscribe initial_bus)"

lemma one_subscriber_connected: "connected 0 one_subscriber"
  by (simp add: one_subscriber_def subscribe_def initial_bus_def connected_def Let_def)

theorem subscriber_keeps_newest_witness:
  "connected 0 one_subscriber \<and>
   fst (wait 0 (publishes [(''a'', ''1''), (''b'', ''2'')] one_subscriber)) =
     Some (make_frame ''a'' ''1'' @ make_frame ''b'' ''2'')"
  using subscriber_keeps_newest [OF one_subscriber_connected refl refl, of "[(''a'', ''1''), (''b'', ''2'')]"]
    one_subscriber_connected
  by (simp add: one_subscriber_def subscribe_def initial_bus_def frames_of_def last_n_def Let_def)

section \<open>Change detection\<close>

definition publish_all_changed :: "string \<Rightarrow> string list \<Rightarrow> event_bus \<Rightarrow> event_bus" where
  "publish_all_changed ty es b = fold (publish_changed ty) es b"

text \<open>The payloads that differ from the one before them.\<close>

fun changes :: "string option \<Rightarrow> string list \<Rightarrow> string list" where
  "changes l [] = []"
| "changes l (e # es) = (if l = Some e then changes l es else e # changes (Some e) es)"

lemma publish_changed_cases:
  assumes "connected i b"
  shows "publish_changed ty e b =
    (if eb_last b ty = Some e then b else publish ty e (b\<lparr>eb_last := (eb_last b)(ty \<mapsto> e)\<rparr>))"
  using assms by (simp add: publish_changed_def publish_def connected_def Let_def)

lemma connected_last [simp]: "connected i (b\<lparr>eb_last := x\<rparr>) = connected i b"
  by (simp add: connected_def)

lemma publish_all_changed_spec:
  "connected i b \<Longrightarrow> connected i (publish_all_changed ty es b) \<and>
   sb_queue (eb_store (publish_all_changed ty es b) ! i) =
     last_n k_max_queue_frames (sb_queue (eb_store b ! i) @ map (make_frame ty) (changes (eb_last b ty) es))"
proof (induction es arbitrary: b)
  case Nil
  then show ?case by (simp add: publish_all_changed_def connected_def last_n_short)
next
  case (Cons e es)
  let ?b = "publish_changed ty e b"
  have step: "publish_all_changed ty (e # es) b = publish_all_changed ty es ?b"
    by (simp add: publish_all_changed_def)
  show ?case
  proof (cases "eb_last b ty = Some e")
    case True
    then show ?thesis using Cons by (simp add: step publish_changed_cases)
  next
    case False
    let ?c = "b\<lparr>eb_last := (eb_last b)(ty \<mapsto> e)\<rparr>"
    have b: "?b = publish ty e ?c" using False Cons.prems by (simp add: publish_changed_cases)
    have cc: "connected i ?c" using Cons.prems by simp
    have "sb_queue (eb_store ?b ! i) = last_n k_max_queue_frames (sb_queue (eb_store b ! i) @ [make_frame ty e])"
      using Cons.prems publish_connected(1) [OF cc, of ty e]
      by (simp add: b connected_def sub_push_def queue.push_newest)
    moreover have "eb_last ?b ty = Some e" by (simp add: b)
    moreover have "connected i ?b" unfolding b by (rule publish_connected(2) [OF cc])
    ultimately show ?thesis using Cons.IH [of ?b] False by (simp add: step last_n_last_n)
  qed
qed

text \<open>
  C26.  Change detection neither repeats nor loses: when payloads of one type are offered to
  \<open>publish_changed\<close> one after the other, a connected subscriber gets a frame for exactly those that
  differ from the payload offered before (the first against the last one the bus remembers), in
  order; its queue keeps the newest 512.
\<close>

theorem publish_changed_exact:
  assumes "connected i b"
  shows "sb_queue (eb_store (fold (publish_changed ty) es b) ! i) =
    last_n 512 (sb_queue (eb_store b ! i) @ map (make_frame ty) (changes (eb_last b ty) es))"
  using publish_all_changed_spec [OF assms, of ty es]
  by (simp add: publish_all_changed_def k_max_queue_frames_def)

theorem publish_changed_exact_witness:
  "connected 0 one_subscriber \<and>
   sb_queue (eb_store (fold (publish_changed ''t'') [''x'', ''x'', ''y'', ''x''] one_subscriber) ! 0) =
     map (make_frame ''t'') [''x'', ''y'', ''x'']"
  using publish_changed_exact [OF one_subscriber_connected, of "''t''" "[''x'', ''x'', ''y'', ''x'']"]
    one_subscriber_connected
  by (simp add: one_subscriber_def subscribe_def initial_bus_def last_n_def Let_def)

section \<open>Shutdown\<close>

text \<open>
   Shutdown ends every stream: after it a live registered subscriber still gets the frames it
  had queued from one \<open>wait\<close> and the next \<open>wait\<close> reports the end of the stream, whatever is published
  in between; later subscribers start closed, and the bus counts no subscribers.
\<close>

theorem shutdown_ends_streams:
  assumes "connected i b" and "b1 = shutdown b" and "b2 = snd (wait i b1)"
  shows "(sb_queue (eb_store b ! i) \<noteq> [] \<longrightarrow> fst (wait i b1) = Some (concat (sb_queue (eb_store b ! i)))) \<and>
    fst (wait i (publishes es b2)) = None \<and> fst (wait i (publish_changed ty e b2)) = None \<and>
    subscriber_count b1 = 0 \<and>
    (case subscribe b1 of (j, b') \<Rightarrow> fst (wait j b') = None)"
proof -
  have i: "i < length (eb_store b)" "i \<in> set (live_subs b)" "distinct (live_subs b)"
    using assms(1) by (auto simp: connected_def live_subs_def)
  have s1: "eb_store b1 ! i = sub_close (eb_store b ! i)" "\<not> eb_open b1" "length (eb_store b1) = length (eb_store b)"
    using i by (simp_all add: assms(2) shutdown_def fold_update_nth)
  have s2: "sb_queue (eb_store b2 ! i) = []" "sb_closed (eb_store b2 ! i)" "\<not> eb_open b2"
    using i s1 by (auto simp: assms(3) wait_def Let_def update_sub_def sub_close_def)
  have closed_pub: "publishes es b2 = b2"
    using s2(3) by (induction es) (auto simp: publishes_def publish_def)
  have "publish_changed ty e b2 = b2" using s2(3) by (simp add: publish_changed_def)
  with closed_pub s1 s2 show ?thesis
    by (auto simp: wait_def Let_def sub_close_def subscriber_count_def live_subs_def assms(2) shutdown_def
        subscribe_def nth_append)
qed

theorem shutdown_ends_streams_witness:
  "connected 0 one_subscriber \<and>
   fst (wait 0 (publishes [(''a'', ''1'')] (snd (wait 0 (shutdown one_subscriber))))) = None"
  using shutdown_ends_streams [OF one_subscriber_connected refl refl, of "[(''a'', ''1'')]" "''a''" "''1''"]
    one_subscriber_connected by simp

end
