(* ===== verification/Deferred.thy ===== *)
theory Deferred
  imports Bounded_Log
begin

text \<open>
  The deferred-action manager (\<open>src/src/core/infra/deferred.cpp\<close>).  Executors are callbacks of other
  components: functions from the parameters to success and a result.  The statuses are the four
  strings the source uses.  Every operation holds the manager's lock, so each is one step.
\<close>

section \<open>The model\<close>

datatype action_status = Pending | Done | Failed | Cancelled

record deferred_action =
  da_id :: nat
  da_kind :: string
  da_params :: string
  da_status :: action_status
  da_result :: string

type_synonym executor = "string \<Rightarrow> bool \<times> string"

record deferred_manager =
  dm_actions :: "deferred_action list"
  dm_executors :: "string \<Rightarrow> executor option"
  dm_next_id :: nat

definition k_max_actions :: nat where
  "k_max_actions = 256"

definition initial_manager :: deferred_manager where
  "initial_manager = \<lparr>dm_actions = [], dm_executors = Map.empty, dm_next_id = 1\<rparr>"

definition bind_executor :: "string \<Rightarrow> executor \<Rightarrow> deferred_manager \<Rightarrow> bool \<times> deferred_manager" where
  "bind_executor kind fn m = (case dm_executors m kind of
     Some _ \<Rightarrow> (False, m)
   | None \<Rightarrow> (True, m\<lparr>dm_executors := (dm_executors m)(kind \<mapsto> fn)\<rparr>))"

definition submit :: "string \<Rightarrow> string \<Rightarrow> deferred_manager \<Rightarrow> nat \<times> deferred_manager" where
  "submit kind params m =
     (let a = \<lparr>da_id = dm_next_id m, da_kind = kind, da_params = params, da_status = Pending, da_result = []\<rparr>;
          acts = push_then_drop k_max_actions a (dm_actions m)
      in (da_id (last acts), m\<lparr>dm_actions := acts, dm_next_id := dm_next_id m + 1\<rparr>))"

definition dm_list :: "deferred_manager \<Rightarrow> deferred_action list" where
  "dm_list m = dm_actions m"

definition dm_get :: "nat \<Rightarrow> deferred_manager \<Rightarrow> deferred_action option" where
  "dm_get i m = find (\<lambda>a. da_id a = i) (dm_actions m)"

text \<open>Whether the loop of \<open>execute_pending\<close> runs an action, and what it makes of it.\<close>

definition eligible :: "deferred_manager \<Rightarrow> string \<Rightarrow> deferred_action \<Rightarrow> bool" where
  "eligible m kind a \<longleftrightarrow> da_status a = Pending \<and> \<not> (kind \<noteq> [] \<and> da_kind a \<noteq> kind) \<and>
     dm_executors m (da_kind a) \<noteq> None"

definition run_action :: "deferred_manager \<Rightarrow> deferred_action \<Rightarrow> deferred_action" where
  "run_action m a = (case the (dm_executors m (da_kind a)) (da_params a) of
     (ok, result) \<Rightarrow> a\<lparr>da_status := (if ok then Done else Failed), da_result := result\<rparr>)"

definition execute_pending :: "string \<Rightarrow> deferred_manager \<Rightarrow> nat \<times> deferred_manager" where
  "execute_pending kind m =
     (length (filter (eligible m kind) (dm_actions m)),
      m\<lparr>dm_actions := map (\<lambda>a. if eligible m kind a then run_action m a else a) (dm_actions m)\<rparr>)"

fun cancel_first :: "nat \<Rightarrow> deferred_action list \<Rightarrow> bool \<times> deferred_action list" where
  "cancel_first i [] = (False, [])"
| "cancel_first i (a # as) =
     (if da_id a = i \<and> da_status a = Pending then (True, a\<lparr>da_status := Cancelled\<rparr> # as)
      else (case cancel_first i as of (r, as') \<Rightarrow> (r, a # as')))"

definition cancel :: "nat \<Rightarrow> deferred_manager \<Rightarrow> bool \<times> deferred_manager" where
  "cancel i m = (case cancel_first i (dm_actions m) of (r, as) \<Rightarrow> (r, m\<lparr>dm_actions := as\<rparr>))"

definition dm_clear :: "deferred_manager \<Rightarrow> deferred_manager" where
  "dm_clear m = m\<lparr>dm_actions := []\<rparr>"

definition dm_size :: "deferred_manager \<Rightarrow> nat" where
  "dm_size m = length (dm_actions m)"

section \<open>Runs\<close>

interpretation action_log: bounded_log k_max_actions "push_then_drop k_max_actions"
  by unfold_locales (simp_all add: k_max_actions_def push_then_drop_newest)

datatype dm_op = Bind string executor | Submit string string | Execute string | Cancel nat | ClearAll

text \<open>A step, logging the numbers of the actions whose executor it calls and those it cancels.\<close>

definition dm_step :: "dm_op \<Rightarrow> deferred_manager \<times> nat list \<times> nat list \<Rightarrow> deferred_manager \<times> nat list \<times> nat list" where
  "dm_step op s = (case s of (m, exe, cancelled) \<Rightarrow> (case op of
     Bind k fn \<Rightarrow> (snd (bind_executor k fn m), exe, cancelled)
   | Submit k p \<Rightarrow> (snd (submit k p m), exe, cancelled)
   | Execute k \<Rightarrow> (snd (execute_pending k m), exe @ map da_id (filter (eligible m k) (dm_actions m)), cancelled)
   | Cancel i \<Rightarrow> (snd (cancel i m), exe, if fst (cancel i m) then cancelled @ [i] else cancelled)
   | ClearAll \<Rightarrow> (dm_clear m, exe, cancelled)))"

definition dm_run :: "dm_op list \<Rightarrow> deferred_manager \<times> nat list \<times> nat list" where
  "dm_run ops = fold dm_step ops (initial_manager, [], [])"

text \<open>
  Numbers increase along the list and stay below the next one; the pending actions are those whose
  number is in neither log.
\<close>

definition dm_inv :: "deferred_manager \<times> nat list \<times> nat list \<Rightarrow> bool" where
  "dm_inv s \<longleftrightarrow> (case s of (m, exe, cancelled) \<Rightarrow>
     sorted_wrt (<) (map da_id (dm_actions m)) \<and> length (dm_actions m) \<le> k_max_actions \<and>
     (\<forall>a \<in> set (dm_actions m). da_id a < dm_next_id m) \<and>
     distinct (exe @ cancelled) \<and> (\<forall>i \<in> set exe \<union> set cancelled. i < dm_next_id m) \<and>
     (\<forall>a \<in> set (dm_actions m). da_status a = Pending \<longleftrightarrow> da_id a \<notin> set exe \<union> set cancelled) \<and>
     (\<forall>a \<in> set (dm_actions m). da_status a = Cancelled \<longleftrightarrow> da_id a \<in> set cancelled))"

lemma dm_inv_initial: "dm_inv (initial_manager, [], [])"
  by (simp add: dm_inv_def initial_manager_def)

lemma sorted_wrt_push:
  "sorted_wrt (<) (map g xs) \<Longrightarrow> (\<forall>y \<in> set xs. g y < g x) \<Longrightarrow> sorted_wrt (<) (map g (push_then_drop n x xs :: 'a list))"
  for g :: "'a \<Rightarrow> nat"
  by (cases xs) (auto simp: push_then_drop_def Let_def sorted_wrt_append)

lemma dm_inv_submit:
  assumes "dm_inv (m, exe, cancelled)"
  shows "dm_inv (snd (submit k p m), exe, cancelled)"
proof -
  define a where "a = \<lparr>da_id = dm_next_id m, da_kind = k, da_params = p, da_status = Pending, da_result = []\<rparr>"
  have inv: "sorted_wrt (<) (map da_id (dm_actions m))" "length (dm_actions m) \<le> k_max_actions"
    "\<forall>a \<in> set (dm_actions m). da_id a < dm_next_id m"
    "\<forall>i \<in> set exe \<union> set cancelled. i < dm_next_id m"
    using assms by (auto simp: dm_inv_def)
  have mem: "b = a \<or> b \<in> set (dm_actions m)" if "b \<in> set (push_then_drop k_max_actions a (dm_actions m))" for b
    using action_log.push_members [OF inv(2) that] .
  have new: "da_id a \<notin> set exe \<union> set cancelled" "da_status a = Pending" "da_id a < Suc (dm_next_id m)"
    using inv(4) by (auto simp: a_def)
  have "sorted_wrt (<) (map da_id (push_then_drop k_max_actions a (dm_actions m)))"
    using inv(1,3) by (intro sorted_wrt_push) (auto simp: a_def)
  moreover have "snd (submit k p m) = m\<lparr>dm_actions := push_then_drop k_max_actions a (dm_actions m),
      dm_next_id := dm_next_id m + 1\<rparr>" by (simp add: submit_def a_def Let_def)
  moreover have "\<forall>i \<in> set exe \<union> set cancelled. i < Suc (dm_next_id m)"
    using inv(4) less_SucI by blast
  moreover have "\<forall>b \<in> set (push_then_drop k_max_actions a (dm_actions m)). da_id b < Suc (dm_next_id m) \<and>
      (da_status b = Pending \<longleftrightarrow> da_id b \<notin> set exe \<union> set cancelled) \<and>
      (da_status b = Cancelled \<longleftrightarrow> da_id b \<in> set cancelled)"
  proof
    fix b assume "b \<in> set (push_then_drop k_max_actions a (dm_actions m))"
    then consider "b = a" | "b \<in> set (dm_actions m)" using mem by blast
    then show "da_id b < Suc (dm_next_id m) \<and> (da_status b = Pending \<longleftrightarrow> da_id b \<notin> set exe \<union> set cancelled) \<and>
        (da_status b = Cancelled \<longleftrightarrow> da_id b \<in> set cancelled)"
      using assms new inv(3) by cases (auto simp: dm_inv_def less_SucI)
  qed
  moreover have "distinct (exe @ cancelled)" using assms by (simp add: dm_inv_def)
  ultimately show ?thesis
    using action_log.push_bounded [OF inv(2), of a] by (simp add: dm_inv_def)
qed

lemma run_action_frame [simp]:
  "da_id (run_action m a) = da_id a" "da_status (run_action m a) \<noteq> Pending"
  "da_status (run_action m a) \<noteq> Cancelled"
  by (simp_all add: run_action_def split: prod.split)

lemma dm_inv_execute:
  assumes "dm_inv (m, exe, cancelled)"
  shows "dm_inv (snd (execute_pending k m), exe @ map da_id (filter (eligible m k) (dm_actions m)), cancelled)"
proof -
  let ?new = "map da_id (filter (eligible m k) (dm_actions m))"
  have inv: "sorted_wrt (<) (map da_id (dm_actions m))" "\<forall>a \<in> set (dm_actions m). da_id a < dm_next_id m"
    "\<forall>a \<in> set (dm_actions m). da_status a = Pending \<longleftrightarrow> da_id a \<notin> set exe \<union> set cancelled"
    using assms by (auto simp: dm_inv_def)
  have ids: "map da_id (map (\<lambda>a. if eligible m k a then run_action m a else a) (dm_actions m)) = map da_id (dm_actions m)"
    by simp
  have dist: "distinct (map da_id (dm_actions m))" using inv(1) by (simp add: strict_sorted_iff)
  then have dn: "distinct ?new" by (rule distinct_map_filter)
  have fresh: "set ?new \<inter> (set exe \<union> set cancelled) = {}"
    using inv(3) by (auto simp: eligible_def)
  have in_new: "da_id a \<in> set ?new \<longleftrightarrow> eligible m k a" if "a \<in> set (dm_actions m)" for a
    using that dist by (auto simp: distinct_map inj_on_def)
  show ?thesis
    unfolding dm_inv_def prod.case
  proof (intro conjI)
    show "sorted_wrt (<) (map da_id (dm_actions (snd (execute_pending k m))))"
      using inv(1) by (simp add: execute_pending_def ids del: map_map)
    show "distinct ((exe @ ?new) @ cancelled)"
      using assms dn fresh by (auto simp: dm_inv_def)
    show "\<forall>a \<in> set (dm_actions (snd (execute_pending k m))). da_status a = Pending \<longleftrightarrow>
        da_id a \<notin> set (exe @ ?new) \<union> set cancelled"
    proof
      fix b assume "b \<in> set (dm_actions (snd (execute_pending k m)))"
      then obtain a where a: "a \<in> set (dm_actions m)" "b = (if eligible m k a then run_action m a else a)"
        by (auto simp: execute_pending_def)
      show "da_status b = Pending \<longleftrightarrow> da_id b \<notin> set (exe @ ?new) \<union> set cancelled"
        using inv(3) a in_new [OF a(1)] by (cases "eligible m k a") auto
    qed
    show "\<forall>a \<in> set (dm_actions (snd (execute_pending k m))). da_status a = Cancelled \<longleftrightarrow> da_id a \<in> set cancelled"
    proof
      fix b assume "b \<in> set (dm_actions (snd (execute_pending k m)))"
      then obtain a where a: "a \<in> set (dm_actions m)" "b = (if eligible m k a then run_action m a else a)"
        by (auto simp: execute_pending_def)
      show "da_status b = Cancelled \<longleftrightarrow> da_id b \<in> set cancelled"
        using assms inv(3) a by (cases "eligible m k a") (auto simp: dm_inv_def eligible_def)
    qed
  qed (use assms inv in \<open>auto simp: dm_inv_def execute_pending_def\<close>)
qed

lemma cancel_first_spec:
  assumes "cancel_first i as = (r, as')"
  shows "map da_id as' = map da_id as \<and>
    (r \<longleftrightarrow> (\<exists>a \<in> set as. da_id a = i \<and> da_status a = Pending)) \<and>
    (\<not> r \<longrightarrow> as' = as) \<and>
    (distinct (map da_id as) \<longrightarrow> r \<longrightarrow>
       as' = map (\<lambda>a. if da_id a = i then a\<lparr>da_status := Cancelled\<rparr> else a) as)"
  using assms
proof (induction as arbitrary: r as')
  case Nil
  then show ?case by simp
next
  case (Cons a as)
  obtain r1 as1 where c: "cancel_first i as = (r1, as1)" by (metis surj_pair)
  note IH = Cons.IH [OF c]
  show ?case
  proof (cases "da_id a = i \<and> da_status a = Pending")
    case True
    have "map (\<lambda>a. if da_id a = i then a\<lparr>da_status := Cancelled\<rparr> else a) as = as" if "i \<notin> da_id ` set as"
      using that by (intro map_idI) auto
    with True Cons.prems show ?thesis by auto
  next
    case False
    then have res: "r = r1" "as' = a # as1" using Cons.prems c by auto
    have "da_id a \<noteq> i" if "distinct (map da_id (a # as))" "r1"
      using that False IH by auto
    with res IH False show ?thesis by auto
  qed
qed

lemma dm_inv_cancel:
  assumes "dm_inv (m, exe, cancelled)"
  shows "dm_inv (snd (cancel i m), exe, if fst (cancel i m) then cancelled @ [i] else cancelled)"
proof -
  obtain r as' where c: "cancel_first i (dm_actions m) = (r, as')" by (metis surj_pair)
  have res: "cancel i m = (r, m\<lparr>dm_actions := as'\<rparr>)" by (simp add: cancel_def c)
  note spec = cancel_first_spec [OF c]
  have dist: "distinct (map da_id (dm_actions m))"
    using assms by (simp add: dm_inv_def strict_sorted_iff)
  show ?thesis
  proof (cases r)
    case False
    then have "cancel i m = (False, m)" using spec res by simp
    then show ?thesis using assms by simp
  next
    case True
    then have as': "as' = map (\<lambda>a. if da_id a = i then a\<lparr>da_status := Cancelled\<rparr> else a) (dm_actions m)"
      using spec dist by simp
    obtain a where a: "a \<in> set (dm_actions m)" "da_id a = i" "da_status a = Pending" using spec True by auto
    then have fresh: "i \<notin> set exe \<union> set cancelled" "i < dm_next_id m" using assms by (auto simp: dm_inv_def)
    have ids: "map da_id as' = map da_id (dm_actions m)" using spec by simp
    have st: "(da_status b = Pending \<longleftrightarrow> da_id b \<notin> set exe \<union> set (cancelled @ [i])) \<and>
        (da_status b = Cancelled \<longleftrightarrow> da_id b \<in> set (cancelled @ [i]))" if b: "b \<in> set as'" for b
    proof -
      obtain a where "a \<in> set (dm_actions m)" "b = (if da_id a = i then a\<lparr>da_status := Cancelled\<rparr> else a)"
        using b unfolding as' by auto
      then show ?thesis using assms by (cases "da_id a = i") (auto simp: dm_inv_def)
    qed
    have len: "length as' = length (dm_actions m)" by (simp add: as')
    have lt: "\<forall>b \<in> set as'. da_id b < dm_next_id m"
      using assms by (auto simp: as' dm_inv_def)
    show ?thesis
      using assms fresh st lt True by (auto simp: res dm_inv_def ids len)
  qed
qed

lemma dm_inv_step:
  assumes "dm_inv s"
  shows "dm_inv (dm_step op s)"
proof -
  obtain m exe cancelled where s: "s = (m, exe, cancelled)" by (cases s)
  show ?thesis
  proof (cases op)
    case (Bind k fn)
    then show ?thesis using assms
      by (auto simp: s dm_step_def bind_executor_def dm_inv_def split: option.split)
  next
    case (Submit k p)
    then show ?thesis using assms by (simp add: s dm_step_def dm_inv_submit)
  next
    case (Execute k)
    then show ?thesis using dm_inv_execute [of m exe cancelled k] assms by (simp add: s dm_step_def)
  next
    case (Cancel i)
    then show ?thesis using dm_inv_cancel [of m exe cancelled i] assms by (simp add: s dm_step_def)
  next
    case ClearAll
    then show ?thesis using assms by (auto simp: s dm_step_def dm_clear_def dm_inv_def)
  qed
qed

lemma dm_inv_run: "dm_inv (dm_run ops)"
  unfolding dm_run_def by (rule fold_invariant_rule) (simp_all add: dm_inv_initial dm_inv_step)

text \<open>
  C21.  No deferred action runs twice: over any sequence of operations the executor is called at most
  once for each number, never for a cancelled action; at most 256 actions are kept, under strictly
  increasing numbers; an action still in the list is pending exactly when it was neither run nor
  cancelled, and cancelled exactly when \<open>cancel\<close> reported so.
\<close>

theorem deferred_runs_once:
  assumes "dm_run ops = (m, exe, cancelled)"
  shows "distinct exe \<and> set exe \<inter> set cancelled = {} \<and>
    length (dm_list m) \<le> 256 \<and> sorted_wrt (<) (map da_id (dm_list m)) \<and>
    (\<forall>a \<in> set (dm_list m). (da_status a = Pending \<longleftrightarrow> da_id a \<notin> set exe \<union> set cancelled) \<and>
       (da_status a = Cancelled \<longleftrightarrow> da_id a \<in> set cancelled))"
  using dm_inv_run [of ops] by (auto simp: assms dm_inv_def dm_list_def k_max_actions_def)

definition echo_ops :: "dm_op list" where
  "echo_ops = [Bind ''call'' (\<lambda>p. (True, p)), Submit ''call'' ''x'', Submit ''call'' ''y'', Cancel 2,
     Execute [], Execute []]"

theorem deferred_runs_once_witness:
  "\<exists>m. dm_run echo_ops = (m, [1], [2]) \<and> distinct [1 :: nat] \<and> map da_status (dm_list m) = [Done, Cancelled]"
proof -
  have log: "snd (dm_run echo_ops) = ([1], [2])" by code_simp
  have st: "map da_status (dm_list (fst (dm_run echo_ops))) = [Done, Cancelled]" by code_simp
  obtain m where m: "dm_run echo_ops = (m, [1], [2])" using log by (metis prod.collapse)
  with deferred_runs_once [OF m] st show ?thesis by auto
qed

text \<open>
  A submitted action can be fetched, run and read back: \<open>submit\<close> returns a fresh number under which
  \<open>get\<close> finds the action pending; one \<open>execute_pending\<close> of its kind then stores the executor's verdict
  and result under it.
\<close>

theorem submit_then_execute:
  assumes "dm_run ops = (m, exe, cancelled)" and "submit kind params m = (i, m1)"
    and "dm_executors m kind = Some fn" and "fn params = (ok, result)"
  shows "dm_get i m = None \<and>
    (\<exists>a. dm_get i m1 = Some a \<and> da_status a = Pending \<and> da_params a = params \<and> da_kind a = kind) \<and>
    (\<exists>a. dm_get i (snd (execute_pending kind m1)) = Some a \<and>
       da_status a = (if ok then Done else Failed) \<and> da_result a = result)"
proof -
  define a where "a = \<lparr>da_id = dm_next_id m, da_kind = kind, da_params = params, da_status = Pending, da_result = []\<rparr>"
  have inv: "length (dm_actions m) \<le> k_max_actions" "\<forall>b \<in> set (dm_actions m). da_id b < dm_next_id m"
    using dm_inv_run [of ops] by (auto simp: assms(1) dm_inv_def)
  define acts where "acts = push_then_drop k_max_actions a (dm_actions m)"
  have last: "acts \<noteq> []" "last acts = a" using action_log.push_last [OF inv(1)] by (auto simp: acts_def)
  then obtain pre where pre: "acts = pre @ [a]" by (metis append_butlast_last_id)
  have i: "i = dm_next_id m" and m1: "m1 = m\<lparr>dm_actions := acts, dm_next_id := dm_next_id m + 1\<rparr>"
    using assms(2) last by (auto simp: submit_def Let_def acts_def a_def)
  have "set pre \<subseteq> set (dm_actions m)"
  proof -
    have "acts = last_n (Suc 255) (dm_actions m @ [a])"
      using action_log.push_newest [OF inv(1), of a] by (simp add: acts_def k_max_actions_def)
    then have "acts = last_n 255 (dm_actions m) @ [a]" by (simp only: last_n_snoc)
    then have "pre = last_n 255 (dm_actions m)" using pre by simp
    then show ?thesis by (simp add: last_n_def set_drop_subset)
  qed
  then have pre_ids: "\<forall>b \<in> set pre. da_id b \<noteq> i" using inv(2) i by fastforce
  have skip: "find (\<lambda>b. da_id b = i) (pre' @ bs) = find (\<lambda>b. da_id b = i) bs"
    if "\<forall>b \<in> set pre'. da_id b \<noteq> i" for pre' bs
    using that by (induction pre') auto
  have "dm_get i m = None" using inv(2) i by (auto simp: dm_get_def find_None_iff)
  moreover have "dm_get i m1 = Some a" using skip [OF pre_ids] by (simp add: dm_get_def m1 pre i a_def)
  moreover have "dm_get i (snd (execute_pending kind m1)) = Some (run_action m1 a)"
  proof -
    have e: "eligible m1 kind a" using assms(3) by (simp add: eligible_def a_def m1)
    let ?pre = "map (\<lambda>a. if eligible m1 kind a then run_action m1 a else a) pre"
    have "\<forall>b \<in> set ?pre. da_id b \<noteq> i" using pre_ids by auto
    note sk = skip [OF this, of "[run_action m1 a]"]
    have "dm_actions m1 = pre @ [a]" "da_id a = i" by (simp_all add: m1 pre i a_def)
    then show ?thesis using e by (simp add: dm_get_def execute_pending_def sk)
  qed
  moreover have "run_action m1 a = a\<lparr>da_status := (if ok then Done else Failed), da_result := result\<rparr>"
    using assms(3,4) by (simp add: run_action_def a_def m1)
  ultimately show ?thesis by (simp add: a_def)
qed

theorem submit_then_execute_witness:
  "\<exists>m m1. dm_run [Bind ''call'' (\<lambda>p. (True, p))] = (m, [], []) \<and> submit ''call'' ''x'' m = (1, m1) \<and>
     (\<exists>a. dm_get 1 (snd (execute_pending ''call'' m1)) = Some a \<and> da_status a = Done \<and> da_result a = ''x'')"
proof -
  let ?m = "initial_manager\<lparr>dm_executors := [''call'' \<mapsto> (\<lambda>p. (True, p))]\<rparr>"
  have r: "dm_run [Bind ''call'' (\<lambda>p. (True, p))] = (?m, [], [])"
    by (simp add: dm_run_def dm_step_def bind_executor_def initial_manager_def)
  obtain m1 where s: "submit ''call'' ''x'' ?m = (1, m1)"
    by (simp add: submit_def initial_manager_def push_then_drop_def Let_def k_max_actions_def)
  have "dm_executors ?m ''call'' = Some (\<lambda>p. (True, p))" by simp
  from submit_then_execute [OF r s this refl] r s show ?thesis by auto
qed

end
