(* ===== verification/Jobs.thy ===== *)
theory Jobs
  imports Prelude Complex_Main
begin

text \<open>
  Background jobs (\<open>src/src/core/infra/jobs.cpp\<close>).  Every job has a thread of its own; the coordinator's list is
  guarded by one mutex, the text and the state of a job by another.  A section under a lock is one step.
  Two places wait inside a section: \<open>reap\<close> joins a thread holding both locks, \<open>shutdown\<close> joins holding
  the coordinator's; there the member \<open>co_caller\<close> says who waits for what.  A job's body is arbitrary: its
  thread may take any of the actions of \<open>job_context_t\<close>.  Times are arguments.
\<close>

section \<open>Jobs\<close>

datatype job_state = JQueued | JRunning | JSucceeded | JCancelled | JFailed

text \<open>How far the thread of a job has come: created, in the body, after the body, returned.\<close>

datatype job_thread = Spawned | InBody | BodyDone | Exited

record job_impl =
  ji_id :: u64
  ji_cancel_requested :: bool
  ji_progress :: rat
  ji_stage :: string
  ji_error :: string
  ji_state :: job_state
  ji_started_ms :: int
  ji_finished_ms :: int
  ji_label :: string
  ji_owner :: string
  ji_cancellable :: bool
  ji_thread :: job_thread
  ji_joined :: bool

record job_snapshot =
  js_id :: u64
  js_label :: string
  js_owner :: string
  js_stage :: string
  js_error :: string
  js_progress :: rat
  js_state :: job_state
  js_cancellable :: bool
  js_started_ms :: int
  js_finished_ms :: int

record job_desc =
  jd_label :: string
  jd_owner :: string
  jd_cancellable :: bool

text \<open>Who holds the coordinator's lock: nobody between calls, \<open>reap\<close> at a job, or \<open>shutdown\<close> at a job.\<close>

datatype caller = Idle | Reaping nat bool | Reap_Join nat bool | Closing nat | Close_Join nat

record coordinator =
  co_jobs :: "job_impl list"
  co_next_id :: u64
  co_published :: "job_snapshot list"
  co_shutting_down :: bool
  co_caller :: caller

definition max_live_jobs :: nat where "max_live_jobs = 64"
definition kept_jobs :: nat where "kept_jobs = 32"

definition fresh_coordinator :: coordinator where
  "fresh_coordinator = \<lparr>co_jobs = [], co_next_id = 1, co_published = [], co_shutting_down = False, co_caller = Idle\<rparr>"

definition live :: "job_impl \<Rightarrow> bool" where
  "live j \<longleftrightarrow> ji_state j = JQueued \<or> ji_state j = JRunning"

section \<open>The actions of a job's thread\<close>

text \<open>The first section: the job runs.\<close>

definition run_begin :: "int \<Rightarrow> job_impl \<Rightarrow> job_impl" where
  "run_begin now j = j\<lparr>ji_state := JRunning, ji_started_ms := now, ji_thread := InBody\<rparr>"

definition set_stage :: "string \<Rightarrow> job_impl \<Rightarrow> job_impl" where
  "set_stage t j = j\<lparr>ji_stage := t\<rparr>"

definition set_progress :: "rat \<Rightarrow> job_impl \<Rightarrow> job_impl" where
  "set_progress p j = j\<lparr>ji_progress := p\<rparr>"

definition set_progress_of :: "nat \<Rightarrow> nat \<Rightarrow> job_impl \<Rightarrow> job_impl" where
  "set_progress_of k n j = (if n = 0 then j else set_progress (of_nat k / of_nat n) j)"

definition fail_job :: "string \<Rightarrow> job_impl \<Rightarrow> job_impl" where
  "fail_job m j = j\<lparr>ji_error := m, ji_state := JFailed\<rparr>"

definition body_return :: "job_impl \<Rightarrow> job_impl" where
  "body_return j = j\<lparr>ji_thread := BodyDone\<rparr>"

text \<open>The last section; after it the thread returns.\<close>

definition run_end :: "int \<Rightarrow> job_impl \<Rightarrow> job_impl" where
  "run_end now j = j\<lparr>ji_state := (if ji_state j = JRunning then (if ji_cancel_requested j then JCancelled else JSucceeded) else ji_state j),
     ji_finished_ms := now, ji_thread := Exited\<rparr>"

section \<open>The coordinator\<close>

definition snapshot_of :: "job_impl \<Rightarrow> job_snapshot" where
  "snapshot_of j = \<lparr>js_id = ji_id j, js_label = ji_label j, js_owner = ji_owner j, js_stage = ji_stage j,
     js_error = ji_error j, js_progress = ji_progress j, js_state = ji_state j, js_cancellable = ji_cancellable j,
     js_started_ms = ji_started_ms j, js_finished_ms = ji_finished_ms j\<rparr>"

definition rebuild_snapshot :: "coordinator \<Rightarrow> coordinator" where
  "rebuild_snapshot s = s\<lparr>co_published := map snapshot_of (co_jobs s)\<rparr>"

definition new_job :: "u64 \<Rightarrow> job_desc \<Rightarrow> job_impl" where
  "new_job i d = \<lparr>ji_id = i, ji_cancel_requested = False, ji_progress = -1, ji_stage = [], ji_error = [],
     ji_state = JQueued, ji_started_ms = 0, ji_finished_ms = 0, ji_label = jd_label d, ji_owner = jd_owner d,
     ji_cancellable = jd_cancellable d, ji_thread = Spawned, ji_joined = False\<rparr>"

definition submit_job :: "job_desc \<Rightarrow> coordinator \<Rightarrow> u64 \<times> coordinator" where
  "submit_job d s =
     (if co_shutting_down s then (0, s)
      else if max_live_jobs \<le> length (filter live (co_jobs s)) then (0, s)
      else (co_next_id s, rebuild_snapshot
        (s\<lparr>co_jobs := co_jobs s @ [new_job (co_next_id s) d], co_next_id := co_next_id s + 1\<rparr>)))"

definition request_cancel :: "job_impl \<Rightarrow> job_impl" where
  "request_cancel j = j\<lparr>ji_cancel_requested := True\<rparr>"

fun cancel_first :: "u64 \<Rightarrow> job_impl list \<Rightarrow> bool \<times> job_impl list" where
  "cancel_first i [] = (False, [])"
| "cancel_first i (j # js) =
     (if ji_id j = i \<and> ji_cancellable j then (True, request_cancel j # js)
      else (let (r, js') = cancel_first i js in (r, j # js')))"

definition cancel_job :: "u64 \<Rightarrow> coordinator \<Rightarrow> bool \<times> coordinator" where
  "cancel_job i s = (let (r, js) = cancel_first i (co_jobs s) in (r, s\<lparr>co_jobs := js\<rparr>))"

definition alive :: "u64 \<Rightarrow> coordinator \<Rightarrow> bool" where
  "alive i s = (case find (\<lambda>j. ji_id j = i) (co_jobs s) of Some j \<Rightarrow> live j | None \<Rightarrow> False)"

definition reset_jobs :: "coordinator \<Rightarrow> coordinator" where
  "reset_jobs s = s\<lparr>co_shutting_down := False\<rparr>"

section \<open>Reaping\<close>

text \<open>\<open>while (g_jobs.size() > 32)\<close>: the first joined job goes; the number counts the jobs that are too many.\<close>

fun drop_joined :: "job_impl list \<Rightarrow> job_impl list" where
  "drop_joined [] = []"
| "drop_joined (j # js) = (if ji_joined j then js else j # drop_joined js)"

fun trim_jobs :: "nat \<Rightarrow> job_impl list \<Rightarrow> job_impl list" where
  "trim_jobs 0 js = js"
| "trim_jobs (Suc n) js = (if list_ex ji_joined js then trim_jobs n (drop_joined js) else js)"

definition reap_finish :: "bool \<Rightarrow> coordinator \<Rightarrow> coordinator" where
  "reap_finish changed s =
     (let js = trim_jobs (length (co_jobs s) - kept_jobs) (co_jobs s);
          s' = s\<lparr>co_jobs := js, co_caller := Idle\<rparr> in
      if changed \<or> length js \<noteq> length (co_jobs s) then rebuild_snapshot s' else s')"

text \<open>One iteration of \<open>reap\<close>'s loop, up to the join; at the end of the list the rest of \<open>reap\<close>.\<close>

definition reap_visit :: "nat \<Rightarrow> bool \<Rightarrow> coordinator \<Rightarrow> coordinator" where
  "reap_visit i changed s =
     (if length (co_jobs s) \<le> i then reap_finish changed s
      else (let j = co_jobs s ! i in
        if ji_joined j \<or> live j then s\<lparr>co_caller := Reaping (Suc i) changed\<rparr>
        else s\<lparr>co_caller := Reap_Join i changed\<rparr>))"

definition mark_joined :: "nat \<Rightarrow> coordinator \<Rightarrow> coordinator" where
  "mark_joined i s = s\<lparr>co_jobs := (co_jobs s)[i := (co_jobs s ! i)\<lparr>ji_joined := True\<rparr>]\<rparr>"

definition reap_joined :: "nat \<Rightarrow> coordinator \<Rightarrow> coordinator" where
  "reap_joined i s = (mark_joined i s)\<lparr>co_caller := Reaping (Suc i) True\<rparr>"

section \<open>Shutdown\<close>

definition shutdown_begin :: "coordinator \<Rightarrow> coordinator" where
  "shutdown_begin s = s\<lparr>co_jobs := map request_cancel (co_jobs s), co_caller := Closing 0\<rparr>"

text \<open>One iteration; \<open>time_left\<close> says whether the deadline is ahead.  At the end the list is cleared.\<close>

definition close_visit :: "bool \<Rightarrow> nat \<Rightarrow> coordinator \<Rightarrow> coordinator" where
  "close_visit time_left i s =
     (if length (co_jobs s) \<le> i then s\<lparr>co_jobs := [], co_caller := Idle\<rparr>
      else if ji_joined (co_jobs s ! i) then s\<lparr>co_caller := Closing (Suc i)\<rparr>
      else if time_left then s\<lparr>co_caller := Close_Join i\<rparr>
      else (mark_joined i s)\<lparr>co_caller := Closing (Suc i)\<rparr>)"

definition close_joined :: "nat \<Rightarrow> coordinator \<Rightarrow> coordinator" where
  "close_joined i s = (mark_joined i s)\<lparr>co_caller := Closing (Suc i)\<rparr>"

section \<open>Steps\<close>

definition on_job :: "nat \<Rightarrow> (job_impl \<Rightarrow> job_impl) \<Rightarrow> coordinator \<Rightarrow> coordinator" where
  "on_job i f s = s\<lparr>co_jobs := (co_jobs s)[i := f (co_jobs s ! i)]\<rparr>"

text \<open>The lock of a job is held while \<open>reap\<close> joins its thread.\<close>

definition lock_free :: "coordinator \<Rightarrow> nat \<Rightarrow> bool" where
  "lock_free s i \<longleftrightarrow> (case co_caller s of Reap_Join k _ \<Rightarrow> k \<noteq> i | _ \<Rightarrow> True)"

text \<open>What the thread of a job may do next: without its lock, and with it.\<close>

inductive thread_free :: "job_impl \<Rightarrow> job_impl \<Rightarrow> bool" where
  progress: "ji_thread j = InBody \<Longrightarrow> thread_free j (set_progress p j)"
| progress_of: "ji_thread j = InBody \<Longrightarrow> thread_free j (set_progress_of k n j)"
| return: "ji_thread j = InBody \<Longrightarrow> thread_free j (body_return j)"

inductive thread_locked :: "job_impl \<Rightarrow> job_impl \<Rightarrow> bool" where
  start: "ji_thread j = Spawned \<Longrightarrow> thread_locked j (run_begin now j)"
| stage: "ji_thread j = InBody \<Longrightarrow> thread_locked j (set_stage t j)"
| fail: "ji_thread j = InBody \<Longrightarrow> thread_locked j (fail_job m j)"
| finish: "ji_thread j = BodyDone \<Longrightarrow> thread_locked j (run_end now j)"

inductive job_step :: "coordinator \<Rightarrow> coordinator \<Rightarrow> bool" where
  submit: "co_caller s = Idle \<Longrightarrow> job_step s (snd (submit_job d s))"
| cancel: "co_caller s = Idle \<Longrightarrow> job_step s (snd (cancel_job i s))"
| reset: "job_step s (reset_jobs s)"
| reap: "co_caller s = Idle \<Longrightarrow> job_step s (s\<lparr>co_caller := Reaping 0 False\<rparr>)"
| visit: "co_caller s = Reaping i changed \<Longrightarrow> job_step s (reap_visit i changed s)"
| join: "co_caller s = Reap_Join i changed \<Longrightarrow> ji_thread (co_jobs s ! i) = Exited \<Longrightarrow> job_step s (reap_joined i s)"
| shut: "job_step s (s\<lparr>co_shutting_down := True\<rparr>)"
| close: "co_caller s = Idle \<Longrightarrow> co_shutting_down s \<Longrightarrow> job_step s (shutdown_begin s)"
| close_visit: "co_caller s = Closing i \<Longrightarrow> job_step s (close_visit time_left i s)"
| close_join: "co_caller s = Close_Join i \<Longrightarrow> ji_thread (co_jobs s ! i) = Exited \<Longrightarrow> job_step s (close_joined i s)"
| thread: "i < length (co_jobs s) \<Longrightarrow> thread_free (co_jobs s ! i) j \<Longrightarrow> job_step s (on_job i (\<lambda>_. j) s)"
| locked: "i < length (co_jobs s) \<Longrightarrow> lock_free s i \<Longrightarrow> thread_locked (co_jobs s ! i) j \<Longrightarrow> job_step s (on_job i (\<lambda>_. j) s)"

definition reachable_jobs :: "coordinator \<Rightarrow> bool" where
  "reachable_jobs s \<longleftrightarrow> job_step\<^sup>*\<^sup>* fresh_coordinator s"

end
