(* ===== verification/Jobs_Correct.thy ===== *)
theory Jobs_Correct
  imports Jobs
begin

text \<open>
  Jobs and their coordinator in every interleaving: the number of live jobs is bounded, the states of a job
  agree with how far its thread has come and only move forward, and a \<open>reap\<close> that finds no failed job with
  a running thread needs nothing from the threads to end.  A job that reports a failure before it returns
  can block \<open>reap\<close>, and with it the coordinator, for good.
\<close>

section \<open>The invariant\<close>

definition job_ok :: "job_impl \<Rightarrow> bool" where
  "job_ok j \<longleftrightarrow> (ji_state j = JQueued \<longleftrightarrow> ji_thread j = Spawned) \<and>
     (ji_state j = JSucceeded \<or> ji_state j = JCancelled \<longrightarrow> ji_thread j = Exited) \<and>
     (ji_state j = JRunning \<longrightarrow> ji_thread j \<noteq> Exited) \<and>
     (ji_state j = JCancelled \<longrightarrow> ji_cancel_requested j)"

text \<open>Where \<open>reap\<close> and \<open>shutdown\<close> can be.\<close>

definition caller_ok :: "coordinator \<Rightarrow> bool" where
  "caller_ok s \<longleftrightarrow> (case co_caller s of
     Reap_Join i _ \<Rightarrow> i < length (co_jobs s) \<and> \<not> live (co_jobs s ! i) \<and> \<not> ji_joined (co_jobs s ! i)
   | Close_Join i \<Rightarrow> i < length (co_jobs s) \<and> \<not> ji_joined (co_jobs s ! i)
   | _ \<Rightarrow> True)"

definition jobs_ok :: "coordinator \<Rightarrow> bool" where
  "jobs_ok s \<longleftrightarrow> list_all job_ok (co_jobs s) \<and> length (filter live (co_jobs s)) \<le> max_live_jobs \<and> caller_ok s"

lemmas thread_action_defs = set_progress_def set_progress_of_def body_return_def run_begin_def set_stage_def
  fail_job_def run_end_def

lemma thread_free_ok: "thread_free j j' \<Longrightarrow> job_ok j \<Longrightarrow> job_ok j' \<and> live j' = live j \<and> ji_joined j' = ji_joined j"
  by (induction rule: thread_free.induct) (auto simp: job_ok_def live_def thread_action_defs)

lemma thread_locked_ok:
  "thread_locked j j' \<Longrightarrow> job_ok j \<Longrightarrow> job_ok j' \<and> (live j' \<longrightarrow> live j) \<and> ji_joined j' = ji_joined j"
  by (induction rule: thread_locked.induct) (auto simp: job_ok_def live_def thread_action_defs)

lemma thread_step_ok:
  assumes "thread_free j j' \<or> thread_locked j j'" "job_ok j"
  shows "job_ok j'" "live j' \<Longrightarrow> live j" "ji_joined j' = ji_joined j"
  using assms thread_free_ok thread_locked_ok by blast+

lemma live_updates:
  assumes "i < length js" "live j \<longrightarrow> live (js ! i)"
  shows "length (filter live (js[i := j])) \<le> length (filter live js)"
  using assms
proof (induction js arbitrary: i)
  case (Cons a js)
  then show ?case by (cases i) auto
qed simp

lemma on_job_ok:
  assumes ok: "jobs_ok s" and i: "i < length (co_jobs s)" and st: "thread_free (co_jobs s ! i) j \<or> thread_locked (co_jobs s ! i) j"
  shows "jobs_ok (on_job i (\<lambda>_. j) s)"
proof -
  have ji: "job_ok (co_jobs s ! i)" using ok i by (simp add: jobs_ok_def list_all_length)
  note t = thread_step_ok [OF st ji]
  have all: "list_all job_ok ((co_jobs s)[i := j])"
    using ok t(1) i by (auto simp: jobs_ok_def list_all_length nth_list_update)
  have "length (filter live ((co_jobs s)[i := j])) \<le> max_live_jobs"
    using live_updates [OF i, of j] t(2) ok by (auto simp: jobs_ok_def)
  moreover have "caller_ok (on_job i (\<lambda>_. j) s)"
  proof -
    have "ji_joined ((co_jobs s)[i := j] ! k) = ji_joined (co_jobs s ! k)"
      "live ((co_jobs s)[i := j] ! k) \<longrightarrow> live (co_jobs s ! k)" for k
      using i t(2,3) by (cases "k = i"; simp)+
    then show ?thesis using ok by (auto simp: jobs_ok_def caller_ok_def on_job_def split: caller.splits)
  qed
  ultimately show ?thesis using all by (simp add: jobs_ok_def on_job_def)
qed

lemma request_cancel_simps [simp]:
  "live (request_cancel j) = live j" "job_ok j \<Longrightarrow> job_ok (request_cancel j)" "ji_joined (request_cancel j) = ji_joined j"
  "ji_id (request_cancel j) = ji_id j" "ji_state (request_cancel j) = ji_state j"
  by (auto simp: live_def job_ok_def request_cancel_def)

lemma cancel_first_ok:
  "cancel_first i js = (r, js') \<Longrightarrow> (list_all job_ok js \<longrightarrow> list_all job_ok js') \<and> map live js' = map live js \<and>
     map ji_id js' = map ji_id js \<and> map ji_state js' = map ji_state js"
proof (induction js arbitrary: r js')
  case (Cons j js)
  then show ?case by (auto split: if_splits prod.splits)
qed simp

lemma map_live_filter: "map live js' = map live js \<Longrightarrow> length (filter live js') = length (filter live js)"
proof -
  assume m: "map live js' = map live js"
  have "length js' = length js" using m by (rule map_eq_imp_length_eq)
  from this m show ?thesis by (induction js' js rule: list_induct2) auto
qed

lemma joined_ok [simp]:
  "job_ok (j\<lparr>ji_joined := b\<rparr>) = job_ok j" "live (j\<lparr>ji_joined := b\<rparr>) = live j"
  by (simp_all add: job_ok_def live_def)

lemma mark_joined_ok:
  assumes "list_all job_ok (co_jobs s)" "i < length (co_jobs s)"
  shows "list_all job_ok (co_jobs (mark_joined i s))"
    "length (filter live (co_jobs (mark_joined i s))) \<le> length (filter live (co_jobs s))"
  using assms live_updates [OF assms(2), of "(co_jobs s ! i)\<lparr>ji_joined := True\<rparr>"]
  by (auto simp: mark_joined_def list_all_length nth_list_update)

text \<open>Trimming keeps a part of the list.\<close>

lemma drop_joined_sub: "set (drop_joined js) \<subseteq> set js" "length (filter live (drop_joined js)) \<le> length (filter live js)"
  by (induction js) auto

lemma trim_sub: "set (trim_jobs n js) \<subseteq> set js \<and> length (filter live (trim_jobs n js)) \<le> length (filter live js)"
proof (induction n arbitrary: js)
  case (Suc n)
  from Suc [of "drop_joined js"] show ?case using drop_joined_sub [of js] by auto
qed simp

lemma reap_finish_jobs: "co_jobs (reap_finish changed s) = trim_jobs (length (co_jobs s) - kept_jobs) (co_jobs s)"
    "co_caller (reap_finish changed s) = Idle"
  by (simp_all add: reap_finish_def Let_def rebuild_snapshot_def)

lemma job_step_ok: "job_step s s' \<Longrightarrow> jobs_ok s \<Longrightarrow> jobs_ok s'"
proof (induction rule: job_step.induct)
  case (submit s d)
  then show ?case
    by (auto simp: submit_job_def jobs_ok_def rebuild_snapshot_def new_job_def job_ok_def caller_ok_def live_def)
next
  case (cancel s i)
  obtain r js where c: "cancel_first i (co_jobs s) = (r, js)" by fastforce
  have "length (filter live js) = length (filter live (co_jobs s))"
    by (rule map_live_filter) (simp add: cancel_first_ok [OF c])
  moreover have "list_all job_ok js" using cancel_first_ok [OF c] cancel(2) by (simp add: jobs_ok_def)
  ultimately show ?case using cancel c by (simp add: cancel_job_def jobs_ok_def caller_ok_def)
next
  case (visit s i changed)
  show ?case
  proof (cases "length (co_jobs s) \<le> i")
    case True
    have "list_all job_ok (trim_jobs (length (co_jobs s) - kept_jobs) (co_jobs s))"
      using visit(2) trim_sub by (auto simp: jobs_ok_def list_all_iff)
    moreover have "length (filter live (trim_jobs (length (co_jobs s) - kept_jobs) (co_jobs s))) \<le> max_live_jobs"
      by (rule order_trans [OF conjunct2 [OF trim_sub]]) (use visit(2) in \<open>simp add: jobs_ok_def\<close>)
    ultimately show ?thesis using True by (simp add: reap_visit_def jobs_ok_def reap_finish_jobs caller_ok_def)
  next
    case False
    then show ?thesis using visit(2) by (auto simp: reap_visit_def jobs_ok_def caller_ok_def Let_def)
  qed
next
  case (join s i changed)
  then have i: "i < length (co_jobs s)" by (simp add: jobs_ok_def caller_ok_def)
  then show ?case using join mark_joined_ok [of s i] by (auto simp: jobs_ok_def reap_joined_def caller_ok_def)
next
  case (close s)
  then show ?case by (auto simp: jobs_ok_def shutdown_begin_def caller_ok_def list_all_iff filter_map comp_def)
next
  case (close_visit s i time_left)
  show ?case
  proof (cases "i < length (co_jobs s)")
    case True
    then show ?thesis
      using close_visit mark_joined_ok [of s i] by (auto simp: jobs_ok_def close_visit_def caller_ok_def)
  qed (use close_visit in \<open>auto simp: jobs_ok_def close_visit_def caller_ok_def\<close>)
next
  case (close_join s i)
  then have i: "i < length (co_jobs s)" by (simp add: jobs_ok_def caller_ok_def)
  then show ?case using close_join mark_joined_ok [of s i] by (auto simp: jobs_ok_def close_joined_def caller_ok_def)
next
  case (thread i s j)
  then show ?case using on_job_ok by blast
next
  case (locked i s j)
  then show ?case using on_job_ok by blast
qed (auto simp: jobs_ok_def caller_ok_def reset_jobs_def split: caller.splits)

lemma reachable_jobs_ok: "reachable_jobs s \<Longrightarrow> jobs_ok s"
  unfolding reachable_jobs_def
proof (induction rule: rtranclp_induct)
  case base
  then show ?case by (simp add: jobs_ok_def fresh_coordinator_def caller_ok_def)
qed (rule job_step_ok)

text \<open>
  C20. In every interleaving of the callers and the threads of the jobs at most \<open>max_live_jobs\<close> jobs are queued or
  running, a job is queued exactly until its thread starts, a job that has succeeded or was cancelled has a
  thread that has returned, and only a job that was asked to is cancelled.
\<close>

theorem jobs_bounded:
  assumes "reachable_jobs s"
  shows "length (filter live (co_jobs s)) \<le> max_live_jobs \<and>
    (\<forall>j \<in> set (co_jobs s). (ji_state j = JQueued \<longleftrightarrow> ji_thread j = Spawned) \<and>
      (ji_state j \<in> {JSucceeded, JCancelled} \<longrightarrow> ji_thread j = Exited) \<and>
      (ji_state j = JRunning \<longrightarrow> ji_thread j \<in> {InBody, BodyDone}) \<and>
      (ji_state j = JCancelled \<longrightarrow> ji_cancel_requested j))"
proof -
  have "jobs_ok s" by (rule reachable_jobs_ok [OF assms])
  moreover have "ji_state j = JRunning \<longrightarrow> ji_thread j \<in> {InBody, BodyDone}" if "job_ok j" for j
    using that by (cases "ji_thread j") (auto simp: job_ok_def)
  ultimately show ?thesis by (auto simp: jobs_ok_def list_all_iff job_ok_def)
qed

section \<open>The states of a job\<close>

definition moves :: "job_state \<Rightarrow> job_state \<Rightarrow> bool" where
  "moves a b \<longleftrightarrow> a = b \<or> (a = JQueued \<and> b = JRunning) \<or> (a = JRunning \<and> b \<in> {JSucceeded, JCancelled, JFailed})"

text \<open>A job of the new list was in the old one in a state before, or is new.\<close>

definition carried :: "job_impl list \<Rightarrow> job_impl \<Rightarrow> bool" where
  "carried js j' \<longleftrightarrow> (\<exists>j \<in> set js. ji_id j = ji_id j' \<and> moves (ji_state j) (ji_state j'))"

lemma carried_same: "j \<in> set js \<Longrightarrow> carried js j"
  unfolding carried_def moves_def by blast

lemma carried_update:
  assumes "j' \<in> set (js[i := j])" "i < length js" "ji_id j = ji_id (js ! i)" "moves (ji_state (js ! i)) (ji_state j)"
  shows "carried js j'"
proof (cases "j' = j")
  case True
  then show ?thesis using assms(2-4) nth_mem unfolding carried_def by metis
next
  case False
  then have "j' \<in> set js" using assms(1) set_update_subset_insert by fastforce
  then show ?thesis by (rule carried_same)
qed

lemma thread_moves:
  assumes "thread_free j j' \<or> thread_locked j j'" "job_ok j"
  shows "ji_id j' = ji_id j" "moves (ji_state j) (ji_state j')"
proof -
  have f: "thread_free j j' \<Longrightarrow> ji_id j' = ji_id j \<and> moves (ji_state j) (ji_state j')"
    by (induction rule: thread_free.induct) (simp_all add: moves_def thread_action_defs)
  have l: "thread_locked j j' \<Longrightarrow> job_ok j \<Longrightarrow> ji_id j' = ji_id j \<and> moves (ji_state j) (ji_state j')"
  proof (induction rule: thread_locked.induct)
    case (fail j m)
    then show ?case by (cases "ji_state j") (simp_all add: moves_def thread_action_defs job_ok_def)
  qed (auto simp: moves_def thread_action_defs job_ok_def)
  show "ji_id j' = ji_id j" "moves (ji_state j) (ji_state j')" using f l assms by blast+
qed

lemma carried_mark_joined:
  assumes "i < length (co_jobs s)" "j' \<in> set (co_jobs (mark_joined i s))"
  shows "carried (co_jobs s) j'"
  by (rule carried_update [where i = i and j = "(co_jobs s ! i)\<lparr>ji_joined := True\<rparr>"])
     (use assms in \<open>simp_all add: mark_joined_def moves_def\<close>)

lemma carried_images:
  assumes "map ji_id js' = map ji_id js" "map ji_state js' = map ji_state js" "j' \<in> set js'"
  shows "carried js j'"
proof -
  obtain k where k: "k < length js'" "j' = js' ! k" using assms(3) by (metis in_set_conv_nth)
  have len: "length js' = length js" using assms(1) by (rule map_eq_imp_length_eq)
  have "ji_id (js ! k) = ji_id j'" "ji_state (js ! k) = ji_state j'"
    using arg_cong [OF assms(1), of "\<lambda>xs. xs ! k"] arg_cong [OF assms(2), of "\<lambda>xs. xs ! k"] k len by simp_all
  then show ?thesis using k(1) len unfolding carried_def moves_def by (metis nth_mem)
qed

text \<open>
  The state of a job only moves forward: from queued to running and from running to succeeded,
  cancelled or failed, whatever the callers and the threads do; every other job of the list is new and
  queued.
\<close>

theorem job_states_forward:
  assumes "reachable_jobs s" "job_step s s'"
  shows "\<forall>j' \<in> set (co_jobs s'). (\<exists>j \<in> set (co_jobs s). ji_id j = ji_id j' \<and> moves (ji_state j) (ji_state j')) \<or>
    (ji_id j' = co_next_id s \<and> ji_state j' = JQueued)"
proof -
  have "\<forall>j' \<in> set (co_jobs s'). carried (co_jobs s) j' \<or> (ji_id j' = co_next_id s \<and> ji_state j' = JQueued)" if ok: "jobs_ok s"
    using assms(2) ok
  proof (induction rule: job_step.induct)
    case (submit s d)
    then show ?case using carried_same by (auto simp: submit_job_def rebuild_snapshot_def new_job_def)
  next
    case (cancel s i)
    obtain r js where c: "cancel_first i (co_jobs s) = (r, js)" by fastforce
    then have "carried (co_jobs s) j" if "j \<in> set js" for j
      using carried_images [OF _ _ that] cancel_first_ok [OF c] by simp
    then show ?case by (simp add: cancel_job_def c)
  next
    case (visit s i changed)
    have "set (co_jobs (reap_visit i changed s)) \<subseteq> set (co_jobs s)"
      using trim_sub by (simp add: reap_visit_def reap_finish_jobs Let_def)
    then show ?case using carried_same by blast
  next
    case (join s i changed)
    then have "i < length (co_jobs s)" by (simp add: jobs_ok_def caller_ok_def)
    then show ?case using carried_mark_joined by (simp add: reap_joined_def)
  next
    case (close s)
    have "carried (co_jobs s) (request_cancel j)" if "j \<in> set (co_jobs s)" for j
      using that unfolding carried_def moves_def by (auto intro!: bexI [of _ j])
    then show ?case by (auto simp: shutdown_begin_def)
  next
    case (close_visit s i time_left)
    then show ?case using carried_mark_joined [of i s] carried_same by (auto simp: close_visit_def)
  next
    case (close_join s i)
    then have "i < length (co_jobs s)" by (simp add: jobs_ok_def caller_ok_def)
    then show ?case using carried_mark_joined by (simp add: close_joined_def)
  next
    case (thread i s j)
    then have "job_ok (co_jobs s ! i)" by (simp add: jobs_ok_def list_all_length)
    then show ?case using carried_update [OF _ thread(1)] thread_moves [OF disjI1 [OF thread(2)]] by (simp add: on_job_def)
  next
    case (locked i s j)
    then have "job_ok (co_jobs s ! i)" by (simp add: jobs_ok_def list_all_length)
    then show ?case using carried_update [OF _ locked(1)] thread_moves [OF disjI2 [OF locked(3)]] by (simp add: on_job_def)
  qed (use carried_same in \<open>simp_all add: reset_jobs_def\<close>)
  then show ?thesis using reachable_jobs_ok [OF assms(1)] unfolding carried_def by blast
qed

section \<open>A reap that waits for ever\<close>

text \<open>\<open>reap\<close> waits, with the job's lock, for a thread that has not returned.\<close>

definition reap_stuck :: "nat \<Rightarrow> bool \<Rightarrow> coordinator \<Rightarrow> bool" where
  "reap_stuck i changed s \<longleftrightarrow> co_caller s = Reap_Join i changed \<and> i < length (co_jobs s) \<and> ji_thread (co_jobs s ! i) \<noteq> Exited"

lemma thread_free_inside: "thread_free j j' \<Longrightarrow> ji_thread j' \<noteq> Exited"
  by (induction rule: thread_free.induct) (simp_all add: thread_action_defs)

lemma reap_stuck_step: "job_step s s' \<Longrightarrow> reap_stuck i changed s \<Longrightarrow> reap_stuck i changed s'"
proof (induction rule: job_step.induct)
  case (thread k s j)
  have "ji_thread j \<noteq> Exited" by (rule thread_free_inside [OF thread(2)])
  then show ?case using thread by (cases "k = i") (auto simp: reap_stuck_def on_job_def)
next
  case (locked k s j)
  then have "k \<noteq> i" by (auto simp: lock_free_def reap_stuck_def)
  then show ?case using locked by (simp add: reap_stuck_def on_job_def)
qed (simp_all add: reap_stuck_def reset_jobs_def)

definition any_desc :: job_desc where
  "any_desc = \<lparr>jd_label = ''job'', jd_owner = ''test'', jd_cancellable = True\<rparr>"

definition failing_job :: job_impl where
  "failing_job = fail_job ''error'' (run_begin 1 (new_job 1 any_desc))"

definition blocked :: coordinator where
  "blocked = \<lparr>co_jobs = [failing_job], co_next_id = 2, co_published = [snapshot_of (new_job 1 any_desc)],
     co_shutting_down = False, co_caller = Reap_Join 0 False\<rparr>"

lemma blocked_reachable: "reachable_jobs blocked"
proof -
  define s1 where "s1 = snd (submit_job any_desc fresh_coordinator)"
  define s2 where "s2 = on_job 0 (\<lambda>_. run_begin 1 (new_job 1 any_desc)) s1"
  define s3 where "s3 = on_job 0 (\<lambda>_. failing_job) s2"
  define s4 where "s4 = s3\<lparr>co_caller := Reaping 0 False\<rparr>"
  have e1: "s1 = \<lparr>co_jobs = [new_job 1 any_desc], co_next_id = 2, co_published = [snapshot_of (new_job 1 any_desc)],
      co_shutting_down = False, co_caller = Idle\<rparr>"
    by (simp add: s1_def submit_job_def fresh_coordinator_def rebuild_snapshot_def max_live_jobs_def)
  have "job_step fresh_coordinator s1" unfolding s1_def by (rule job_step.submit) (simp add: fresh_coordinator_def)
  moreover have "job_step s1 s2" unfolding s2_def
    by (rule job_step.locked) (simp_all add: e1 lock_free_def thread_locked.start new_job_def)
  moreover have "job_step s2 s3" unfolding s3_def failing_job_def
    by (rule job_step.locked) (simp_all add: s2_def on_job_def e1 lock_free_def thread_locked.fail run_begin_def)
  moreover have "job_step s3 s4" unfolding s4_def
    by (rule job_step.reap) (simp add: s3_def s2_def on_job_def e1)
  moreover have "job_step s4 blocked"
  proof -
    have "blocked = reap_visit 0 False s4"
      by (simp add: reap_visit_def s4_def s3_def s2_def on_job_def e1 blocked_def failing_job_def fail_job_def run_begin_def
          new_job_def live_def)
    moreover have "co_caller s4 = Reaping 0 False" by (simp add: s4_def)
    ultimately show ?thesis using job_step.visit [of s4 0 False] by simp
  qed
  ultimately show ?thesis unfolding reachable_jobs_def by (meson rtranclp.rtrancl_into_rtrancl rtranclp.rtrancl_refl)
qed

text \<open>
  C18. A job that calls \<open>fail\<close> and has not returned yet can block the coordinator for good: \<open>reap\<close> takes the
  failed job for finished and joins its thread while it holds the job's lock, which the thread needs to
  return, so in every continuation \<open>reap\<close> still waits and holds the coordinator's lock.
\<close>

theorem reap_deadlocks:
  "\<exists>s. reachable_jobs s \<and> {s'. job_step\<^sup>*\<^sup>* s s'} \<subseteq> {s'. \<exists>i changed. co_caller s' = Reap_Join i changed}"
proof (intro exI conjI subsetI)
  show "reachable_jobs blocked" by (rule blocked_reachable)
  fix s' assume "s' \<in> {s'. job_step\<^sup>*\<^sup>* blocked s'}"
  then have "job_step\<^sup>*\<^sup>* blocked s'" by simp
  then have "reap_stuck 0 False s'"
  proof (induction rule: rtranclp_induct)
    case base
    show ?case by (simp add: reap_stuck_def blocked_def failing_job_def fail_job_def run_begin_def)
  next
    case (step s1 s2)
    then show ?case using reap_stuck_step by blast
  qed
  then show "s' \<in> {s'. \<exists>i changed. co_caller s' = Reap_Join i changed}" by (auto simp: reap_stuck_def)
qed

section \<open>A reap that ends\<close>

text \<open>The steps \<open>reap\<close> takes itself.\<close>

inductive reap_step :: "coordinator \<Rightarrow> coordinator \<Rightarrow> bool" where
  visit: "co_caller s = Reaping i changed \<Longrightarrow> reap_step s (reap_visit i changed s)"
| join: "co_caller s = Reap_Join i changed \<Longrightarrow> ji_thread (co_jobs s ! i) = Exited \<Longrightarrow> reap_step s (reap_joined i s)"

lemma reap_steps: "reap_step s s' \<Longrightarrow> job_step s s'"
  by (induction rule: reap_step.induct) (auto intro: job_step.intros)

lemma drop_joined_length: "list_ex ji_joined js \<Longrightarrow> Suc (length (drop_joined js)) = length js"
  by (induction js) auto

lemma trim_length: "length (trim_jobs n js) = length js - n \<or> \<not> list_ex ji_joined (trim_jobs n js)"
proof (induction n arbitrary: js)
  case (Suc n)
  show ?case
  proof (cases "list_ex ji_joined js")
    case True
    from Suc [of "drop_joined js"] True drop_joined_length [OF True] show ?thesis by auto
  qed simp
qed simp

definition settled :: "job_impl \<Rightarrow> bool" where
  "settled j \<longleftrightarrow> live j \<or> ji_joined j"

definition no_failed_runner :: "coordinator \<Rightarrow> bool" where
  "no_failed_runner s \<longleftrightarrow> (\<forall>j \<in> set (co_jobs s). ji_state j = JFailed \<longrightarrow> ji_thread j = Exited)"

lemma reap_from:
  "jobs_ok s \<Longrightarrow> no_failed_runner s \<Longrightarrow> co_caller s = Reaping i changed \<Longrightarrow>
    \<forall>k < i. k < length (co_jobs s) \<longrightarrow> settled (co_jobs s ! k) \<Longrightarrow>
    \<exists>s'. reap_step\<^sup>*\<^sup>* s s' \<and> co_caller s' = Idle \<and> (\<forall>j \<in> set (co_jobs s'). settled j) \<and>
      (length (co_jobs s') \<le> kept_jobs \<or> (\<forall>j \<in> set (co_jobs s'). live j))"
proof (induction "length (co_jobs s) - i" arbitrary: s i changed)
  case 0
  let ?s = "reap_finish changed s" and ?n = "length (co_jobs s) - kept_jobs"
  have v: "reap_visit i changed s = ?s" using 0(1) by (simp add: reap_visit_def)
  have all: "settled j" if j: "j \<in> set (co_jobs ?s)" for j
  proof -
    have "j \<in> set (co_jobs s)" using j trim_sub unfolding reap_finish_jobs by blast
    then obtain k where "k < length (co_jobs s)" "j = co_jobs s ! k" by (metis in_set_conv_nth)
    then show ?thesis using 0(1,5) by simp
  qed
  have "length (co_jobs ?s) \<le> kept_jobs \<or> \<not> list_ex ji_joined (co_jobs ?s)"
    using trim_length [of ?n "co_jobs s"] unfolding reap_finish_jobs by (auto simp: kept_jobs_def)
  then have "length (co_jobs ?s) \<le> kept_jobs \<or> (\<forall>j \<in> set (co_jobs ?s). live j)"
    using all by (auto simp: list_ex_iff settled_def)
  moreover have "reap_step s ?s" using reap_step.visit [OF 0(4)] by (simp add: v)
  ultimately show ?case using all reap_finish_jobs(2) by (intro exI [of _ ?s]) auto
next
  case (Suc n)
  then have i: "i < length (co_jobs s)" by simp
  let ?j = "co_jobs s ! i"
  have mem: "?j \<in> set (co_jobs s)" using i by simp
  note one = reap_step.visit [OF Suc(5)]
  show ?case
  proof (cases "ji_joined ?j \<or> live ?j")
    case True
    let ?s = "s\<lparr>co_caller := Reaping (Suc i) changed\<rparr>"
    have v: "reap_visit i changed s = ?s" using i True by (simp add: reap_visit_def)
    have "jobs_ok ?s" using job_step_ok [OF reap_steps [OF one] Suc(3)] by (simp add: v)
    moreover have "no_failed_runner ?s" using Suc(4) by (simp add: no_failed_runner_def)
    moreover have "\<forall>k < Suc i. k < length (co_jobs ?s) \<longrightarrow> settled (co_jobs ?s ! k)"
      using Suc(6) True by (auto simp: less_Suc_eq settled_def)
    moreover have "n = length (co_jobs ?s) - Suc i" using Suc(2) by simp
    ultimately obtain s' where "reap_step\<^sup>*\<^sup>* ?s s'" "co_caller s' = Idle" "\<forall>j \<in> set (co_jobs s'). settled j"
        "length (co_jobs s') \<le> kept_jobs \<or> (\<forall>j \<in> set (co_jobs s'). live j)"
      using Suc(1) [of ?s "Suc i" changed] by auto
    then show ?thesis using one unfolding v by (meson converse_rtranclp_into_rtranclp)
  next
    case False
    let ?s1 = "s\<lparr>co_caller := Reap_Join i changed\<rparr>"
    let ?s2 = "reap_joined i ?s1"
    have v: "reap_visit i changed s = ?s1" using i False by (simp add: reap_visit_def)
    have ok1: "jobs_ok ?s1" using job_step_ok [OF reap_steps [OF one] Suc(3)] by (simp add: v)
    have "job_ok ?j" using Suc(3) i by (simp add: jobs_ok_def list_all_length)
    then have ex: "ji_thread ?j = Exited"
      using False Suc(4) mem by (cases "ji_state ?j") (auto simp: job_ok_def live_def no_failed_runner_def)
    have two: "reap_step ?s1 ?s2" by (rule reap_step.join) (simp_all add: ex)
    have ok2: "jobs_ok ?s2" by (rule job_step_ok [OF reap_steps [OF two] ok1])
    have c2: "co_caller ?s2 = Reaping (Suc i) True" "length (co_jobs ?s2) = length (co_jobs s)"
        "co_jobs ?s2 = (co_jobs s)[i := ?j\<lparr>ji_joined := True\<rparr>]"
      by (simp_all add: reap_joined_def mark_joined_def)
    have nf: "no_failed_runner ?s2"
      unfolding no_failed_runner_def c2(3)
    proof
      fix j assume "j \<in> set ((co_jobs s)[i := ?j\<lparr>ji_joined := True\<rparr>])"
      then have "j = ?j\<lparr>ji_joined := True\<rparr> \<or> j \<in> set (co_jobs s)" using set_update_subset_insert by fastforce
      then show "ji_state j = JFailed \<longrightarrow> ji_thread j = Exited" using Suc(4) ex by (auto simp: no_failed_runner_def)
    qed
    have st: "\<forall>k < Suc i. k < length (co_jobs ?s2) \<longrightarrow> settled (co_jobs ?s2 ! k)"
      unfolding c2(3) using Suc(6) i by (auto simp: less_Suc_eq settled_def)
    have n: "n = length (co_jobs ?s2) - Suc i" using Suc(2) c2(2) by simp
    obtain s' where "reap_step\<^sup>*\<^sup>* ?s2 s'" "co_caller s' = Idle" "\<forall>j \<in> set (co_jobs s'). settled j"
        "length (co_jobs s') \<le> kept_jobs \<or> (\<forall>j \<in> set (co_jobs s'). live j)"
      using Suc(1) [OF n ok2 nf c2(1) st] by blast
    then show ?thesis
      using one two unfolding v by (meson converse_rtranclp_into_rtranclp)
  qed
qed


text \<open>\<open>shutdown\<close> clears the list and leaves the published snapshot as it was.\<close>

lemma shutdown_keeps_snapshot:
  "co_published (shutdown_begin s) = co_published s" "co_published (close_visit time_left i s) = co_published s"
  "co_published (close_joined i s) = co_published s" "length (co_jobs s) \<le> i \<Longrightarrow> co_jobs (close_visit time_left i s) = []"
  by (simp_all add: shutdown_begin_def close_visit_def close_joined_def mark_joined_def)

section \<open>One job\<close>

definition one_job :: coordinator where
  "one_job = snd (submit_job any_desc fresh_coordinator)"

lemma one_job_reachable: "reachable_jobs one_job"
proof -
  have "job_step fresh_coordinator one_job"
    unfolding one_job_def by (rule job_step.submit) (simp add: fresh_coordinator_def)
  then show ?thesis unfolding reachable_jobs_def by blast
qed

lemma one_job_eq: "co_jobs one_job = [new_job 1 any_desc]" "co_caller one_job = Idle" "co_next_id one_job = 2"
  by (simp_all add: one_job_def submit_job_def fresh_coordinator_def rebuild_snapshot_def max_live_jobs_def)

lemma jobs_bounded_witness:
  "length (filter live (co_jobs one_job)) \<le> max_live_jobs \<and>
    (ji_state (new_job 1 any_desc) = JQueued) = (ji_thread (new_job 1 any_desc) = Spawned)"
  using jobs_bounded [OF one_job_reachable] by (simp add: one_job_eq)

lemma job_states_forward_witness:
  "\<forall>j' \<in> set (co_jobs (on_job 0 (\<lambda>_. run_begin 5 (new_job 1 any_desc)) one_job)).
    (\<exists>j \<in> set (co_jobs one_job). ji_id j = ji_id j' \<and> moves (ji_state j) (ji_state j')) \<or>
    (ji_id j' = co_next_id one_job \<and> ji_state j' = JQueued)"
proof (rule job_states_forward [OF one_job_reachable])
  show "job_step one_job (on_job 0 (\<lambda>_. run_begin 5 (new_job 1 any_desc)) one_job)"
    by (rule job_step.locked) (simp_all add: one_job_eq lock_free_def thread_locked.start new_job_def)
qed

definition reaping :: coordinator where
  "reaping = one_job\<lparr>co_caller := Reaping 0 False\<rparr>"


end
