(* ===== verification/Text_Format.thy ===== *)
theory Text_Format
  imports Fmt
begin

text \<open>
  Byte formatting and parsing (\<open>src/src/core/infra/text_format.cpp\<close>): the copy dialects, the hex
  parser, addresses and base64.  \<open>printf\<close>'s two-digit hex conversions and \<open>isxdigit\<close>/\<open>strtoul\<close> on two
  hex digits are written out.
\<close>

section \<open>Hex digits\<close>

definition upper_digits :: string where
  "upper_digits = ''0123456789ABCDEF''"

definition lower_digits :: string where
  "lower_digits = ''0123456789abcdef''"

text \<open>\<open>%02X\<close> and \<open>%02x\<close>.\<close>

definition hex2 :: "bool \<Rightarrow> u8 \<Rightarrow> string" where
  "hex2 uppercase b =
     (let ds = (if uppercase then upper_digits else lower_digits)
      in [ds ! (unat b div 16), ds ! (unat b mod 16)])"

fun index_in :: "char \<Rightarrow> string \<Rightarrow> nat option" where
  "index_in c [] = None"
| "index_in c (x # xs) = (if c = x then Some 0 else map_option Suc (index_in c xs))"

definition xdigit_value :: "char \<Rightarrow> nat option" where
  "xdigit_value c = (case index_in c upper_digits of Some n \<Rightarrow> Some n | None \<Rightarrow> index_in c lower_digits)"

definition is_xdigit :: "char \<Rightarrow> bool" where
  "is_xdigit c \<longleftrightarrow> xdigit_value c \<noteq> None"

section \<open>Formatting\<close>

definition format_hex :: "bool \<Rightarrow> u8 list \<Rightarrow> string" where
  "format_hex uppercase data = join '' '' (map (hex2 uppercase) data)"

datatype copy_dialect = Hex_Space | Hex_Nospace | C_Array | Python_Bytes | Rust_Array | Raw_String

definition dialect_label :: "copy_dialect \<Rightarrow> string" where
  "dialect_label d = (case d of
     Hex_Space \<Rightarrow> ''Hex (spaced)'' | Hex_Nospace \<Rightarrow> ''Hex (compact)'' | C_Array \<Rightarrow> ''C array''
   | Python_Bytes \<Rightarrow> ''Python bytes'' | Rust_Array \<Rightarrow> ''Rust array'' | Raw_String \<Rightarrow> ''Raw string'')"

definition backslash_x :: string where
  "backslash_x = [CHR 0x5C, CHR ''x'']"

definition format_as :: "u8 list \<Rightarrow> copy_dialect \<Rightarrow> string" where
  "format_as data d = (case d of
     Hex_Space \<Rightarrow> format_hex True data
   | Hex_Nospace \<Rightarrow> concat (map (hex2 True) data)
   | C_Array \<Rightarrow> ''{ '' @ join '', '' (map (\<lambda>b. ''0x'' @ hex2 True b) data) @ '' }''
   | Python_Bytes \<Rightarrow> [CHR ''b'', CHR 0x27] @ concat (map (\<lambda>b. backslash_x @ hex2 True b) data) @ [CHR 0x27]
   | Rust_Array \<Rightarrow> ''['' @ join '', '' (map (\<lambda>b. ''0x'' @ hex2 True b) data) @ '']''
   | Raw_String \<Rightarrow> concat (map (\<lambda>b. if 0x20 \<le> b \<and> b < 0x7F then [char_of (unat b)]
                                   else backslash_x @ hex2 True b) data))"

section \<open>Parsing\<close>

datatype hex_error = Invalid_Char char | Odd_Digits

definition is_filler :: "char \<Rightarrow> bool" where
  "is_filler c \<longleftrightarrow> c \<in> {CHR '' '', CHR 0x09, CHR 0x0A, CHR 0x0D, CHR '',''}"

definition is_prefix_start :: "char \<Rightarrow> bool" where
  "is_prefix_start c \<longleftrightarrow> c = CHR ''0'' \<or> c = CHR 0x5C"

definition is_x :: "char \<Rightarrow> bool" where
  "is_x c \<longleftrightarrow> c = CHR ''x'' \<or> c = CHR ''X''"

text \<open>The loop that strips whitespace, commas and prefixes and rejects every other character.\<close>

fun hex_clean :: "string \<Rightarrow> hex_error + string" where
  "hex_clean [] = Inr []"
| "hex_clean (c # cs) =
     (if is_filler c then hex_clean cs
      else if is_prefix_start c \<and> cs \<noteq> [] \<and> is_x (hd cs) then hex_clean (tl cs)
      else if \<not> is_xdigit c then Inl (Invalid_Char c)
      else (case hex_clean cs of Inl e \<Rightarrow> Inl e | Inr ds \<Rightarrow> Inr (c # ds)))"

fun hex_pairs :: "string \<Rightarrow> u8 list" where
  "hex_pairs (a # b # ds) = word_of_nat (16 * the (xdigit_value a) + the (xdigit_value b)) # hex_pairs ds"
| "hex_pairs _ = []"

definition parse_hex :: "string \<Rightarrow> hex_error + u8 list" where
  "parse_hex t = (case hex_clean t of
     Inl e \<Rightarrow> Inl e
   | Inr clean \<Rightarrow> if length clean mod 2 \<noteq> 0 then Inl Odd_Digits else Inr (hex_pairs clean))"

section \<open>Addresses\<close>

fun hex_width :: "nat \<Rightarrow> nat \<Rightarrow> string" where
  "hex_width 0 n = []"
| "hex_width (Suc k) n = hex_width k (n div 16) @ [upper_digits ! (n mod 16)]"

definition format_address :: "u64 \<Rightarrow> nat \<Rightarrow> string" where
  "format_address va pointer_width =
     ''0x'' @ (if pointer_width \<le> 4 then hex_width 8 (unat (ucast va :: u32)) else hex_width 16 (unat va))"

section \<open>Base64\<close>

definition b64_table :: string where
  "b64_table = ''ABCDEFGHIJKLMNOPQRSTUVWXYZabcdefghijklmnopqrstuvwxyz0123456789+/''"

definition b64_char :: "nat \<Rightarrow> u32 \<Rightarrow> char" where
  "b64_char k v = b64_table ! unat (drop_bit k v AND 63)"

definition pack3 :: "u8 \<Rightarrow> u8 \<Rightarrow> u8 \<Rightarrow> u32" where
  "pack3 a b c = push_bit 16 (ucast a) OR push_bit 8 (ucast b) OR ucast c"

fun base64 :: "u8 list \<Rightarrow> string" where
  "base64 [] = []"
| "base64 [a] = (let v = pack3 a 0 0 in [b64_char 18 v, b64_char 12 v, CHR ''='', CHR ''=''])"
| "base64 [a, b] = (let v = pack3 a b 0 in [b64_char 18 v, b64_char 12 v, b64_char 6 v, CHR ''=''])"
| "base64 (a # b # c # ds) =
     (let v = pack3 a b c in b64_char 18 v # b64_char 12 v # b64_char 6 v # b64_char 0 v # base64 ds)"

section \<open>Round trips\<close>

lemma digit_table: "d < 16 \<Longrightarrow> xdigit_value (upper_digits ! d) = Some d \<and> xdigit_value (lower_digits ! d) = Some d"
proof -
  have "\<forall>d \<in> set [0..<16]. xdigit_value (upper_digits ! d) = Some d \<and> xdigit_value (lower_digits ! d) = Some d"
    by code_simp
  then show "d < 16 \<Longrightarrow> xdigit_value (upper_digits ! d) = Some d \<and> xdigit_value (lower_digits ! d) = Some d"
    by simp
qed

lemma digit_plain:
  "d < 16 \<Longrightarrow> \<not> is_filler (upper_digits ! d) \<and> \<not> is_filler (lower_digits ! d) \<and>
    \<not> is_x (upper_digits ! d) \<and> \<not> is_x (lower_digits ! d)"
proof -
  have "\<forall>d \<in> set [0..<16]. \<not> is_filler (upper_digits ! d) \<and> \<not> is_filler (lower_digits ! d) \<and>
      \<not> is_x (upper_digits ! d) \<and> \<not> is_x (lower_digits ! d)"
    by code_simp
  then show "d < 16 \<Longrightarrow> \<not> is_filler (upper_digits ! d) \<and> \<not> is_filler (lower_digits ! d) \<and>
    \<not> is_x (upper_digits ! d) \<and> \<not> is_x (lower_digits ! d)" by simp
qed

text \<open>A token of digits with fillers and prefixes around it.\<close>

definition plain_digits :: "string \<Rightarrow> bool" where
  "plain_digits ds \<longleftrightarrow> (\<forall>c \<in> set ds. is_xdigit c \<and> \<not> is_filler c \<and> \<not> is_x c)"

lemma hex2_facts:
  obtains a b where "hex2 u x = [a, b]" "plain_digits [a, b]"
    "xdigit_value a = Some (unat x div 16)" "xdigit_value b = Some (unat x mod 16)"
proof -
  have "unat x < 2 ^ 8" using unsigned_less [of x, where 'a = nat] by simp
  then have "unat x < 256" by simp
  then have "unat x div 16 < 16" "unat x mod 16 < 16" by auto
  then show ?thesis
    using digit_table digit_plain
    by (intro that [of "(if u then upper_digits else lower_digits) ! (unat x div 16)"
          "(if u then upper_digits else lower_digits) ! (unat x mod 16)"])
       (auto simp: hex2_def Let_def plain_digits_def is_xdigit_def)
qed

lemma hex_clean_digits:
  "plain_digits ds \<Longrightarrow> rest = [] \<or> \<not> is_x (hd rest) \<Longrightarrow>
   hex_clean (ds @ rest) = (case hex_clean rest of Inl e \<Rightarrow> Inl e | Inr cs \<Rightarrow> Inr (ds @ cs))"
proof (induction ds)
  case Nil
  then show ?case by (simp split: sum.split)
next
  case (Cons d ds)
  have "ds @ rest = [] \<or> \<not> is_x (hd (ds @ rest))"
    using Cons.prems by (cases ds) (auto simp: plain_digits_def)
  with Cons show ?case by (auto simp: plain_digits_def split: sum.split)
qed

lemma plain_digits_concat: "plain_digits (concat (map (hex2 u) data))"
proof (induction data)
  case (Cons x data)
  obtain a b where "hex2 u x = [a, b]" "plain_digits [a, b]" by (rule hex2_facts)
  with Cons show ?case by (auto simp: plain_digits_def)
qed (simp add: plain_digits_def)

lemma hex_clean_join:
  assumes "sep = '' '' \<and> pre = [] \<or> sep = '', '' \<and> pre = ''0x''"
  shows "hex_clean (join sep (map (\<lambda>b. pre @ hex2 u b) data)) = Inr (concat (map (hex2 u) data))"
proof (induction data)
  case Nil
  show ?case by simp
next
  case (Cons x data)
  obtain a b where x: "hex2 u x = [a, b]" "plain_digits [a, b]" by (rule hex2_facts)
  have pre: "hex_clean (pre @ t) = hex_clean t" for t
    using assms by (auto simp: is_filler_def is_prefix_start_def is_x_def)
  have sep: "hex_clean (sep @ t) = hex_clean t" "\<not> is_x (hd (sep @ t))" for t
    using assms by (auto simp: is_filler_def is_x_def)
  show ?case
  proof (cases data)
    case Nil
    then show ?thesis using hex_clean_digits [OF x(2), of "[]"] by (simp add: pre x(1))
  next
    case (Cons y ys)
    let ?rest = "join sep (map (\<lambda>b. pre @ hex2 u b) data)"
    have "hex_clean ([a, b] @ sep @ ?rest) = Inr ([a, b] @ concat (map (hex2 u) data))"
      using hex_clean_digits [OF x(2), of "sep @ ?rest"] sep Cons.IH by simp
    then show ?thesis by (simp add: Cons pre x(1))
  qed
qed

lemma hex_pairs_concat: "hex_pairs (concat (map (hex2 u) data)) = data"
proof (induction data)
  case (Cons x data)
  obtain a b where x: "hex2 u x = [a, b]" "xdigit_value a = Some (unat x div 16)"
      "xdigit_value b = Some (unat x mod 16)" by (rule hex2_facts)
  have "word_of_nat (16 * (unat x div 16) + unat x mod 16) = x" by simp
  with Cons x show ?case by simp
qed simp

lemma even_digits: "length (concat (map (hex2 u) data)) mod 2 = 0"
  by (induction data) (auto simp: hex2_def Let_def)

text \<open>
  C28.  What is formatted parses back: the spaced hex in either case, the compact hex, and the element
  lists of the C and Rust arrays (\<open>0x..\<close> separated by commas) parse to the bytes they were made from;
  the complete C and Rust arrays are rejected at their bracket.
\<close>

theorem parse_format_roundtrip:
  "parse_hex (format_hex uppercase data) = Inr data \<and>
   parse_hex (format_as data Hex_Space) = Inr data \<and>
   parse_hex (format_as data Hex_Nospace) = Inr data \<and>
   parse_hex (join '', '' (map (\<lambda>b. ''0x'' @ hex2 True b) data)) = Inr data \<and>
   parse_hex (format_as data C_Array) = Inl (Invalid_Char (CHR ''{'')) \<and>
   parse_hex (format_as data Rust_Array) = Inl (Invalid_Char (CHR ''[''))"
proof -
  have spaced: "parse_hex (format_hex u data) = Inr data" for u
    using hex_clean_join [of "'' ''" "[]" u data] even_digits [of u data]
    by (simp add: parse_hex_def format_hex_def hex_pairs_concat)
  have "hex_clean (concat (map (hex2 True) data)) = Inr (concat (map (hex2 True) data))"
    using hex_clean_digits [OF plain_digits_concat, of "[]"] by simp
  then have compact: "parse_hex (concat (map (hex2 True) data)) = Inr data"
    using even_digits [of True data] by (simp add: parse_hex_def hex_pairs_concat)
  have elems: "parse_hex (join '', '' (map (\<lambda>b. ''0x'' @ hex2 True b) data)) = Inr data"
    using hex_clean_join [of "'', ''" "''0x''" True data] even_digits [of True data]
    by (simp add: parse_hex_def hex_pairs_concat)
  have br: "\<not> is_filler c \<and> \<not> is_prefix_start c \<and> \<not> is_xdigit c" if "c = CHR ''{'' \<or> c = CHR ''[''" for c
    using that by (elim disjE) (simp_all, code_simp+)
  have "parse_hex (c # t) = Inl (Invalid_Char c)" if "c = CHR ''{'' \<or> c = CHR ''[''" for c t
    using br [OF that] by (simp add: parse_hex_def)
  then show ?thesis
    using spaced compact elems by (simp add: format_as_def)
qed

section \<open>The base64 round trip\<close>

definition b64_index :: "char \<Rightarrow> u32 option" where
  "b64_index c = map_option word_of_nat (index_in c b64_table)"

definition unpack3 :: "u32 \<Rightarrow> u8 list" where
  "unpack3 v = [ucast (drop_bit 16 v), ucast (drop_bit 8 v), ucast v]"

definition quad :: "u32 \<Rightarrow> u32 \<Rightarrow> u32 \<Rightarrow> u32 \<Rightarrow> u32" where
  "quad p q r s = push_bit 18 p OR push_bit 12 q OR push_bit 6 r OR s"

text \<open>The standard's decoder: four characters give three bytes, one or two \<open>=\<close> give two or one.\<close>

fun b64_decode :: "string \<Rightarrow> u8 list option" where
  "b64_decode [] = Some []"
| "b64_decode (c0 # c1 # c2 # c3 # cs) =
     (case (b64_index c0, b64_index c1) of
        (Some p, Some q) \<Rightarrow>
          (if c2 = CHR ''='' then (if c3 = CHR ''='' \<and> cs = [] then Some (take 1 (unpack3 (quad p q 0 0))) else None)
           else (case b64_index c2 of
               None \<Rightarrow> None
             | Some r \<Rightarrow>
                 (if c3 = CHR ''='' then (if cs = [] then Some (take 2 (unpack3 (quad p q r 0))) else None)
                  else (case (b64_index c3, b64_decode cs) of
                      (Some s, Some ds) \<Rightarrow> Some (unpack3 (quad p q r s) @ ds)
                    | _ \<Rightarrow> None))))
      | _ \<Rightarrow> None)"
| "b64_decode _ = None"

lemma b64_table_index: "n < 64 \<Longrightarrow> index_in (b64_table ! n) b64_table = Some n \<and> b64_table ! n \<noteq> CHR ''=''"
proof -
  have "\<forall>n \<in> set [0..<64]. index_in (b64_table ! n) b64_table = Some n \<and> b64_table ! n \<noteq> CHR ''=''"
    by code_simp
  then show "n < 64 \<Longrightarrow> index_in (b64_table ! n) b64_table = Some n \<and> b64_table ! n \<noteq> CHR ''=''" by simp
qed

lemma sixty_three: "(63 :: u32) = mask 6" by (simp add: mask_eq_exp_minus_1)

lemma sextet_less: "unat (v AND 63 :: u32) < 64"
proof -
  have "v AND 63 = take_bit 6 v" by (simp add: sixty_three take_bit_eq_mask)
  then have "unat (v AND 63) = take_bit 6 (unat v)" by (simp add: unsigned_take_bit_eq)
  then show ?thesis using take_bit_nat_less_exp [of 6 "unat v"] by simp
qed

lemma b64_char_index [simp]: "b64_index (b64_char k v) = Some (drop_bit k v AND 63)" "b64_char k v \<noteq> CHR ''=''"
  using b64_table_index [OF sextet_less] by (simp_all add: b64_char_def b64_index_def)

lemma quad_pack:
  "quad (drop_bit 18 v AND 63) (drop_bit 12 v AND 63) (drop_bit 6 v AND 63) (drop_bit 0 v AND 63) = v AND mask 24"
  unfolding quad_def sixty_three
proof (rule bit_word_eqI)
  fix n :: nat
  assume "n < LENGTH(32)"
  then consider "n < 6" | "6 \<le> n" "n < 12" | "12 \<le> n" "n < 18" | "18 \<le> n" "n < 24" | "24 \<le> n" "n < 32"
    by fastforce
  then show "bit (push_bit 18 (drop_bit 18 v AND mask 6) OR push_bit 12 (drop_bit 12 v AND mask 6) OR
      push_bit 6 (drop_bit 6 v AND mask 6) OR drop_bit 0 v AND mask 6) n = bit (v AND mask 24) n"
    by cases (auto simp: bit_simps less_diff_conv2)
qed

lemma unpack_pack: "unpack3 (pack3 a b c AND mask 24) = [a, b, c]"
  unfolding unpack3_def pack3_def
  by simp (intro conjI; rule bit_word_eqI; auto simp: bit_simps dest: bit_imp_le_length)

lemma pack_padding:
  "drop_bit 0 (pack3 a b 0) AND 63 = 0" "drop_bit 6 (pack3 a 0 0) AND 63 = 0"
  unfolding pack3_def sixty_three
  by (rule bit_word_eqI; auto simp: bit_simps)+

lemma b64_decode_base64: "b64_decode (base64 data) = Some data"
proof (induction data rule: base64.induct)
  case (2 a)
  have "quad (drop_bit 18 (pack3 a 0 0) AND 63) (drop_bit 12 (pack3 a 0 0) AND 63) 0 0 = pack3 a 0 0 AND mask 24"
    using quad_pack [of "pack3 a 0 0"] by (simp only: pack_padding)
  then show ?case by (simp add: Let_def unpack_pack)
next
  case (3 a b)
  have "quad (drop_bit 18 (pack3 a b 0) AND 63) (drop_bit 12 (pack3 a b 0) AND 63) (drop_bit 6 (pack3 a b 0) AND 63) 0
      = pack3 a b 0 AND mask 24"
    using quad_pack [of "pack3 a b 0"] by (simp only: pack_padding)
  then show ?case by (simp add: Let_def unpack_pack)
next
  case (4 a b c ds)
  then show ?case
    using quad_pack [of "pack3 a b c"] by (simp add: Let_def unpack_pack)
qed simp
lemma length_base64: "length (base64 data) = (length data + 2) div 3 * 4"
  proof (induction data rule: base64.induct)
  case (4 a b c ds)
  have "(length ds + 2 + 3) div 3 = (length ds + 2) div 3 + 1" by (rule div_add_self2) simp
  with 4 show ?case by (simp add: Let_def)
qed (simp_all add: Let_def)

text \<open>
   The base64 text decodes, under the standard's decoder, to the bytes it was made from, for every
  length and padding, and it has exactly the length \<open>((size + 2) / 3) * 4\<close> that the code reserves.
\<close>

theorem base64_decodes:
  "b64_decode (base64 data) = Some data \<and> length (base64 data) = (length data + 2) div 3 * 4"
  using b64_decode_base64 length_base64 by blast

end
