(* ===== verification/Spec2Isabelle.thy ===== *)
theory Spec2Isabelle
  imports Discover_Correct Passes_Example Loops_Example Pe_Example Pointer_Example Snapshot Aob_Scan_Correct Width_Loss Lifter_Flags Emitter_Correct Undo Event_Bus Deferred Jobs_Correct Text_Format Type_Infer
begin

text \<open>
  A model of parts of a debugger and of its static analysis engine: the PE loader, the analyser and the
  decompiler of the Hyperion engine (\<open>src/src/hyperion/core/loader\<close>, \<open>analysis\<close> and \<open>decompiler\<close>), its
  type catalogue and undo history (\<open>src/src/hyperion/core/types\<close> and \<open>undo.h\<close>), the services of
  \<open>src/src/core/infra\<close> that other parts share (event bus, deferred actions, background jobs, text formats) and the memory
  services that read a target (\<open>src/src/core/memory\<close>: reading around unreadable pages, snapshots, the
  search for byte patterns, the pointer scan).

  The loader (\<open>Pe_Loader\<close>) turns the bytes of a file into an image of segments, imports and exports
  (\<open>Image\<close>).  The analyser (\<open>analyzer.cpp\<close>) fills the database of \<open>analysis_db.h\<close> (\<open>Analysis_Db\<close>) in
  passes over the image: recursive descent from the entry points (\<open>Descent\<close>), functions and control-flow
  graphs (\<open>Cfg\<close>), rounds that resolve switches and indirect calls (\<open>Discover\<close>), passes over the bytes of
  segments (\<open>Passes_Data\<close>: thunks, strings, vtables, globals, data items), passes over the instructions
  (\<open>Passes_Code\<close>: references, names, tail calls, functions that do not return, calling conventions,
  structures) and loops (\<open>Loops\<close>).  Types that a user adds are \<open>Type_System\<close>.

  The decompiler is a pipeline.  A lifter for x86, ARM or ARM64 turns the decoded instructions of a
  function into p-code blocks (\<open>Lifter\<close>, \<open>Lifter_Arm\<close>, \<open>Lifter_Arm64\<close>); \<open>SSABuilder::build\<close> gives every
  definition a version (\<open>Ssa\<close>); \<open>DCE::run\<close> and \<open>Propagate::run\<close> simplify the operations (\<open>Dce\<close>,
  \<open>Propagate\<close>), both on the use counts of \<open>def_use.h\<close> (\<open>Def_Use\<close>); \<open>TypeInfer\<close> collects types and
  names (\<open>Type_Infer\<close>); \<open>CFStructure\<close> turns the blocks into statements (\<open>Cf_Struct\<close>); \<open>Emitter\<close>
  prints them (\<open>Emitter\<close>).  \<open>Decompile\<close> composes the steps.  The p-code of \<open>ir.h\<close> is \<open>Pcode_IR\<close>.

  The memory services stand on \<open>reader_t::read\<close>, which is a parameter (\<open>Reader\<close>).  \<open>Snapshot\<close> copies a
  region and compares copies; \<open>Aob\<close> is the pattern language, \<open>Aob_Scan\<close> the search, with the
  distribution of the work over threads as the parameter \<open>schedule\<close>.  \<open>Pointer_Scan\<close> sweeps the regions
  for pointers and walks them back from a target.

  Representation.  C++ records are records, enums are datatypes, \<open>u64\<close> is a 64-bit word and \<open>int\<close> is
  an integer.  Members a class mutates are a state passed through its functions; the lifters, which
  emit on nearly every line, use the state monad.  A cancellation token is the number of polls until
  it is found cancelled (\<open>token\<close>), so that cancellation can strike between any two polls.

  What is proved of the loader and the analyser.  \<open>Pe_Correct\<close> says what a file loads to and which files
  make the loader read outside a buffer or divide by zero; \<open>Descent_Correct\<close> that the descent decodes
  exactly what can be reached, if the budget is not used up; \<open>Cfg_Correct\<close> what blocks and edges a
  function gets; \<open>Discover_Correct\<close> that the rounds end and what they cannot resolve; \<open>Passes_Correct\<close>
  which strings are found and that the stores of references agree after tail calls are retyped.
  \<open>Loops_Order\<close>, \<open>Loops_Dom\<close> and \<open>Loops_Correct\<close> show that loop detection ends with exactly the natural
  loops, by relating its dominators to those of the SSA construction.  \<open>Cfg_Example\<close>,
  \<open>Descent_Budget\<close>, \<open>Passes_Example\<close>, \<open>Loops_Example\<close> and \<open>Pe_Example\<close> hold the concrete inputs.

  What is proved of the decompiler.  \<open>Pcode_Sem\<close> gives p-code a meaning, with the meaning of each operation and of
  control as parameters, and the observable history of stores, calls, intrinsics, returns and
  branches.  \<open>Removal\<close> has the locale \<open>pure_removal\<close> for passes that delete unread operations; it is
  interpreted for both passes of \<open>DCE\<close> and for dead-copy elimination, which therefore keep the
  history on every machine.  \<open>Propagate_Correct\<close> and \<open>Propagate_Effects\<close> treat the rest of the
  propagation, and state on examples where two passes confuse SSA versions; \<open>Width_Loss\<close> follows a
  loss of a definition through the whole pipeline.  \<open>Ssa_Correct\<close>, \<open>Ssa_Dom\<close>, \<open>Ssa_Dom_Exact\<close> and
  \<open>Ssa_Rename\<close> show the order, that the dominator iteration ends with exactly the immediate
  dominators, the phi placement and the distinctness of the versions.  \<open>Lifter_Correct\<close> and
  \<open>Lifter_Arm_Correct\<close> show, through the locale \<open>insn_lifter\<close> that the three lifters interpret, that
  lifted code meets the assumptions of the passes; \<open>Lifter_Flags\<close> that a condition after a comparison
  decides the relation its mnemonic names.  \<open>Cf_Struct_Correct\<close> relates the label-and-goto listing to the
  control-flow graph by a simulation; \<open>Emitter_Correct\<close> shows that printing ends and keeps labels and
  effects; \<open>Decompile\<close> that decompiling always returns.

  The jobs of \<open>jobs.cpp\<close> (\<open>Jobs\<close>) are a step relation: the calls of the coordinator and the threads of
  the jobs interleave, and a thread that waits for a lock or to join has no step.

  What is proved of the services.  \<open>Bounded_Log\<close> is the locale of the
  drop-oldest buffers that \<open>Undo\<close>, \<open>Event_Bus\<close> (twice) and \<open>Deferred\<close> use.  The locale
  \<open>memory_reader\<close> of \<open>Reader\<close> has the contract of a reader over a memory and proves what the
  resilient read, the capture and the scan return; it is interpreted for the reader of the tests.
  \<open>Aob_Scan_Correct\<close> shows that the search is sound on any memory and exact on readable regions.
  \<open>Pointer_Sweep\<close> says which pointers the sweep collects, \<open>Pointer_Levels\<close> which chains the levels build
  from them, and \<open>Pointer_Scan_Correct\<close> that together they return true chains, and all of them when
  the alignment is a multiple of eight; \<open>Pointer_Example\<close> shows what the scan misses.
  \<open>Jobs_Correct\<close> has the invariant of the reachable states, a \<open>reap\<close> that ends and one that never does.

  Bounds.  Recursions of the code that end for a reason outside their own text run on fuel, or in
  the option monad when they may not end.  \<open>po_visit\<close> and \<open>rename_block\<close> recurse at most once per
  block, so the number of blocks plus one is enough; \<open>intersect\<close> has the guard \<open>2 * n + 8\<close> of the code
  and its inner walks return \<open>None\<close> when they would not end; \<open>df_runner\<close> has the guard \<open>n + 1\<close> of the
  code; \<open>phi_blocks\<close> is given the number of blocks plus the number of definitions, which its theorem
  shows to be enough; \<open>dom_loop\<close> is a \<open>partial_function\<close> that is shown to return; the emitter follows
  at most as many definitions as the function has statements, again shown to be enough; \<open>scan_loop\<close>
  and \<open>scan_chunk\<close> return \<open>None\<close> only where an address would wrap around.  The loops of the descent, of
  the graphs, of loop detection and of the pointer scan are \<open>partial_function\<close>s, shown to return under
  the hypotheses of their theorems: instructions have a length and do not wrap, predecessor lists agree
  with successors, regions end below the last eight gigabytes of the address space.

  Outside the model.  Zydis and Capstone (register and mnemonic numbers, instruction text) are records
  of parameters; the enumeration order of the hash map of definitions in \<open>insert_phis\<close> is a parameter;
  mutexes and condition variables are left out, each locked section being one step.  The demangler of
  Windows, \<open>std::sort\<close> and the order in which hash tables are enumerated are parameters, and so are the
  decoders.  Run-time type information, signatures and managed images, which the analyser calls between
  its passes, the ELF and Mach-O loaders, the database on disk, the user interface, the debugger, the
  network and script services, the driver and its mapper are not modelled: they are calls into Windows,
  into third-party libraries or into devices, and file formats not treated so far.  \<open>Analyzer::run\<close> itself, the
  fixed order of the passes with a look at the cancellation flag after each, is left out with them.
  \<open>format_bytes\<close> prints floating point through \<open>snprintf\<close> and is left out.
\<close>

end
